(* ===== verification/Prelude.thy ===== *)
theory Prelude
  imports Main "HOL-Library.Word"
begin

text \<open>
  The prelude of the Mint development: the C integer types of \<open>include/types.h\<close> and
  \<open>arch/include/x86_64/types.h\<close> as machine words, the faults a C expression can run into,
  the result type every partial operation returns, the two named collections the component
  theories feed (\<open>mint_defs\<close> for definitions to unfold, \<open>mint_word\<close> for facts on
  machine words), and the generic lemmas on words and lists that several components share.
\<close>

unbundle bit_operations_syntax

named_theorems mint_defs \<open>definitions of operations, for unfolding in component proofs\<close>
named_theorems mint_word \<open>facts on machine words shared by the components\<close>

section \<open>Types\<close>

type_synonym u8 = "8 word"
type_synonym u16 = "16 word"
type_synonym u32 = "32 word"
type_synonym u64 = "64 word"
type_synonym c_int = "32 word"

type_synonym pid_t = "32 word"
type_synonym tid_t = "32 word"
type_synonym ssize_t = "64 word"
type_synonym nlink_t = "16 word"
type_synonym mode_t = "32 word"
type_synonym uid_t = "32 word"
type_synonym gid_t = "32 word"
type_synonym ino_t = "64 word"
type_synonym off_t = "64 word"
type_synonym dev_t = "32 word"
type_synonym time_t = "64 word"
type_synonym addr_t = "64 word"
type_synonym size_t = "64 word"

text \<open>
  What a C program does outside its contract: a null dereference, an access outside the
  object, a read of memory nobody wrote, an endless loop, a division by zero, an access to a page that is
  not mapped. An operation
  that can meet one returns \<open>Inl\<close> of it instead of a value.
\<close>

datatype fault = NullDeref | OutOfBounds | Uninitialised | Diverges | DivByZero | Panic | PageFault

type_synonym 'a res = "fault + 'a"

abbreviation (input) NULL :: addr_t where "NULL \<equiv> 0"

definition bind_res :: "'a res \<Rightarrow> ('a \<Rightarrow> 'b res) \<Rightarrow> 'b res" where
  "bind_res r f = (case r of Inl e \<Rightarrow> Inl e | Inr x \<Rightarrow> f x)"

lemma bind_res_simps [simp]:
  "bind_res (Inl e) f = Inl e"
  "bind_res (Inr x) f = f x"
  by (simp_all add: bind_res_def)

lemma bind_res_Inr_iff:
  "bind_res r f = Inr y \<longleftrightarrow> (\<exists>x. r = Inr x \<and> f x = Inr y)"
  by (cases r) auto

text \<open>Sequencing of operations that may fault or not return.\<close>

definition bind_ro :: "'a res option \<Rightarrow> ('a \<Rightarrow> 'b res option) \<Rightarrow> 'b res option" where
  "bind_ro r f = (case r of None \<Rightarrow> None | Some (Inl e) \<Rightarrow> Some (Inl e) | Some (Inr x) \<Rightarrow> f x)"

lemma bind_ro_simps [simp]: "bind_ro (Some (Inr x)) f = f x" "bind_ro (Some (Inl e)) f = Some (Inl e)" "bind_ro None f = None"
  by (simp_all add: bind_ro_def)

section \<open>Words\<close>

lemma unat_add_no_overflow [mint_word]:
  "unat (a + b) = unat a + unat b" if "unat a + unat b < 2 ^ LENGTH('n)"
  for a b :: "'n::len word"
  using that by (simp add: unat_word_ariths)

lemma unat_mult_no_overflow [mint_word]:
  "unat (a * b) = unat a * unat b" if "unat a * unat b < 2 ^ LENGTH('n)"
  for a b :: "'n::len word"
  using that by (simp add: unat_word_ariths)

lemma unat_sub_no_underflow [mint_word]:
  "unat (a - b) = unat a - unat b" if "b \<le> a" for a b :: "'n::len word"
  using that by (simp add: unat_sub_if' word_le_nat_alt)

lemma unat_less_length_power [simp]: "unat (w :: 'n::len word) < 2 ^ LENGTH('n)"
  by (rule unsigned_less)

lemma word_less_nat_iff [mint_word]: "a < b \<longleftrightarrow> unat a < unat b" for a b :: "'n::len word"
  by (rule word_less_nat_alt)

lemma word_le_nat_iff [mint_word]: "a \<le> b \<longleftrightarrow> unat a \<le> unat b" for a b :: "'n::len word"
  by (rule word_le_nat_alt)

lemma unat_drop_bit_div [mint_word]:
  "unat (drop_bit k w) = unat w div 2 ^ k" for w :: "'n::len word"
  by (simp add: unat_drop_bit_eq drop_bit_eq_div [where 'a = nat] del: drop_bit_eq_div)

lemma unat_push_bit_mod [mint_word]:
  "unat (push_bit k w) = unat w * 2 ^ k mod 2 ^ LENGTH('n)" for w :: "'n::len word"
  unfolding unsigned_push_bit_eq take_bit_eq_mod [where 'a = nat]
  by (simp add: push_bit_eq_mult [where 'a = nat])

lemma unat_take_bit_mod [mint_word]:
  "unat (take_bit k w) = unat w mod 2 ^ k" for w :: "'n::len word"
  unfolding unsigned_take_bit_eq take_bit_eq_mod [where 'a = nat] ..

lemma unat_exp [mint_word]: "unat ((2 :: 'n::len word) ^ k) = 2 ^ k" if "k < LENGTH('n)"
proof -
  have "unat (push_bit k (1 :: 'n word)) = 2 ^ k"
    using that power_strict_increasing [OF that, of "2::nat"] by (simp only: unat_push_bit_mod) simp
  then show ?thesis by (simp add: push_bit_eq_mult)
qed

lemma unat_ucast_widen [mint_word]:
  "unat (ucast w :: 'm::len word) = unat w" if "LENGTH('n) \<le> LENGTH('m)" for w :: "'n::len word"
proof -
  have "unat w < 2 ^ LENGTH('m)"
    using unat_less_length_power [of w] power_increasing [OF that, of "2::nat"] by linarith
  then show ?thesis
    by (simp add: unsigned_ucast_eq take_bit_nat_eq_self)
qed

lemma word_eq_zero_iff_unat: "w = 0 \<longleftrightarrow> unat w = 0" for w :: "'n::len word"
  by (simp add: unat_eq_0)

section \<open>Powers of two\<close>

text \<open>Clearing the lowest set bit: the test \<open>x & (x - 1)\<close> of the C sources.\<close>

lemma nat_and_pred_double: "(2 * m) AND (2 * m - 1) = 2 * (m AND (m - 1))" if "0 < m" for m :: nat
proof -
  from that have "2 * m - 1 = Suc (2 * (m - 1))" by simp
  then show ?thesis
    by (simp only:) (simp add: and_nat_rec [of "2 * m"])
qed

lemma nat_and_pred_odd: "(2 * m + 1) AND (2 * m) = 2 * m" for m :: nat
  by (subst and_nat_rec) simp

lemma nat_and_pred_eq_0_iff:
  "n AND (n - 1) = 0 \<longleftrightarrow> n = 0 \<or> (\<exists>k. n = 2 ^ k)" for n :: nat
proof (induction n rule: less_induct)
  case (less n)
  consider "n = 0" | m where "n = 2 * m" "0 < m" | m where "n = 2 * m + 1"
    by (cases "n = 0"; cases "even n") (fastforce elim!: evenE oddE)+
  then show ?case
  proof cases
    case 1
    then show ?thesis by simp
  next
    case (2 m)
    have "n AND (n - 1) = 0 \<longleftrightarrow> m AND (m - 1) = 0"
      using 2 nat_and_pred_double [of m] by simp
    also have "\<dots> \<longleftrightarrow> (\<exists>k. m = 2 ^ k)"
      using less.IH [of m] 2 by simp
    also have "\<dots> \<longleftrightarrow> (\<exists>k. n = 2 ^ k)"
    proof
      assume "\<exists>k. m = 2 ^ k"
      then show "\<exists>k. n = 2 ^ k" using 2 power_Suc by metis
    next
      assume "\<exists>k. n = 2 ^ k"
      then obtain k where k: "n = 2 ^ k" by blast
      with 2 have "k \<noteq> 0" by (cases k) auto
      with k 2 have "m = 2 ^ (k - 1)" by (cases k) auto
      then show "\<exists>k. m = 2 ^ k" by blast
    qed
    finally show ?thesis using 2 by simp
  next
    case (3 m)
    have "n AND (n - 1) = 2 * m" using 3 nat_and_pred_odd [of m] by simp
    moreover have "(\<exists>k. n = 2 ^ k) \<longleftrightarrow> m = 0"
    proof
      assume "\<exists>k. n = 2 ^ k"
      then obtain k where k: "2 * m + 1 = (2::nat) ^ k" using 3 by auto
      then show "m = 0" by (cases k) (auto, presburger)
    next
      assume "m = 0"
      with 3 show "\<exists>k. n = 2 ^ k" by (auto intro: exI [of _ 0])
    qed
    ultimately show ?thesis using 3 by simp
  qed
qed

lemma word_and_pred_eq_0_iff:
  "x AND (x - 1) = 0 \<longleftrightarrow> (\<exists>k. unat x = 2 ^ k)" if "x \<noteq> 0" for x :: "'n::len word"
proof -
  have pred: "unat (x - 1) = unat x - 1"
    using that by (simp add: unat_minus_one)
  have "x AND (x - 1) = 0 \<longleftrightarrow> unat x AND unat (x - 1) = 0"
    by (simp add: word_eq_zero_iff_unat unsigned_and_eq)
  also have "\<dots> \<longleftrightarrow> (\<exists>k. unat x = 2 ^ k)"
    using that nat_and_pred_eq_0_iff [of "unat x"] by (simp add: pred unat_eq_0)
  finally show ?thesis .
qed

end
