(* ===== verification/MathLib.thy ===== *)
theory MathLib
  imports Prelude
begin

text \<open>
  \<open>include/lib/math.h\<close>: the rounding macros, the split and merge of 64-bit values, and
  \<open>log_2\<close>, the binary search over six masks that the buddy allocator uses to turn a size
  into an order. The C macros are untyped; each is modelled at the word width of its uses.
\<close>

section \<open>Definitions\<close>

definition DIV_ROUND_UP :: "'n::len word \<Rightarrow> 'n word \<Rightarrow> 'n word" where
  [mint_defs]: "DIV_ROUND_UP x y = (x + (y - 1)) div y"

definition ROUND_DOWN :: "'n::len word \<Rightarrow> 'n word \<Rightarrow> 'n word" where
  [mint_defs]: "ROUND_DOWN x y = x div y * y"

definition ROUND_UP :: "'n::len word \<Rightarrow> 'n word \<Rightarrow> 'n word" where
  [mint_defs]: "ROUND_UP x y = ((x + (y - 1)) div y) * y"

definition LOWER_32 :: "u64 \<Rightarrow> u64" where
  [mint_defs]: "LOWER_32 x = x AND 0xFFFFFFFF"

definition UPPER_32 :: "u64 \<Rightarrow> u64" where
  [mint_defs]: "UPPER_32 x = drop_bit 32 x AND 0xFFFFFFFF"

definition MERGE_64 :: "u64 \<Rightarrow> u64 \<Rightarrow> u64" where
  [mint_defs]: "MERGE_64 x y = push_bit 32 x OR y"

text \<open>\<open>1 << power\<close> is a C \<open>int\<close>; its uses widen it to 64 bits with sign extension.\<close>

definition POW_2 :: "nat \<Rightarrow> c_int" where
  [mint_defs]: "POW_2 n = push_bit n 1"

definition log_2_table :: "u64 list" where
  "log_2_table =
     [0xFFFFFFFF00000000, 0x00000000FFFF0000, 0x000000000000FF00,
      0x00000000000000F0, 0x000000000000000C, 0x0000000000000002]"

fun log_2_loop :: "u64 list \<Rightarrow> u64 \<Rightarrow> nat \<Rightarrow> nat \<Rightarrow> nat" where
  "log_2_loop [] x y j = y"
| "log_2_loop (t # ts) x y j =
     (let k = (if x AND t = 0 then 0 else j)
      in log_2_loop ts (drop_bit k x) (y + k) (j div 2))"

definition log_2 :: "u64 \<Rightarrow> u32" where
  "log_2 x = of_nat (log_2_loop log_2_table x (if x AND (x - 1) = 0 then 0 else 1) 32)"

section \<open>Rounding\<close>

lemma unat_ROUND_UP:
  fixes x y :: "'n::len word"
  assumes "0 < y" and "unat x + unat y \<le> 2 ^ LENGTH('n)"
  shows "unat (ROUND_UP x y) = (unat x + unat y - 1) div unat y * unat y"
proof -
  have y: "0 < unat y" using assms(1) by (simp add: word_less_nat_alt)
  have sum: "unat (x + (y - 1)) = unat x + unat y - 1"
  proof -
    have "unat (y - 1) = unat y - 1"
      using assms(1) by (simp add: unat_minus_one)
    then show ?thesis
      using y assms(2) by (subst unat_add_no_overflow) auto
  qed
  let ?q = "(unat x + unat y - 1) div unat y"
  have "?q * unat y \<le> unat x + unat y - 1" by simp
  with y assms(2) have lt: "?q * unat y < 2 ^ LENGTH('n)" by linarith
  have "unat ((x + (y - 1)) div y) = ?q"
    by (simp add: unat_div_distrib sum)
  then show ?thesis
    unfolding ROUND_UP_def using lt by (subst unat_mult_no_overflow) auto
qed

lemma nat_round_up_bounds:
  fixes x y :: nat
  assumes "0 < y"
  shows "x \<le> (x + y - 1) div y * y" and "(x + y - 1) div y * y < x + y"
proof -
  have "(x + y - 1) div y * y + (x + y - 1) mod y = x + y - 1" by simp
  moreover have "(x + y - 1) mod y < y" using assms by simp
  ultimately show "x \<le> (x + y - 1) div y * y" and "(x + y - 1) div y * y < x + y"
    using assms by linarith+
qed

lemma ROUND_UP_props:
  fixes x y :: "'n::len word"
  assumes "0 < y" and "unat x + unat y \<le> 2 ^ LENGTH('n)"
  shows "x \<le> ROUND_UP x y" and "unat (ROUND_UP x y) < unat x + unat y"
    and "unat y dvd unat (ROUND_UP x y)"
  using nat_round_up_bounds [of "unat y" "unat x"] assms
  by (simp_all add: unat_ROUND_UP word_le_nat_alt word_less_nat_alt)

lemma unat_ROUND_DOWN:
  "unat (ROUND_DOWN x y) = unat x div unat y * unat y" for x y :: "'n::len word"
proof -
  have "unat x div unat y * unat y < 2 ^ LENGTH('n)"
    by (rule le_less_trans [of _ "unat x"]) simp_all
  then show ?thesis
    unfolding ROUND_DOWN_def by (subst unat_mult_no_overflow) (simp_all add: unat_div_distrib)
qed

lemma mask_32_u64 [mint_word]: "(0xFFFFFFFF :: u64) = mask 32"
  by (simp add: mask_eq_exp_minus_1)

lemma MERGE_UPPER_LOWER: "MERGE_64 (UPPER_32 x) (LOWER_32 x) = x"
  unfolding MERGE_64_def UPPER_32_def LOWER_32_def mask_32_u64
  by (rule bit_word_eqI) (auto simp: bit_simps)

lemma scast_POW_2: "(scast (POW_2 p) :: u64) = push_bit p 1" if "p < 31"
  unfolding POW_2_def using that
  by (intro bit_word_eqI) (auto simp: bit_simps)

lemma unat_POW_2_64 [mint_word]:
  "unat (scast (POW_2 p) :: u64) = 2 ^ p" if "p < 31"
  using that by (simp add: scast_POW_2 push_bit_eq_mult unat_exp)

section \<open>The binary logarithm\<close>

text \<open>One round of the search: under the bound that the earlier rounds establish, the mask test
  asks whether the value has a bit in its upper half.\<close>

lemma log_2_mask_test:
  fixes x :: u64
  assumes "unat x < 2 ^ (2 * j)" and "2 * j \<le> 64"
  shows "x AND push_bit j (mask j) = 0 \<longleftrightarrow> unat x < 2 ^ j"
proof -
  have "x AND push_bit j (mask j) = push_bit j (take_bit j (drop_bit j x))"
    by (rule bit_word_eqI) (auto simp: bit_simps)
  then have "unat (x AND push_bit j (mask j)) =
      (unat x div 2 ^ j) mod 2 ^ j * 2 ^ j mod 2 ^ 64"
    by (simp only: unat_push_bit_mod unat_take_bit_mod unat_drop_bit_div) simp
  also have "\<dots> = (unat x div 2 ^ j) * 2 ^ j"
  proof -
    have q: "unat x div 2 ^ j < 2 ^ j"
      using assms(1) by (simp add: less_mult_imp_div_less power_add mult_2)
    have "(unat x div 2 ^ j) * 2 ^ j \<le> unat x" by simp
    also have "unat x < 2 ^ 64" using unsigned_less [of x] by simp
    finally show ?thesis using q by simp
  qed
  finally show ?thesis
    by (simp add: word_eq_zero_iff_unat div_eq_0_iff)
qed

lemma log_2_round:
  fixes x :: u64
  assumes "0 < unat x" and "unat x < 2 ^ (2 * j)" and "2 * j \<le> 64"
    and t: "t = push_bit j (mask j)" and k: "k = (if x AND t = 0 then 0 else j)"
  shows "0 < unat (drop_bit k x)" and "unat (drop_bit k x) < 2 ^ j"
    and "unat (drop_bit k x) = unat x div 2 ^ k"
proof -
  have test: "x AND t = 0 \<longleftrightarrow> unat x < 2 ^ j"
    unfolding t using assms(2,3) by (rule log_2_mask_test)
  show "unat (drop_bit k x) = unat x div 2 ^ k" by (rule unat_drop_bit_div)
  show "unat (drop_bit k x) < 2 ^ j"
    using assms(2) test
    by (auto simp: k unat_drop_bit_div less_mult_imp_div_less power_add mult_2)
  show "0 < unat (drop_bit k x)"
    using assms(1) test by (auto simp: k unat_drop_bit_div div_greater_zero_iff not_less)
qed

text \<open>The number the search adds to its accumulator is the floor of the logarithm.\<close>

lemma log_2_loop_floor:
  fixes x :: u64
  assumes "map (\<lambda>i. push_bit (2 ^ i) (mask (2 ^ i))) (rev [0..<n]) = ts" and "n \<le> 6"
    and "0 < unat x" and "unat x < 2 ^ (2 ^ n)"
  shows "\<exists>r. log_2_loop ts x y (2 ^ n div 2) = y + r \<and> 2 ^ r \<le> unat x \<and> unat x < 2 ^ Suc r"
  using assms
proof (induction n arbitrary: ts x y)
  case 0
  then have "unat x = 1" by simp
  with 0 show ?case by (intro exI [of _ 0]) auto
next
  case (Suc n)
  let ?j = "2 ^ n :: nat"
  obtain ts' where ts: "ts = push_bit ?j (mask ?j) # ts'"
    and ts': "map (\<lambda>i. push_bit (2 ^ i) (mask (2 ^ i))) (rev [0..<n]) = ts'"
    using Suc.prems(1) by auto
  define k where "k = (if x AND push_bit ?j (mask ?j) = 0 then 0 else ?j)"
  have "?j \<le> 2 ^ 5" using Suc.prems(2) by (intro power_increasing) simp_all
  then have j64: "2 * ?j \<le> 64" by simp
  have bnd: "unat x < 2 ^ (2 * ?j)" using Suc.prems(4) by simp
  note round = log_2_round [OF Suc.prems(3) bnd j64 refl k_def]
  obtain r where r: "log_2_loop ts' (drop_bit k x) (y + k) (?j div 2) = y + k + r"
    and lo: "2 ^ r \<le> unat (drop_bit k x)" and hi: "unat (drop_bit k x) < 2 ^ Suc r"
    using Suc.IH [OF ts' _ round(1,2), of "y + k"] Suc.prems(2) by auto
  have "log_2_loop ts x y (2 ^ Suc n div 2) = y + (k + r)"
    using r by (simp add: ts k_def Let_def)
  moreover have "2 ^ (k + r) \<le> unat x" 
    using lo round(3) by (simp add: power_add less_eq_div_iff_mult_less_eq mult.commute)
  moreover have "unat x < 2 ^ Suc (k + r)"
    using hi round(3) by (simp add: power_add div_less_iff_less_mult mult_ac)
  ultimately show ?case by blast
qed

lemma log_2_table_masks:
  "map (\<lambda>i. push_bit (2 ^ i) (mask (2 ^ i))) (rev [0..<6]) = log_2_table"
  by (simp add: log_2_table_def numeral_eq_Suc mask_eq_exp_minus_1 push_bit_eq_mult upt_rec)

lemma pow2_sandwich: "(\<exists>k. n = (2::nat) ^ k) \<longleftrightarrow> n = 2 ^ r" if "2 ^ r \<le> n" "n < 2 ^ Suc r"
proof
  assume "\<exists>k. n = 2 ^ k"
  then obtain k where k: "n = 2 ^ k" by blast
  with that have "r \<le> k" and "k < Suc r"
    using power_le_imp_le_exp [of "2::nat" r k] power_less_imp_less_exp [of "2::nat" k "Suc r"]
    by simp_all
  with k show "n = 2 ^ r" by (simp add: le_antisym less_Suc_eq_le)
qed blast

lemma log_2_cases:
  assumes "x \<noteq> 0"
  obtains r where "2 ^ r \<le> unat x" and "unat x < 2 ^ Suc r" and "r < 64"
    and "unat (log_2 x) = (if unat x = 2 ^ r then r else Suc r)"
proof -
  let ?y = "if x AND (x - 1) = 0 then 0 else 1 :: nat"
  have "0 < unat x" using assms by (simp add: unat_gt_0)
  moreover have x64: "unat x < 2 ^ 2 ^ 6" using unsigned_less [of x] by simp
  ultimately obtain r where r: "log_2_loop log_2_table x ?y (2 ^ 6 div 2) = ?y + r"
    and lo: "2 ^ r \<le> unat x" and hi: "unat x < 2 ^ Suc r"
    using log_2_loop_floor [OF log_2_table_masks order_refl] by blast
  have r64: "r < 64"
    using power_less_imp_less_exp [of "2::nat" r 64] lo x64 by simp
  have "?y = (if unat x = 2 ^ r then 0 else 1)"
    using word_and_pred_eq_0_iff [OF assms] pow2_sandwich [OF lo hi] by simp
  with r have "log_2 x = of_nat (if unat x = 2 ^ r then r else Suc r)"
    by (simp add: log_2_def)
  then have "unat (log_2 x) = (if unat x = 2 ^ r then r else Suc r)"
    using r64 by (auto simp: unat_of_nat)
  with lo hi r64 show ?thesis by (rule that)
qed

lemma log_2_exp: "unat (log_2 x) = k" if "unat x = 2 ^ k"
proof -
  from that have "x \<noteq> 0" by auto
  then show ?thesis
  proof (cases rule: log_2_cases)
    case (1 r)
    then have "unat x = 2 ^ r" using that pow2_sandwich by metis
    with 1 that show ?thesis by simp
  qed
qed

text \<open>\<open>log_2\<close> of a non-zero size is the least exponent whose power of two holds that size
  (the ceiling of the binary logarithm), so the order the buddy allocator computes from a size is
  the smallest block that fits, and it never exceeds 64.\<close>

theorem log_2_least_exponent:
  assumes "x \<noteq> 0"
  shows "unat x \<le> 2 ^ unat (log_2 x)
    \<and> (\<forall>k. unat x \<le> 2 ^ k \<longrightarrow> unat (log_2 x) \<le> k) \<and> unat (log_2 x) \<le> 64"
  using assms
proof (cases rule: log_2_cases)
  case (1 r)
  have "unat (log_2 x) \<le> k" if "unat x \<le> 2 ^ k" for k
  proof (cases "unat x = 2 ^ r")
    case True
    with that have "(2::nat) ^ r \<le> 2 ^ k" by simp
    then show ?thesis using True 1 by (simp add: power_le_imp_le_exp)
  next
    case False
    with that 1 have "(2::nat) ^ r < 2 ^ k" by linarith
    then show ?thesis using False 1 by (simp add: power_less_imp_less_exp Suc_leI)
  qed
  moreover have "unat x \<le> 2 ^ unat (log_2 x)" "unat (log_2 x) \<le> 64"
    using 1 by simp_all
  ultimately show ?thesis by blast
qed

theorem log_2_least_exponent_witness:
  "(0x1001 :: u64) \<noteq> 0 \<and> unat (log_2 0x1001) = 13 \<and> unat (0x1001 :: u64) \<le> 2 ^ unat (log_2 0x1001)"
proof -
  have h: "(0x1001 :: u64) \<noteq> 0" by simp
  have v: "unat (log_2 0x1001) = 13" by (simp add: log_2_def log_2_table_def)
  from log_2_least_exponent [OF h] v h show ?thesis by simp
qed

end
