(* ===== verification/Bitset.thy ===== *)
theory Bitset
  imports MathLib
begin

text \<open>
  \<open>include/lib/bitset.h\<close>: a bitset is an array of bytes, indexed by a 64-bit bit number. The
  C macros check nothing; an access past the array is the fault \<open>OutOfBounds\<close>. The scan of
  \<open>bitset_first_unset\<close> counts in a \<open>uint8_t\<close>, so it may not end: it is a partial function,
  whose value \<open>None\<close> is an endless loop. The locale \<open>flag_store\<close> states what a client (the buddy
  allocator) relies on; it is interpreted on these definitions.
\<close>

section \<open>Definitions\<close>

type_synonym bitset = "u8 list"

definition BITSET_FULL :: u8 where "BITSET_FULL = 0xFF"
definition BITSET_EMPTY :: u8 where "BITSET_EMPTY = 0x00"

definition BITSET_SIZE_CALC :: "size_t \<Rightarrow> size_t" where
  [mint_defs]: "BITSET_SIZE_CALC sz = DIV_ROUND_UP sz 8"

definition BITSET_INDEX :: "size_t \<Rightarrow> size_t" where
  [mint_defs]: "BITSET_INDEX index = index div 8"

definition bitset_set :: "bitset \<Rightarrow> size_t \<Rightarrow> bitset res" where
  "bitset_set bs index =
     (let i = unat (index div 8); b = unat (index mod 8)
      in if i < length bs then Inr (bs[i := bs ! i OR push_bit b 1]) else Inl OutOfBounds)"

definition bitset_unset :: "bitset \<Rightarrow> size_t \<Rightarrow> bitset res" where
  "bitset_unset bs index =
     (let i = unat (index div 8); b = unat (index mod 8)
      in if i < length bs then Inr (bs[i := bs ! i AND NOT (push_bit b 1)]) else Inl OutOfBounds)"

definition bitset_test :: "bitset \<Rightarrow> size_t \<Rightarrow> bool res" where
  "bitset_test bs index =
     (let i = unat (index div 8); b = unat (index mod 8)
      in if i < length bs then Inr (bs ! i AND push_bit b 1 \<noteq> 0) else Inl OutOfBounds)"

function bitset_set_group_loop :: "bitset \<Rightarrow> size_t \<Rightarrow> size_t \<Rightarrow> bitset res" where
  "bitset_set_group_loop bs index bound =
     (if index < bound
      then (case bitset_set bs index of
              Inl e \<Rightarrow> Inl e
            | Inr bs' \<Rightarrow> bitset_set_group_loop bs' (index + 1) bound)
      else Inr bs)"
  by pat_completeness auto
termination
proof (relation "measure (\<lambda>(bs, index, bound). unat bound - unat index)", goal_cases)
  case (2 bs index bound x)
  then have "unat index < unat bound" by (simp add: word_less_nat_alt)
  moreover from this have "unat (index + 1) = Suc (unat index)"
    using unat_less_length_power [of bound] by (subst unat_add_no_overflow) auto
  ultimately show ?case by simp
qed simp

definition bitset_set_group :: "bitset \<Rightarrow> size_t \<Rightarrow> size_t \<Rightarrow> bitset res" where
  "bitset_set_group bs start sz = bitset_set_group_loop bs start (start + sz)"

partial_function (option) bitset_first_unset_loop :: "bitset \<Rightarrow> size_t \<Rightarrow> u8 \<Rightarrow> size_t res option" where
  "bitset_first_unset_loop bs sz j =
     (if ucast j < sz
      then (case bitset_test bs (ucast j) of
              Inl e \<Rightarrow> Some (Inl e)
            | Inr b \<Rightarrow> if \<not> b then Some (Inr (ucast j))
                       else bitset_first_unset_loop bs sz (j + 1))
      else Some (Inr 0))"

definition bitset_first_unset :: "bitset \<Rightarrow> size_t \<Rightarrow> size_t res option" where
  "bitset_first_unset bs sz = bitset_first_unset_loop bs sz 0"

text \<open>The set of bit numbers a byte array stands for.\<close>

definition bitset_abs :: "bitset \<Rightarrow> nat set" where
  "bitset_abs bs = {i. i < 8 * length bs \<and> bit (bs ! (i div 8)) (i mod 8)}"

section \<open>The contract of a store of flags\<close>

locale flag_store =
  fixes set_flag :: "'b \<Rightarrow> size_t \<Rightarrow> 'b res"
    and unset_flag :: "'b \<Rightarrow> size_t \<Rightarrow> 'b res"
    and test_flag :: "'b \<Rightarrow> size_t \<Rightarrow> bool res"
    and capacity :: "'b \<Rightarrow> nat"
    and flags :: "'b \<Rightarrow> nat set"
  assumes set_flag_ok: "unat i < capacity b \<Longrightarrow>
      \<exists>b'. set_flag b i = Inr b' \<and> capacity b' = capacity b \<and> flags b' = insert (unat i) (flags b)"
    and unset_flag_ok: "unat i < capacity b \<Longrightarrow>
      \<exists>b'. unset_flag b i = Inr b' \<and> capacity b' = capacity b \<and> flags b' = flags b - {unat i}"
    and test_flag_ok: "unat i < capacity b \<Longrightarrow> test_flag b i = Inr (unat i \<in> flags b)"
    and set_flag_fault: "\<not> unat i < capacity b \<Longrightarrow> set_flag b i = Inl OutOfBounds"
    and unset_flag_fault: "\<not> unat i < capacity b \<Longrightarrow> unset_flag b i = Inl OutOfBounds"
    and test_flag_fault: "\<not> unat i < capacity b \<Longrightarrow> test_flag b i = Inl OutOfBounds"
begin

lemma set_flag_Inr_iff:
  "(\<exists>b'. set_flag b i = Inr b') \<longleftrightarrow> unat i < capacity b"
  using set_flag_ok set_flag_fault by (metis sum.distinct(1))

lemma set_flag_result:
  assumes "set_flag b i = Inr b'"
  shows "flags b' = insert (unat i) (flags b)" and "capacity b' = capacity b"
    and "unat i < capacity b"
  using assms set_flag_ok [of i b] set_flag_fault [of i b] by auto

lemma unset_flag_result:
  assumes "unset_flag b i = Inr b'"
  shows "flags b' = flags b - {unat i}" and "capacity b' = capacity b"
    and "unat i < capacity b"
  using assms unset_flag_ok [of i b] unset_flag_fault [of i b] by auto

lemma test_after_set:
  assumes "set_flag b i = Inr b'" and "unat j < capacity b"
  shows "test_flag b' j = (if j = i then Inr True else test_flag b j)"
  using set_flag_result [OF assms(1)] assms(2) by (auto simp: test_flag_ok word_unat_eq_iff)

lemma test_after_unset:
  assumes "unset_flag b i = Inr b'" and "unat j < capacity b"
  shows "test_flag b' j = (if j = i then Inr False else test_flag b j)"
  using unset_flag_result [OF assms(1)] assms(2) by (auto simp: test_flag_ok word_unat_eq_iff)

lemma set_unset_restore:
  assumes "unset_flag b i = Inr b1" and "set_flag b1 i = Inr b2"
  shows "flags b2 = insert (unat i) (flags b)"
  using unset_flag_result [OF assms(1)] set_flag_result [OF assms(2)] by auto

end

section \<open>The byte array satisfies the contract\<close>

lemma bit_number_split:
  fixes index :: size_t
  shows "unat (index div 8) = unat index div 8" and "unat (index mod 8) = unat index mod 8"
  by (simp_all add: unat_div_distrib unat_mod_distrib)

lemma byte_in_range: "n div 8 < length bs \<longleftrightarrow> n < 8 * length (bs :: bitset)" for n :: nat
  by (simp add: div_less_iff_less_mult mult.commute)

lemma bitset_abs_update:
  assumes "n < 8 * length bs"
  shows "bitset_abs (bs[n div 8 := w]) =
    {i \<in> bitset_abs bs. i div 8 \<noteq> n div 8} \<union> {i. i div 8 = n div 8 \<and> bit w (i mod 8)}"
  using assms
  by (auto simp: bitset_abs_def nth_list_update byte_in_range [symmetric] split: if_splits)

lemma same_byte_bit: "i div 8 = n div 8 \<Longrightarrow> i mod 8 = n mod 8 \<longleftrightarrow> i = n" for i n :: nat
  by (metis div_mult_mod_eq)

lemma bit_u8_mod: "bit ((2 :: u8) ^ (n mod 8)) (i mod 8) \<longleftrightarrow> i mod 8 = n mod 8" for i n :: nat
  by (auto simp: bit_exp_iff)

lemma bitset_abs_set:
  assumes "n < 8 * length bs"
  shows "bitset_abs (bs[n div 8 := bs ! (n div 8) OR 2 ^ (n mod 8)]) = insert n (bitset_abs bs)"
  unfolding bitset_abs_update [OF assms] using assms same_byte_bit
  by (auto simp: bitset_abs_def bit_or_iff bit_u8_mod byte_in_range [symmetric])

lemma bitset_abs_unset:
  assumes "n < 8 * length bs"
  shows "bitset_abs (bs[n div 8 := bs ! (n div 8) AND NOT (2 ^ (n mod 8))]) = bitset_abs bs - {n}"
  unfolding bitset_abs_update [OF assms] using assms same_byte_bit
  by (auto simp: bitset_abs_def bit_and_iff bit_not_iff bit_u8_mod byte_in_range [symmetric])

lemma bitset_test_mask: "(w AND 2 ^ (n mod 8) = 0) = (\<not> bit w (n mod 8))" for w :: u8 and n :: nat
  by (rule and_exp_eq_0_iff_not_bit)

interpretation bits: flag_store bitset_set bitset_unset bitset_test "\<lambda>bs. 8 * length bs" bitset_abs
proof (unfold_locales, goal_cases)
  case (1 i b)
  then show ?case
    by (simp add: bitset_set_def bit_number_split byte_in_range bitset_abs_set Let_def)
next
  case (2 i b)
  then show ?case
    by (simp add: bitset_unset_def bit_number_split byte_in_range bitset_abs_unset Let_def)
next
  case (3 i b)
  then show ?case
    by (simp add: bitset_test_def bit_number_split byte_in_range bitset_test_mask bitset_abs_def Let_def)
next
  case (4 i b)
  then show ?case by (simp add: bitset_set_def bit_number_split byte_in_range Let_def)
next
  case (5 i b)
  then show ?case by (simp add: bitset_unset_def bit_number_split byte_in_range Let_def)
next
  case (6 i b)
  then show ?case by (simp add: bitset_test_def bit_number_split byte_in_range Let_def)
qed

section \<open>Setting a group\<close>

declare bitset_set_group_loop.simps [simp del]

lemma bitset_set_group_loop_abs:
  assumes "unat bound \<le> 8 * length bs"
  shows "\<exists>bs'. bitset_set_group_loop bs index bound = Inr bs' \<and> length bs' = length bs
     \<and> bitset_abs bs' = bitset_abs bs \<union> {unat index ..< unat bound}"
  using assms
proof (induction bs index bound rule: bitset_set_group_loop.induct)
  case (1 bs index bound)
  have len: "unat bound \<le> 8 * length bs"
    using "1.prems" .
  show ?case
  proof (cases "index < bound")
    case False
    then show ?thesis
      by (auto simp: bitset_set_group_loop.simps [of bs index bound] word_less_nat_alt)
  next
    case True
    then have lt: "unat index < unat bound" by (simp add: word_less_nat_alt)
    with len have "unat index < 8 * length bs" by simp
    then obtain bs1 where b1: "bitset_set bs index = Inr bs1" "8 * length bs1 = 8 * length bs"
        "bitset_abs bs1 = insert (unat index) (bitset_abs bs)"
      using bits.set_flag_ok by blast
    have nxt: "unat (index + 1) = Suc (unat index)"
      using lt unat_less_length_power [of bound] by (subst unat_add_no_overflow) auto
    from "1.IH" [OF True b1(1)] "1.prems" b1(2) obtain bs' where
      bs': "bitset_set_group_loop bs1 (index + 1) bound = Inr bs'" "length bs' = length bs"
      "bitset_abs bs' = bitset_abs bs1 \<union> {unat (index + 1) ..< unat bound}"
      by auto
    have "bitset_abs bs' = bitset_abs bs \<union> {unat index ..< unat bound}"
      unfolding bs'(3) b1(3) nxt using lt by auto
    with bs' True b1(1) show ?thesis
      by (simp add: bitset_set_group_loop.simps [of bs index bound])
  qed
qed

section \<open>The first unset bit\<close>

lemma bitset_first_unset_loop_small:
  assumes "unat sz \<le> 255" and "unat sz \<le> 8 * length bs"
    and "\<forall>i < unat j. i \<in> bitset_abs bs" and "unat j \<le> unat sz"
  shows "bitset_first_unset_loop bs sz j =
    Some (Inr (if \<exists>i < unat sz. i \<notin> bitset_abs bs
               then of_nat (LEAST i. i \<notin> bitset_abs bs) else 0))"
  using assms
proof (induction "unat sz - unat j" arbitrary: j)
  case 0
  then have "unat j = unat sz" by simp
  with 0 have "\<not> ucast j < sz" "\<not> (\<exists>i < unat sz. i \<notin> bitset_abs bs)"
    by (auto simp: word_less_nat_alt unat_ucast_widen)
  then show ?case by (auto simp: bitset_first_unset_loop.simps [of bs sz j])
next
  case (Suc n)
  then have lt: "unat j < unat sz" by simp
  have uj: "unat (ucast j :: size_t) = unat j" by (simp add: unat_ucast_widen)
  have go: "ucast j < sz" using lt by (simp add: word_less_nat_alt uj)
  have test: "bitset_test bs (ucast j) = Inr (unat j \<in> bitset_abs bs)"
    using bits.test_flag_ok [of "ucast j" bs] lt Suc.prems(2) by (simp add: uj)
  show ?case
  proof (cases "unat j \<in> bitset_abs bs")
    case True
    have nxt: "unat (j + 1) = Suc (unat j)"
      using lt Suc.prems(1) by (subst unat_add_no_overflow) auto
    have "bitset_first_unset_loop bs sz j = bitset_first_unset_loop bs sz (j + 1)"
      using go test True by (simp add: bitset_first_unset_loop.simps [of bs sz j])
    also have "\<dots> = Some (Inr (if \<exists>i < unat sz. i \<notin> bitset_abs bs
               then of_nat (LEAST i. i \<notin> bitset_abs bs) else 0))"
      using Suc.hyps Suc.prems True lt by (intro Suc.hyps(1)) (auto simp: nxt less_Suc_eq)
    finally show ?thesis .
  next
    case False
    have "(LEAST i. i \<notin> bitset_abs bs) = unat j"
      using False Suc.prems(3) by (intro Least_equality) (auto simp: not_less [symmetric])
    then show ?thesis
      using go test False lt
      by (auto simp: bitset_first_unset_loop.simps [of bs sz j])
  qed
qed

text \<open>The counter of the scan is a \<open>uint8_t\<close>: with a size of 256 or more and the first 256 bits all
  set it wraps to zero and never ends.\<close>

lemma bitset_first_unset_loop_diverges:
  assumes "256 \<le> unat sz" and "32 \<le> length bs" and "{0..<256} \<subseteq> bitset_abs bs"
  shows "bitset_first_unset_loop bs sz j = None"
proof (rule ccontr)
  assume "bitset_first_unset_loop bs sz j \<noteq> None"
  then obtain r where r: "bitset_first_unset_loop bs sz j = Some r" by blast
  have "bs' = bs \<and> sz' = sz \<longrightarrow> False" if "bitset_first_unset_loop bs' sz' j = Some r" for bs' sz' j r
  proof (rule bitset_first_unset_loop.raw_induct [where P = "\<lambda>bs' sz' j r. bs' = bs \<and> sz' = sz \<longrightarrow> False", OF _ that], goal_cases)
    case (1 f bs' sz' j r)
    show ?case
    proof (intro impI, elim conjE)
      assume eq: "bs' = bs" "sz' = sz"
      have uj: "unat (ucast j :: size_t) = unat j" by (simp add: unat_ucast_widen)
      have j: "unat j < 256" using unat_less_length_power [of j] by simp
      have "ucast j < sz" using j assms(1) by (simp add: word_less_nat_alt uj)
      moreover have "bitset_test bs (ucast j) = Inr True"
        using bits.test_flag_ok [of "ucast j" bs] j assms(2,3) by (auto simp: uj)
      ultimately have "f bs sz (j + 1) = Some r" using 1(2) eq by simp
      with 1(1) eq show False by blast
    qed
  qed
  with r show False by blast
qed

end
