(* ===== verification/KStack.thy ===== *)
theory KStack
  imports MathLib
begin

text \<open>
  \<open>lib/stack.c\<close>: the stacks of free physical blocks. A stack keeps only a size and the address of
  its top block; the link to the next block is stored in the first word of the block itself, which
  the kernel reaches by mapping the block's page into one fixed virtual page (\<open>phys_page\<close>).
  The state is the first word of every physical page, the page that is mapped in the window, and the calls of
  \<open>virtual_map\<close> that moved the window: \<open>Paging\<close> carries these out on the page tables, in their order.
  A stack represents a list of block addresses, and the locale \<open>lifo\<close> states what its client, the
  buddy allocator, relies on: last in, first out, and no other page's word changes.
\<close>

section \<open>Definitions\<close>

definition PAGE_SIZE :: u64 where "PAGE_SIZE = 0x1000"

text \<open>\<open>page_words p\<close> is the first word of the physical page at \<open>p\<close>; \<open>window\<close> is the page that
  \<open>phys_page\<close> currently shows; \<open>window_maps\<close> are the addresses \<open>stack_map\<close> asked \<open>virtual_map\<close> to show there.\<close>

record kmem =
  page_words :: "addr_t \<Rightarrow> u64"
  window :: addr_t
  window_maps :: "addr_t list"

record stack =
  stack_size :: size_t
  stack_top :: addr_t

definition page_of :: "addr_t \<Rightarrow> addr_t" where
  "page_of a = ROUND_DOWN a PAGE_SIZE"

text \<open>\<open>virtual_map\<close> installs the page number \<open>physical / 0x1000\<close>: the offset in the page is lost.\<close>

definition stack_map :: "kmem \<Rightarrow> addr_t \<Rightarrow> kmem" where
  "stack_map m physical = m\<lparr>window := page_of physical, window_maps := window_maps m @ [physical]\<rparr>"

definition stack_init :: "stack \<Rightarrow> stack" where
  "stack_init s = s\<lparr>stack_size := 0, stack_top := 0\<rparr>"

definition stack_push :: "kmem \<Rightarrow> stack \<Rightarrow> addr_t \<Rightarrow> kmem \<times> stack" where
  "stack_push m s address =
     (let m1 = stack_map m address;
          m2 = m1\<lparr>page_words := (page_words m1)(window m1 := stack_top s)\<rparr>
      in (m2, s\<lparr>stack_top := address, stack_size := stack_size s + 1\<rparr>))"

definition stack_pop :: "kmem \<Rightarrow> stack \<Rightarrow> addr_t \<times> kmem \<times> stack" where
  "stack_pop m s =
     (if stack_size s = 0 then (0, m, s)
      else let m1 = stack_map m (stack_top s);
               ret = stack_top s
           in (ret, m1, s\<lparr>stack_top := page_words m1 (window m1), stack_size := stack_size s - 1\<rparr>))"

text \<open>The chain of links from an address, and the list of blocks a stack stands for: the blocks lie
  in different pages, since each keeps its link in its own page.\<close>

fun chain :: "(addr_t \<Rightarrow> u64) \<Rightarrow> addr_t \<Rightarrow> addr_t list \<Rightarrow> bool" where
  "chain w p [] = (p = 0)"
| "chain w p (x # xs) = (p = x \<and> chain w (w (page_of x)) xs)"

definition stack_repr :: "kmem \<Rightarrow> stack \<Rightarrow> addr_t list \<Rightarrow> bool" where
  "stack_repr m s xs \<longleftrightarrow>
     unat (stack_size s) = length xs \<and> chain (page_words m) (stack_top s) xs
     \<and> distinct (map page_of xs)"

section \<open>The contract of a stack of blocks\<close>

locale lifo =
  fixes init :: "'s \<Rightarrow> 's"
    and push :: "'m \<Rightarrow> 's \<Rightarrow> addr_t \<Rightarrow> 'm \<times> 's"
    and pop :: "'m \<Rightarrow> 's \<Rightarrow> addr_t \<times> 'm \<times> 's"
    and cell :: "addr_t \<Rightarrow> addr_t"
    and repr :: "'m \<Rightarrow> 's \<Rightarrow> addr_t list \<Rightarrow> bool"
    and count :: "'s \<Rightarrow> size_t"
  assumes init_empty: "repr m (init s) []"
    and push_top: "repr m s xs \<Longrightarrow> cell a \<notin> cell ` set xs \<Longrightarrow>
        push m s a = (m', s') \<Longrightarrow> repr m' s' (a # xs)"
    and push_frame: "repr m t ys \<Longrightarrow> cell a \<notin> cell ` set ys \<Longrightarrow>
        push m s a = (m', s') \<Longrightarrow> repr m' t ys"
    and pop_top: "repr m s (x # xs) \<Longrightarrow> pop m s = (r, m', s') \<Longrightarrow> r = x \<and> repr m' s' xs"
    and pop_empty: "repr m s [] \<Longrightarrow> pop m s = (0, m, s)"
    and pop_frame: "repr m t ys \<Longrightarrow> pop m s = (r, m', s') \<Longrightarrow> repr m' t ys"
    and count_length: "repr m s xs \<Longrightarrow> unat (count s) = length xs"
begin

lemma count_zero_iff: "repr m s xs \<Longrightarrow> count s = 0 \<longleftrightarrow> xs = []"
  using count_length [of m s xs] by (auto simp: unat_eq_0 [symmetric])

lemma repr_unique_length: "repr m s xs \<Longrightarrow> repr m s ys \<Longrightarrow> length xs = length ys"
  using count_length by metis

text \<open>What is pushed comes back first, and the stack is what it was.\<close>

lemma push_pop:
  assumes "repr m s xs" and "cell a \<notin> cell ` set xs"
    and "push m s a = (m1, s1)" and "pop m1 s1 = (r, m2, s2)"
  shows "r = a" and "repr m2 s2 xs"
  using pop_top [OF push_top [OF assms(1-3)] assms(4)] by auto

end

section \<open>The page stack satisfies the contract\<close>

lemma chain_frame:
  "q \<notin> page_of ` set xs \<Longrightarrow> chain (w(q := v)) p xs = chain w p xs"
  by (induction w p xs rule: chain.induct) auto

lemma page_of_le: "page_of a \<noteq> -1"
proof
  assume "page_of a = -1"
  moreover have "4096 dvd unat (page_of a)"
    by (simp add: page_of_def unat_ROUND_DOWN PAGE_SIZE_def)
  ultimately have "4096 dvd (18446744073709551615 :: nat)"
    by (simp add: unsigned_minus_1_eq_mask mask_eq_exp_minus_1)
  then show False by simp
qed

text \<open>There are fewer pages than addresses, so the size of a stack of pages cannot overflow.\<close>

lemma distinct_pages_length: "length xs < 2 ^ 64" if "distinct (map page_of xs)"
proof -
  have "length xs = card (page_of ` set xs)"
    using that distinct_card by fastforce
  also have "\<dots> < card (UNIV :: u64 set)"
  proof (rule psubset_card_mono)
    have "-1 \<notin> page_of ` set xs" using page_of_le by (metis imageE)
    then show "page_of ` set xs \<subset> UNIV" by blast
  qed simp
  finally show ?thesis by (simp add: card_word)
qed

interpretation pages: lifo stack_init stack_push stack_pop page_of stack_repr stack_size
proof (unfold_locales, goal_cases)
  case (1 m s)
  show ?case by (simp add: stack_repr_def stack_init_def)
next
  case (2 m s xs a m' s')
  then have "distinct (map page_of (a # xs))" by (simp add: stack_repr_def)
  then have "Suc (length xs) < 2 ^ 64" using distinct_pages_length by fastforce
  then have "unat (stack_size s + 1) = Suc (length xs)"
    using 2 by (subst unat_add_no_overflow) (auto simp: stack_repr_def)
  with 2 show ?case
    by (auto simp: stack_repr_def stack_push_def stack_map_def Let_def chain_frame)
next
  case (3 m t ys a s m' s')
  then show ?case
    by (auto simp: stack_repr_def stack_push_def stack_map_def Let_def chain_frame)
next
  case (4 m s x xs r m' s')
  then have len: "unat (stack_size s) = Suc (length xs)" by (simp add: stack_repr_def)
  then have "stack_size s \<noteq> 0" by auto
  moreover from this len have "unat (stack_size s - 1) = length xs"
    by (simp add: unat_minus_one)
  ultimately show ?case
    using 4 by (auto simp: stack_repr_def stack_pop_def stack_map_def Let_def)
next
  case (5 m s)
  then show ?case by (auto simp: stack_repr_def stack_pop_def unat_eq_0)
next
  case (6 m t ys s r m' s')
  then show ?case
    by (auto simp: stack_repr_def stack_pop_def stack_map_def Let_def split: if_splits)
next
  case (7 m s xs)
  then show ?case by (simp add: stack_repr_def)
qed

text \<open>The window shows the last page it was moved to.\<close>

definition window_tracks :: "addr_t \<Rightarrow> kmem \<Rightarrow> bool" where
  "window_tracks w m \<longleftrightarrow> window m = last (w # map page_of (window_maps m))"

lemma stack_tracks:
  "stack_push m s a = (m', s') \<Longrightarrow> window_tracks w m'"
  "window_tracks w m \<Longrightarrow> stack_pop m s = (r, m', s') \<Longrightarrow> window_tracks w m'"
  by (auto simp: window_tracks_def stack_push_def stack_pop_def stack_map_def Let_def split: if_splits)

lemma stack_repr_log [simp]: "stack_repr (m\<lparr>window_maps := xs\<rparr>) s ys = stack_repr m s ys"
  by (simp add: stack_repr_def)

lemma stack_repr_distinct: "stack_repr m s xs \<Longrightarrow> distinct (map page_of xs)"
  by (simp add: stack_repr_def)

end
