(* ===== verification/Buddy.thy ===== *)
theory Buddy
  imports Bitset KStack
begin

text \<open>
  \<open>lib/buddy.c\<close>: the buddy allocator of physical memory. Each order has a stack of free blocks and
  a bitset with one bit per block of that order, set while the block must not be merged. The arrays
  \<open>orders[64]\<close> come from \<open>kmalloc\<close> and are not cleared, so \<open>buddy_init\<close> takes what that memory
  held. Orders are natural numbers: the C \<open>uint32_t\<close> order is at most \<open>max_order + 1\<close>, and an index
  of 64 or more is the fault \<open>OutOfBounds\<close>.
\<close>

section \<open>Definitions\<close>

definition BUDDY_MAX_ORDER :: nat where "BUDDY_MAX_ORDER = 64"

record buddy_order =
  order_free :: stack
  order_bitset :: bitset

record buddy =
  buddy_base :: addr_t
  buddy_size :: size_t
  min_order :: u32
  max_order :: u32
  orders :: "buddy_order list"

definition BUDDY_ADDRESS :: "addr_t \<Rightarrow> nat \<Rightarrow> addr_t" where
  "BUDDY_ADDRESS x n = x XOR scast (push_bit n 1 :: c_int)"

definition BUDDY_INDEX :: "addr_t \<Rightarrow> nat \<Rightarrow> size_t" where
  "BUDDY_INDEX x n = x div scast (POW_2 n)"

text \<open>The loop of \<open>buddy_init\<close> over the orders \<open>i \<le> max\<close>. \<open>kmalloc_ok n\<close> tells whether
  \<open>kmalloc(n)\<close> returned memory; the code writes to the result without a check.\<close>

function buddy_init_loop ::
  "(size_t \<Rightarrow> bool) \<Rightarrow> size_t \<Rightarrow> nat \<Rightarrow> nat \<Rightarrow> buddy_order list \<Rightarrow> buddy_order list res" where
  "buddy_init_loop kmalloc_ok sz i mx ords =
     (if i \<le> mx
      then if i < length ords
        then if POW_2 i = 0 then Inl DivByZero
        else let space = BITSET_SIZE_CALC (sz div scast (POW_2 i))
             in if kmalloc_ok space
                then buddy_init_loop kmalloc_ok sz (Suc i) mx
                       (ords[i := (ords ! i)\<lparr>order_free := stack_init (order_free (ords ! i)),
                                            order_bitset := replicate (unat space) BITSET_FULL\<rparr>])
                else Inl NullDeref
        else Inl OutOfBounds
      else Inr ords)"
  by pat_completeness auto
termination
  by (relation "measure (\<lambda>(ok, sz, i, mx, ords). Suc mx - i)") auto

text \<open>\<open>sizeof(struct buddy)\<close>: four header fields and 64 orders of 24 bytes.\<close>

definition sizeof_buddy :: size_t where "sizeof_buddy = 8 + 8 + 4 + 4 + 64 * 24"

definition buddy_init ::
  "(size_t \<Rightarrow> bool) \<Rightarrow> buddy_order list \<Rightarrow> addr_t \<Rightarrow> size_t \<Rightarrow> u8 \<Rightarrow> u8 \<Rightarrow> buddy option res" where
  "buddy_init kmalloc_ok raw base sz mn mx =
     (if sz = 0 \<or> mn = 0 \<or> mx = 0 then Inr None
      else if \<not> kmalloc_ok sizeof_buddy then Inl NullDeref
      else bind_res (buddy_init_loop kmalloc_ok sz (unat mn) (unat mx) raw)
             (\<lambda>ords. Inr (Some \<lparr>buddy_base = base, buddy_size = sz, min_order = ucast mn,
                                max_order = ucast mx, orders = ords\<rparr>)))"

text \<open>\<open>while (order++ <= max_order) if (orders[order].free.size) break;\<close>\<close>

function buddy_find_order :: "buddy_order list \<Rightarrow> nat \<Rightarrow> nat \<Rightarrow> nat option res" where
  "buddy_find_order ords mx n =
     (if n \<le> mx
      then if Suc n < length ords
        then if stack_size (order_free (ords ! Suc n)) \<noteq> 0 then Inr (Some (Suc n))
             else buddy_find_order ords mx (Suc n)
        else Inl OutOfBounds
      else Inr None)"
  by pat_completeness auto
termination
  by (relation "measure (\<lambda>(ords, mx, n). Suc mx - n)") auto

definition order_set_bit :: "buddy_order list \<Rightarrow> nat \<Rightarrow> addr_t \<Rightarrow> buddy_order list res" where
  "order_set_bit ords n a =
     bind_res (bitset_set (order_bitset (ords ! n)) (BUDDY_INDEX a n))
       (\<lambda>bs. Inr (ords[n := (ords ! n)\<lparr>order_bitset := bs\<rparr>]))"

definition order_unset_bit :: "buddy_order list \<Rightarrow> nat \<Rightarrow> addr_t \<Rightarrow> buddy_order list res" where
  "order_unset_bit ords n a =
     bind_res (bitset_unset (order_bitset (ords ! n)) (BUDDY_INDEX a n))
       (\<lambda>bs. Inr (ords[n := (ords ! n)\<lparr>order_bitset := bs\<rparr>]))"

definition order_push :: "kmem \<Rightarrow> buddy_order list \<Rightarrow> nat \<Rightarrow> addr_t \<Rightarrow> kmem \<times> buddy_order list" where
  "order_push m ords n a =
     (let (m', s') = stack_push m (order_free (ords ! n)) a
      in (m', ords[n := (ords ! n)\<lparr>order_free := s'\<rparr>]))"

definition order_pop :: "kmem \<Rightarrow> buddy_order list \<Rightarrow> nat \<Rightarrow> addr_t \<times> kmem \<times> buddy_order list" where
  "order_pop m ords n =
     (let (r, m', s') = stack_pop m (order_free (ords ! n))
      in (r, m', ords[n := (ords ! n)\<lparr>order_free := s'\<rparr>]))"

text \<open>\<open>for (; order > original_order; order--)\<close>: the split of a larger block.\<close>

fun buddy_split :: "kmem \<Rightarrow> buddy_order list \<Rightarrow> addr_t \<Rightarrow> nat \<Rightarrow> nat \<Rightarrow> (kmem \<times> buddy_order list) res" where
  "buddy_split m ords a original 0 = Inr (m, ords)"
| "buddy_split m ords a original (Suc n) =
     (if original < Suc n
      then bind_res (order_set_bit ords (Suc n) a)
             (\<lambda>ords1. bind_res (order_set_bit ords1 n a)
               (\<lambda>ords2. let (m', ords3) = order_push m ords2 n (BUDDY_ADDRESS a n)
                        in buddy_split m' ords3 a original n))
      else Inr (m, ords))"

definition buddy_alloc :: "kmem \<Rightarrow> buddy option \<Rightarrow> size_t \<Rightarrow> (addr_t \<times> kmem \<times> buddy option) res" where
  "buddy_alloc m bo sz =
     (case bo of None \<Rightarrow> Inr (NULL, m, None)
      | Some b \<Rightarrow>
        let ord0 = log_2 sz;
            ord1 = (if ord0 < min_order b then min_order b else ord0)
        in if ord1 > max_order b then Inr (NULL, m, bo)
           else let n = unat ord1; mx = unat (max_order b); ords = orders b
           in if \<not> n < length ords then Inl OutOfBounds
           else if stack_size (order_free (ords ! n)) = 0
             then bind_res (buddy_find_order ords mx n) (\<lambda>found.
                    case found of None \<Rightarrow> Inr (NULL, m, bo)
                    | Some k \<Rightarrow>
                      let (a, m1, ords1) = order_pop m ords k
                      in bind_res (buddy_split m1 ords1 a n k)
                           (\<lambda>(m2, ords2). Inr (a, m2, Some (b\<lparr>orders := ords2\<rparr>))))
             else let (a, m1, ords1) = order_pop m ords n
                  in bind_res (order_set_bit ords1 n a)
                       (\<lambda>ords2. Inr (a, m1, Some (b\<lparr>orders := ords2\<rparr>))))"

text \<open>The loop of \<open>buddy_free\<close>. The address stays the same when the order goes up, and the buddy is
  not taken off its stack.\<close>

function buddy_free_loop :: "kmem \<Rightarrow> buddy_order list \<Rightarrow> nat \<Rightarrow> addr_t \<Rightarrow> nat \<Rightarrow> (kmem \<times> buddy_order list) res" where
  "buddy_free_loop m ords mx a n =
     (if n \<le> mx
      then if n < length ords
        then bind_res (order_unset_bit ords n a) (\<lambda>ords1.
             bind_res (bitset_test (order_bitset (ords1 ! n)) (BUDDY_INDEX (BUDDY_ADDRESS a n) n)) (\<lambda>t.
               if t \<or> n = mx then Inr (order_push m ords1 n a)
               else buddy_free_loop m ords1 mx a (Suc n)))
        else Inl OutOfBounds
      else Inr (m, ords))"
  by pat_completeness auto
termination
  by (relation "measure (\<lambda>(m, ords, mx, a, n). Suc mx - n)") auto

definition buddy_free :: "kmem \<Rightarrow> buddy \<Rightarrow> addr_t \<Rightarrow> size_t \<Rightarrow> (kmem \<times> buddy) res" where
  "buddy_free m b a sz =
     bind_res (buddy_free_loop m (orders b) (unat (max_order b)) a (unat (log_2 sz)))
       (\<lambda>(m', ords). Inr (m', b\<lparr>orders := ords\<rparr>))"

text \<open>\<open>while (addr + chunk <= end)\<close>; the sum may wrap around, so the loop may not end.\<close>

partial_function (option) free_region_chunks ::
  "kmem \<Rightarrow> buddy \<Rightarrow> addr_t \<Rightarrow> addr_t \<Rightarrow> size_t \<Rightarrow> (kmem \<times> buddy \<times> addr_t) res option" where
  "free_region_chunks m b a stop chunk =
     (if a + chunk \<le> stop
      then (case buddy_free m b a chunk of
              Inl e \<Rightarrow> Some (Inl e)
            | Inr (m', b') \<Rightarrow> free_region_chunks m' b' (a + chunk) stop chunk)
      else Some (Inr (m, b, a)))"

text \<open>\<open>for (order = max_order; order >= min_order; order--)\<close>: with a minimum of zero the unsigned
  counter wraps around and the loop never ends.\<close>

partial_function (option) free_region_orders ::
  "kmem \<Rightarrow> buddy \<Rightarrow> addr_t \<Rightarrow> addr_t \<Rightarrow> u32 \<Rightarrow> (kmem \<times> buddy) res option" where
  "free_region_orders m b a stop ord =
     (if ord \<ge> min_order b
      then (case free_region_chunks m b a stop (scast (POW_2 (unat ord))) of
              None \<Rightarrow> None
            | Some (Inl e) \<Rightarrow> Some (Inl e)
            | Some (Inr (m', b', a')) \<Rightarrow> free_region_orders m' b' a' stop (ord - 1))
      else Some (Inr (m, b)))"

definition buddy_free_region :: "kmem \<Rightarrow> buddy \<Rightarrow> addr_t \<Rightarrow> size_t \<Rightarrow> (kmem \<times> buddy) res option" where
  "buddy_free_region m b start sz = free_region_orders m b start (start + sz) (max_order b)"

declare buddy_init_loop.simps [simp del] buddy_find_order.simps [simp del] buddy_free_loop.simps [simp del]

section \<open>The invariant: free and allocated blocks are disjoint\<close>

type_synonym block = "nat \<times> addr_t"

definition extent :: "block \<Rightarrow> nat set" where
  "extent B = {unat (snd B) ..< unat (snd B) + 2 ^ fst B}"

text \<open>A block of order \<open>k\<close> is aligned to \<open>2^k\<close>, ends below \<open>2^64\<close> and has a bit in the bitset of every
  order.\<close>

definition block_ok :: "buddy_order list \<Rightarrow> nat \<Rightarrow> nat \<Rightarrow> block \<Rightarrow> bool" where
  "block_ok ords mn mx B \<longleftrightarrow>
     mn \<le> fst B \<and> fst B \<le> mx \<and> 2 ^ fst B dvd unat (snd B) \<and> unat (snd B) + 2 ^ fst B \<le> 2 ^ 64
     \<and> (\<forall>j. mn \<le> j \<and> j \<le> mx \<longrightarrow>
          unat (snd B) + 2 ^ fst B \<le> 8 * length (order_bitset (ords ! j)) * 2 ^ j)"

definition free_set :: "nat \<Rightarrow> nat \<Rightarrow> (nat \<Rightarrow> addr_t list) \<Rightarrow> block set" where
  "free_set mn mx fl = {(k, a). mn \<le> k \<and> k \<le> mx \<and> a \<in> set (fl k)}"

text \<open>\<open>fl k\<close> is the list of free blocks of order \<open>k\<close>, \<open>H\<close> the set of blocks handed out.\<close>

definition orders_inv ::
  "kmem \<Rightarrow> buddy_order list \<Rightarrow> nat \<Rightarrow> nat \<Rightarrow> (nat \<Rightarrow> addr_t list) \<Rightarrow> block set \<Rightarrow> bool" where
  "orders_inv m ords mn mx fl H \<longleftrightarrow>
     length ords = 64 \<and> 12 \<le> mn \<and> mn \<le> mx \<and> mx < 31
     \<and> stack_size (order_free (ords ! Suc mx)) = 0
     \<and> (\<forall>k. mn \<le> k \<and> k \<le> mx \<longrightarrow> stack_repr m (order_free (ords ! k)) (fl k))
     \<and> (\<forall>B \<in> free_set mn mx fl \<union> H. block_ok ords mn mx B)
     \<and> pairwise (\<lambda>B C. disjnt (extent B) (extent C)) (free_set mn mx fl \<union> H)
     \<and> free_set mn mx fl \<inter> H = {}"

definition buddy_inv :: "kmem \<Rightarrow> buddy \<Rightarrow> (nat \<Rightarrow> addr_t list) \<Rightarrow> block set \<Rightarrow> bool" where
  "buddy_inv m b fl H \<longleftrightarrow>
     orders_inv m (orders b) (unat (min_order b)) (unat (max_order b)) fl H"

definition covered :: "nat \<Rightarrow> nat \<Rightarrow> (nat \<Rightarrow> addr_t list) \<Rightarrow> block set \<Rightarrow> nat set" where
  "covered mn mx fl H = \<Union> (extent ` (free_set mn mx fl \<union> H))"

lemma free_set_iff [simp]: "(k, a) \<in> free_set mn mx fl \<longleftrightarrow> mn \<le> k \<and> k \<le> mx \<and> a \<in> set (fl k)"
  by (simp add: free_set_def)

lemma orders_invD:
  assumes "orders_inv m ords mn mx fl H"
  shows "length ords = 64" and "12 \<le> mn" and "mn \<le> mx" and "mx < 31"
    and "stack_size (order_free (ords ! Suc mx)) = 0"
    and "mn \<le> k \<Longrightarrow> k \<le> mx \<Longrightarrow> stack_repr m (order_free (ords ! k)) (fl k)"
    and "B \<in> free_set mn mx fl \<union> H \<Longrightarrow> block_ok ords mn mx B"
    and "pairwise (\<lambda>B C. disjnt (extent B) (extent C)) (free_set mn mx fl \<union> H)"
    and "free_set mn mx fl \<inter> H = {}"
  using assms by (auto simp: orders_inv_def)

lemma orders_inv_cong:
  assumes "orders_inv m ords mn mx fl H" and "length ords' = length ords"
    and "\<And>i. i < 64 \<Longrightarrow> order_free (ords' ! i) = order_free (ords ! i)"
    and "\<And>i. i < 64 \<Longrightarrow> length (order_bitset (ords' ! i)) = length (order_bitset (ords ! i))"
  shows "orders_inv m ords' mn mx fl H"
proof -
  have "mx < 31" using assms(1) by (rule orders_invD)
  then have "block_ok ords' mn mx B = block_ok ords mn mx B" for B
    using assms(4) by (auto simp: block_ok_def)
  then show ?thesis
    using assms(1,2,3) \<open>mx < 31\<close> unfolding orders_inv_def by simp
qed

section \<open>Arithmetic of blocks\<close>

lemma unat_BUDDY_INDEX: "unat (BUDDY_INDEX a j) = unat a div 2 ^ j" if "j < 31"
  using that by (simp add: BUDDY_INDEX_def unat_div_distrib unat_POW_2_64)

lemma bit_BUDDY_ADDRESS: "bit (BUDDY_ADDRESS a k) i = (bit a i \<noteq> (i = k))" if "k < 31" "i < 64"
proof -
  have "(scast (push_bit k 1 :: c_int) :: addr_t) = 2 ^ k"
    using scast_POW_2 [OF that(1)] by (simp add: POW_2_def push_bit_eq_mult)
  then show ?thesis
    using that by (auto simp: BUDDY_ADDRESS_def bit_xor_iff bit_exp_iff)
qed

lemma buddy_index_neq: "BUDDY_INDEX (BUDDY_ADDRESS a k) k \<noteq> BUDDY_INDEX a k" if "k < 31"
proof
  assume "BUDDY_INDEX (BUDDY_ADDRESS a k) k = BUDDY_INDEX a k"
  then have "unat (BUDDY_ADDRESS a k) div 2 ^ k = unat a div 2 ^ k"
    using unat_BUDDY_INDEX [OF that] by metis
  then have "drop_bit k (BUDDY_ADDRESS a k) = drop_bit k a"
    by (simp add: word_unat_eq_iff unat_drop_bit_div)
  then have "bit (BUDDY_ADDRESS a k) k = bit a k"
    by (simp add: bit_iff_odd_drop_bit)
  then show False using bit_BUDDY_ADDRESS [OF that, of k a] that by simp
qed

lemma not_bit_aligned: "\<not> bit a k" if "2 ^ Suc k dvd unat a" for a :: addr_t
proof -
  from that obtain q where "unat a = 2 ^ Suc k * q" by (auto elim: dvdE)
  then have "unat a div 2 ^ k = 2 * q" by simp
  then have "even (unat a div 2 ^ k)" by simp
  then have "\<not> bit (unat a) k" by (simp add: bit_iff_odd)
  then show ?thesis by (simp add: bit_unsigned_iff)
qed

lemma unat_BUDDY_ADDRESS:
  assumes "2 ^ Suc k dvd unat a" and "k < 31" and "unat a + 2 ^ Suc k \<le> 2 ^ 64"
  shows "unat (BUDDY_ADDRESS a k) = unat a + 2 ^ k"
proof -
  have k: "(scast (push_bit k 1 :: c_int) :: addr_t) = 2 ^ k"
    using scast_POW_2 [OF assms(2)] by (simp add: POW_2_def push_bit_eq_mult)
  have "a AND 2 ^ k = 0"
    using not_bit_aligned [OF assms(1)] by (simp add: and_exp_eq_0_iff_not_bit)
  then have "BUDDY_ADDRESS a k = a + 2 ^ k"
    unfolding BUDDY_ADDRESS_def k by (simp add: disjunctive_add_eq_xor)
  moreover have "unat ((2 :: addr_t) ^ k) = 2 ^ k"
    using assms(2) by (intro unat_exp) simp
  moreover have "unat a + 2 ^ k < 2 ^ 64"
  proof -
    have "(0::nat) < 2 ^ k" by simp
    then show ?thesis using assms(3) by (simp only: power_Suc)
  qed
  ultimately show ?thesis by (simp add: unat_add_no_overflow)
qed

lemma page_of_aligned: "page_of a = a" if "2 ^ k dvd unat a" and "12 \<le> k"
proof -
  have "(4096::nat) = 2 ^ 12" by simp
  also have "\<dots> dvd 2 ^ k" using that(2) by (rule le_imp_power_dvd)
  finally have "4096 dvd unat a" using that(1) dvd_trans by blast
  then have "unat (page_of a) = unat a"
    by (simp add: page_of_def unat_ROUND_DOWN PAGE_SIZE_def)
  then show ?thesis by (simp add: word_unat_eq_iff)
qed

lemma extent_nonempty: "unat (snd B) \<in> extent B"
  by (simp add: extent_def)

lemma free_set_upd:
  "mn \<le> k \<Longrightarrow> k \<le> mx \<Longrightarrow>
    free_set mn mx (fl(k := xs)) = {B \<in> free_set mn mx fl. fst B \<noteq> k} \<union> {k} \<times> set xs"
  by (auto simp: free_set_def split: if_splits)

lemma inv_distinct_addr:
  assumes "orders_inv m ords mn mx fl H" and "(k, a) \<in> H" and "(j, c) \<in> free_set mn mx fl"
  shows "page_of a \<noteq> page_of c"
proof -
  note D = orders_invD [OF assms(1)]
  have "block_ok ords mn mx (k, a)" "block_ok ords mn mx (j, c)"
    using D(7) assms(2,3) by auto
  then have "page_of a = a" "page_of c = c"
    using page_of_aligned [of k a] page_of_aligned [of j c] D(2) by (auto simp: block_ok_def)
  moreover have "a \<noteq> c"
  proof
    assume "a = c"
    have "(k, a) \<noteq> (j, c)" using D(9) assms(2,3) by (auto simp: disjoint_iff)
    then have "disjnt (extent (k, a)) (extent (j, c))"
      using pairwiseD [OF D(8), of "(k, a)" "(j, c)"] assms(2,3) by auto
    then show False
      using extent_nonempty [of "(k, a)"] extent_nonempty [of "(j, c)"] \<open>a = c\<close>
      by (auto simp: disjnt_def)
  qed
  ultimately show ?thesis by simp
qed

section \<open>Steps of the allocator keep the invariant\<close>

lemma order_pop_inv:
  assumes inv: "orders_inv m ords mn mx fl H" and k: "mn \<le> k" "k \<le> mx"
    and fl: "fl k = a # xs" and pop: "order_pop m ords k = (r, m1, ords1)"
  shows "r = a" and "orders_inv m1 ords1 mn mx (fl(k := xs)) (insert (k, a) H)"
    and "covered mn mx (fl(k := xs)) (insert (k, a) H) = covered mn mx fl H"
    and "\<And>j. order_bitset (ords1 ! j) = order_bitset (ords ! j)"
proof -
  note D = orders_invD [OF inv]
  obtain s' where sp: "stack_pop m (order_free (ords ! k)) = (r, m1, s')"
    and ords1: "ords1 = ords[k := (ords ! k)\<lparr>order_free := s'\<rparr>]"
    using pop by (auto simp: order_pop_def split: prod.splits)
  have rep: "stack_repr m (order_free (ords ! k)) (a # xs)" using D(6) [OF k] fl by simp
  from pages.pop_top [OF rep sp] show r: "r = a" by simp
  have len: "k < length ords" using D(1,4) k by simp
  show bs: "order_bitset (ords1 ! j) = order_bitset (ords ! j)" for j
    using len by (cases "j = k") (simp_all add: ords1)
  have sub: "set xs \<subseteq> set (fl k)" "a \<notin> set xs"
    using fl stack_repr_distinct [OF rep] by auto
  have un: "free_set mn mx (fl(k := xs)) \<union> insert (k, a) H = free_set mn mx fl \<union> H"
    using k fl by (auto split: if_splits)
  have dis: "free_set mn mx (fl(k := xs)) \<inter> insert (k, a) H = {}"
    using D(9) sub k by (auto simp: disjoint_iff split: if_splits)
  have "stack_repr m1 (order_free (ords1 ! j)) ((fl(k := xs)) j)" if "mn \<le> j" "j \<le> mx" for j
  proof (cases "j = k")
    case True
    then show ?thesis using pages.pop_top [OF rep sp] len by (simp add: ords1)
  next
    case False
    then show ?thesis
      using pages.pop_frame [OF D(6) [OF that] sp] by (simp add: ords1)
  qed
  then show "orders_inv m1 ords1 mn mx (fl(k := xs)) (insert (k, a) H)"
    using D(1-5,7,8) dis bs k
    unfolding orders_inv_def un block_ok_def by (simp add: ords1)
  show "covered mn mx (fl(k := xs)) (insert (k, a) H) = covered mn mx fl H"
    unfolding covered_def un ..
qed

lemma order_push_inv:
  assumes inv: "orders_inv m ords mn mx fl H" and H: "(k, a) \<in> H"
    and push: "order_push m ords k a = (m1, ords1)"
  shows "orders_inv m1 ords1 mn mx (fl(k := a # fl k)) (H - {(k, a)})"
    and "covered mn mx (fl(k := a # fl k)) (H - {(k, a)}) = covered mn mx fl H"
proof -
  note D = orders_invD [OF inv]
  obtain s' where sp: "stack_push m (order_free (ords ! k)) a = (m1, s')"
    and ords1: "ords1 = ords[k := (ords ! k)\<lparr>order_free := s'\<rparr>]"
    using push by (auto simp: order_push_def split: prod.splits)
  have k: "mn \<le> k" "k \<le> mx" using D(7) [of "(k, a)"] H by (auto simp: block_ok_def)
  have len: "k < length ords" using D(1,4) k by simp
  have bs: "order_bitset (ords1 ! j) = order_bitset (ords ! j)" for j
    using len by (cases "j = k") (simp_all add: ords1)
  have fresh: "page_of a \<notin> page_of ` set (fl j)" if "mn \<le> j" "j \<le> mx" for j
    using inv_distinct_addr [OF inv H] that by (fastforce simp: free_set_def)
  have un: "free_set mn mx (fl(k := a # fl k)) \<union> (H - {(k, a)}) = free_set mn mx fl \<union> H"
    using k H by (auto split: if_splits)
  have dis: "free_set mn mx (fl(k := a # fl k)) \<inter> (H - {(k, a)}) = {}"
    using D(9) by (auto simp: disjoint_iff split: if_splits)
  have "stack_repr m1 (order_free (ords1 ! j)) ((fl(k := a # fl k)) j)" if "mn \<le> j" "j \<le> mx" for j
  proof (cases "j = k")
    case True
    then show ?thesis
      using pages.push_top [OF D(6) [OF k] fresh [OF k] sp] len by (simp add: ords1)
  next
    case False
    then show ?thesis
      using pages.push_frame [OF D(6) [OF that] fresh [OF that] sp] by (simp add: ords1)
  qed
  then show "orders_inv m1 ords1 mn mx (fl(k := a # fl k)) (H - {(k, a)})"
    using D(1-5,7,8) dis bs k
    unfolding orders_inv_def un block_ok_def by (simp add: ords1)
  show "covered mn mx (fl(k := a # fl k)) (H - {(k, a)}) = covered mn mx fl H"
    unfolding covered_def un ..
qed

lemma order_set_bit_inv:
  assumes inv: "orders_inv m ords mn mx fl H" and H: "(k, a) \<in> H" and j: "mn \<le> j" "j \<le> mx"
  obtains ords1 where "order_set_bit ords j a = Inr ords1" and "orders_inv m ords1 mn mx fl H"
proof -
  note D = orders_invD [OF inv]
  have j64: "j < length ords" "j < 31" using D(1,4) j by simp_all
  have "unat a + 2 ^ k \<le> 8 * length (order_bitset (ords ! j)) * 2 ^ j"
    using D(7) [of "(k, a)"] H j by (auto simp: block_ok_def)
  moreover have "(0::nat) < 2 ^ k" by simp
  ultimately have "unat a < 8 * length (order_bitset (ords ! j)) * 2 ^ j" by linarith
  then have "unat (BUDDY_INDEX a j) < 8 * length (order_bitset (ords ! j))"
    using j64 by (simp add: unat_BUDDY_INDEX div_less_iff_less_mult)
  then obtain bs where bs: "bitset_set (order_bitset (ords ! j)) (BUDDY_INDEX a j) = Inr bs"
      "8 * length bs = 8 * length (order_bitset (ords ! j))"
    using bits.set_flag_ok by blast
  define ords1 where "ords1 = ords[j := (ords ! j)\<lparr>order_bitset := bs\<rparr>]"
  have "orders_inv m ords1 mn mx fl H"
  proof (rule orders_inv_cong [OF inv])
    show "length ords1 = length ords" by (simp add: ords1_def)
    show "order_free (ords1 ! i) = order_free (ords ! i)" for i
      using j64 by (cases "i = j") (simp_all add: ords1_def)
    show "length (order_bitset (ords1 ! i)) = length (order_bitset (ords ! i))" for i
      using j64 bs(2) by (cases "i = j") (simp_all add: ords1_def)
  qed
  moreover have "order_set_bit ords j a = Inr ords1"
    using bs(1) by (simp add: order_set_bit_def ords1_def)
  ultimately show ?thesis using that by blast
qed

text \<open>Cutting a block in two.\<close>

lemma extent_halves:
  assumes "2 ^ Suc k dvd unat a" and "k < 31" and "unat a + 2 ^ Suc k \<le> 2 ^ 64"
  shows "extent (k, a) \<union> extent (k, BUDDY_ADDRESS a k) = extent (Suc k, a)"
    and "disjnt (extent (k, a)) (extent (k, BUDDY_ADDRESS a k))"
  using unat_BUDDY_ADDRESS [OF assms] by (auto simp: extent_def disjnt_def)

lemma block_ok_halves:
  assumes "block_ok ords mn mx (Suc k, a)" and "mn \<le> k" and "mx < 31"
  shows "block_ok ords mn mx (k, a)" and "block_ok ords mn mx (k, BUDDY_ADDRESS a k)"
proof -
  from assms(1) have A: "2 ^ Suc k dvd unat a" "unat a + 2 ^ Suc k \<le> 2 ^ 64" "Suc k \<le> mx"
    and cap: "\<And>j. mn \<le> j \<Longrightarrow> j \<le> mx \<Longrightarrow> unat a + 2 ^ Suc k \<le> 8 * length (order_bitset (ords ! j)) * 2 ^ j"
    by (auto simp: block_ok_def)
  have half: "unat (BUDDY_ADDRESS a k) = unat a + 2 ^ k"
    using A assms(3) by (intro unat_BUDDY_ADDRESS) simp_all
  have k: "2 ^ k dvd unat a" using A(1) by (auto intro: dvd_trans [OF le_imp_power_dvd])
  show "block_ok ords mn mx (k, a)"
    using A k cap assms(2) by (fastforce simp: block_ok_def)
  show "block_ok ords mn mx (k, BUDDY_ADDRESS a k)"
    using A k cap assms(2) by (simp add: block_ok_def half add.assoc mult_2 [symmetric])
qed

lemma split_held_inv:
  assumes inv: "orders_inv m ords mn mx fl H" and H: "(Suc k, a) \<in> H" and mn: "mn \<le> k"
  defines "H' \<equiv> insert (k, a) (insert (k, BUDDY_ADDRESS a k) (H - {(Suc k, a)}))"
  shows "orders_inv m ords mn mx fl H'" and "covered mn mx fl H' = covered mn mx fl H"
    and "(k, a) \<notin> H" and "(k, BUDDY_ADDRESS a k) \<notin> H" and "BUDDY_ADDRESS a k \<noteq> a"
proof -
  note D = orders_invD [OF inv]
  have blk: "block_ok ords mn mx (Suc k, a)" using D(7) H by blast
  have k31: "k < 31" using blk D(4) by (simp add: block_ok_def)
  note halves = extent_halves [of k a] block_ok_halves [OF blk mn D(4)]
  have al: "2 ^ Suc k dvd unat a" "unat a + 2 ^ Suc k \<le> 2 ^ 64"
    using blk by (auto simp: block_ok_def)
  let ?F = "free_set mn mx fl" and ?S = "free_set mn mx fl \<union> (H - {(Suc k, a)})"
  have out: "disjnt (extent B) (extent (Suc k, a))" if "B \<in> ?S" for B
  proof -
    have "B \<noteq> (Suc k, a)" using that D(9) H by auto
    then show ?thesis using pairwiseD [OF D(8), of B "(Suc k, a)"] that H by auto
  qed
  have sub: "extent (k, a) \<subseteq> extent (Suc k, a)" "extent (k, BUDDY_ADDRESS a k) \<subseteq> extent (Suc k, a)"
    using halves(1) [OF al(1) k31 al(2)] by auto
  have notin: "(k, c) \<notin> ?S" if "extent (k, c) \<subseteq> extent (Suc k, a)" for c
    using out [of "(k, c)"] that extent_nonempty [of "(k, c)"] by (auto simp: disjnt_def)
  show "(k, a) \<notin> H" "(k, BUDDY_ADDRESS a k) \<notin> H"
    using notin [OF sub(1)] notin [OF sub(2)] by auto
  show "BUDDY_ADDRESS a k \<noteq> a"
    using halves(2) [OF al(1) k31 al(2)] extent_nonempty [of "(k, a)"] by (auto simp: disjnt_def)
  have S': "?F \<union> H' = insert (k, a) (insert (k, BUDDY_ADDRESS a k) ?S)"
    by (auto simp: H'_def)
  have apart: "disjnt (extent B) X" "disjnt X (extent B)"
    if "B \<in> ?S" "X \<subseteq> extent (Suc k, a)" for B X
    using out [OF that(1)] that(2) by (auto simp: disjnt_def)
  have "pairwise (\<lambda>B C. disjnt (extent B) (extent C)) ?S"
    by (rule pairwise_subset [OF D(8)]) blast
  then have pw: "pairwise (\<lambda>B C. disjnt (extent B) (extent C)) (?F \<union> H')"
    unfolding S' pairwise_insert
    using apart [OF _ sub(1)] apart [OF _ sub(2)] halves(2) [OF al(1) k31 al(2)]
    by (metis disjnt_sym insertE)
  have "?F \<inter> H' = {}"
    using notin [OF sub(1)] notin [OF sub(2)] D(9) by (auto simp: H'_def)
  moreover have "\<forall>B \<in> ?F \<union> H'. block_ok ords mn mx B"
    using halves(3,4) D(7) unfolding S' by auto
  ultimately show "orders_inv m ords mn mx fl H'"
    using D(1-6) pw by (simp add: orders_inv_def)
  have "?F \<union> H = insert (Suc k, a) ?S" using H by auto
  then show "covered mn mx fl H' = covered mn mx fl H"
    unfolding covered_def S' using halves(1) [OF al(1) k31 al(2)] by auto
qed

lemma buddy_split_inv:
  assumes "orders_inv m ords mn mx fl H" and "(k, a) \<in> H" and "mn \<le> n" and "n \<le> k"
  shows "\<exists>m' ords' fl'. buddy_split m ords a n k = Inr (m', ords')
     \<and> orders_inv m' ords' mn mx fl' (insert (n, a) (H - {(k, a)}))
     \<and> covered mn mx fl' (insert (n, a) (H - {(k, a)})) = covered mn mx fl H"
  using assms
proof (induction k arbitrary: m ords fl H)
  case 0
  then show ?case by (auto simp: insert_absorb)
next
  case (Suc k)
  show ?case
  proof (cases "n = Suc k")
    case True
    with Suc.prems show ?thesis by (auto simp: insert_absorb)
  next
    case False
    then have n: "n \<le> k" "n < Suc k" using Suc.prems(4) by auto
    have rng: "mn \<le> k" "Suc k \<le> mx" "k \<le> mx"
      using orders_invD(7) [OF Suc.prems(1), of "(Suc k, a)"] Suc.prems(2,3) n by (auto simp: block_ok_def)
    obtain ords1 where o1: "order_set_bit ords (Suc k) a = Inr ords1" "orders_inv m ords1 mn mx fl H"
      using order_set_bit_inv [OF Suc.prems(1,2), of "Suc k"] rng by auto
    obtain ords2 where o2: "order_set_bit ords1 k a = Inr ords2" "orders_inv m ords2 mn mx fl H"
      using order_set_bit_inv [OF o1(2) Suc.prems(2) rng(1,3)] by auto
    obtain m3 ords3 where o3: "order_push m ords2 k (BUDDY_ADDRESS a k) = (m3, ords3)" by fastforce
    let ?H = "insert (k, a) (H - {(Suc k, a)})"
    note split = split_held_inv [OF o2(2) Suc.prems(2) rng(1)]
    have H: "insert (k, a) (insert (k, BUDDY_ADDRESS a k) (H - {(Suc k, a)})) - {(k, BUDDY_ADDRESS a k)} = ?H"
      using split(3-5) by auto
    note push = order_push_inv [OF split(1) _ o3, unfolded H]
    have H2: "insert (n, a) (?H - {(k, a)}) = insert (n, a) (H - {(Suc k, a)})"
      using split(3) by auto
    have "\<exists>m' ords' fl'. buddy_split m3 ords3 a n k = Inr (m', ords')
        \<and> orders_inv m' ords' mn mx fl' (insert (n, a) (?H - {(k, a)}))
        \<and> covered mn mx fl' (insert (n, a) (?H - {(k, a)})) = covered mn mx (fl(k := BUDDY_ADDRESS a k # fl k)) ?H"
      by (rule Suc.IH [OF push(1) _ Suc.prems(3) n(1)]) simp_all
    moreover have "covered mn mx (fl(k := BUDDY_ADDRESS a k # fl k)) ?H = covered mn mx fl H"
      using push(2) split(2) by simp
    moreover have "buddy_split m ords a n (Suc k) = buddy_split m3 ords3 a n k"
      using o1(1) o2(1) o3 n by simp
    ultimately show ?thesis unfolding H2 by simp
  qed
qed

lemma buddy_find_order_inv:
  assumes "orders_inv m ords mn mx fl H" and "mn \<le> n" and "n \<le> Suc mx"
  shows "(buddy_find_order ords mx n = Inr None \<and> (\<forall>j. n < j \<and> j \<le> mx \<longrightarrow> fl j = []))
    \<or> (\<exists>j. buddy_find_order ords mx n = Inr (Some j) \<and> n < j \<and> j \<le> mx \<and> fl j \<noteq> []
          \<and> (\<forall>i. n < i \<and> i < j \<longrightarrow> fl i = []))"
  using assms
proof (induction "Suc mx - n" arbitrary: n)
  case 0
  then show ?case by (auto simp: buddy_find_order.simps [of ords mx n])
next
  case (Suc d)
  note D = orders_invD [OF Suc.prems(1)]
  have le: "n \<le> mx" and idx: "Suc n < length ords" using Suc.hyps(2) D(1,4) by simp_all
  show ?case
  proof (cases "Suc n \<le> mx \<and> fl (Suc n) \<noteq> []")
    case True
    then have "stack_size (order_free (ords ! Suc n)) \<noteq> 0"
      using pages.count_zero_iff [OF D(6) [of "Suc n"]] Suc.prems(2) by auto
    with True le idx show ?thesis
      by (intro disjI2 exI [of _ "Suc n"]) (auto simp: buddy_find_order.simps [of ords mx n])
  next
    case False
    have "stack_size (order_free (ords ! Suc n)) = 0"
    proof (cases "Suc n \<le> mx")
      case True
      with False show ?thesis
        using pages.count_zero_iff [OF D(6) [of "Suc n"]] Suc.prems(2) by auto
    next
      case False
      with le show ?thesis using D(5) by (simp add: not_le less_Suc_eq_le)
    qed
    then have step: "buddy_find_order ords mx n = buddy_find_order ords mx (Suc n)"
      using le idx by (simp add: buddy_find_order.simps [of ords mx n])
    have nil: "Suc n \<le> mx \<Longrightarrow> fl (Suc n) = []" using False by simp
    have above: "fl i = []" if "n < i" "i \<le> mx" "Suc n < i \<Longrightarrow> fl i = []" for i
      using that nil by (cases "i = Suc n") auto
    have "d = Suc mx - Suc n" "mn \<le> Suc n" "Suc n \<le> Suc mx"
      using Suc.hyps(2) Suc.prems(2) le by simp_all
    note IH = Suc.hyps(1) [OF this(1) Suc.prems(1) this(2,3)]
    from IH consider "buddy_find_order ords mx (Suc n) = Inr None" "\<forall>j. Suc n < j \<and> j \<le> mx \<longrightarrow> fl j = []"
      | j where "buddy_find_order ords mx (Suc n) = Inr (Some j)" "Suc n < j" "j \<le> mx" "fl j \<noteq> []"
          "\<forall>i. Suc n < i \<and> i < j \<longrightarrow> fl i = []"
      by blast
    then show ?thesis
    proof cases
      case 1
      then show ?thesis unfolding step using above by blast
    next
      case (2 j)
      have "fl i = []" if "n < i" "i < j" for i
        using above [of i] that 2 by simp
      with 2 show ?thesis unfolding step by (intro disjI2 exI [of _ j]) auto
    qed
  qed
qed

definition alloc_order :: "buddy \<Rightarrow> size_t \<Rightarrow> nat" where
  "alloc_order b sz = max (unat (min_order b)) (unat (log_2 sz))"

lemma buddy_alloc_unfold:
  assumes "length (orders b) = 64" and "unat (max_order b) < 31"
  shows "buddy_alloc m (Some b) sz =
    (let n = alloc_order b sz; mx = unat (max_order b); ords = orders b
     in if n > mx then Inr (NULL, m, Some b)
        else if stack_size (order_free (ords ! n)) = 0
          then bind_res (buddy_find_order ords mx n) (\<lambda>found.
                 case found of None \<Rightarrow> Inr (NULL, m, Some b)
                 | Some k \<Rightarrow>
                   let (a, m1, ords1) = order_pop m ords k
                   in bind_res (buddy_split m1 ords1 a n k)
                        (\<lambda>(m2, ords2). Inr (a, m2, Some (b\<lparr>orders := ords2\<rparr>))))
          else let (a, m1, ords1) = order_pop m ords n
               in bind_res (order_set_bit ords1 n a)
                    (\<lambda>ords2. Inr (a, m1, Some (b\<lparr>orders := ords2\<rparr>))))"
proof -
  have "unat (if log_2 sz < min_order b then min_order b else log_2 sz) = alloc_order b sz"
    by (simp add: alloc_order_def word_less_nat_alt)
  then show ?thesis
    using assms unfolding buddy_alloc_def by (simp add: word_less_nat_alt Let_def)
qed

lemma buddy_inv_mono_orders:
  "buddy_inv m (b\<lparr>orders := ords\<rparr>) fl H =
     orders_inv m ords (unat (min_order b)) (unat (max_order b)) fl H"
  by (simp add: buddy_inv_def)

text \<open>The two paths of an allocation: from the stack of its own order, and from a larger block.\<close>

lemma alloc_exact_inv:
  assumes inv: "orders_inv m ords mn mx fl H" and n: "mn \<le> n" "n \<le> mx" and fl: "fl n \<noteq> []"
  shows "\<exists>a m1 ords1 ords2. order_pop m ords n = (a, m1, ords1)
      \<and> order_set_bit ords1 n a = Inr ords2 \<and> (n, a) \<notin> H
      \<and> orders_inv m1 ords2 mn mx (fl(n := tl (fl n))) (insert (n, a) H)
      \<and> covered mn mx (fl(n := tl (fl n))) (insert (n, a) H) = covered mn mx fl H"
proof -
  obtain r m1 ords1 where pop: "order_pop m ords n = (r, m1, ords1)" by (metis prod_cases3)
  obtain x xs where x: "fl n = x # xs" using fl by (cases "fl n") auto
  note P = order_pop_inv [OF inv n x pop]
  obtain ords2 where "order_set_bit ords1 n x = Inr ords2" "orders_inv m1 ords2 mn mx (fl(n := xs)) (insert (n, x) H)"
    using order_set_bit_inv [OF P(2) insertI1 n] by blast
  moreover have "(n, x) \<notin> H" using orders_invD(9) [OF inv] n x by (auto simp: disjoint_iff)
  ultimately show ?thesis using P(1,3) pop x by auto
qed

lemma alloc_split_inv:
  assumes inv: "orders_inv m ords mn mx fl H" and n: "mn \<le> n" "n < k" "k \<le> mx" and fl: "fl k \<noteq> []"
  shows "\<exists>a m1 ords1 m2 ords2 fl2. order_pop m ords k = (a, m1, ords1)
      \<and> buddy_split m1 ords1 a n k = Inr (m2, ords2) \<and> (n, a) \<notin> H
      \<and> orders_inv m2 ords2 mn mx fl2 (insert (n, a) H)
      \<and> covered mn mx fl2 (insert (n, a) H) = covered mn mx fl H"
proof -
  obtain r m1 ords1 where pop: "order_pop m ords k = (r, m1, ords1)" by (metis prod_cases3)
  obtain x xs where x: "fl k = x # xs" using fl by (cases "fl k") auto
  have k: "mn \<le> k" "k \<le> mx" using n by auto
  note P = order_pop_inv [OF inv k x pop]
  have "(k, x) \<notin> H" using orders_invD(9) [OF inv] k x by (auto simp: disjoint_iff)
  then have H: "insert (k, x) H - {(k, x)} = H" by simp
  have "\<exists>m' ords' fl'. buddy_split m1 ords1 x n k = Inr (m', ords')
     \<and> orders_inv m' ords' mn mx fl' (insert (n, x) (insert (k, x) H - {(k, x)}))
     \<and> covered mn mx fl' (insert (n, x) (insert (k, x) H - {(k, x)})) = covered mn mx (fl(k := xs)) (insert (k, x) H)"
    using n by (intro buddy_split_inv [OF P(2) insertI1]) simp_all
  moreover have "(n, x) \<notin> H"
  proof
    assume "(n, x) \<in> H"
    then have "disjnt (extent (n, x)) (extent (k, x))"
      using pairwiseD [OF orders_invD(8) [OF inv], of "(n, x)" "(k, x)"] k x n by auto
    then show False
      using extent_nonempty [of "(n, x)"] extent_nonempty [of "(k, x)"] by (auto simp: disjnt_def)
  qed
  ultimately show ?thesis unfolding H P(3) using P(1) pop by auto
qed

lemma buddy_alloc_inv:
  assumes inv: "buddy_inv m b fl H"
  shows "if \<exists>j. alloc_order b sz \<le> j \<and> j \<le> unat (max_order b) \<and> fl j \<noteq> []
    then \<exists>a m' b' fl'. buddy_alloc m (Some b) sz = Inr (a, m', Some b')
        \<and> 2 ^ alloc_order b sz dvd unat a
        \<and> buddy_inv m' b' fl' (insert (alloc_order b sz, a) H) \<and> (alloc_order b sz, a) \<notin> H
        \<and> covered (unat (min_order b)) (unat (max_order b)) fl' (insert (alloc_order b sz, a) H)
          = covered (unat (min_order b)) (unat (max_order b)) fl H
    else buddy_alloc m (Some b) sz = Inr (NULL, m, Some b)"
proof -
  let ?mn = "unat (min_order b)" and ?mx = "unat (max_order b)" and ?n = "alloc_order b sz"
  have O: "orders_inv m (orders b) ?mn ?mx fl H" using inv by (simp add: buddy_inv_def)
  note D = orders_invD [OF O]
  note U = buddy_alloc_unfold [OF D(1,4)]
  have mn: "?mn \<le> ?n" by (simp add: alloc_order_def)
  show ?thesis
  proof (cases "\<exists>j. ?n \<le> j \<and> j \<le> ?mx \<and> fl j \<noteq> []")
    case none: False
    show ?thesis
    proof (cases "?mx < ?n")
      case False
      then have n: "?n \<le> ?mx" by simp
      have "fl ?n = []" using none n by blast
      then have "stack_size (order_free (orders b ! ?n)) = 0"
        using pages.count_zero_iff [OF D(6) [OF mn n]] by simp
      moreover have "buddy_find_order (orders b) ?mx ?n = Inr None"
        using buddy_find_order_inv [OF O mn] n none by fastforce
      ultimately have "buddy_alloc m (Some b) sz = Inr (NULL, m, Some b)"
        using n by (simp add: U Let_def)
      with none show ?thesis by (simp only: if_False)
    qed (use none in \<open>auto simp: U Let_def\<close>)
  next
    case True
    then have n: "?n \<le> ?mx" by auto
    have al: "2 ^ ?n dvd unat a" if "buddy_inv m' b' fl' (insert (?n, a) H)" for m' b' fl' a
      using orders_invD(7) [OF that [unfolded buddy_inv_def], of "(?n, a)"] by (simp add: block_ok_def)
    have "\<exists>a m' ords' fl'. buddy_alloc m (Some b) sz = Inr (a, m', Some (b\<lparr>orders := ords'\<rparr>))
        \<and> orders_inv m' ords' ?mn ?mx fl' (insert (?n, a) H) \<and> (?n, a) \<notin> H
        \<and> covered ?mn ?mx fl' (insert (?n, a) H) = covered ?mn ?mx fl H"
    proof (cases "fl ?n = []")
      case False
      then have "stack_size (order_free (orders b ! ?n)) \<noteq> 0"
        using pages.count_zero_iff [OF D(6) [OF mn n]] by simp
      with alloc_exact_inv [OF O mn n False] n show ?thesis by (fastforce simp: U Let_def)
    next
      case nil: True
      then have "stack_size (order_free (orders b ! ?n)) = 0"
        using pages.count_zero_iff [OF D(6) [OF mn n]] by simp
      moreover obtain k where "buddy_find_order (orders b) ?mx ?n = Inr (Some k)"
          "?n < k" "k \<le> ?mx" "fl k \<noteq> []"
        using buddy_find_order_inv [OF O mn] n True nil by (fastforce simp: order_le_less)
      ultimately show ?thesis
        using alloc_split_inv [OF O mn, of k] n by (fastforce simp: U Let_def)
    qed
    then obtain a m' ords' fl' where R: "buddy_alloc m (Some b) sz = Inr (a, m', Some (b\<lparr>orders := ords'\<rparr>))"
        "buddy_inv m' (b\<lparr>orders := ords'\<rparr>) fl' (insert (?n, a) H)" "(?n, a) \<notin> H"
        "covered ?mn ?mx fl' (insert (?n, a) H) = covered ?mn ?mx fl H"
      by (auto simp: buddy_inv_mono_orders)
    have "\<exists>a m' b' fl'. buddy_alloc m (Some b) sz = Inr (a, m', Some b') \<and> 2 ^ ?n dvd unat a
        \<and> buddy_inv m' b' fl' (insert (?n, a) H) \<and> (?n, a) \<notin> H
        \<and> covered ?mn ?mx fl' (insert (?n, a) H) = covered ?mn ?mx fl H"
      using R al [OF R(2)] by blast
    with True show ?thesis by (simp only: if_True)
  qed
qed

text \<open>C2: \<open>buddy_alloc\<close> is sound and complete on a well-formed allocator. Where no free block is large
  enough it returns NULL and changes nothing; otherwise it returns a block of the smallest order that
  holds the size, aligned to its size, disjoint from every block handed out before and from every
  block still free, and no byte is lost: free and handed-out blocks cover what they covered.\<close>

theorem buddy_alloc_sound:
  assumes inv: "buddy_inv m b fl H"
  shows "if \<exists>j. alloc_order b sz \<le> j \<and> j \<le> unat (max_order b) \<and> fl j \<noteq> []
    then \<exists>a m' b' fl'. buddy_alloc m (Some b) sz = Inr (a, m', Some b')
        \<and> 2 ^ alloc_order b sz dvd unat a
        \<and> buddy_inv m' b' fl' (insert (alloc_order b sz, a) H) \<and> (alloc_order b sz, a) \<notin> H
        \<and> covered (unat (min_order b)) (unat (max_order b)) fl' (insert (alloc_order b sz, a) H)
          = covered (unat (min_order b)) (unat (max_order b)) fl H
    else buddy_alloc m (Some b) sz = Inr (NULL, m, Some b)"
  using inv by (rule buddy_alloc_inv)

section \<open>Freeing a block\<close>

text \<open>While the buddy of a block is in use (or the block has the largest order), freeing it puts it on
  the stack of its order and nothing else changes hands.\<close>

lemma buddy_free_loop_stop:
  assumes inv: "orders_inv m ords mn mx fl H" and H: "(n, a) \<in> H"
    and test: "bitset_test (order_bitset (ords ! n)) (BUDDY_INDEX (BUDDY_ADDRESS a n) n) = Inr t"
    and stop: "t \<or> n = mx"
  shows "\<exists>m' ords'. buddy_free_loop m ords mx a n = Inr (m', ords')
     \<and> orders_inv m' ords' mn mx (fl(n := a # fl n)) (H - {(n, a)})
     \<and> covered mn mx (fl(n := a # fl n)) (H - {(n, a)}) = covered mn mx fl H"
proof -
  note D = orders_invD [OF inv]
  have n: "mn \<le> n" "n \<le> mx" and al: "2 ^ n dvd unat a" and top: "unat a + 2 ^ n \<le> 2 ^ 64"
    and cap: "unat a + 2 ^ n \<le> 8 * length (order_bitset (ords ! n)) * 2 ^ n"
    using D(7) [of "(n, a)"] H by (auto simp: block_ok_def)
  have n64: "n < length ords" "n < 31" using D(1,4) n by simp_all
  have "(0::nat) < 2 ^ n" by simp
  with cap have "unat a < 8 * length (order_bitset (ords ! n)) * 2 ^ n" by linarith
  then have "unat (BUDDY_INDEX a n) < 8 * length (order_bitset (ords ! n))"
    using n64 by (simp add: unat_BUDDY_INDEX div_less_iff_less_mult)
  then obtain bs where bs: "bitset_unset (order_bitset (ords ! n)) (BUDDY_INDEX a n) = Inr bs"
      "8 * length bs = 8 * length (order_bitset (ords ! n))"
    using bits.unset_flag_ok by blast
  define ords1 where "ords1 = ords[n := (ords ! n)\<lparr>order_bitset := bs\<rparr>]"
  have inv1: "orders_inv m ords1 mn mx fl H"
  proof (rule orders_inv_cong [OF inv])
    show "length ords1 = length ords" by (simp add: ords1_def)
    show "order_free (ords1 ! i) = order_free (ords ! i)" for i
      using n64 by (cases "i = n") (simp_all add: ords1_def)
    show "length (order_bitset (ords1 ! i)) = length (order_bitset (ords ! i))" for i
      using n64 bs(2) by (cases "i = n") (simp_all add: ords1_def)
  qed
  obtain t1 where t1: "bitset_test bs (BUDDY_INDEX (BUDDY_ADDRESS a n) n) = Inr t1" and "t1 \<or> n = mx"
  proof -
    let ?i = "BUDDY_INDEX (BUDDY_ADDRESS a n) n"
    have ne: "?i \<noteq> BUDDY_INDEX a n"
      using buddy_index_neq [OF n64(2)] by metis
    have "unat ?i < 8 * length (order_bitset (ords ! n))"
      using test bits.test_flag_fault [of ?i "order_bitset (ords ! n)"] by fastforce
    then have "bitset_test bs ?i = Inr t"
      using bits.test_after_unset [OF bs(1)] ne test by simp
    with stop that show ?thesis by blast
  qed
  obtain m' ords' where push: "order_push m ords1 n a = (m', ords')" by fastforce
  have "buddy_free_loop m ords mx a n = Inr (m', ords')"
    using n n64 bs(1) t1 \<open>t1 \<or> n = mx\<close> push
    by (simp add: buddy_free_loop.simps [of m ords mx a n] order_unset_bit_def ords1_def)
  with order_push_inv [OF inv1 H push] show ?thesis by blast
qed


section \<open>An example allocator\<close>

text \<open>Orders 12 and 13 over the first 128 KiB, with every bit set as \<open>buddy_init\<close> leaves it.\<close>

definition demo_order :: buddy_order where
  "demo_order = \<lparr>order_free = \<lparr>stack_size = 0, stack_top = 0\<rparr>, order_bitset = replicate 4 BITSET_FULL\<rparr>"

definition demo_mem :: kmem where
  "demo_mem = \<lparr>page_words = (\<lambda>_. 0), window = 0, window_maps = []\<rparr>"

definition demo_buddy :: buddy where
  "demo_buddy = \<lparr>buddy_base = 0, buddy_size = 0x20000, min_order = 12, max_order = 13,
     orders = replicate 64 demo_order\<rparr>"

definition demo_held :: "block set" where
  "demo_held = {(12, 0x2000), (12, 0x3000), (12, 0x4000)}"

lemma demo_inv: "buddy_inv demo_mem demo_buddy (\<lambda>_. []) demo_held"
proof -
  have fs: "free_set 12 13 (\<lambda>_. []) = {}" by (auto simp: free_set_def)
  have pw: "pairwise (\<lambda>B C. disjnt (extent B) (extent C)) demo_held"
    by (auto simp: demo_held_def pairwise_insert extent_def disjnt_def)
  have j: "12 \<le> j \<and> j \<le> 13 \<longleftrightarrow> j = 12 \<or> j = 13" for j :: nat by auto
  have "block_ok (replicate 64 demo_order) 12 13 B" if "B \<in> demo_held" for B
    using that unfolding block_ok_def j by (auto simp: demo_held_def demo_order_def)
  then show ?thesis
    using pw by (simp add: buddy_inv_def orders_inv_def demo_buddy_def fs demo_order_def stack_repr_def demo_mem_def)
qed

lemma demo_log_2: "log_2 0x1000 = 12" "log_2 0x2000 = 13"
  by (simp_all add: log_2_def log_2_table_def)

lemma demo_test:
  "bitset_test (order_bitset (orders demo_buddy ! 12)) (BUDDY_INDEX (BUDDY_ADDRESS 0x2000 12) 12) = Inr True"
  by (simp add: demo_buddy_def demo_order_def bitset_test_def BUDDY_INDEX_def BUDDY_ADDRESS_def
      POW_2_def BITSET_FULL_def)


lemma demo_freed:
  "\<exists>m b. buddy_inv m b ((\<lambda>_. [])(12 := [0x2000])) (demo_held - {(12, 0x2000)})
     \<and> min_order b = 12 \<and> max_order b = 13"
proof -
  have H: "(12, 0x2000) \<in> demo_held" by (simp add: demo_held_def)
  have O: "orders_inv demo_mem (orders demo_buddy) 12 13 (\<lambda>_. []) demo_held"
    using demo_inv by (simp add: buddy_inv_def demo_buddy_def)
  obtain m1 ords1 where
    I: "orders_inv m1 ords1 12 13 ((\<lambda>_. [])(12 := [0x2000])) (demo_held - {(12, 0x2000)})"
    using buddy_free_loop_stop [OF O H demo_test] by auto
  then have "buddy_inv m1 (demo_buddy\<lparr>orders := ords1\<rparr>) ((\<lambda>_. [])(12 := [0x2000])) (demo_held - {(12, 0x2000)})"
    by (simp add: buddy_inv_def demo_buddy_def)
  then show ?thesis
    by (intro exI [of _ m1] exI [of _ "demo_buddy\<lparr>orders := ords1\<rparr>"]) (simp add: demo_buddy_def)
qed

theorem buddy_alloc_sound_witness:
  "\<exists>m b. buddy_inv m b ((\<lambda>_. [])(12 := [0x2000])) (demo_held - {(12, 0x2000)})
   \<and> (\<exists>a m' b' fl'. buddy_alloc m (Some b) 0x1000 = Inr (a, m', Some b')
        \<and> buddy_inv m' b' fl' (insert (12, a) (demo_held - {(12, 0x2000)})))"
proof -
  obtain m1 b where inv: "buddy_inv m1 b ((\<lambda>_. [])(12 := [0x2000])) (demo_held - {(12, 0x2000)})"
    and o: "min_order b = 12" "max_order b = 13"
    using demo_freed by blast
  have ord: "alloc_order b 0x1000 = 12" and mx: "unat (max_order b) = 13"
    by (simp_all add: alloc_order_def demo_log_2 o)
  have "\<exists>j::nat. 12 \<le> j \<and> j \<le> 13 \<and> ((\<lambda>_. [])(12 := [0x2000 :: addr_t])) j \<noteq> []"
    by (intro exI [of _ 12]) simp
  then have "\<exists>a m' b' fl'. buddy_alloc m1 (Some b) 0x1000 = Inr (a, m', Some b')
        \<and> buddy_inv m' b' fl' (insert (12, a) (demo_held - {(12, 0x2000)}))"
    using buddy_alloc_sound [OF inv, of "0x1000"] unfolding ord mx by (simp only: if_True) blast
  with inv show ?thesis by blast
qed

section \<open>What merging does\<close>

text \<open>The evaluation rules of the example.\<close>

lemmas buddy_eval = buddy_free_def buddy_free_loop.simps order_unset_bit_def order_set_bit_def order_push_def
  order_pop_def stack_push_def stack_pop_def stack_map_def bitset_test_def bitset_set_def bitset_unset_def
  BUDDY_INDEX_def BUDDY_ADDRESS_def POW_2_def BITSET_FULL_def demo_buddy_def demo_order_def demo_mem_def
  demo_log_2 page_of_def ROUND_DOWN_def PAGE_SIZE_def buddy_alloc_def

text \<open>When both buddies of a pair are freed, \<open>buddy_free\<close> moves the second one up an order at its own
  address and leaves the first on its stack. From a well-formed allocator with three pages handed out,
  freeing two of them and then asking for two pages returns a block that overlaps the third page,
  which is still in use.\<close>

theorem buddy_free_merge_overlap:
  "\<exists>m1 b1 m2 b2 m3 b3. buddy_inv demo_mem demo_buddy (\<lambda>_. []) demo_held
     \<and> demo_held = {(12, 0x2000), (12, 0x3000), (12, 0x4000)}
     \<and> buddy_free demo_mem demo_buddy 0x2000 0x1000 = Inr (m1, b1)
     \<and> buddy_free m1 b1 0x3000 0x1000 = Inr (m2, b2)
     \<and> buddy_alloc m2 (Some b2) 0x2000 = Inr (0x3000, m3, Some b3)
     \<and> extent (13, 0x3000) \<inter> extent (12, 0x4000) \<noteq> {}"
proof -
  have "extent (13, 0x3000) \<inter> extent (12, 0x4000) \<noteq> {}" by (auto simp: extent_def)
  moreover have "\<exists>m1 b1 m2 b2 m3 b3. buddy_free demo_mem demo_buddy 0x2000 0x1000 = Inr (m1, b1)
     \<and> buddy_free m1 b1 0x3000 0x1000 = Inr (m2, b2)
     \<and> buddy_alloc m2 (Some b2) 0x2000 = Inr (0x3000, m3, Some b3)"
    by (simp add: buddy_eval Let_def)
  ultimately show ?thesis using demo_inv demo_held_def by blast
qed

section \<open>Freeing a region\<close>

lemma nat_xor_1_bound: "n XOR 1 < 8 * l" if "n < 8 * l" for n l :: nat
proof (cases "even n")
  case True
  then obtain q where "n = 2 * q" by (auto elim: evenE)
  then show ?thesis using that by (simp add: xor_nat_rec [of "2 * q"])
next
  case False
  then obtain q where "n = 2 * q + 1" by (auto elim: oddE)
  then show ?thesis using that by (simp add: xor_nat_rec [of "Suc (2 * q)"])
qed

text \<open>A bitset holds whole bytes, so the bit of a buddy is in range when that of the block is.\<close>

lemma buddy_bit_in_range:
  assumes "n < 31" and "unat (BUDDY_INDEX a n) < 8 * length bs"
  shows "unat (BUDDY_INDEX (BUDDY_ADDRESS a n) n) < 8 * length (bs :: bitset)"
proof -
  have "(scast (push_bit n 1 :: c_int) :: addr_t) = 2 ^ n"
    using scast_POW_2 [OF assms(1)] by (simp add: POW_2_def push_bit_eq_mult)
  then have "drop_bit n (BUDDY_ADDRESS a n) = drop_bit n a XOR 1"
    using assms(1) by (intro bit_word_eqI) (auto simp: BUDDY_ADDRESS_def bit_simps)
  then have "unat (BUDDY_ADDRESS a n) div 2 ^ n = (unat a div 2 ^ n) XOR 1"
    by (metis unat_drop_bit_div unsigned_1 unsigned_xor_eq)
  then show ?thesis
    using assms nat_xor_1_bound by (simp add: unat_BUDDY_INDEX)
qed

fun region_blocks :: "nat \<Rightarrow> addr_t \<Rightarrow> nat \<Rightarrow> block set" where
  "region_blocks k a 0 = {}"
| "region_blocks k a (Suc q) = insert (k, a) (region_blocks k (a + 2 ^ k) q)"

lemma region_blocks_above:
  assumes "(j, c) \<in> region_blocks k a q" and "unat a + q * 2 ^ k < 2 ^ 64" and "k < 31"
  shows "unat a \<le> unat c"
  using assms
proof (induction k a q rule: region_blocks.induct)
  case (2 k a q)
  have "unat ((2 :: addr_t) ^ k) = 2 ^ k" using "2.prems"(3) by (intro unat_exp) simp
  moreover have "unat a + 2 ^ k < 2 ^ 64" using "2.prems"(2) by simp
  ultimately have u: "unat (a + 2 ^ k) = unat a + 2 ^ k"
    by (simp add: unat_add_no_overflow)
  show ?case
  proof (cases "(j, c) = (k, a)")
    case False
    with 2 have "(j, c) \<in> region_blocks k (a + 2 ^ k) q" by auto
    with "2.IH" "2.prems"(2,3) u show ?thesis by (simp add: add.assoc)
  qed simp
qed simp

lemma free_region_chunks_aligned:
  assumes "buddy_inv m b fl (H \<union> region_blocks (unat (max_order b)) a q)"
    and "H \<inter> region_blocks (unat (max_order b)) a q = {}"
    and "unat stop = unat a + q * 2 ^ unat (max_order b)"
    and "unat stop + 2 ^ unat (max_order b) < 2 ^ 64"
  shows "\<exists>m' b' fl'. free_region_chunks m b a stop (scast (POW_2 (unat (max_order b)))) = Some (Inr (m', b', stop))
     \<and> buddy_inv m' b' fl' H \<and> min_order b' = min_order b \<and> max_order b' = max_order b
     \<and> covered (unat (min_order b)) (unat (max_order b)) fl' H
       = covered (unat (min_order b)) (unat (max_order b)) fl (H \<union> region_blocks (unat (max_order b)) a q)"
  using assms
proof (induction q arbitrary: m b fl a)
  case 0
  let ?k = "unat (max_order b)"
  have k: "?k < 31" using orders_invD(4) "0.prems"(1) by (auto simp: buddy_inv_def)
  have "a = stop" using "0.prems"(3) by (simp add: word_unat_eq_iff)
  moreover have "\<not> stop + scast (POW_2 ?k) \<le> stop"
    using "0.prems"(4) k by (simp add: word_le_nat_alt unat_add_no_overflow unat_POW_2_64)
  ultimately show ?case
    using "0.prems"(1) by (intro exI [of _ m] exI [of _ b] exI [of _ fl])
      (simp add: free_region_chunks.simps [of m b stop])
next
  case (Suc q)
  let ?k = "unat (max_order b)" and ?mn = "unat (min_order b)"
  let ?R = "region_blocks ?k (a + 2 ^ ?k) q"
  have O: "orders_inv m (orders b) ?mn ?k fl (H \<union> region_blocks ?k a (Suc q))"
    using Suc.prems(1) by (simp add: buddy_inv_def)
  note D = orders_invD [OF O]
  have mem: "(?k, a) \<in> H \<union> region_blocks ?k a (Suc q)" by simp
  have chunk: "(scast (POW_2 ?k) :: u64) = 2 ^ ?k"
    using scast_POW_2 [OF D(4)] by (simp add: push_bit_eq_mult)
  have uc: "unat ((2 :: u64) ^ ?k) = 2 ^ ?k" using D(4) by (intro unat_exp) simp
  have ua: "unat (a + 2 ^ ?k) = unat a + 2 ^ ?k"
    using Suc.prems(3,4) by (subst unat_add_no_overflow) (simp_all add: uc)
  have blk: "block_ok (orders b) ?mn ?k (?k, a)" using D(7) mem by blast
  have "(0::nat) < 2 ^ ?k" by simp
  moreover have "unat a + 2 ^ ?k \<le> 8 * length (order_bitset (orders b ! ?k)) * 2 ^ ?k"
    using blk D(3) by (auto simp: block_ok_def)
  ultimately have "unat a < 8 * length (order_bitset (orders b ! ?k)) * 2 ^ ?k" by linarith
  then have "unat (BUDDY_INDEX a ?k) < 8 * length (order_bitset (orders b ! ?k))"
    using D(4) by (simp add: unat_BUDDY_INDEX div_less_iff_less_mult)
  from bits.test_flag_ok [OF buddy_bit_in_range [OF D(4) this]]
  obtain t where test: "bitset_test (order_bitset (orders b ! ?k)) (BUDDY_INDEX (BUDDY_ADDRESS a ?k) ?k) = Inr t"
    by blast
  obtain m1 ords1 where F: "buddy_free_loop m (orders b) ?k a ?k = Inr (m1, ords1)"
      "orders_inv m1 ords1 ?mn ?k (fl(?k := a # fl ?k)) (H \<union> region_blocks ?k a (Suc q) - {(?k, a)})"
      "covered ?mn ?k (fl(?k := a # fl ?k)) (H \<union> region_blocks ?k a (Suc q) - {(?k, a)})
        = covered ?mn ?k fl (H \<union> region_blocks ?k a (Suc q))"
    using buddy_free_loop_stop [OF O mem test] by blast
  have notR: "(?k, a) \<notin> ?R"
    using region_blocks_above [of ?k a ?k "a + 2 ^ ?k" q] Suc.prems(3,4) D(4) ua by auto
  have notH: "(?k, a) \<notin> H" using Suc.prems(2) by auto
  have H: "H \<union> region_blocks ?k a (Suc q) - {(?k, a)} = H \<union> ?R" using notR notH by auto
  define b1 where "b1 = b\<lparr>orders := ords1\<rparr>"
  have b1: "min_order b1 = min_order b" "max_order b1 = max_order b" by (simp_all add: b1_def)
  have free: "buddy_free m b a (2 ^ ?k) = Inr (m1, b1)"
    using F(1) log_2_exp [OF uc] by (simp add: buddy_free_def b1_def)
  have IH: "\<exists>m' b' fl'. free_region_chunks m1 b1 (a + 2 ^ ?k) stop (scast (POW_2 (unat (max_order b1)))) = Some (Inr (m', b', stop))
     \<and> buddy_inv m' b' fl' H \<and> min_order b' = min_order b1 \<and> max_order b' = max_order b1
     \<and> covered (unat (min_order b1)) (unat (max_order b1)) fl' H
       = covered (unat (min_order b1)) (unat (max_order b1)) (fl(?k := a # fl ?k)) (H \<union> region_blocks (unat (max_order b1)) (a + 2 ^ ?k) q)"
  proof (rule Suc.IH)
    show "buddy_inv m1 b1 (fl(?k := a # fl ?k)) (H \<union> region_blocks (unat (max_order b1)) (a + 2 ^ ?k) q)"
      using F(2) [unfolded H] by (simp add: buddy_inv_def b1_def)
    show "H \<inter> region_blocks (unat (max_order b1)) (a + 2 ^ ?k) q = {}"
      using Suc.prems(2) b1 by auto
    show "unat stop = unat (a + 2 ^ ?k) + q * 2 ^ unat (max_order b1)"
      using Suc.prems(3) ua b1 by simp
    show "unat stop + 2 ^ unat (max_order b1) < 2 ^ 64" using Suc.prems(4) b1 by simp
  qed
  have "a + 2 ^ ?k \<le> stop" using Suc.prems(3) ua by (simp add: word_le_nat_alt)
  then have "free_region_chunks m b a stop (scast (POW_2 ?k)) =
      free_region_chunks m1 b1 (a + 2 ^ ?k) stop (scast (POW_2 ?k))"
    using free by (simp add: free_region_chunks.simps [of m b a] chunk)
  with IH F(3) show ?case unfolding b1 H by simp
qed

lemma free_region_orders_done:
  assumes "unat ord \<le> mx" and "mx < 31" and "unat stop + 2 ^ mx < 2 ^ 64" and "0 < min_order b"
  shows "free_region_orders m b stop stop ord = Some (Inr (m, b))"
  using assms
proof (induction "unat ord" arbitrary: ord)
  case 0
  then have "ord = 0" by (simp add: unat_eq_0)
  then show ?case
    using "0.prems"(4) by (simp add: free_region_orders.simps [of m b stop stop] word_le_nat_alt word_less_nat_alt)
next
  case (Suc n)
  show ?case
  proof (cases "min_order b \<le> ord")
    case True
    have "ord \<noteq> 0" using Suc.hyps(2) by auto
    then have pred: "unat (ord - 1) = n" using Suc.hyps(2) by (simp add: unat_minus_one)
    have "(2::nat) ^ unat ord \<le> 2 ^ mx" using Suc.prems(1) by (intro power_increasing) simp_all
    then have small: "unat stop + 2 ^ unat ord < 2 ^ 64" using Suc.prems(3) by linarith
    have "unat (scast (POW_2 (unat ord)) :: u64) = 2 ^ unat ord"
      using Suc.prems(1,2) by (intro unat_POW_2_64) simp
    then have "\<not> stop + scast (POW_2 (unat ord)) \<le> stop"
      using small by (simp add: word_le_nat_alt unat_add_no_overflow)
    then have "free_region_orders m b stop stop ord = free_region_orders m b stop stop (ord - 1)"
      using True by (simp add: free_region_orders.simps [of m b stop stop ord] free_region_chunks.simps)
    also have "\<dots> = Some (Inr (m, b))"
      using Suc.prems pred Suc.hyps(2) by (intro Suc.hyps(1)) simp_all
    finally show ?thesis .
  qed (simp add: free_region_orders.simps [of m b stop stop ord])
qed

text \<open>C18: \<open>buddy_free_region\<close> on a region of whole blocks of the largest order, aligned and below the top
  of the address space, ends without a fault, gives exactly that region to the free lists and keeps
  the allocator well-formed.\<close>

theorem buddy_free_region_aligned:
  assumes inv: "buddy_inv m b fl (H \<union> region_blocks (unat (max_order b)) start q)"
    and dis: "H \<inter> region_blocks (unat (max_order b)) start q = {}"
    and sz: "unat sz = q * 2 ^ unat (max_order b)"
    and top: "unat start + unat sz + 2 ^ unat (max_order b) < 2 ^ 64"
  shows "\<exists>m' b' fl'. buddy_free_region m b start sz = Some (Inr (m', b')) \<and> buddy_inv m' b' fl' H
     \<and> covered (unat (min_order b)) (unat (max_order b)) fl' H
       = covered (unat (min_order b)) (unat (max_order b)) fl (H \<union> region_blocks (unat (max_order b)) start q)"
proof -
  let ?k = "unat (max_order b)"
  have O: "orders_inv m (orders b) (unat (min_order b)) ?k fl (H \<union> region_blocks ?k start q)"
    using inv by (simp add: buddy_inv_def)
  note D = orders_invD [OF O]
  have stop: "unat (start + sz) = unat start + unat sz"
    using top by (subst unat_add_no_overflow) simp_all
  obtain m' b' fl' where C: "free_region_chunks m b start (start + sz) (scast (POW_2 ?k)) = Some (Inr (m', b', start + sz))"
      "buddy_inv m' b' fl' H" "min_order b' = min_order b" "max_order b' = max_order b"
      "covered (unat (min_order b)) ?k fl' H = covered (unat (min_order b)) ?k fl (H \<union> region_blocks ?k start q)"
    using free_region_chunks_aligned [OF inv dis, of "start + sz"] stop sz top by auto
  have mn: "0 < min_order b" "min_order b \<le> max_order b"
    using D(2,3) by (auto simp: word_less_nat_alt word_le_nat_alt)
  have pred: "unat (max_order b - 1) \<le> ?k"
    using mn by (metis diff_le_self unat_minus_one word_not_simps(1) order_less_le_trans)
  have "free_region_orders m' b' (start + sz) (start + sz) (max_order b - 1) = Some (Inr (m', b'))"
    using pred D(4) top stop mn C(3) by (intro free_region_orders_done [of _ ?k]) simp_all
  then have "buddy_free_region m b start sz = Some (Inr (m', b'))"
    using C(1) mn by (simp add: buddy_free_region_def free_region_orders.simps [of m b start])
  with C(2,5) show ?thesis by blast
qed

lemma demo_region:
  "buddy_inv demo_mem demo_buddy (\<lambda>_. []) ({} \<union> region_blocks 13 0x2000 2)"
proof -
  have R: "region_blocks 13 0x2000 2 = {(13, 0x2000), (13, 0x4000)}"
    by (simp add: numeral_2_eq_2)
  have fs: "free_set 12 13 (\<lambda>_. []) = {}" by (auto simp: free_set_def)
  have pw: "pairwise (\<lambda>B C. disjnt (extent B) (extent C)) {(13, 0x2000), (13, 0x4000)}"
    by (auto simp: pairwise_insert extent_def disjnt_def)
  have j: "12 \<le> j \<and> j \<le> 13 \<longleftrightarrow> j = 12 \<or> j = 13" for j :: nat by auto
  have "block_ok (replicate 64 demo_order) 12 13 B" if "B \<in> {(13, 0x2000), (13, 0x4000)}" for B
    using that unfolding block_ok_def j by (auto simp: demo_order_def)
  then show ?thesis
    unfolding R using pw
    by (simp add: buddy_inv_def orders_inv_def demo_buddy_def fs demo_order_def stack_repr_def demo_mem_def)
qed

theorem buddy_free_region_aligned_witness:
  "buddy_inv demo_mem demo_buddy (\<lambda>_. []) ({} \<union> region_blocks 13 0x2000 2)
   \<and> (\<exists>m' b' fl'. buddy_free_region demo_mem demo_buddy 0x2000 0x4000 = Some (Inr (m', b'))
       \<and> buddy_inv m' b' fl' {})"
proof -
  have mx: "unat (max_order demo_buddy) = 13" by (simp add: demo_buddy_def)
  have "\<exists>m' b' fl'. buddy_free_region demo_mem demo_buddy 0x2000 0x4000 = Some (Inr (m', b'))
       \<and> buddy_inv m' b' fl' {}"
    using buddy_free_region_aligned [of demo_mem demo_buddy "\<lambda>_. []" "{}" "0x2000" 2 "0x4000"] demo_region
    unfolding mx by auto
  with demo_region show ?thesis by blast
qed

text \<open>The example allocator after the region from 0x3000 to 0x5000 was freed, step by step.\<close>

lemma buddy_split_stop: "buddy_split m ords a n n = Inr (m, ords)"
  by (cases n) simp_all

lemma buddy_split_once:
  "buddy_split m ords a n (Suc n) =
     bind_res (order_set_bit ords (Suc n) a)
       (\<lambda>ords1. bind_res (order_set_bit ords1 n a)
          (\<lambda>ords2. Inr (order_push m ords2 n (BUDDY_ADDRESS a n))))"
  by (simp add: buddy_split_stop case_prod_beta)

lemma demo_misaligned_free:
  "\<exists>m1 b1. buddy_free demo_mem demo_buddy 0x3000 0x2000 = Inr (m1, b1)
     \<and> page_words m1 0x3000 = 0 \<and> min_order b1 = 12 \<and> max_order b1 = 13
     \<and> (\<exists>bs. length bs = 4 \<and> orders b1 = (replicate 64 demo_order)[13 :=
           \<lparr>order_free = \<lparr>stack_size = 1, stack_top = 0x3000\<rparr>, order_bitset = bs\<rparr>])"
  by (simp add: buddy_eval Let_def) (rule exI [of _ "(replicate 4 255)[0 := 253]"], simp)

lemma demo_misaligned_region:
  assumes "buddy_free demo_mem demo_buddy 0x3000 0x2000 = Inr (m1, b1)" and "min_order b1 = 12"
  shows "buddy_free_region demo_mem demo_buddy 0x3000 0x2000 = Some (Inr (m1, b1))"
proof -
  have chunk: "(scast (POW_2 13) :: u64) = 0x2000" by (simp add: POW_2_def)
  have mx: "max_order demo_buddy = 13" "min_order demo_buddy = 12" by (simp_all add: demo_buddy_def)
  have "free_region_chunks demo_mem demo_buddy 0x3000 0x5000 0x2000 = Some (Inr (m1, b1, 0x5000))"
    using assms(1) by (simp add: free_region_chunks.simps [of demo_mem] free_region_chunks.simps [of m1])
  then show ?thesis
    using free_region_orders_done [of "12" 13 "0x5000" b1 m1] assms(2)
    by (simp add: buddy_free_region_def free_region_orders.simps [of demo_mem] mx chunk)
qed

lemma demo_misaligned_allocs:
  assumes "orders b = (replicate 64 demo_order)[13 :=
           \<lparr>order_free = \<lparr>stack_size = 1, stack_top = 0x3000\<rparr>, order_bitset = bs\<rparr>]"
    and "length bs = 4" and "min_order b = 12" and "max_order b = 13" and "page_words m 0x3000 = 0"
  shows "\<exists>m2 b2 m3 b3. buddy_alloc m (Some b) 0x1000 = Inr (0x3000, m2, Some b2)
     \<and> buddy_alloc m2 (Some b2) 0x1000 = Inr (0x2000, m3, Some b3)"
proof -
  have find: "buddy_find_order (orders b) 13 12 = Inr (Some 13)"
    using assms(1) by (simp add: buddy_find_order.simps [of _ 13 12])
  have split: "buddy_split m ords a 12 13 =
     bind_res (order_set_bit ords 13 a)
       (\<lambda>ords1. bind_res (order_set_bit ords1 12 a)
          (\<lambda>ords2. Inr (order_push m ords2 12 (BUDDY_ADDRESS a 12))))" for m ords a
    using buddy_split_once [of m ords a 12] by simp
  have "bs \<noteq> []" using assms(2) by auto
  then show ?thesis
    using assms find by (simp add: split buddy_eval Let_def)
qed

text \<open>\<open>buddy_free_region\<close> does not align the blocks it frees. Freeing the region from 0x3000 to 0x5000
  and then allocating two pages hands out page 0x2000, which was never freed.\<close>

theorem buddy_free_region_misaligned:
  "\<exists>m1 b1 m2 b2 m3 b3. buddy_free_region demo_mem demo_buddy 0x3000 0x2000 = Some (Inr (m1, b1))
     \<and> buddy_alloc m1 (Some b1) 0x1000 = Inr (0x3000, m2, Some b2)
     \<and> buddy_alloc m2 (Some b2) 0x1000 = Inr (0x2000, m3, Some b3)
     \<and> extent (12, 0x2000) \<inter> {0x3000 ..< 0x5000} = {}"
proof -
  have "extent (12, 0x2000) \<inter> {0x3000 ..< 0x5000} = {}" by (auto simp: extent_def)
  with demo_misaligned_free demo_misaligned_region demo_misaligned_allocs show ?thesis by blast
qed

section \<open>A fresh allocator\<close>

lemma buddy_init_loop_result:
  assumes "buddy_init_loop ok sz i mx ords = Inr ords'"
  shows "length ords' = length ords \<and> (\<forall>j. j < i \<or> mx < j \<longrightarrow> ords' ! j = ords ! j)
    \<and> (\<forall>j. i \<le> j \<and> j \<le> mx \<longrightarrow> j < length ords
        \<and> order_bitset (ords' ! j) = replicate (unat (BITSET_SIZE_CALC (sz div scast (POW_2 j)))) BITSET_FULL
        \<and> stack_size (order_free (ords' ! j)) = 0 \<and> stack_top (order_free (ords' ! j)) = 0)"
  using assms
proof (induction ok sz i mx ords rule: buddy_init_loop.induct)
  case (1 ok sz i mx ords)
  show ?case
  proof (cases "i \<le> mx")
    case True
    let ?sp = "BITSET_SIZE_CALC (sz div scast (POW_2 i))"
    let ?o = "ords[i := (ords ! i)\<lparr>order_free := stack_init (order_free (ords ! i)),
                 order_bitset := replicate (unat ?sp) BITSET_FULL\<rparr>]"
    have i: "i < length ords" "POW_2 i \<noteq> 0" "ok ?sp" and R: "buddy_init_loop ok sz (Suc i) mx ?o = Inr ords'"
      using 1(2) True by (auto simp: buddy_init_loop.simps [of ok sz i mx ords] Let_def split: if_splits)
    note IH = 1(1) [OF True i(1,2) refl i(3) R]
    have "ords' ! i = ?o ! i" using IH by simp
    then have at_i: "order_bitset (ords' ! i) = replicate (unat ?sp) BITSET_FULL"
        "stack_size (order_free (ords' ! i)) = 0" "stack_top (order_free (ords' ! i)) = 0"
      using i(1) by (simp_all add: stack_init_def)
    have "ords' ! j = ords ! j" if "j < i \<or> mx < j" for j
      using IH that True by (cases "j < i") auto
    moreover have "j < length ords
        \<and> order_bitset (ords' ! j) = replicate (unat (BITSET_SIZE_CALC (sz div scast (POW_2 j)))) BITSET_FULL
        \<and> stack_size (order_free (ords' ! j)) = 0 \<and> stack_top (order_free (ords' ! j)) = 0"
      if "i \<le> j" "j \<le> mx" for j
      using IH that at_i i(1) by (cases "j = i") auto
    ultimately show ?thesis using IH by auto
  qed (use 1(2) in \<open>auto simp: buddy_init_loop.simps [of ok sz i mx ords]\<close>)
qed

lemma buddy_init_result:
  assumes "buddy_init ok raw base sz mn mx = Inr (Some b)"
  shows "buddy_init_loop ok sz (unat mn) (unat mx) raw = Inr (orders b)" and "buddy_base b = base"
    and "buddy_size b = sz" and "unat (min_order b) = unat mn" and "unat (max_order b) = unat mx"
  using assms by (auto simp: buddy_init_def bind_res_Inr_iff unat_ucast_widen split: if_splits)

text \<open>A fresh allocator is well-formed and owns nothing, provided the unused order just above the largest
  one happens to hold an empty stack.\<close>

theorem buddy_init_empty:
  assumes init: "buddy_init ok raw base sz mn mx = Inr (Some b)"
    and o: "12 \<le> unat mn" "unat mn \<le> unat mx" "unat mx < 31" and raw: "length raw = 64"
    and junk: "stack_size (order_free (raw ! Suc (unat mx))) = 0"
  shows "buddy_inv m b (\<lambda>_. []) {} \<and> buddy_alloc m (Some b) n = Inr (NULL, m, Some b)"
proof -
  note B = buddy_init_result [OF init]
  note L = buddy_init_loop_result [OF B(1)]
  have "orders_inv m (orders b) (unat mn) (unat mx) (\<lambda>_. []) {}"
    using L o raw junk by (auto simp: orders_inv_def stack_repr_def free_set_def)
  then have "buddy_inv m b (\<lambda>_. []) {}" by (simp add: buddy_inv_def B(4,5))
  then show ?thesis using buddy_alloc_inv [of m b "\<lambda>_. []" "{}" n] by simp
qed

lemma demo_init:
  "buddy_init (\<lambda>_. True) ((replicate 64 demo_order)[13 := junk]) 0 0x20000 12 12 = Inr (Some
     \<lparr>buddy_base = 0, buddy_size = 0x20000, min_order = 12, max_order = 12,
      orders = (replicate 64 demo_order)[13 := junk, 12 := \<lparr>order_free = \<lparr>stack_size = 0, stack_top = 0\<rparr>, order_bitset = replicate 4 0xFF\<rparr>]\<rparr>)"
proof -
  have "buddy_init_loop (\<lambda>_. True) 0x20000 12 12 ((replicate 64 demo_order)[13 := junk]) =
      Inr ((replicate 64 demo_order)[13 := junk, 12 := \<lparr>order_free = \<lparr>stack_size = 0, stack_top = 0\<rparr>, order_bitset = replicate 4 0xFF\<rparr>])"
    by (simp add: buddy_init_loop.simps [of _ _ 12] buddy_init_loop.simps [of _ _ 13] POW_2_def Let_def
        BITSET_SIZE_CALC_def DIV_ROUND_UP_def stack_init_def BITSET_FULL_def demo_order_def)
  then show ?thesis by (simp add: buddy_init_def)
qed

theorem buddy_init_empty_witness:
  "\<exists>b. buddy_init (\<lambda>_. True) ((replicate 64 demo_order)[13 := demo_order]) 0 0x20000 12 12 = Inr (Some b)
     \<and> buddy_inv demo_mem b (\<lambda>_. []) {} \<and> buddy_alloc demo_mem (Some b) 1 = Inr (NULL, demo_mem, Some b)"
  using buddy_init_empty [OF demo_init [of demo_order], of demo_mem 1] demo_init [of demo_order] by (simp add: demo_order_def)

text \<open>The search for a larger block reads one order past the largest, and \<open>buddy_init\<close> never wrote that
  order. When the heap memory there holds old data, a fresh allocator that was never given any
  memory hands out an address: here 0x4000, left behind in order 13.\<close>

theorem buddy_alloc_past_max_order:
  "\<exists>b m' b'. buddy_init (\<lambda>_. True)
        ((replicate 64 demo_order)[13 := \<lparr>order_free = \<lparr>stack_size = 1, stack_top = 0x4000\<rparr>, order_bitset = replicate 4 0\<rparr>])
        0 0x20000 12 12 = Inr (Some b)
     \<and> buddy_alloc demo_mem (Some b) 0x1000 = Inr (0x4000, m', Some b')"
proof -
  have split: "buddy_split m ords a 12 13 =
     bind_res (order_set_bit ords 13 a)
       (\<lambda>ords1. bind_res (order_set_bit ords1 12 a)
          (\<lambda>ords2. Inr (order_push m ords2 12 (BUDDY_ADDRESS a 12))))" for m ords a
    using buddy_split_once [of m ords a 12] by simp
  let ?junk = "\<lparr>order_free = \<lparr>stack_size = 1, stack_top = 0x4000\<rparr>, order_bitset = replicate 4 0\<rparr>"
  let ?b = "\<lparr>buddy_base = 0, buddy_size = 0x20000, min_order = 12, max_order = 12,
      orders = (replicate 64 demo_order)[13 := ?junk, 12 := \<lparr>order_free = \<lparr>stack_size = 0, stack_top = 0\<rparr>, order_bitset = replicate 4 0xFF\<rparr>]\<rparr>"
  have "\<exists>m' b'. buddy_alloc demo_mem (Some ?b) 0x1000 = Inr (0x4000, m', Some b')"
    by (simp add: split buddy_find_order.simps [of _ 12 12] buddy_eval Let_def)
  then show ?thesis using demo_init [of ?junk] by blast
qed

end
