(* ===== verification/Physical.thy ===== *)
theory Physical
  imports Buddy
begin

text \<open>
  \<open>mm/physical.c\<close>: the physical memory manager. Memory below the DMA boundary and memory above it
  are two regions, each with a buddy allocator of its own; both keep their free lists in the same
  physical pages (\<open>kmem\<close>).
\<close>

section \<open>Definitions\<close>

record physical_region =
  region_base :: addr_t
  region_size :: size_t
  region_buddy :: "buddy option"

record physical =
  phys_dma_region :: physical_region
  phys_normal_region :: physical_region

definition PHYS_DMA :: u8 where "PHYS_DMA = 0x1"

text \<open>\<open>kmalloc_ok\<close> and the old contents \<open>raw1\<close>, \<open>raw2\<close> of the two order tables are what the heap gives.\<close>

definition physical_init ::
  "(size_t \<Rightarrow> bool) \<Rightarrow> buddy_order list \<Rightarrow> buddy_order list \<Rightarrow> size_t \<Rightarrow> addr_t \<Rightarrow> physical res" where
  "physical_init kmalloc_ok raw1 raw2 sz dma_boundary =
     bind_res (buddy_init kmalloc_ok raw1 0x0 dma_boundary 12 16) (\<lambda>b1.
     bind_res (buddy_init kmalloc_ok raw2 dma_boundary (sz - dma_boundary) 12 28) (\<lambda>b2.
       Inr \<lparr>phys_dma_region = \<lparr>region_base = 0x0, region_size = dma_boundary, region_buddy = b1\<rparr>,
            phys_normal_region = \<lparr>region_base = dma_boundary, region_size = sz - dma_boundary, region_buddy = b2\<rparr>\<rparr>))"

definition set_dma_buddy :: "physical \<Rightarrow> buddy option \<Rightarrow> physical" where
  "set_dma_buddy P b = P\<lparr>phys_dma_region := (phys_dma_region P)\<lparr>region_buddy := b\<rparr>\<rparr>"

definition set_normal_buddy :: "physical \<Rightarrow> buddy option \<Rightarrow> physical" where
  "set_normal_buddy P b = P\<lparr>phys_normal_region := (phys_normal_region P)\<lparr>region_buddy := b\<rparr>\<rparr>"

definition physical_alloc :: "kmem \<Rightarrow> physical \<Rightarrow> size_t \<Rightarrow> u8 \<Rightarrow> (addr_t \<times> kmem \<times> physical) res" where
  "physical_alloc m P sz flags =
     (if flags AND PHYS_DMA \<noteq> 0
      then bind_res (buddy_alloc m (region_buddy (phys_dma_region P)) sz)
             (\<lambda>(a, m', b). Inr (a, m', set_dma_buddy P b))
      else bind_res (buddy_alloc m (region_buddy (phys_normal_region P)) sz)
             (\<lambda>(a, m', b). Inr (a, m', set_normal_buddy P b)))"

text \<open>The callees read through the buddy pointer without a check.\<close>

definition physical_free :: "kmem \<Rightarrow> physical \<Rightarrow> addr_t \<Rightarrow> size_t \<Rightarrow> (kmem \<times> physical) res" where
  "physical_free m P a sz =
     (if a < region_size (phys_dma_region P)
      then case region_buddy (phys_dma_region P) of
             None \<Rightarrow> Inl NullDeref
           | Some b \<Rightarrow> bind_res (buddy_free m b a sz) (\<lambda>(m', b'). Inr (m', set_dma_buddy P (Some b')))
      else case region_buddy (phys_normal_region P) of
             None \<Rightarrow> Inl NullDeref
           | Some b \<Rightarrow> bind_res (buddy_free m b a sz) (\<lambda>(m', b'). Inr (m', set_normal_buddy P (Some b'))))"

definition free_region_dma :: "kmem \<Rightarrow> physical \<Rightarrow> addr_t \<Rightarrow> size_t \<Rightarrow> (kmem \<times> physical) res option" where
  "free_region_dma m P start sz =
     (case region_buddy (phys_dma_region P) of
        None \<Rightarrow> Some (Inl NullDeref)
      | Some b \<Rightarrow> map_option (\<lambda>r. bind_res r (\<lambda>(m', b'). Inr (m', set_dma_buddy P (Some b'))))
                   (buddy_free_region m b start sz))"

definition free_region_normal :: "kmem \<Rightarrow> physical \<Rightarrow> addr_t \<Rightarrow> size_t \<Rightarrow> (kmem \<times> physical) res option" where
  "free_region_normal m P start sz =
     (case region_buddy (phys_normal_region P) of
        None \<Rightarrow> Some (Inl NullDeref)
      | Some b \<Rightarrow> map_option (\<lambda>r. bind_res r (\<lambda>(m', b'). Inr (m', set_normal_buddy P (Some b'))))
                   (buddy_free_region m b start sz))"

text \<open>None stands for a call of \<open>buddy_free_region\<close> that never returns.\<close>

definition physical_free_region ::
  "kmem \<Rightarrow> physical \<Rightarrow> addr_t \<Rightarrow> size_t \<Rightarrow> (kmem \<times> physical) res option" where
  "physical_free_region m P start sz =
     (let D = phys_dma_region P in
      if start < region_size D
      then if start < region_size D \<and> region_size D \<le> start + sz
        then let dma_size = (region_base D + region_size D) - start
             in case free_region_dma m P start dma_size of
                  Some (Inr (m', P')) \<Rightarrow> free_region_normal m' P' (region_base D + region_size D) (sz - dma_size)
                | r \<Rightarrow> r
        else free_region_dma m P start sz
      else free_region_normal m P start sz)"

section \<open>Two allocators in one memory\<close>

text \<open>The window after an allocation, and that the order of past mappings does not matter.\<close>

lemma order_tracks:
  "window_tracks w (fst (order_push m ords k a))"
  "window_tracks w m \<Longrightarrow> window_tracks w (fst (snd (order_pop m ords k)))"
  by (auto simp: order_push_def order_pop_def split: prod.splits dest: stack_tracks)

lemma buddy_split_tracks:
  "window_tracks w m \<Longrightarrow> buddy_split m ords a n k = Inr (m', ords') \<Longrightarrow> window_tracks w m'"
proof (induction k arbitrary: m ords)
  case (Suc k)
  show ?case using Suc.prems Suc.IH [OF order_tracks(1)] by (auto simp: bind_res_Inr_iff case_prod_unfold Let_def split: if_splits)
qed simp

lemma buddy_alloc_tracks:
  assumes "buddy_alloc m bo sz = Inr (a, m', bo')" and w: "window_tracks w m"
  shows "window_tracks w m'"
  using assms(1) w order_tracks(2) [OF w] buddy_split_tracks [OF order_tracks(2) [OF w]] unfolding buddy_alloc_def Let_def
  by (auto simp: bind_res_Inr_iff case_prod_unfold split: if_splits option.splits)

lemma physical_alloc_tracks:
  "physical_alloc m P sz fl = Inr (a, m', P') \<Longrightarrow> window_tracks w m \<Longrightarrow> window_tracks w m'"
  by (auto simp: physical_alloc_def bind_res_Inr_iff split: if_splits prod.splits dest: buddy_alloc_tracks)

lemma buddy_inv_log [simp]: "buddy_inv (m\<lparr>window_maps := xs\<rparr>) b fl H = buddy_inv m b fl H"
  by (simp add: buddy_inv_def orders_inv_def)

text \<open>What an allocation writes: only pages the allocator already covers.\<close>

lemma order_pop_words: "order_pop m ords k = (r, m', ords') \<Longrightarrow> page_words m' = page_words m"
  by (auto simp: order_pop_def stack_pop_def stack_map_def Let_def split: prod.splits if_splits)

lemma order_push_words:
  "order_push m ords k a = (m', ords') \<Longrightarrow> p \<noteq> page_of a \<Longrightarrow> page_words m' p = page_words m p"
  by (auto simp: order_push_def stack_push_def stack_map_def Let_def split: prod.splits)

lemma buddy_split_words:
  assumes "buddy_split m ords a n k = Inr (m', ords')"
    and "\<And>j. n \<le> j \<Longrightarrow> j < k \<Longrightarrow> p \<noteq> page_of (BUDDY_ADDRESS a j)"
  shows "page_words m' p = page_words m p"
  using assms
proof (induction m ords a n k rule: buddy_split.induct)
  case (2 m ords a n k)
  show ?case
  proof (cases "n < Suc k")
    case True
    then obtain ords1 ords2 where S12: "order_set_bit ords (Suc k) a = Inr ords1"
        "order_set_bit ords1 k a = Inr ords2"
        "(let (m', ords3) = order_push m ords2 k (BUDDY_ADDRESS a k) in buddy_split m' ords3 a n k) = Inr (m', ords')"
      using 2(2) by (auto simp: bind_res_Inr_iff)
    obtain m1 ords3 where "order_push m ords2 k (BUDDY_ADDRESS a k) = (m1, ords3)" by fastforce
    with S12 have S: "order_set_bit ords (Suc k) a = Inr ords1" "order_set_bit ords1 k a = Inr ords2"
        "order_push m ords2 k (BUDDY_ADDRESS a k) = (m1, ords3)" "buddy_split m1 ords3 a n k = Inr (m', ords')"
      by simp_all
    have "page_words m' p = page_words m1 p"
      using 2(1) [OF True refl S(3) [symmetric] S(4)] 2(3) by simp
    also have "\<dots> = page_words m p"
      using order_push_words [OF S(3)] 2(3) [of k] True by simp
    finally show ?thesis .
  qed (use 2(2) in simp)
qed simp

lemma split_page_covered:
  assumes "orders_inv m ords mn mx fl H" and "(k, a) \<in> free_set mn mx fl" and "mn \<le> j" and "j < k"
  shows "unat (page_of (BUDDY_ADDRESS a j)) \<in> covered mn mx fl H"
proof -
  note D = orders_invD [OF assms(1)]
  have ok: "block_ok ords mn mx (k, a)" using D(7) assms(2) by blast
  then have al: "2 ^ k dvd unat a" and top: "unat a + 2 ^ k \<le> 2 ^ 64" and k: "k \<le> mx"
    by (simp_all add: block_ok_def)
  have j: "j < 31" "Suc j \<le> k" using assms(4) k D(4) by auto
  have dv: "2 ^ Suc j dvd unat a" using al j(2) by (metis le_imp_power_dvd dvd_trans)
  have un: "unat (BUDDY_ADDRESS a j) = unat a + 2 ^ j"
    using unat_BUDDY_ADDRESS [of j a] dv j top power_increasing [OF j(2), of "2::nat"] by simp
  have "2 ^ j dvd unat (BUDDY_ADDRESS a j)"
    unfolding un using dv by (metis dvd_add dvd_refl dvd_trans le_imp_power_dvd lessI less_imp_le)
  then have "page_of (BUDDY_ADDRESS a j) = BUDDY_ADDRESS a j"
    using page_of_aligned [of j] assms(3) D(2) by simp
  moreover have "unat a + 2 ^ j \<in> extent (k, a)"
    using assms(4) by (simp add: extent_def)
  ultimately show ?thesis
    unfolding covered_def using assms(2) un by auto
qed

lemma buddy_alloc_words:
  assumes inv: "buddy_inv m b fl H" and al: "buddy_alloc m (Some b) sz = Inr (a, m', b')"
    and p: "unat p \<notin> covered (unat (min_order b)) (unat (max_order b)) fl H"
  shows "page_words m' p = page_words m p"
proof -
  let ?mn = "unat (min_order b)" and ?mx = "unat (max_order b)" and ?n = "alloc_order b sz"
  have O: "orders_inv m (orders b) ?mn ?mx fl H" using inv by (simp add: buddy_inv_def)
  note D = orders_invD [OF O]
  have mn: "?mn \<le> ?n" by (simp add: alloc_order_def)
  note U = al [unfolded buddy_alloc_unfold [OF D(1,4)] Let_def]
  show ?thesis
  proof (cases "?n \<le> ?mx \<and> stack_size (order_free (orders b ! ?n)) = 0")
    case False
    then show ?thesis using U
      by (auto simp: bind_res_Inr_iff not_le split: if_splits prod.splits dest: order_pop_words)
  next
    case True
    then obtain fo where fo: "buddy_find_order (orders b) ?mx ?n = Inr fo"
        and R: "(case fo of None \<Rightarrow> Inr (NULL, m, Some b) | Some k \<Rightarrow>
           case order_pop m (orders b) k of (a, m1, ords1) \<Rightarrow> bind_res (buddy_split m1 ords1 a ?n k)
              (\<lambda>(m2, ords2). Inr (a, m2, Some (b\<lparr>orders := ords2\<rparr>)))) = Inr (a, m', b')"
      using U by (auto simp: bind_res_Inr_iff)
    show ?thesis
    proof (cases fo)
      case (Some k)
      then have k: "?n < k" "k \<le> ?mx" "fl k \<noteq> []"
        using buddy_find_order_inv [OF O mn] True fo by auto
      obtain r m1 ords1 where pop: "order_pop m (orders b) k = (r, m1, ords1)" by (metis prod_cases3)
      obtain x xs where x: "fl k = x # xs" using k(3) by (cases "fl k") auto
      have r: "r = x" using order_pop_inv(1) [OF O _ _ x pop] k mn by simp
      have "(k, x) \<in> free_set ?mn ?mx fl" using x k mn by simp
      then have "p \<noteq> page_of (BUDDY_ADDRESS x j)" if "?n \<le> j" "j < k" for j
        using split_page_covered [OF O, of k x j] that mn p by auto
      moreover obtain ords2 where "buddy_split m1 ords1 x ?n k = Inr (m', ords2)"
        using R Some pop r by (auto simp: bind_res_Inr_iff)
      ultimately show ?thesis
        using buddy_split_words order_pop_words [OF pop] by metis
    qed (use R in simp)
  qed
qed

lemma chain_cong: "(\<And>x. x \<in> set xs \<Longrightarrow> w' (page_of x) = w (page_of x)) \<Longrightarrow> chain w' p xs = chain w p xs"
  by (induction w p xs rule: chain.induct) auto

text \<open>An allocator does not notice a write to a page it does not own.\<close>

lemma buddy_inv_frame:
  assumes inv: "buddy_inv m b fl H"
    and eq: "\<And>p :: addr_t. unat p \<in> covered (unat (min_order b)) (unat (max_order b)) fl H \<Longrightarrow> page_words m' p = page_words m p"
  shows "buddy_inv m' b fl H"
proof -
  let ?mn = "unat (min_order b)" and ?mx = "unat (max_order b)"
  have O: "orders_inv m (orders b) ?mn ?mx fl H" using inv by (simp add: buddy_inv_def)
  note D = orders_invD [OF O]
  have "stack_repr m' (order_free (orders b ! k)) (fl k)" if k: "?mn \<le> k" "k \<le> ?mx" for k
  proof -
    have "page_words m' (page_of x) = page_words m (page_of x)" if "x \<in> set (fl k)" for x
    proof -
      have mem: "(k, x) \<in> free_set ?mn ?mx fl" using that k by simp
      then have "2 ^ k dvd unat x" using D(7) [of "(k, x)"] by (simp add: block_ok_def)
      then have "page_of x = x" using page_of_aligned k D(2) by simp
      moreover have "unat x \<in> covered ?mn ?mx fl H"
        unfolding covered_def using mem extent_nonempty [of "(k, x)"] by auto
      ultimately show ?thesis using eq by simp
    qed
    then show ?thesis using D(6) [OF k] chain_cong [of "fl k" "page_words m'"]
      by (simp add: stack_repr_def)
  qed
  then show ?thesis using O unfolding buddy_inv_def orders_inv_def by simp
qed

section \<open>The zones\<close>

text \<open>The regions are well-formed allocators, everything the first covers lies below the DMA
  boundary and everything the second covers above it. \<open>H1\<close> and \<open>H2\<close> are the blocks handed out.\<close>

definition zone :: "physical_region \<Rightarrow> kmem \<Rightarrow> (nat \<Rightarrow> addr_t list) \<Rightarrow> block set \<Rightarrow> nat set \<Rightarrow> bool" where
  "zone R m fl H Z \<longleftrightarrow> (case region_buddy R of None \<Rightarrow> False
     | Some b \<Rightarrow> buddy_inv m b fl H \<and> covered (unat (min_order b)) (unat (max_order b)) fl H \<subseteq> Z)"

definition physical_inv ::
  "kmem \<Rightarrow> physical \<Rightarrow> (nat \<Rightarrow> addr_t list) \<Rightarrow> block set \<Rightarrow> (nat \<Rightarrow> addr_t list) \<Rightarrow> block set \<Rightarrow> bool" where
  "physical_inv m P fl1 H1 fl2 H2 \<longleftrightarrow>
     zone (phys_dma_region P) m fl1 H1 {..< unat (region_size (phys_dma_region P))}
     \<and> zone (phys_normal_region P) m fl2 H2 {unat (region_size (phys_dma_region P)) ..}"

lemma zone_log [simp]: "zone R (m\<lparr>window_maps := xs\<rparr>) fl H Z = zone R m fl H Z"
  by (simp add: zone_def split: option.split)

lemma zone_frame:
  assumes "zone R m fl H Z" and "\<And>p :: addr_t. unat p \<in> Z \<Longrightarrow> page_words m' p = page_words m p"
  shows "zone R m' fl H Z"
  using assms buddy_inv_frame by (auto simp: zone_def split: option.splits) blast

lemma buddy_alloc_orders:
  "buddy_alloc m (Some b) sz = Inr (a, m', Some b') \<Longrightarrow> min_order b' = min_order b \<and> max_order b' = max_order b"
  unfolding buddy_alloc_def Let_def
  by (auto simp: bind_res_Inr_iff case_prod_unfold split: if_splits option.splits)

text \<open>One allocation in a zone: the result, the zone afterwards, and what the other zone sees.\<close>

lemma zone_alloc:
  assumes z: "zone R m fl H Z" and al: "buddy_alloc m (region_buddy R) sz = Inr (a, m', bo)"
    and Z: "\<And>p :: addr_t. unat p \<in> Z' \<Longrightarrow> unat p \<notin> Z"
  obtains (none) "a = NULL" and "m' = m" and "bo = region_buddy R"
  | (block) n fl' where "unat (log_2 sz) \<le> n" and "(n, a) \<notin> H" and "extent (n, a) \<subseteq> Z" and "2 ^ n dvd unat a"
      and "zone (R\<lparr>region_buddy := bo\<rparr>) m' fl' (insert (n, a) H) Z"
      and "\<And>p :: addr_t. unat p \<in> Z' \<Longrightarrow> page_words m' p = page_words m p"
proof -
  obtain b where b: "region_buddy R = Some b" and inv: "buddy_inv m b fl H"
    and cov: "covered (unat (min_order b)) (unat (max_order b)) fl H \<subseteq> Z"
    using z by (auto simp: zone_def split: option.splits)
  show thesis
  proof (cases "\<exists>j. alloc_order b sz \<le> j \<and> j \<le> unat (max_order b) \<and> fl j \<noteq> []")
    case True
    let ?n = "alloc_order b sz"
    obtain b' fl' where R: "bo = Some b'" "2 ^ ?n dvd unat a" "buddy_inv m' b' fl' (insert (?n, a) H)" "(?n, a) \<notin> H"
        "covered (unat (min_order b)) (unat (max_order b)) fl' (insert (?n, a) H)
          = covered (unat (min_order b)) (unat (max_order b)) fl H"
      using buddy_alloc_inv [OF inv, of sz] True al b by auto
    have ord: "min_order b' = min_order b" "max_order b' = max_order b"
      using buddy_alloc_orders al b R(1) by auto
    have "extent (?n, a) \<subseteq> covered (unat (min_order b)) (unat (max_order b)) fl' (insert (?n, a) H)"
      unfolding covered_def by blast
    then have "extent (?n, a) \<subseteq> Z" using cov unfolding R(5) by (rule subset_trans)
    moreover have "zone (R\<lparr>region_buddy := bo\<rparr>) m' fl' (insert (?n, a) H) Z"
      using R(1,3,5) ord cov by (simp add: zone_def)
    moreover have "page_words m' p = page_words m p" if "unat p \<in> Z'" for p
      using buddy_alloc_words [OF inv, of sz a m' bo p] al b Z [OF that] cov by auto
    moreover have "unat (log_2 sz) \<le> ?n" by (simp add: alloc_order_def)
    ultimately show thesis using R(2,4) block by blast
  next
    case False
    then show thesis using buddy_alloc_inv [OF inv, of sz] al b none by auto
  qed
qed

text \<open>An allocation in either zone, with what it leaves.\<close>

lemma physical_alloc_dma:
  assumes "physical_inv m P fl1 H1 fl2 H2" and "physical_alloc m P sz flags = Inr (a, m', P')" and "flags AND PHYS_DMA \<noteq> 0"
  shows "(a = NULL \<and> m' = m \<and> P' = P)
    \<or> (\<exists>n fl'. unat (log_2 sz) \<le> n \<and> 2 ^ n dvd unat a \<and> extent (n, a) \<subseteq> {..< unat (region_size (phys_dma_region P))} \<and> (n, a) \<notin> H1
        \<and> physical_inv m' P' fl' (insert (n, a) H1) fl2 H2)"
proof -
  obtain bo where A: "buddy_alloc m (region_buddy (phys_dma_region P)) sz = Inr (a, m', bo)"
    and P': "P' = set_dma_buddy P bo"
    using assms(2,3) by (auto simp: physical_alloc_def bind_res_Inr_iff)
  have z1: "zone (phys_dma_region P) m fl1 H1 {..< unat (region_size (phys_dma_region P))}"
    and z2: "zone (phys_normal_region P) m fl2 H2 {unat (region_size (phys_dma_region P)) ..}"
    using assms(1) by (simp_all add: physical_inv_def)
  show ?thesis
  proof (rule zone_alloc [OF z1 A, of "{unat (region_size (phys_dma_region P)) ..}"])
    assume "a = NULL" "m' = m" "bo = region_buddy (phys_dma_region P)"
    then show ?thesis by (simp add: P' set_dma_buddy_def)
  next
    fix n fl'
    assume B: "unat (log_2 sz) \<le> n" "(n, a) \<notin> H1" "extent (n, a) \<subseteq> {..< unat (region_size (phys_dma_region P))}"
      "2 ^ n dvd unat a" "zone (phys_dma_region P\<lparr>region_buddy := bo\<rparr>) m' fl' (insert (n, a) H1)
          {..< unat (region_size (phys_dma_region P))}"
      and fr: "\<And>p :: addr_t. unat p \<in> {unat (region_size (phys_dma_region P)) ..} \<Longrightarrow> page_words m' p = page_words m p"
    have "physical_inv m' P' fl' (insert (n, a) H1) fl2 H2"
      using B(5) zone_frame [OF z2 fr] by (simp add: physical_inv_def P' set_dma_buddy_def)
    with B show ?thesis by auto
  qed simp
qed

lemma physical_alloc_normal:
  assumes "physical_inv m P fl1 H1 fl2 H2" and "physical_alloc m P sz flags = Inr (a, m', P')" and "flags AND PHYS_DMA = 0"
  shows "(a = NULL \<and> m' = m \<and> P' = P)
    \<or> (\<exists>n fl'. unat (log_2 sz) \<le> n \<and> 2 ^ n dvd unat a \<and> extent (n, a) \<subseteq> {unat (region_size (phys_dma_region P)) ..} \<and> (n, a) \<notin> H2
        \<and> physical_inv m' P' fl1 H1 fl' (insert (n, a) H2))"
proof -
  obtain bo where A: "buddy_alloc m (region_buddy (phys_normal_region P)) sz = Inr (a, m', bo)"
    and P': "P' = set_normal_buddy P bo"
    using assms(2,3) by (auto simp: physical_alloc_def bind_res_Inr_iff)
  have z1: "zone (phys_dma_region P) m fl1 H1 {..< unat (region_size (phys_dma_region P))}"
    and z2: "zone (phys_normal_region P) m fl2 H2 {unat (region_size (phys_dma_region P)) ..}"
    using assms(1) by (simp_all add: physical_inv_def)
  show ?thesis
  proof (rule zone_alloc [OF z2 A, of "{..< unat (region_size (phys_dma_region P))}"])
    assume "a = NULL" "m' = m" "bo = region_buddy (phys_normal_region P)"
    then show ?thesis by (simp add: P' set_normal_buddy_def)
  next
    fix n fl'
    assume B: "unat (log_2 sz) \<le> n" "(n, a) \<notin> H2" "extent (n, a) \<subseteq> {unat (region_size (phys_dma_region P)) ..}"
      "2 ^ n dvd unat a" "zone (phys_normal_region P\<lparr>region_buddy := bo\<rparr>) m' fl' (insert (n, a) H2)
          {unat (region_size (phys_dma_region P)) ..}"
      and fr: "\<And>p :: addr_t. unat p \<in> {..< unat (region_size (phys_dma_region P))} \<Longrightarrow> page_words m' p = page_words m p"
    have "physical_inv m' P' fl1 H1 fl' (insert (n, a) H2)"
      using B(5) zone_frame [OF z1 fr] by (simp add: physical_inv_def P' set_normal_buddy_def)
    with B show ?thesis by auto
  qed simp
qed

lemma physical_alloc_keeps:
  assumes "physical_inv m P fl1 H1 fl2 H2"
  shows "\<exists>a m' P' fl H. physical_alloc m P sz 0 = Inr (a, m', P') \<and> physical_inv m' P' fl1 H1 fl H"
proof -
  obtain b where b: "region_buddy (phys_normal_region P) = Some b" "buddy_inv m b fl2 H2"
    using assms by (auto simp: physical_inv_def zone_def split: option.splits)
  obtain a m' P' where A: "physical_alloc m P sz 0 = Inr (a, m', P')"
    using buddy_alloc_inv [OF b(2), of sz] b(1) by (auto simp: physical_alloc_def split: if_splits)
  then show ?thesis using physical_alloc_normal [OF assms A] assms by auto
qed

section \<open>Giving a page back\<close>

text \<open>Allocation only sets bits; of the order asked for it sets the bit of the block it returns.\<close>

abbreviation order_flags :: "buddy_order list \<Rightarrow> nat \<Rightarrow> nat set" where
  "order_flags ords n \<equiv> bitset_abs (order_bitset (ords ! n))"

lemma order_set_bit_flags:
  assumes "order_set_bit ords j a = Inr ords'" and "j < length ords"
  shows "order_flags ords' n = (if n = j then insert (unat (BUDDY_INDEX a j)) (order_flags ords n) else order_flags ords n)"
    and "length (order_bitset (ords' ! n)) = length (order_bitset (ords ! n))" and "length ords' = length ords"
proof -
  obtain bs where bs: "bitset_set (order_bitset (ords ! j)) (BUDDY_INDEX a j) = Inr bs" and o: "ords' = ords[j := (ords ! j)\<lparr>order_bitset := bs\<rparr>]"
    using assms(1) by (auto simp: order_set_bit_def bind_res_Inr_iff)
  note R = bits.set_flag_result [OF bs]
  show "order_flags ords' n = (if n = j then insert (unat (BUDDY_INDEX a j)) (order_flags ords n) else order_flags ords n)"
    using R(1) assms(2) by (simp add: o)
  show "length (order_bitset (ords' ! n)) = length (order_bitset (ords ! n))" using R(2) assms(2) by (cases "n = j") (simp_all add: o)
  show "length ords' = length ords" by (simp add: o)
qed

lemma order_push_bitset:
  "order_push m ords k a = (m', ords') \<Longrightarrow> order_bitset (ords' ! n) = order_bitset (ords ! n) \<and> length ords' = length ords"
  by (cases "k < length ords"; cases "n = k") (auto simp: order_push_def list_update_beyond split: prod.splits)

lemma order_pop_bitset:
  "order_pop m ords k = (r, m', ords') \<Longrightarrow> order_bitset (ords' ! n) = order_bitset (ords ! n) \<and> length ords' = length ords"
  by (cases "k < length ords"; cases "n = k") (auto simp: order_pop_def list_update_beyond split: prod.splits)

lemma buddy_split_flags:
  assumes "buddy_split m ords a n k = Inr (m', ords')" and "k < length ords"
  shows "order_flags ords n \<subseteq> order_flags ords' n \<and> (n < k \<longrightarrow> unat (BUDDY_INDEX a n) \<in> order_flags ords' n)
    \<and> length (order_bitset (ords' ! n)) = length (order_bitset (ords ! n))"
  using assms
proof (induction m ords a n k rule: buddy_split.induct)
  case (2 m ords a n k)
  show ?case
  proof (cases "n < Suc k")
    case True
    then obtain ords1 ords2 where S12: "order_set_bit ords (Suc k) a = Inr ords1" "order_set_bit ords1 k a = Inr ords2"
        "(let (m', ords3) = order_push m ords2 k (BUDDY_ADDRESS a k) in buddy_split m' ords3 a n k) = Inr (m', ords')"
      using 2(2) by (auto simp: bind_res_Inr_iff)
    obtain m1 ords3 where p: "order_push m ords2 k (BUDDY_ADDRESS a k) = (m1, ords3)" by fastforce
    note B1 = order_set_bit_flags [OF S12(1) 2(3)] and P = order_push_bitset [OF p, of n]
    have k: "k < length ords1" using B1(3) 2(3) by simp
    note B2 = order_set_bit_flags [OF S12(2) k]
    have "k < length ords3" using P B2(3) k by simp
    then have "order_flags ords3 n \<subseteq> order_flags ords' n \<and> (n < k \<longrightarrow> unat (BUDDY_INDEX a n) \<in> order_flags ords' n)
        \<and> length (order_bitset (ords' ! n)) = length (order_bitset (ords3 ! n))"
      using 2(1) [OF True refl p [symmetric]] S12(3) p by simp
    moreover have "n < k \<or> n = k" using True by auto
    ultimately show ?thesis using P B1(1,2) [of n] B2(1,2) [of n] by (auto split: if_splits)
  qed (use 2(2) in simp)
qed simp

lemma buddy_alloc_flags:
  assumes inv: "buddy_inv m b fl H" and al: "buddy_alloc m (Some b) sz = Inr (a, m', Some b')"
    and av: "alloc_order b sz \<le> j" "j \<le> unat (max_order b)" "fl j \<noteq> []"
  defines "n \<equiv> alloc_order b sz"
  shows "insert (unat (BUDDY_INDEX a n)) (order_flags (orders b) n) \<subseteq> order_flags (orders b') n"
    and "length (order_bitset (orders b' ! n)) = length (order_bitset (orders b ! n))"
    and "fl n \<noteq> [] \<Longrightarrow> a = hd (fl n)"
proof -
  let ?mn = "unat (min_order b)" and ?mx = "unat (max_order b)"
  have O: "orders_inv m (orders b) ?mn ?mx fl H" using inv by (simp add: buddy_inv_def)
  note D = orders_invD [OF O]
  have mn: "?mn \<le> n" "n \<le> ?mx" using av by (auto simp: n_def alloc_order_def)
  note U = al [unfolded buddy_alloc_unfold [OF D(1,4)] Let_def, folded n_def]
  have "insert (unat (BUDDY_INDEX a n)) (order_flags (orders b) n) \<subseteq> order_flags (orders b') n
     \<and> length (order_bitset (orders b' ! n)) = length (order_bitset (orders b ! n)) \<and> (fl n \<noteq> [] \<longrightarrow> a = hd (fl n))"
  proof (cases "fl n")
    case (Cons x xs)
    then have "stack_size (order_free (orders b ! n)) \<noteq> 0" using pages.count_zero_iff [OF D(6) [OF mn]] by simp
    then obtain m1 ords1 ords2 where P: "order_pop m (orders b) n = (a, m1, ords1)" "order_set_bit ords1 n a = Inr ords2" "b' = b\<lparr>orders := ords2\<rparr>"
      using U mn(2) by (auto simp: bind_res_Inr_iff split: prod.splits)
    have "n < length ords1" using order_pop_bitset [OF P(1)] D(1,4) mn by simp
    from order_set_bit_flags(1,2) [OF P(2) this, of n] show ?thesis
      using order_pop_bitset [OF P(1), of n] P(3) order_pop_inv(1) [OF O mn Cons P(1)] Cons by simp
  next
    case Nil
    then have z: "stack_size (order_free (orders b ! n)) = 0" using pages.count_zero_iff [OF D(6) [OF mn]] by simp
    have "n < j" using Nil av by (metis le_neq_implies_less n_def)
    then obtain k where k: "buddy_find_order (orders b) ?mx n = Inr (Some k)" "n < k" "k \<le> ?mx"
      using buddy_find_order_inv [OF O mn(1)] av mn by fastforce
    obtain m1 ords1 m2 ords2 where P: "order_pop m (orders b) k = (a, m1, ords1)" "buddy_split m1 ords1 a n k = Inr (m2, ords2)" "b' = b\<lparr>orders := ords2\<rparr>"
      using U mn(2) z k(1) by (auto simp: bind_res_Inr_iff split: prod.splits)
    have "k < length ords1" using order_pop_bitset [OF P(1)] D(1,4) k by simp
    from buddy_split_flags [OF P(2) this] show ?thesis using order_pop_bitset [OF P(1), of n] P(3) k(2) Nil by simp
  qed
  then show "insert (unat (BUDDY_INDEX a n)) (order_flags (orders b) n) \<subseteq> order_flags (orders b') n"
    "length (order_bitset (orders b' ! n)) = length (order_bitset (orders b ! n))" "fl n \<noteq> [] \<Longrightarrow> a = hd (fl n)" by blast+
qed


text \<open>Freeing unsets at most the bits of the block, and writes at most to its page.\<close>

lemma buddy_free_loop_frame:
  assumes "buddy_free_loop m ords mx a n = Inr (m', ords')"
  shows "order_flags ords j - {unat (BUDDY_INDEX a j)} \<subseteq> order_flags ords' j \<and> length (order_bitset (ords' ! j)) = length (order_bitset (ords ! j))
    \<and> (\<forall>p. p \<noteq> page_of a \<longrightarrow> page_words m' p = page_words m p)"
  using assms
proof (induction m ords mx a n rule: buddy_free_loop.induct)
  case (1 m ords mx a n)
  show ?case
  proof (cases "n \<le> mx")
    case True
    then have len: "n < length ords" using 1(2) by (auto simp: buddy_free_loop.simps [of m ords mx a n] split: if_splits)
    then obtain ords1 t where S: "order_unset_bit ords n a = Inr ords1"
        "bitset_test (order_bitset (ords1 ! n)) (BUDDY_INDEX (BUDDY_ADDRESS a n) n) = Inr t"
        "(if t \<or> n = mx then Inr (order_push m ords1 n a) else buddy_free_loop m ords1 mx a (Suc n)) = Inr (m', ords')"
      using 1(2) True by (auto simp: buddy_free_loop.simps [of m ords mx a n] bind_res_Inr_iff)
    obtain bs where bs: "bitset_unset (order_bitset (ords ! n)) (BUDDY_INDEX a n) = Inr bs" and o1: "ords1 = ords[n := (ords ! n)\<lparr>order_bitset := bs\<rparr>]"
      using S(1) by (auto simp: order_unset_bit_def bind_res_Inr_iff)
    note R = bits.unset_flag_result [OF bs]
    have 1: "order_flags ords j - {unat (BUDDY_INDEX a j)} \<subseteq> order_flags ords1 j" "length (order_bitset (ords1 ! j)) = length (order_bitset (ords ! j))"
      using R(1,2) len by (cases "j = n"; simp add: o1)+
    show ?thesis
    proof (cases "t \<or> n = mx")
      case True
      then have "order_push m ords1 n a = (m', ords')" using S(3) by simp
      then show ?thesis using 1 order_push_bitset [of m ords1 n a m' ords' j] order_push_words by metis
    next
      case False
      then show ?thesis using "1.IH" [OF \<open>n \<le> mx\<close> len False] S(3) 1 by auto
    qed
  qed (use 1(2) in \<open>simp add: buddy_free_loop.simps [of m ords mx a n]\<close>)
qed

text \<open>The state in which pages can be taken and given back without merging: there is a free block, and every page is marked as not to
  be merged, except for the one on top of the stack of free pages.\<close>

definition page_ready :: "buddy \<Rightarrow> (nat \<Rightarrow> addr_t list) \<Rightarrow> bool" where
  "page_ready b fl \<longleftrightarrow> min_order b = 12 \<and> (\<exists>j. 12 \<le> j \<and> j \<le> unat (max_order b) \<and> fl j \<noteq> [])
     \<and> {..< 8 * length (order_bitset (orders b ! 12))} \<subseteq> order_flags (orders b) 12
         \<union> (case fl 12 of [] \<Rightarrow> {} | x # _ \<Rightarrow> {unat (BUDDY_INDEX x 12)})"

lemma buddy_page_round:
  assumes inv: "buddy_inv m b fl H" and rdy: "page_ready b fl"
  shows "\<exists>a m1 b1 m2 b2 fl2. buddy_alloc m (Some b) 0x1000 = Inr (a, m1, Some b1) \<and> buddy_free m1 b1 a 0x1000 = Inr (m2, b2)
    \<and> buddy_inv m2 b2 (fl2(12 := a # fl2 12)) H \<and> page_ready b2 (fl2(12 := a # fl2 12)) \<and> (fl 12 \<noteq> [] \<longrightarrow> a = hd (fl 12))
    \<and> covered 12 (unat (max_order b)) (fl2(12 := a # fl2 12)) H = covered 12 (unat (max_order b)) fl H \<and> max_order b2 = max_order b
    \<and> 2 ^ 12 dvd unat a \<and> (\<forall>p. p \<noteq> page_of a \<longrightarrow> page_words m2 p = page_words m1 p)"
proof -
  let ?mx = "unat (max_order b)"
  have mn: "min_order b = 12" and n: "alloc_order b 0x1000 = 12" using rdy by (simp_all add: page_ready_def alloc_order_def demo_log_2)
  obtain j where j: "12 \<le> j" "j \<le> ?mx" "fl j \<noteq> []" using rdy by (auto simp: page_ready_def)
  obtain a m1 b1 fl2 where A: "buddy_alloc m (Some b) 0x1000 = Inr (a, m1, Some b1)" "2 ^ 12 dvd unat a"
      "buddy_inv m1 b1 fl2 (insert (12, a) H)" "(12, a) \<notin> H" "covered 12 ?mx fl2 (insert (12, a) H) = covered 12 ?mx fl H"
  proof -
    have "\<exists>j. 12 \<le> j \<and> j \<le> ?mx \<and> fl j \<noteq> []" using j by blast
    moreover have "unat (12 :: u32) = 12" by simp
    ultimately show thesis using buddy_alloc_inv [OF inv, of "0x1000"] that unfolding n mn by (simp only: if_True) blast
  qed
  note F = buddy_alloc_flags [OF inv A(1), unfolded n, OF j]
  have ord: "min_order b1 = 12" "max_order b1 = max_order b" using buddy_alloc_orders [OF A(1)] mn by simp_all
  have O: "orders_inv m1 (orders b1) 12 ?mx fl2 (insert (12, a) H)" using A(3) ord by (simp add: buddy_inv_def)
  have full: "{..< 8 * length (order_bitset (orders b1 ! 12))} \<subseteq> order_flags (orders b1) 12"
    using rdy F by (auto simp: page_ready_def split: list.splits)
  let ?i = "BUDDY_INDEX (BUDDY_ADDRESS a 12) 12"
  have "block_ok (orders b1) 12 ?mx (12, a)" using orders_invD(7) [OF O, of "(12, a)"] by simp
  then have "unat a + 2 ^ 12 \<le> 8 * length (order_bitset (orders b1 ! 12)) * 2 ^ 12" unfolding block_ok_def by auto
  then have "unat (BUDDY_INDEX a 12) < 8 * length (order_bitset (orders b1 ! 12))" by (simp add: unat_BUDDY_INDEX)
  then have "unat ?i < 8 * length (order_bitset (orders b1 ! 12))" by (intro buddy_bit_in_range) simp_all
  then have t: "bitset_test (order_bitset (orders b1 ! 12)) ?i = Inr True" using bits.test_flag_ok [of ?i "order_bitset (orders b1 ! 12)"] full by auto
  have H: "insert (12, a) H - {(12, a)} = H" using A(4) by simp
  obtain m2 ords2 where L: "buddy_free_loop m1 (orders b1) ?mx a 12 = Inr (m2, ords2)"
      "orders_inv m2 ords2 12 ?mx (fl2(12 := a # fl2 12)) H"
      "covered 12 ?mx (fl2(12 := a # fl2 12)) H = covered 12 ?mx fl2 (insert (12, a) H)"
    using buddy_free_loop_stop [OF O insertI1 t] unfolding H by auto
  note R = buddy_free_loop_frame [OF L(1), of 12]
  let ?b = "b1\<lparr>orders := ords2\<rparr>"
  have "buddy_free m1 b1 a 0x1000 = Inr (m2, ?b)" using L(1) ord by (simp add: buddy_free_def demo_log_2)
  moreover have "page_ready ?b (fl2(12 := a # fl2 12))"
    using full R ord j by (auto simp: page_ready_def intro: exI [of _ 12])
  moreover have "buddy_inv m2 ?b (fl2(12 := a # fl2 12)) H" using L(2) ord by (simp add: buddy_inv_def)
  ultimately show ?thesis using A(1,2,5) L(3) R F(3) ord
    by (intro exI [of _ a] exI [of _ m1] exI [of _ b1] exI [of _ m2] exI [of _ ?b] exI [of _ fl2]) simp
qed


lemma zone_page_round:
  assumes z: "zone R m fl H Z" and b: "region_buddy R = Some b" and rdy: "page_ready b fl"
  shows "\<exists>a m1 b1 m2 b2 fl'. buddy_alloc m (Some b) 0x1000 = Inr (a, m1, Some b1) \<and> buddy_free m1 b1 a 0x1000 = Inr (m2, b2)
    \<and> zone (R\<lparr>region_buddy := Some b2\<rparr>) m2 fl' H Z \<and> page_ready b2 fl' \<and> fl' 12 \<noteq> [] \<and> hd (fl' 12) = a \<and> (fl 12 \<noteq> [] \<longrightarrow> a = hd (fl 12))
    \<and> unat a \<in> Z \<and> (\<forall>p :: addr_t. unat p \<notin> Z \<longrightarrow> page_words m2 p = page_words m p)"
proof -
  let ?mx = "unat (max_order b)"
  have inv: "buddy_inv m b fl H" and cov: "covered 12 ?mx fl H \<subseteq> Z" using z b rdy by (simp_all add: zone_def page_ready_def)
  obtain a m1 b1 m2 b2 fl2 where A: "buddy_alloc m (Some b) 0x1000 = Inr (a, m1, Some b1)" "buddy_free m1 b1 a 0x1000 = Inr (m2, b2)"
      "buddy_inv m2 b2 (fl2(12 := a # fl2 12)) H" "page_ready b2 (fl2(12 := a # fl2 12))" "fl 12 \<noteq> [] \<longrightarrow> a = hd (fl 12)"
      "covered 12 ?mx (fl2(12 := a # fl2 12)) H = covered 12 ?mx fl H" "max_order b2 = max_order b"
      "2 ^ 12 dvd unat a" "\<forall>p. p \<noteq> page_of a \<longrightarrow> page_words m2 p = page_words m1 p"
    using buddy_page_round [OF inv rdy] by blast
  have "12 \<le> ?mx" using rdy by (auto simp: page_ready_def)
  then have "(12, a) \<in> free_set 12 ?mx (fl2(12 := a # fl2 12))" by simp
  then have "unat a \<in> covered 12 ?mx (fl2(12 := a # fl2 12)) H"
    unfolding covered_def using extent_nonempty [of "(12, a)"] by auto
  then have a: "unat a \<in> Z" using A(6) cov by auto
  have "page_words m2 p = page_words m p" if p: "unat p \<notin> Z" for p :: addr_t
  proof -
    have "p \<noteq> page_of a" using p a page_of_aligned [OF A(8)] by auto
    moreover have "unat p \<notin> covered (unat (min_order b)) ?mx fl H" using p cov rdy by (auto simp: page_ready_def)
    ultimately show ?thesis using A(9) buddy_alloc_words [OF inv A(1)] by simp
  qed
  moreover have "zone (R\<lparr>region_buddy := Some b2\<rparr>) m2 (fl2(12 := a # fl2 12)) H Z"
    using A(3,4,6,7) cov by (simp add: zone_def page_ready_def)
  ultimately show ?thesis using A(1,2,4,5) a
    by (intro exI [of _ a] exI [of _ m1] exI [of _ b1] exI [of _ m2] exI [of _ b2] exI [of _ "fl2(12 := a # fl2 12)"]) simp
qed

definition region_ready :: "physical_region \<Rightarrow> (nat \<Rightarrow> addr_t list) \<Rightarrow> bool" where
  "region_ready R fl \<longleftrightarrow> (case region_buddy R of None \<Rightarrow> False | Some b \<Rightarrow> page_ready b fl)"

definition physical_ready :: "addr_t \<Rightarrow> block set \<Rightarrow> block set \<Rightarrow> kmem \<times> physical \<Rightarrow> (nat \<Rightarrow> addr_t list) \<Rightarrow> (nat \<Rightarrow> addr_t list) \<Rightarrow> bool" where
  "physical_ready boundary H1 H2 s fl1 fl2 \<longleftrightarrow> physical_inv (fst s) (snd s) fl1 H1 fl2 H2
     \<and> region_ready (phys_dma_region (snd s)) fl1 \<and> region_ready (phys_normal_region (snd s)) fl2
     \<and> region_size (phys_dma_region (snd s)) = boundary"

lemma normal_page_round:
  assumes "physical_ready bd H1 H2 s fl1 fl2"
  shows "\<exists>a s1 s2 fl2'. physical_alloc (fst s) (snd s) 0x1000 0 = Inr (a, s1) \<and> physical_free (fst s1) (snd s1) a 0x1000 = Inr s2
    \<and> physical_ready bd H1 H2 s2 fl1 fl2' \<and> fl2' 12 \<noteq> [] \<and> hd (fl2' 12) = a \<and> (fl2 12 \<noteq> [] \<longrightarrow> a = hd (fl2 12)) \<and> bd \<le> a"
proof -
  obtain m P where s: "s = (m, P)" by fastforce
  have z1: "zone (phys_dma_region P) m fl1 H1 {..< unat bd}" and z2: "zone (phys_normal_region P) m fl2 H2 {unat bd ..}"
    and r1: "region_ready (phys_dma_region P) fl1" and bd: "region_size (phys_dma_region P) = bd"
    using assms by (auto simp: physical_ready_def physical_inv_def s)
  obtain b where b: "region_buddy (phys_normal_region P) = Some b" "page_ready b fl2"
    using assms by (auto simp: physical_ready_def region_ready_def s split: option.splits)
  obtain a m1 b1 m2 b2 fl' where R: "buddy_alloc m (Some b) 0x1000 = Inr (a, m1, Some b1)" "buddy_free m1 b1 a 0x1000 = Inr (m2, b2)"
      "zone ((phys_normal_region P)\<lparr>region_buddy := Some b2\<rparr>) m2 fl' H2 {unat bd ..}" "page_ready b2 fl'" "fl' 12 \<noteq> []" "hd (fl' 12) = a"
      "fl2 12 \<noteq> [] \<longrightarrow> a = hd (fl2 12)" "unat a \<in> {unat bd ..}" "\<forall>p :: addr_t. unat p \<notin> {unat bd ..} \<longrightarrow> page_words m2 p = page_words m p"
    using zone_page_round [OF z2 b] by blast
  let ?P = "set_normal_buddy P (Some b2)"
  have a: "bd \<le> a" using R(8) by (simp add: word_le_nat_alt)
  have "zone (phys_dma_region P) m2 fl1 H1 {..< unat bd}" by (rule zone_frame [OF z1]) (use R(9) in simp)
  then have "physical_ready bd H1 H2 (m2, ?P) fl1 fl'"
    using R(3,4) r1 bd by (simp add: physical_ready_def physical_inv_def set_normal_buddy_def region_ready_def)
  moreover have "physical_alloc m P 0x1000 0 = Inr (a, m1, set_normal_buddy P (Some b1))" using R(1) b(1) by (simp add: physical_alloc_def)
  moreover have "physical_free m1 (set_normal_buddy P (Some b1)) a 0x1000 = Inr (m2, ?P)"
    using R(2) a bd by (simp add: physical_free_def set_normal_buddy_def leD)
  ultimately show ?thesis using R(5-7) a
    by (intro exI [of _ a] exI [of _ "(m1, set_normal_buddy P (Some b1))"] exI [of _ "(m2, ?P)"] exI [of _ fl']) (simp add: s)
qed

lemma dma_page_round:
  assumes "physical_ready bd H1 H2 s fl1 fl2"
  shows "\<exists>a s1 s2 fl1'. physical_alloc (fst s) (snd s) 0x1000 PHYS_DMA = Inr (a, s1) \<and> physical_free (fst s1) (snd s1) a 0x1000 = Inr s2
    \<and> physical_ready bd H1 H2 s2 fl1' fl2 \<and> a < bd"
proof -
  obtain m P where s: "s = (m, P)" by fastforce
  have z1: "zone (phys_dma_region P) m fl1 H1 {..< unat bd}" and z2: "zone (phys_normal_region P) m fl2 H2 {unat bd ..}"
    and r2: "region_ready (phys_normal_region P) fl2" and bd: "region_size (phys_dma_region P) = bd"
    using assms by (auto simp: physical_ready_def physical_inv_def s)
  obtain b where b: "region_buddy (phys_dma_region P) = Some b" "page_ready b fl1"
    using assms by (auto simp: physical_ready_def region_ready_def s split: option.splits)
  obtain a m1 b1 m2 b2 fl' where R: "buddy_alloc m (Some b) 0x1000 = Inr (a, m1, Some b1)" "buddy_free m1 b1 a 0x1000 = Inr (m2, b2)"
      "zone ((phys_dma_region P)\<lparr>region_buddy := Some b2\<rparr>) m2 fl' H1 {..< unat bd}" "page_ready b2 fl'"
      "unat a \<in> {..< unat bd}" "\<forall>p :: addr_t. unat p \<notin> {..< unat bd} \<longrightarrow> page_words m2 p = page_words m p"
    using zone_page_round [OF z1 b] by blast
  let ?P = "set_dma_buddy P (Some b2)"
  have a: "a < bd" using R(5) by (simp add: word_less_nat_alt)
  have "zone (phys_normal_region P) m2 fl2 H2 {unat bd ..}" by (rule zone_frame [OF z2]) (use R(6) in simp)
  then have "physical_ready bd H1 H2 (m2, ?P) fl' fl2"
    using R(3,4) r2 bd by (simp add: physical_ready_def physical_inv_def set_dma_buddy_def region_ready_def)
  moreover have "physical_alloc m P 0x1000 PHYS_DMA = Inr (a, m1, set_dma_buddy P (Some b1))" using R(1) b(1) by (simp add: physical_alloc_def PHYS_DMA_def)
  moreover have "physical_free m1 (set_dma_buddy P (Some b1)) a 0x1000 = Inr (m2, ?P)"
    using R(2) a bd by (simp add: physical_free_def set_dma_buddy_def)
  ultimately show ?thesis using a
    by (intro exI [of _ a] exI [of _ "(m1, set_dma_buddy P (Some b1))"] exI [of _ "(m2, ?P)"] exI [of _ fl']) (simp add: s)
qed

text \<open>A request no order is large enough for.\<close>

lemma physical_alloc_huge:
  assumes "physical_ready bd H1 H2 s fl1 fl2"
  shows "physical_alloc (fst s) (snd s) 0xFFFFFFFFFFFFFFFF 0 = Inr (NULL, s)"
proof -
  obtain m P where s: "s = (m, P)" by fastforce
  obtain b where b: "region_buddy (phys_normal_region P) = Some b" "buddy_inv m b fl2 H2"
    using assms by (auto simp: physical_ready_def physical_inv_def zone_def s split: option.splits)
  have "log_2 0xFFFFFFFFFFFFFFFF = 64" by code_simp
  then have "\<not> (\<exists>j. alloc_order b 0xFFFFFFFFFFFFFFFF \<le> j \<and> j \<le> unat (max_order b) \<and> fl2 j \<noteq> [])"
    using orders_invD(4) [OF b(2) [unfolded buddy_inv_def]] by (auto simp: alloc_order_def)
  then have "buddy_alloc m (Some b) 0xFFFFFFFFFFFFFFFF = Inr (NULL, m, Some b)" using buddy_alloc_inv [OF b(2), of "0xFFFFFFFFFFFFFFFF"] by (simp only: if_False)
  then show ?thesis using b(1) by (simp add: physical_alloc_def s set_normal_buddy_def)
qed

section \<open>A supply of pages\<close>

definition free_area :: "nat \<Rightarrow> nat \<Rightarrow> (nat \<Rightarrow> addr_t list) \<Rightarrow> nat set" where
  "free_area mn mx fl = \<Union> (extent ` free_set mn mx fl)"

lemma free_held_apart:
  assumes "orders_inv m ords mn mx fl H"
  shows "free_area mn mx fl \<inter> \<Union> (extent ` H) = {}"
proof -
  note D = orders_invD [OF assms]
  have "disjnt (extent B) (extent C)" if "B \<in> free_set mn mx fl" "C \<in> H" for B C
  proof (rule pairwiseD [OF D(8)])
    show "B \<noteq> C" using D(9) that by (metis disjoint_iff)
  qed (use that in auto)
  then show ?thesis unfolding free_area_def disjnt_def by blast
qed

text \<open>An allocation takes its block out of the free area, and nothing else.\<close>

lemma taken_area:
  assumes inv: "buddy_inv m b fl H" and inv': "buddy_inv m' b' fl' (insert B H)" and B: "B \<notin> H"
    and ord: "min_order b' = min_order b" "max_order b' = max_order b"
    and cov: "covered (unat (min_order b)) (unat (max_order b)) fl' (insert B H) = covered (unat (min_order b)) (unat (max_order b)) fl H"
  shows "extent B \<subseteq> free_area (unat (min_order b)) (unat (max_order b)) fl"
    and "free_area (unat (min_order b)) (unat (max_order b)) fl' = free_area (unat (min_order b)) (unat (max_order b)) fl - extent B"
proof -
  let ?mn = "unat (min_order b)" and ?mx = "unat (max_order b)"
  note apart = free_held_apart [OF inv [unfolded buddy_inv_def]] and apart' = free_held_apart [OF inv' [unfolded buddy_inv_def ord]]
  have BH: "extent B \<inter> \<Union> (extent ` H) = {}"
  proof -
    have "disjnt (extent B) (extent C)" if "C \<in> H" for C
      by (rule pairwiseD [OF orders_invD(8) [OF inv' [unfolded buddy_inv_def]]]) (use that B in auto)
    then show ?thesis by (auto simp: disjnt_def)
  qed
  have c: "covered ?mn ?mx fl H = free_area ?mn ?mx fl \<union> \<Union> (extent ` H)" for fl H by (auto simp: covered_def free_area_def)
  have eq: "free_area ?mn ?mx fl' \<union> (extent B \<union> \<Union> (extent ` H)) = free_area ?mn ?mx fl \<union> \<Union> (extent ` H)"
    using cov unfolding c by simp
  show "extent B \<subseteq> free_area ?mn ?mx fl" using eq BH by blast
  show "free_area ?mn ?mx fl' = free_area ?mn ?mx fl - extent B" using eq apart apart' BH by auto
qed

text \<open>The normal zone as a supply of pages: \<open>F\<close> is the set of its free bytes. The DMA zone has the free lists \<open>fl1\<close> and the blocks
  \<open>H1\<close> handed out.\<close>

definition page_source :: "(nat \<Rightarrow> addr_t list) \<Rightarrow> (nat \<times> addr_t) set \<Rightarrow> kmem \<Rightarrow> physical \<Rightarrow> nat set \<Rightarrow> bool" where
  "page_source fl1 H1 m P F \<longleftrightarrow> F \<subseteq> {..< 2 ^ 52} \<and> (\<exists>fl2 H2 b. physical_inv m P fl1 H1 fl2 H2 \<and> region_buddy (phys_normal_region P) = Some b
     \<and> min_order b = 12 \<and> F = free_area 12 (unat (max_order b)) fl2)"

lemma page_source_log [simp]: "page_source fl1 H1 (m\<lparr>window_maps := xs\<rparr>) P F = page_source fl1 H1 m P F"
  by (simp add: page_source_def physical_inv_def)

lemma page_source_alloc:
  assumes "page_source fl1 H1 m P F" and "F \<noteq> {}"
  shows "\<exists>a m' P'. physical_alloc m P 0x1000 0 = Inr (a, m', P') \<and> 2 ^ 12 dvd unat a \<and> extent (12, a) \<subseteq> F \<and> page_source fl1 H1 m' P' (F - extent (12, a))
    \<and> phys_dma_region P' = phys_dma_region P"
proof -
  obtain fl2 H2 b where S: "F \<subseteq> {..< 2 ^ 52}" "physical_inv m P fl1 H1 fl2 H2" "region_buddy (phys_normal_region P) = Some b"
      "min_order b = 12" "F = free_area 12 (unat (max_order b)) fl2"
    using assms(1) by (auto simp: page_source_def)
  let ?mx = "unat (max_order b)" and ?Z = "{unat (region_size (phys_dma_region P)) ..}"
  have z1: "zone (phys_dma_region P) m fl1 H1 {..< unat (region_size (phys_dma_region P))}" and inv: "buddy_inv m b fl2 H2"
    and cov: "covered 12 ?mx fl2 H2 \<subseteq> ?Z"
    using S(2-4) by (simp_all add: physical_inv_def zone_def)
  have n: "alloc_order b 0x1000 = 12" by (simp add: alloc_order_def demo_log_2 S(4))
  have "\<exists>j. 12 \<le> j \<and> j \<le> ?mx \<and> fl2 j \<noteq> []" using assms(2) S(5) by (fastforce simp: free_area_def free_set_def)
  then obtain a m' b' fl' where A: "buddy_alloc m (Some b) 0x1000 = Inr (a, m', Some b')" "2 ^ 12 dvd unat a" "buddy_inv m' b' fl' (insert (12, a) H2)"
      "(12, a) \<notin> H2" "covered (unat (min_order b)) ?mx fl' (insert (12, a) H2) = covered (unat (min_order b)) ?mx fl2 H2"
    using buddy_alloc_inv [OF inv, of "0x1000"] unfolding n by (simp only: if_True) blast
  note ord = buddy_alloc_orders [OF A(1), THEN conjunct1] buddy_alloc_orders [OF A(1), THEN conjunct2]
  note T = taken_area [OF inv A(3,4) ord A(5)]
  have "page_words m' p = page_words m p" if "unat p \<in> {..< unat (region_size (phys_dma_region P))}" for p
    by (rule buddy_alloc_words [OF inv A(1)]) (use that cov S(4) in auto)
  then have z1': "zone (phys_dma_region P) m' fl1 H1 {..< unat (region_size (phys_dma_region P))}" by (rule zone_frame [OF z1])
  have "physical_inv m' (set_normal_buddy P (Some b')) fl1 H1 fl' (insert (12, a) H2)"
    using z1' A(3,5) cov ord S(4) by (simp add: physical_inv_def zone_def set_normal_buddy_def)
  then have "page_source fl1 H1 m' (set_normal_buddy P (Some b')) (F - extent (12, a))"
    using T(2) S(1,4,5) ord unfolding page_source_def
    by (intro conjI exI [of _ fl'] exI [of _ "insert (12, a) H2"] exI [of _ b']) (auto simp: set_normal_buddy_def)
  then show ?thesis using A(1,2) T(1) S(3,4,5) by (auto simp: physical_alloc_def set_normal_buddy_def)
qed

lemma page_source_finite: "page_source fl1 H1 m P F \<Longrightarrow> finite F"
  by (auto simp: page_source_def intro: finite_subset)

section \<open>Properties\<close>

text \<open>C19: on well-formed regions an allocation returns NULL and changes nothing, or a fresh block of the
  zone the flags ask for: a DMA allocation lies wholly below the DMA boundary, any other wholly above
  it, whatever the other zone holds. The manager stays well-formed, although both allocators keep
  their links in the same pages.\<close>

theorem physical_alloc_zones:
  assumes inv: "physical_inv m P fl1 H1 fl2 H2"
    and al: "physical_alloc m P sz flags = Inr (a, m', P')"
  shows "(a = NULL \<and> m' = m \<and> P' = P)
    \<or> (\<exists>n fl'. unat (log_2 sz) \<le> n \<and> 2 ^ n dvd unat a
        \<and> (if flags AND PHYS_DMA \<noteq> 0
           then extent (n, a) \<subseteq> {..< unat (region_size (phys_dma_region P))} \<and> (n, a) \<notin> H1
              \<and> physical_inv m' P' fl' (insert (n, a) H1) fl2 H2
           else extent (n, a) \<subseteq> {unat (region_size (phys_dma_region P)) ..} \<and> (n, a) \<notin> H2
              \<and> physical_inv m' P' fl1 H1 fl' (insert (n, a) H2)))"
  using physical_alloc_dma [OF inv al] physical_alloc_normal [OF inv al] by (cases "flags AND PHYS_DMA = 0") simp_all

theorem physical_alloc_zones_witness:
  "\<exists>m P a m' P' fl1 H1. physical_inv m P fl1 H1 (\<lambda>_. []) {} \<and> H1 \<noteq> {}
     \<and> physical_alloc m P 0x1000 PHYS_DMA = Inr (a, m', P')
     \<and> (a = NULL \<or> extent (12, a) \<subseteq> {..< 0x5000})"
proof -
  obtain m b where inv: "buddy_inv m b ((\<lambda>_. [])(12 := [0x2000])) (demo_held - {(12, 0x2000)})"
    and o: "min_order b = 12" "max_order b = 13"
    using demo_freed by blast
  define P where "P = \<lparr>phys_dma_region = \<lparr>region_base = 0, region_size = 0x5000, region_buddy = Some b\<rparr>,
      phys_normal_region = \<lparr>region_base = 0x5000, region_size = 0x1B000, region_buddy = Some demo_buddy\<rparr>\<rparr>"
  have "buddy_inv m demo_buddy (\<lambda>_. []) {}"
    by (simp add: buddy_inv_def orders_inv_def demo_buddy_def demo_order_def stack_repr_def free_set_def)
  moreover have "covered 12 13 ((\<lambda>_. [])(12 := [0x2000])) (demo_held - {(12, 0x2000)}) \<subseteq> {..< 0x5000}"
    by (auto simp: covered_def demo_held_def extent_def split: if_splits)
  ultimately have I: "physical_inv m P ((\<lambda>_. [])(12 := [0x2000])) (demo_held - {(12, 0x2000)}) (\<lambda>_. []) {}"
    using inv by (simp add: physical_inv_def zone_def P_def o covered_def free_set_def)
  obtain a m' b' where "buddy_alloc m (Some b) 0x1000 = Inr (a, m', Some b')"
    using buddy_alloc_inv [OF inv, of "0x1000"] by (auto split: if_splits)
  then have A: "physical_alloc m P 0x1000 PHYS_DMA = Inr (a, m', set_dma_buddy P (Some b'))"
    by (simp add: physical_alloc_def PHYS_DMA_def P_def)
  have "a = NULL \<or> extent (12, a) \<subseteq> {..< 0x5000}"
  proof (cases "a = NULL")
    case False
    then obtain n where n: "12 \<le> n" "extent (n, a) \<subseteq> {..< 0x5000}"
      using physical_alloc_zones [OF I A] demo_log_2 by (auto simp: P_def PHYS_DMA_def)
    have "(2::nat) ^ 12 \<le> 2 ^ n" using n(1) by (rule power_increasing) simp
    then have "extent (12, a) \<subseteq> extent (n, a)" by (auto simp: extent_def)
    with n show ?thesis by blast
  qed simp
  moreover have "demo_held - {(12, 0x2000)} \<noteq> {}" by (auto simp: demo_held_def)
  ultimately show ?thesis using I A by blast
qed

text \<open>The bitset of the normal region has one bit per page of the region, but it is indexed with absolute
  addresses. After \<open>physical_init\<close>, freeing a page whose address lies beyond the size of the region
  (plus the rounding of the bitset) accesses the bitset out of bounds, for every page of the upper
  part of memory.\<close>

theorem physical_free_beyond_bitset:
  assumes init: "physical_init ok raw1 raw2 sz dma_boundary = Inr P"
    and sz: "dma_boundary < sz" and a: "dma_boundary \<le> a" and len: "length raw2 = 64"
    and hi: "unat sz - unat dma_boundary + 0x10000 \<le> unat a"
  shows "physical_free m P a 0x1000 = Inl OutOfBounds"
proof -
  obtain b1 b2 where I: "buddy_init ok raw2 dma_boundary (sz - dma_boundary) 12 28 = Inr b2"
    and P: "P = \<lparr>phys_dma_region = \<lparr>region_base = 0x0, region_size = dma_boundary, region_buddy = b1\<rparr>,
            phys_normal_region = \<lparr>region_base = dma_boundary, region_size = sz - dma_boundary, region_buddy = b2\<rparr>\<rparr>"
    using init by (auto simp: physical_init_def bind_res_Inr_iff)
  have "sz - dma_boundary \<noteq> 0" using sz by auto
  then obtain b where b: "b2 = Some b" using I by (auto simp: buddy_init_def bind_res_Inr_iff split: if_splits)
  note B = buddy_init_result [OF I [unfolded b]]
  define L where "L = unat (BITSET_SIZE_CALC ((sz - dma_boundary) div scast (POW_2 12)))"
  have ord: "order_bitset (orders b ! 12) = replicate L BITSET_FULL" "length (orders b) = 64" "unat (max_order b) = 28"
    using buddy_init_loop_result [OF B(1)] len B(5) by (simp_all add: L_def)
  have "unat ((sz - dma_boundary) div scast (POW_2 12)) = (unat sz - unat dma_boundary) div 4096"
    using sz by (simp add: unat_div_distrib unat_POW_2_64 unat_sub_no_underflow)
  moreover have "unat sz < 2 ^ 64" using unat_less_length_power [of sz] by simp
  ultimately have "8 * L \<le> (unat sz - unat dma_boundary) div 4096 + 7"
    by (simp add: L_def BITSET_SIZE_CALC_def DIV_ROUND_UP_def unat_div_distrib unat_add_no_overflow)
  then have "8 * L \<le> unat a div 4096" using hi by linarith
  then have "\<not> unat (BUDDY_INDEX a 12) < 8 * length (order_bitset (orders b ! 12))"
    by (simp add: ord unat_BUDDY_INDEX)
  then have "bitset_unset (order_bitset (orders b ! 12)) (BUDDY_INDEX a 12) = Inl OutOfBounds"
    using bits.unset_flag_fault by blast
  then have "buddy_free m b a 0x1000 = Inl OutOfBounds"
    by (simp add: buddy_free_def demo_log_2 buddy_free_loop.simps [of m _ _ a 12] ord order_unset_bit_def)
  then show ?thesis using a by (simp add: physical_free_def P b leD)
qed

text \<open>16 MiB of DMA memory out of 24 MiB: the bitset has 2048 bits, and freeing any normal page faults.\<close>

lemma init_total:
  assumes "length raw = 64" and "sz \<noteq> 0" and "0 < unat mn" and "0 < unat mx" and "unat mx < 31"
  shows "\<exists>b. buddy_init (\<lambda>_. True) raw base sz mn mx = Inr (Some b)"
proof -
  have "\<exists>r. buddy_init_loop (\<lambda>_. True) sz i (unat mx) ords = Inr r" if "length ords = 64" for i ords
    using that
  proof (induction "Suc (unat mx) - i" arbitrary: i ords)
    case 0
    then show ?case by (simp add: buddy_init_loop.simps [of _ _ i])
  next
    case (Suc d)
    then have "i \<le> unat mx" "i < 31" using assms(5) by auto
    moreover from this have "POW_2 i \<noteq> 0"
      using unat_POW_2_64 [of i] by (auto simp: POW_2_def)
    moreover obtain r where "buddy_init_loop (\<lambda>_. True) sz (Suc i) (unat mx)
        (ords[i := (ords ! i)\<lparr>order_free := stack_init (order_free (ords ! i)),
          order_bitset := replicate (unat (BITSET_SIZE_CALC (sz div scast (POW_2 i)))) BITSET_FULL\<rparr>]) = Inr r"
      using Suc(1) [of "Suc i"] Suc(2,3) by fastforce
    ultimately show ?case using Suc(3) by (simp add: buddy_init_loop.simps [of _ _ i])
  qed
  then obtain r where "buddy_init_loop (\<lambda>_. True) sz (unat mn) (unat mx) raw = Inr r" using assms(1) by blast
  then show ?thesis using assms by (auto simp: buddy_init_def word_eq_zero_iff_unat)
qed

theorem physical_free_beyond_bitset_witness:
  "\<exists>P. physical_init (\<lambda>_. True) (replicate 64 demo_order) (replicate 64 demo_order) 0x1800000 0x1000000 = Inr P
     \<and> physical_free demo_mem P 0x1000000 0x1000 = Inl OutOfBounds"
proof -
  obtain b1 b2 where "buddy_init (\<lambda>_. True) (replicate 64 demo_order) 0 0x1000000 12 16 = Inr (Some b1)"
    "buddy_init (\<lambda>_. True) (replicate 64 demo_order) 0x1000000 (0x1800000 - 0x1000000) 12 28 = Inr (Some b2)"
    using init_total [of "replicate 64 demo_order" "0x1000000" 12 16 0]
      init_total [of "replicate 64 demo_order" "0x1800000 - 0x1000000" 12 28 "0x1000000"] by auto
  then obtain P where "physical_init (\<lambda>_. True) (replicate 64 demo_order) (replicate 64 demo_order) 0x1800000 0x1000000 = Inr P"
    by (simp add: physical_init_def)
  then show ?thesis
    using physical_free_beyond_bitset [of "\<lambda>_. True" "replicate 64 demo_order" "replicate 64 demo_order" "0x1800000" "0x1000000" P "0x1000000" demo_mem]
    by simp
qed

end
