(* ===== verification/CString.thy ===== *)
theory CString
  imports Prelude
begin

text \<open>
  \<open>lib/string.c\<close>: the memory and string routines, on a byte memory \<open>addr_t \<Rightarrow> u8\<close>. A loop that counts
  down \<open>n\<close> is recursion on the number of iterations; a loop that looks for a terminator is a partial
  function, None when it never ends. \<open>char\<close> is signed, so a difference of two characters is
  a difference of sign-extended bytes.
\<close>

type_synonym mem = "addr_t \<Rightarrow> u8"

section \<open>Memory routines\<close>

fun memchr_loop :: "mem \<Rightarrow> addr_t \<Rightarrow> u8 \<Rightarrow> nat \<Rightarrow> addr_t" where
  "memchr_loop m d c 0 = NULL"
| "memchr_loop m d c (Suc n) = (if m d = c then d else memchr_loop m (d + 1) c n)"

definition memchr :: "mem \<Rightarrow> addr_t \<Rightarrow> c_int \<Rightarrow> size_t \<Rightarrow> addr_t" where
  "memchr m str c n = memchr_loop m str (ucast c) (unat n)"

fun memcmp_loop :: "mem \<Rightarrow> addr_t \<Rightarrow> addr_t \<Rightarrow> nat \<Rightarrow> c_int" where
  "memcmp_loop m a b 0 = 0"
| "memcmp_loop m a b (Suc n) =
     (if m a \<noteq> m b then ucast (m a) - ucast (m b) else memcmp_loop m (a + 1) (b + 1) n)"

definition memcmp :: "mem \<Rightarrow> addr_t \<Rightarrow> addr_t \<Rightarrow> size_t \<Rightarrow> c_int" where
  "memcmp m str1 str2 n = memcmp_loop m str1 str2 (unat n)"

fun memcpy_loop :: "mem \<Rightarrow> addr_t \<Rightarrow> addr_t \<Rightarrow> nat \<Rightarrow> mem" where
  "memcpy_loop m a b 0 = m"
| "memcpy_loop m a b (Suc n) = memcpy_loop (m(a := m b)) (a + 1) (b + 1) n"

definition memcpy :: "mem \<Rightarrow> addr_t \<Rightarrow> addr_t \<Rightarrow> size_t \<Rightarrow> addr_t \<times> mem" where
  "memcpy m dest src n = (dest, memcpy_loop m dest src (unat n))"

fun memmove_back :: "mem \<Rightarrow> addr_t \<Rightarrow> addr_t \<Rightarrow> nat \<Rightarrow> mem" where
  "memmove_back m a b 0 = m"
| "memmove_back m a b (Suc n) = memmove_back (m(a := m b)) (a - 1) (b - 1) n"

definition memmove :: "mem \<Rightarrow> addr_t \<Rightarrow> addr_t \<Rightarrow> size_t \<Rightarrow> addr_t \<times> mem" where
  "memmove m dest src n =
     (if dest < src then memcpy m dest src n
      else (dest, memmove_back m (dest + n - 1) (src + n - 1) (unat n)))"

fun memset_loop :: "mem \<Rightarrow> addr_t \<Rightarrow> u8 \<Rightarrow> nat \<Rightarrow> mem" where
  "memset_loop m a c 0 = m"
| "memset_loop m a c (Suc n) = memset_loop (m(a := c)) (a + 1) c n"

definition memset :: "mem \<Rightarrow> addr_t \<Rightarrow> c_int \<Rightarrow> size_t \<Rightarrow> addr_t \<times> mem" where
  "memset m str c n = (str, memset_loop m str (ucast c) (unat n))"

section \<open>String routines\<close>

text \<open>\<open>while (*end != 0) end++\<close>, in \<open>strcat\<close> and \<open>strncat\<close>.\<close>

partial_function (option) find_end :: "mem \<Rightarrow> addr_t \<Rightarrow> addr_t option" where
  "find_end m p = (if m p \<noteq> 0 then find_end m (p + 1) else Some p)"

partial_function (option) strcat_copy :: "mem \<Rightarrow> addr_t \<Rightarrow> addr_t \<Rightarrow> mem option" where
  "strcat_copy m e src = (if m src \<noteq> 0 then strcat_copy (m(e := m src)) (e + 1) (src + 1) else Some m)"

definition strcat :: "mem \<Rightarrow> addr_t \<Rightarrow> addr_t \<Rightarrow> (addr_t \<times> mem) option" where
  "strcat m dest src = (case find_end m dest of None \<Rightarrow> None
     | Some e \<Rightarrow> map_option (\<lambda>m'. (dest, m')) (strcat_copy m e src))"

fun strncat_copy :: "mem \<Rightarrow> addr_t \<Rightarrow> addr_t \<Rightarrow> nat \<Rightarrow> mem" where
  "strncat_copy m e src 0 = m(e := 0)"
| "strncat_copy m e src (Suc n) =
     (if m src = 0 then m(e := m src) else strncat_copy (m(e := m src)) (e + 1) (src + 1) n)"

definition strncat :: "mem \<Rightarrow> addr_t \<Rightarrow> addr_t \<Rightarrow> size_t \<Rightarrow> (addr_t \<times> mem) option" where
  "strncat m dest src n = (case find_end m dest of None \<Rightarrow> None
     | Some e \<Rightarrow> Some (dest, strncat_copy m e src (unat n)))"

partial_function (option) strchr_loop :: "mem \<Rightarrow> addr_t \<Rightarrow> u8 \<Rightarrow> addr_t option" where
  "strchr_loop m p c =
     (if m p \<noteq> c then if m p = 0 then Some NULL else strchr_loop m (p + 1) c else Some p)"

definition strchr :: "mem \<Rightarrow> addr_t \<Rightarrow> c_int \<Rightarrow> addr_t option" where
  "strchr m str c = strchr_loop m str (ucast c)"

partial_function (option) strcmp :: "mem \<Rightarrow> addr_t \<Rightarrow> addr_t \<Rightarrow> c_int option" where
  "strcmp m a b =
     (if m a \<noteq> 0 \<and> m a = m b then strcmp m (a + 1) (b + 1)
      else Some (scast (m a) - scast (m b)))"

fun strncmp_loop :: "mem \<Rightarrow> addr_t \<Rightarrow> addr_t \<Rightarrow> nat \<Rightarrow> c_int" where
  "strncmp_loop m a b 0 = 0"
| "strncmp_loop m a b (Suc n) =
     (if m a = 0 then 0
      else if m a \<noteq> m b then scast (m a) - scast (m b)
      else strncmp_loop m (a + 1) (b + 1) n)"

definition strncmp :: "mem \<Rightarrow> addr_t \<Rightarrow> addr_t \<Rightarrow> size_t \<Rightarrow> c_int" where
  "strncmp m str1 str2 n = strncmp_loop m str1 str2 (unat n)"

text \<open>\<open>strcpy\<close> returns the advanced destination and writes no terminator.\<close>

partial_function (option) strcpy :: "mem \<Rightarrow> addr_t \<Rightarrow> addr_t \<Rightarrow> (addr_t \<times> mem) option" where
  "strcpy m dest src =
     (if m src \<noteq> 0 then strcpy (m(dest := m src)) (dest + 1) (src + 1) else Some (dest, m))"

text \<open>The first loop of \<open>strncpy\<close> tests \<open>n-- > 0\<close>, so it leaves \<open>n\<close> one lower than the number of
  characters still allowed, and wrapped around to the largest \<open>size_t\<close> when the count ran out.
  The second loop does not advance the destination.\<close>

fun strncpy_copy :: "mem \<Rightarrow> addr_t \<Rightarrow> addr_t \<Rightarrow> nat \<Rightarrow> mem \<times> addr_t \<times> size_t" where
  "strncpy_copy m dest src 0 = (m, dest, 0 - 1)"
| "strncpy_copy m dest src (Suc n) =
     (if m src = 0 then (m, dest, of_nat n)
      else strncpy_copy (m(dest := m src)) (dest + 1) (src + 1) n)"

fun strncpy_pad :: "mem \<Rightarrow> addr_t \<Rightarrow> nat \<Rightarrow> mem" where
  "strncpy_pad m dest 0 = m"
| "strncpy_pad m dest (Suc n) = strncpy_pad (m(dest := 0)) dest n"

definition strncpy :: "mem \<Rightarrow> addr_t \<Rightarrow> addr_t \<Rightarrow> size_t \<Rightarrow> addr_t \<times> mem" where
  "strncpy m dest src n =
     (let (m1, dest1, n1) = strncpy_copy m dest src (unat n)
      in (dest1, strncpy_pad m1 dest1 (unat n1)))"

partial_function (option) strlen_loop :: "mem \<Rightarrow> addr_t \<Rightarrow> size_t \<Rightarrow> size_t option" where
  "strlen_loop m p n = (if m p \<noteq> 0 then strlen_loop m (p + 1) (n + 1) else Some n)"

definition strlen :: "mem \<Rightarrow> addr_t \<Rightarrow> size_t option" where
  "strlen m str = strlen_loop m str 0"

text \<open>\<open>kmalloc\<close> is given as the address it returns for a size.\<close>

definition strdup :: "(size_t \<Rightarrow> addr_t) \<Rightarrow> mem \<Rightarrow> addr_t \<Rightarrow> (addr_t \<times> mem) option" where
  "strdup kmalloc m str = (case strlen m str of None \<Rightarrow> None
     | Some sz \<Rightarrow> let ret = kmalloc (sz + 1) in Some (ret, snd (strncpy m ret str sz)))"

partial_function (option) strrchr_loop :: "mem \<Rightarrow> addr_t \<Rightarrow> c_int \<Rightarrow> addr_t \<Rightarrow> addr_t option" where
  "strrchr_loop m p c last_p =
     (if m p \<noteq> 0
      then strrchr_loop m (p + 1) c (if scast (m (p + 1)) = c then p + 1 else last_p)
      else Some last_p)"

definition strrchr :: "mem \<Rightarrow> addr_t \<Rightarrow> c_int \<Rightarrow> addr_t option" where
  "strrchr m str c = strrchr_loop m str c NULL"

partial_function (option) strstr_loop :: "mem \<Rightarrow> addr_t \<Rightarrow> addr_t \<Rightarrow> size_t \<Rightarrow> addr_t option" where
  "strstr_loop m hay needle n =
     (if m hay = 0 then Some NULL
      else if memcmp m hay needle n = 0 then Some (hay + 1 - 1)
      else strstr_loop m (hay + 1) needle n)"

definition strstr :: "mem \<Rightarrow> addr_t \<Rightarrow> addr_t \<Rightarrow> addr_t option" where
  "strstr m hay needle = (case strlen m needle of None \<Rightarrow> None | Some n \<Rightarrow> strstr_loop m hay needle n)"

text \<open>\<open>stop\<close> is the value of \<open>strchr(s2, *sc1) != NULL\<close> that ends the scan.\<close>

partial_function (option) span_loop :: "mem \<Rightarrow> addr_t \<Rightarrow> addr_t \<Rightarrow> addr_t \<Rightarrow> bool \<Rightarrow> size_t option" where
  "span_loop m s1 sc1 s2 stop =
     (if m sc1 = 0 then Some (sc1 - s1)
      else case strchr m s2 (scast (m sc1)) of
             None \<Rightarrow> None
           | Some r \<Rightarrow> if (r \<noteq> NULL) = stop then Some (sc1 - s1) else span_loop m s1 (sc1 + 1) s2 stop)"

definition strcspn :: "mem \<Rightarrow> addr_t \<Rightarrow> addr_t \<Rightarrow> size_t option" where
  "strcspn m s1 s2 = span_loop m s1 s1 s2 True"

definition strspn :: "mem \<Rightarrow> addr_t \<Rightarrow> addr_t \<Rightarrow> size_t option" where
  "strspn m s1 s2 = span_loop m s1 s1 s2 False"

text \<open>\<open>blank\<close> is the address of the literal \<open>""\<close>; the last component is the new \<open>*lasts\<close>.\<close>

definition strtok_r :: "addr_t \<Rightarrow> mem \<Rightarrow> addr_t \<Rightarrow> addr_t \<Rightarrow> addr_t \<Rightarrow> (addr_t \<times> mem \<times> addr_t) option" where
  "strtok_r blank m s delimiters lasts =
     (let sb0 = (if s \<noteq> NULL then s else lasts) in
      case strspn m sb0 delimiters of None \<Rightarrow> None
      | Some k \<Rightarrow>
        let sbegin = sb0 + k in
        if m sbegin = 0 then Some (NULL, m, blank)
        else case strcspn m sbegin delimiters of None \<Rightarrow> None
          | Some j \<Rightarrow>
            let send = sbegin + j in
            if m send \<noteq> 0 then Some (sbegin, m(send := 0), send + 1)
            else Some (sbegin, m, send))"

section \<open>Byte sequences in memory\<close>

fun cstr :: "mem \<Rightarrow> addr_t \<Rightarrow> u8 list \<Rightarrow> bool" where
  "cstr m p [] = (m p = 0)"
| "cstr m p (x # xs) = (m p = x \<and> x \<noteq> 0 \<and> cstr m (p + 1) xs)"

definition bytes_of :: "mem \<Rightarrow> addr_t \<Rightarrow> nat \<Rightarrow> u8 list" where
  "bytes_of m p n = map (\<lambda>i. m (p + of_nat i)) [0 ..< n]"

lemma bytes_of_0 [simp]: "bytes_of m p 0 = []"
  by (simp add: bytes_of_def)

lemma bytes_of_Suc: "bytes_of m p (Suc n) = m p # bytes_of m (p + 1) n"
proof -
  have "[0 ..< Suc n] = 0 # map Suc [0 ..< n]" by (simp add: map_Suc_upt upt_conv_Cons)
  then show ?thesis by (simp add: bytes_of_def comp_def ac_simps)
qed

lemma length_bytes_of [simp]: "length (bytes_of m p n) = n"
  by (simp add: bytes_of_def)

lemma cstr_append: "cstr m p (xs @ ys) \<Longrightarrow> cstr m (p + of_nat (length xs)) ys"
  by (induction xs arbitrary: p) (auto simp: add.assoc [symmetric])

lemma cstr_nonzero: "cstr m p xs \<Longrightarrow> 0 \<notin> set xs"
  by (induction xs arbitrary: p) auto

lemma cstr_unique: "cstr m p xs \<Longrightarrow> cstr m p ys \<Longrightarrow> xs = ys"
proof (induction xs arbitrary: p ys)
  case Nil
  then show ?case by (cases ys) auto
next
  case (Cons x xs)
  then show ?case by (cases ys) auto
qed

section \<open>Scanning\<close>

lemma strlen_loop_cstr: "cstr m p xs \<Longrightarrow> strlen_loop m p n = Some (n + of_nat (length xs))"
proof (induction xs arbitrary: p n)
  case Nil
  then show ?case by (simp add: strlen_loop.simps)
next
  case (Cons x xs)
  then show ?case by (simp add: strlen_loop.simps [of m p n] ac_simps)
qed

lemma strlen_cstr: "cstr m p xs \<Longrightarrow> strlen m p = Some (of_nat (length xs))"
  by (simp add: strlen_def strlen_loop_cstr)

lemma find_end_cstr: "cstr m p xs \<Longrightarrow> find_end m p = Some (p + of_nat (length xs))"
proof (induction xs arbitrary: p)
  case Nil
  then show ?case by (simp add: find_end.simps)
next
  case (Cons x xs)
  then show ?case by (simp add: find_end.simps [of m p] ac_simps)
qed

text \<open>Sign extension keeps bytes apart.\<close>

lemma scast_byte_eq_iff: "(scast (a :: u8) :: c_int) = scast b \<longleftrightarrow> a = b"
proof
  assume "(scast a :: c_int) = scast b"
  then have "(ucast (scast a :: c_int) :: u8) = ucast (scast b :: c_int)" by simp
  moreover have "(ucast (scast (x :: u8) :: c_int) :: u8) = x" for x
    by (rule bit_word_eqI) (simp add: bit_ucast_iff bit_signed_iff)
  ultimately show "a = b" by simp
qed simp

lemma strcmp_cstr:
  "cstr m a xs \<Longrightarrow> cstr m b ys \<Longrightarrow> \<exists>r. strcmp m a b = Some r \<and> (r = 0 \<longleftrightarrow> xs = ys)"
proof (induction xs arbitrary: a b ys)
  case Nil
  then show ?case by (cases ys) (auto simp: strcmp.simps [of m a b] scast_byte_eq_iff [of 0, simplified])
next
  case (Cons x xs)
  show ?case
  proof (cases "m a = m b")
    case True
    then obtain zs where "ys = x # zs" "cstr m (b + 1) zs" using Cons.prems by (cases ys) auto
    with Cons.IH [of "a + 1" "b + 1" zs] Cons.prems True show ?thesis by (simp add: strcmp.simps [of m a b])
  next
    case False
    then show ?thesis using Cons.prems scast_byte_eq_iff [of "m a" 0]
      by (cases ys) (auto simp: strcmp.simps [of m a b] scast_byte_eq_iff)
  qed
qed

lemma ucast_byte_eq_iff: "(ucast (a :: u8) :: c_int) = ucast b \<longleftrightarrow> a = b"
  by (simp add: word_unat_eq_iff unat_ucast_widen)

lemma memcmp_loop_eq: "memcmp_loop m a b n = 0 \<longleftrightarrow> bytes_of m a n = bytes_of m b n"
  by (induction m a b n rule: memcmp_loop.induct) (auto simp: bytes_of_Suc ucast_byte_eq_iff)

section \<open>Copying\<close>

lemma addr_of_nat_eq_iff:
  "(of_nat x :: addr_t) = of_nat y \<longleftrightarrow> x = y" if "x < 2 ^ 64" "y < 2 ^ 64"
  using that by (simp add: word_unat_eq_iff unat_of_nat)

lemma memcpy_loop_nat:
  assumes "B + n \<le> 2 ^ 64" and "A < B \<or> A = B \<or> B + n \<le> A" and "A + n \<le> 2 ^ 64"
  shows "(\<forall>i < n. memcpy_loop m (of_nat A) (of_nat B) n (of_nat (A + i)) = m (of_nat (B + i)))
    \<and> (\<forall>q < 2 ^ 64. q < A \<or> A + n \<le> q \<longrightarrow> memcpy_loop m (of_nat A) (of_nat B) n (of_nat q) = m (of_nat q))"
  using assms
proof (induction n arbitrary: A B m)
  case (Suc n)
  let ?m = "m(of_nat A := m (of_nat B))"
  have step: "memcpy_loop m (of_nat A) (of_nat B) (Suc n) = memcpy_loop ?m (of_nat (Suc A)) (of_nat (Suc B)) n"
    by (simp add: ac_simps)
  have IH: "(\<forall>i < n. memcpy_loop ?m (of_nat (Suc A)) (of_nat (Suc B)) n (of_nat (Suc A + i)) = ?m (of_nat (Suc B + i)))
    \<and> (\<forall>q < 2 ^ 64. q < Suc A \<or> Suc A + n \<le> q \<longrightarrow> memcpy_loop ?m (of_nat (Suc A)) (of_nat (Suc B)) n (of_nat q) = ?m (of_nat q))"
    using Suc.prems by (intro Suc.IH) auto
  have "memcpy_loop m (of_nat A) (of_nat B) (Suc n) (of_nat (A + i)) = m (of_nat (B + i))" if "i < Suc n" for i
  proof (cases i)
    case 0
    have "memcpy_loop ?m (of_nat (Suc A)) (of_nat (Suc B)) n (of_nat A) = ?m (of_nat A)"
      using IH Suc.prems by auto
    then show ?thesis using 0 step by simp
  next
    case (Suc j)
    have "memcpy_loop ?m (of_nat (Suc A)) (of_nat (Suc B)) n (of_nat (Suc A + j)) = ?m (of_nat (Suc B + j))"
      using IH that Suc by auto
    moreover have "(of_nat (Suc B + j) :: addr_t) \<noteq> of_nat A \<or> A = B \<and> False"
      using addr_of_nat_eq_iff [of "Suc B + j" A] Suc.prems that Suc by auto
    ultimately show ?thesis using Suc step by simp
  qed
  moreover have "memcpy_loop m (of_nat A) (of_nat B) (Suc n) (of_nat q) = m (of_nat q)"
    if "q < 2 ^ 64" "q < A \<or> A + Suc n \<le> q" for q
  proof -
    have "memcpy_loop ?m (of_nat (Suc A)) (of_nat (Suc B)) n (of_nat q) = ?m (of_nat q)"
      using IH that by auto
    moreover have "(of_nat q :: addr_t) \<noteq> of_nat A"
      using addr_of_nat_eq_iff [of q A] Suc.prems that by auto
    ultimately show ?thesis using step by simp
  qed
  ultimately show ?case by blast
qed simp

lemma memmove_back_nat:
  assumes "B \<le> A" and "A + n \<le> 2 ^ 64"
  shows "(\<forall>i < n. memmove_back m (of_nat (A + n) - 1) (of_nat (B + n) - 1) n (of_nat (A + i)) = m (of_nat (B + i)))
    \<and> (\<forall>q < 2 ^ 64. q < A \<or> A + n \<le> q \<longrightarrow>
          memmove_back m (of_nat (A + n) - 1) (of_nat (B + n) - 1) n (of_nat q) = m (of_nat q))"
  using assms
proof (induction n arbitrary: m)
  case (Suc n)
  let ?m = "m(of_nat (A + n) := m (of_nat (B + n)))"
  have step: "memmove_back m (of_nat (A + Suc n) - 1) (of_nat (B + Suc n) - 1) (Suc n)
      = memmove_back ?m (of_nat (A + n) - 1) (of_nat (B + n) - 1) n"
    by simp
  have IH: "(\<forall>i < n. memmove_back ?m (of_nat (A + n) - 1) (of_nat (B + n) - 1) n (of_nat (A + i)) = ?m (of_nat (B + i)))
    \<and> (\<forall>q < 2 ^ 64. q < A \<or> A + n \<le> q \<longrightarrow>
          memmove_back ?m (of_nat (A + n) - 1) (of_nat (B + n) - 1) n (of_nat q) = ?m (of_nat q))"
    using Suc.prems by (intro Suc.IH) auto
  have "memmove_back m (of_nat (A + Suc n) - 1) (of_nat (B + Suc n) - 1) (Suc n) (of_nat (A + i)) = m (of_nat (B + i))"
    if "i < Suc n" for i
  proof (cases "i = n")
    case True
    have "memmove_back ?m (of_nat (A + n) - 1) (of_nat (B + n) - 1) n (of_nat (A + n)) = ?m (of_nat (A + n))"
      by (rule IH [THEN conjunct2, rule_format]) (use Suc.prems in auto)
    then show ?thesis using True step by simp
  next
    case False
    then have "memmove_back ?m (of_nat (A + n) - 1) (of_nat (B + n) - 1) n (of_nat (A + i)) = ?m (of_nat (B + i))"
      using IH that by auto
    moreover have "(of_nat (B + i) :: addr_t) \<noteq> of_nat (A + n)"
      using addr_of_nat_eq_iff [of "B + i" "A + n"] Suc.prems that False by auto
    ultimately show ?thesis using step by simp
  qed
  moreover have "memmove_back m (of_nat (A + Suc n) - 1) (of_nat (B + Suc n) - 1) (Suc n) (of_nat q) = m (of_nat q)"
    if "q < 2 ^ 64" "q < A \<or> A + Suc n \<le> q" for q
  proof -
    have "memmove_back ?m (of_nat (A + n) - 1) (of_nat (B + n) - 1) n (of_nat q) = ?m (of_nat q)"
      using IH that by auto
    moreover have "(of_nat q :: addr_t) \<noteq> of_nat (A + n)"
      using addr_of_nat_eq_iff [of q "A + n"] Suc.prems that by auto
    ultimately show ?thesis using step by simp
  qed
  ultimately show ?case by blast
qed simp

lemma bytes_of_eqI:
  "(\<And>i. i < n \<Longrightarrow> m (of_nat (unat p + i)) = m' (of_nat (unat q + i))) \<Longrightarrow> bytes_of m p n = bytes_of m' q n"
  by (simp add: bytes_of_def)

lemma memset_loop_nat:
  "A + n \<le> 2 ^ 64 \<Longrightarrow> q < 2 ^ 64 \<Longrightarrow>
     memset_loop m (of_nat A) c n (of_nat q) = (if A \<le> q \<and> q < A + n then c else m (of_nat q))"
proof (induction n arbitrary: A m)
  case (Suc n)
  have "memset_loop m (of_nat A) c (Suc n) (of_nat q) = memset_loop (m(of_nat A := c)) (of_nat (Suc A)) c n (of_nat q)"
    by (simp add: ac_simps)
  also have "\<dots> = (if Suc A \<le> q \<and> q < Suc A + n then c else (m(of_nat A := c)) (of_nat q))"
    by (rule Suc.IH) (use Suc.prems in auto)
  also have "\<dots> = (if A \<le> q \<and> q < A + Suc n then c else m (of_nat q))"
    using addr_of_nat_eq_iff [of q A] Suc.prems by auto
  finally show ?case .
qed auto

section \<open>Tokens\<close>

lemma ucast_scast_byte: "(ucast (scast (x :: u8) :: c_int) :: u8) = x"
  by (rule bit_word_eqI) (simp add: bit_ucast_iff bit_signed_iff)

lemma strchr_loop_cstr:
  assumes "cstr m p ds" and "c \<noteq> 0" and "0 < unat p" and "unat p + length ds < 2 ^ 64"
  shows "\<exists>r. strchr_loop m p c = Some r \<and> (r \<noteq> NULL \<longleftrightarrow> c \<in> set ds)"
  using assms
proof (induction ds arbitrary: p)
  case Nil
  then show ?case by (auto simp: strchr_loop.simps [of m p])
next
  case (Cons d ds)
  show ?case
  proof (cases "d = c")
    case True
    then show ?thesis using Cons.prems by (auto simp: strchr_loop.simps [of m p])
  next
    case False
    have "unat (p + 1) = unat p + 1" using Cons.prems by (subst unat_add_no_overflow) auto
    then have "\<exists>r. strchr_loop m (p + 1) c = Some r \<and> (r \<noteq> NULL \<longleftrightarrow> c \<in> set ds)"
      using Cons.prems by (intro Cons.IH) auto
    then show ?thesis using False Cons.prems by (auto simp: strchr_loop.simps [of m p])
  qed
qed

definition delims_at :: "mem \<Rightarrow> addr_t \<Rightarrow> u8 list \<Rightarrow> bool" where
  "delims_at m d ds \<longleftrightarrow> cstr m d ds \<and> 0 < unat d \<and> unat d + length ds < 2 ^ 64"

lemma strchr_delims:
  "delims_at m d ds \<Longrightarrow> c \<noteq> 0 \<Longrightarrow> \<exists>r. strchr m d (scast c) = Some r \<and> (r \<noteq> NULL \<longleftrightarrow> c \<in> set ds)"
  using strchr_loop_cstr by (simp add: strchr_def delims_at_def ucast_scast_byte)

lemma span_loop_cstr:
  assumes "delims_at m d ds" and "cstr m p (xs @ ys)" and "\<forall>x \<in> set xs. (x \<in> set ds) \<noteq> stop"
    and "ys = [] \<or> (hd ys \<in> set ds) = stop"
  shows "span_loop m s p d stop = Some (p + of_nat (length xs) - s)"
  using assms(2,3)
proof (induction xs arbitrary: p)
  case Nil
  show ?case
  proof (cases ys)
    case Nil
    with Nil.prems show ?thesis by (simp add: span_loop.simps [of m s p])
  next
    case (Cons y zs)
    with Nil.prems have "m p = y" "y \<noteq> 0" by auto
    then obtain r where "strchr m d (scast (m p)) = Some r" "r \<noteq> NULL \<longleftrightarrow> y \<in> set ds"
      using strchr_delims [OF assms(1), of y] by blast
    with Cons assms(4) \<open>m p = y\<close> \<open>y \<noteq> 0\<close> show ?thesis by (simp add: span_loop.simps [of m s p])
  qed
next
  case (Cons x xs)
  then have x: "m p = x" "x \<noteq> 0" by auto
  then obtain r where "strchr m d (scast (m p)) = Some r" "r \<noteq> NULL \<longleftrightarrow> x \<in> set ds"
    using strchr_delims [OF assms(1), of x] by blast
  moreover have "span_loop m s (p + 1) d stop = Some (p + 1 + of_nat (length xs) - s)"
    using Cons by auto
  ultimately show ?case using Cons.prems x by (simp add: span_loop.simps [of m s p] ac_simps)
qed

lemma cstr_upd_below:
  "cstr m p xs \<Longrightarrow> unat q < unat p \<Longrightarrow> unat p + length xs < 2 ^ 64 \<Longrightarrow> cstr (m(q := v)) p xs"
proof (induction xs arbitrary: p)
  case (Cons x xs)
  have "unat (p + 1) = unat p + 1" using Cons.prems by (subst unat_add_no_overflow) auto
  then show ?case using Cons by auto
qed auto

lemma cstr_cut:
  assumes "cstr m p (xs @ c # ys)" and "unat p + length (xs @ c # ys) < 2 ^ 64"
  shows "cstr (m(p + of_nat (length xs) := 0)) p xs
    \<and> cstr (m(p + of_nat (length xs) := 0)) (p + of_nat (length xs) + 1) ys"
  using assms
proof (induction xs arbitrary: p)
  case Nil
  then have "unat (p + 1) = unat p + 1" by (subst unat_add_no_overflow) auto
  with Nil show ?case using cstr_upd_below [of m "p + 1" ys p 0] by (simp add: fun_upd_def)
next
  case (Cons x xs)
  have p1: "unat (p + 1) = unat p + 1" using Cons.prems by (subst unat_add_no_overflow) auto
  have "p \<noteq> p + 1 + of_nat (length xs)"
  proof
    assume "p = p + 1 + of_nat (length xs)"
    then have "(of_nat (Suc (length xs)) :: addr_t) = of_nat 0" by (simp add: ac_simps)
    then show False using addr_of_nat_eq_iff [of "Suc (length xs)" 0] Cons.prems by simp
  qed
  with Cons.IH [of "p + 1"] Cons.prems p1 show ?case by (simp add: ac_simps)
qed

section \<open>Properties\<close>

text \<open>C32: \<open>memmove\<close> copies correctly between regions that overlap in any way: afterwards the destination
  holds what the source held before, and no byte outside the destination changes.\<close>

theorem memmove_overlap:
  assumes "unat dest + unat n \<le> 2 ^ 64" and "unat src + unat n \<le> 2 ^ 64"
  shows "\<exists>m'. memmove m dest src n = (dest, m') \<and> bytes_of m' dest (unat n) = bytes_of m src (unat n)
    \<and> (\<forall>q. unat q < unat dest \<or> unat dest + unat n \<le> unat q \<longrightarrow> m' q = m q)"
proof -
  define m' where "m' = snd (memmove m dest src n)"
  have pair: "memmove m dest src n = (dest, m')"
    by (simp add: m'_def memmove_def memcpy_def)
  have "(\<forall>i < unat n. m' (of_nat (unat dest + i)) = m (of_nat (unat src + i)))
    \<and> (\<forall>q < 2 ^ 64. q < unat dest \<or> unat dest + unat n \<le> q \<longrightarrow> m' (of_nat q) = m (of_nat q))"
  proof (cases "dest < src")
    case True
    then show ?thesis
      using memcpy_loop_nat [of "unat src" "unat n" "unat dest" m] assms
      by (simp add: m'_def memmove_def memcpy_def word_less_nat_alt)
  next
    case False
    then show ?thesis
      using memmove_back_nat [of "unat src" "unat dest" "unat n" m] assms
      by (simp add: m'_def memmove_def memcpy_def word_less_nat_alt)
  qed
  then have in_dest: "\<And>i. i < unat n \<Longrightarrow> m' (of_nat (unat dest + i)) = m (of_nat (unat src + i))"
    and out: "\<And>q. q < 2 ^ 64 \<Longrightarrow> q < unat dest \<or> unat dest + unat n \<le> q \<Longrightarrow> m' (of_nat q) = m (of_nat q)"
    by blast+
  have "m' q = m q" if "unat q < unat dest \<or> unat dest + unat n \<le> unat q" for q
    using out [OF _ that] unat_less_length_power [of q] by simp
  moreover have "bytes_of m' dest (unat n) = bytes_of m src (unat n)"
    by (rule bytes_of_eqI) (rule in_dest)
  ultimately show ?thesis using pair by blast
qed

theorem memmove_overlap_witness:
  "\<exists>m'. memmove (\<lambda>a. ucast a) 0x11 0x10 4 = (0x11, m') \<and> bytes_of m' 0x11 4 = bytes_of (\<lambda>a. ucast a) 0x10 4"
  using memmove_overlap [of "0x11" 4 "0x10" "\<lambda>a. ucast a"] by auto

text \<open>On terminated strings \<open>strcmp\<close> returns, and returns zero exactly when the strings are equal;
  \<open>memcmp\<close> returns zero exactly when the two regions hold the same bytes.\<close>

theorem strcmp_memcmp_equality:
  assumes "cstr m a xs" and "cstr m b ys"
  shows "(\<exists>r. strcmp m a b = Some r \<and> (r = 0 \<longleftrightarrow> xs = ys))
    \<and> (memcmp m a b n = 0 \<longleftrightarrow> bytes_of m a (unat n) = bytes_of m b (unat n))"
  using strcmp_cstr [OF assms] by (simp add: memcmp_def memcmp_loop_eq)

theorem strcmp_memcmp_equality_witness:
  "cstr ((\<lambda>_. 0)(8 := 47, 16 := 47)) 8 [47] \<and> cstr ((\<lambda>_. 0)(8 := 47, 16 := 47)) 16 [47]
   \<and> strcmp ((\<lambda>_. 0)(8 := 47, 16 := 47)) 8 16 = Some 0"
proof -
  have c: "cstr ((\<lambda>_. 0)(8 := 47, 16 := 47)) 8 [47]" "cstr ((\<lambda>_. 0)(8 := 47, 16 := 47)) 16 [47]" by simp_all
  then show ?thesis using strcmp_memcmp_equality [OF c] by auto
qed

text \<open>C33: \<open>strtok_r\<close> splits a string at its delimiters: it skips the leading ones, returns the address of the
  first token, cuts the string behind it (when a delimiter follows) and leaves in \<open>*lasts\<close> the
  address of the rest; a string of delimiters only gives NULL.\<close>

theorem strtok_r_splits:
  assumes d: "delims_at m d ds" and s: "cstr m sb (pre @ tok @ rest)" and nn: "sb \<noteq> NULL"
    and room: "unat sb + length (pre @ tok @ rest) < 2 ^ 64"
    and pre: "set pre \<subseteq> set ds" and tok: "set tok \<inter> set ds = {}" and rest: "rest = [] \<or> hd rest \<in> set ds"
    and none: "tok = [] \<Longrightarrow> rest = []"
  shows "\<exists>r m' lasts'. strtok_r blank m sb d lasts = Some (r, m', lasts')
    \<and> (if tok = [] then r = NULL \<and> m' = m \<and> lasts' = blank
       else r = sb + of_nat (length pre) \<and> cstr m' r tok \<and> cstr m' lasts' (tl rest))"
proof -
  let ?b = "sb + of_nat (length pre)"
  have "(hd (tok @ rest) \<in> set ds) = False" if "tok @ rest \<noteq> []"
    using that tok none by (cases tok) auto
  then have span: "strspn m sb d = Some (of_nat (length pre))"
    using span_loop_cstr [OF d s, of False sb] pre by (auto simp: strspn_def)
  have tail: "cstr m ?b (tok @ rest)" using cstr_append [OF s] .
  show ?thesis
  proof (cases tok)
    case Nil
    then show ?thesis using none tail span nn by (simp add: strtok_r_def Let_def)
  next
    case (Cons t ts)
    then have nz: "m ?b \<noteq> 0" using tail by auto
    have cspan: "strcspn m ?b d = Some (of_nat (length tok))"
      using span_loop_cstr [OF d tail, of True ?b] tok rest by (auto simp: strcspn_def)
    have after: "cstr m (?b + of_nat (length tok)) rest" using cstr_append [OF tail] .
    have len: "unat ?b = unat sb + length pre"
      using room by (subst unat_add_no_overflow) (auto simp: unat_of_nat)
    show ?thesis
    proof (cases rest)
      case Nil
      then show ?thesis using span cspan nz nn tail after Cons by (simp add: strtok_r_def Let_def)
    next
      case (Cons c ys)
      then have "m (?b + of_nat (length tok)) \<noteq> 0" using after by simp
      then show ?thesis
        using span cspan nz nn cstr_cut [of m ?b tok c ys] tail len room \<open>tok = t # ts\<close> Cons
        by (simp add: strtok_r_def Let_def)
    qed
  qed
qed

text \<open>The path \<open>/a/b\<close> at address 0x10, the delimiter string at 8.\<close>

theorem strtok_r_splits_witness:
  "\<exists>m' lasts'. strtok_r 4 ((\<lambda>_. 0)(8 := 47, 0x10 := 47, 0x11 := 97, 0x12 := 47, 0x13 := 98)) 0x10 8 NULL
      = Some (0x11, m', lasts') \<and> cstr m' 0x11 [97] \<and> cstr m' lasts' [98]"
proof -
  let ?m = "(\<lambda>_. 0)(8 := 47, 0x10 := 47, 0x11 := 97, 0x12 := 47, 0x13 := 98) :: mem"
  have d: "delims_at ?m 8 [47]" by (simp add: delims_at_def)
  have s: "cstr ?m 0x10 ([47] @ [97] @ [47, 98])" by simp
  show ?thesis using strtok_r_splits [OF d s, of 4 NULL] by simp
qed

section \<open>strncpy and strdup\<close>

lemma cstr_upd_outside:
  "cstr m p xs \<Longrightarrow> (\<And>i. i \<le> length xs \<Longrightarrow> q \<noteq> p + of_nat i) \<Longrightarrow> cstr (m(q := v)) p xs"
proof (induction xs arbitrary: p)
  case Nil
  then show ?case using Nil.prems(2) [of 0] by simp
next
  case (Cons x xs)
  have "cstr (m(q := v)) (p + 1) xs"
    by (rule Cons.IH) (use Cons.prems(1) Cons.prems(2) [of "Suc _"] in \<open>auto simp: ac_simps\<close>)
  then show ?case using Cons.prems(1) Cons.prems(2) [of 0] by (auto simp: fun_upd_def)
qed

text \<open>Source and destination of a string of length \<open>n\<close>, terminators included, do not overlap.\<close>

definition apart :: "addr_t \<Rightarrow> addr_t \<Rightarrow> nat \<Rightarrow> bool" where
  "apart d s n \<longleftrightarrow> unat d + n < 2 ^ 64 \<and> unat s + n < 2 ^ 64 \<and> (unat d + n < unat s \<or> unat s + n < unat d)"

lemma apart_offset: "apart d s n \<Longrightarrow> i \<le> n \<Longrightarrow> d \<noteq> s + of_nat i"
proof
  assume a: "apart d s n" "i \<le> n" "d = s + of_nat i"
  then have "unat d = unat s + i"
    by (simp add: apart_def unat_add_no_overflow unat_of_nat)
  with a show False by (auto simp: apart_def)
qed

lemma apart_step: "apart d s (Suc n) \<Longrightarrow> apart (d + 1) (s + 1) n"
proof -
  assume a: "apart d s (Suc n)"
  then have "unat (d + 1) = unat d + 1" "unat (s + 1) = unat s + 1"
    by (auto simp: apart_def unat_add_no_overflow)
  with a show ?thesis by (auto simp: apart_def)
qed

lemma strncpy_copy_cstr:
  assumes "cstr m src xs" and "apart dest src (length xs)"
  shows "strncpy_copy m dest src n =
    (memcpy_loop m dest src (min n (length xs)), dest + of_nat (min n (length xs)),
     if n \<le> length xs then - 1 else of_nat (n - length xs - 1))"
  using assms
proof (induction n arbitrary: m dest src xs)
  case (Suc n)
  show ?case
  proof (cases xs)
    case Nil
    with Suc.prems show ?thesis by simp
  next
    case (Cons x ys)
    then have x: "m src = x" "x \<noteq> 0" and tl: "cstr m (src + 1) ys" using Suc.prems by auto
    have step: "apart (dest + 1) (src + 1) (length ys)" using Suc.prems(2) Cons apart_step by simp
    have "dest \<noteq> src + 1 + of_nat i" if "i \<le> length ys" for i
      using apart_offset [OF Suc.prems(2), of "Suc i"] that Cons by (simp add: ac_simps)
    then have "cstr (m(dest := x)) (src + 1) ys" by (rule cstr_upd_outside [OF tl])
    from Suc.IH [OF this step] show ?thesis using x Cons
      by (cases "n \<le> length ys") (simp_all add: fun_upd_def ac_simps)
  qed
qed simp

lemma strncpy_pad_eq: "strncpy_pad m d n = (if n = 0 then m else m(d := 0))"
  by (induction n arbitrary: m) (auto simp: fun_upd_def)

lemma cstr_of_bytes:
  "(\<And>i. i < length xs \<Longrightarrow> m (p + of_nat i) = xs ! i) \<Longrightarrow> m (p + of_nat (length xs)) = 0 \<Longrightarrow> 0 \<notin> set xs \<Longrightarrow> cstr m p xs"
proof (induction xs arbitrary: p)
  case (Cons x xs)
  have "cstr m (p + 1) xs"
    by (rule Cons.IH) (use Cons.prems(1) [of "Suc _"] Cons.prems in \<open>auto simp: ac_simps\<close>)
  then show ?case using Cons.prems(1) [of 0] Cons.prems(3) by auto
qed simp

lemma cstr_nth: "cstr m p xs \<Longrightarrow> i < length xs \<Longrightarrow> m (p + of_nat i) = xs ! i"
proof (induction xs arbitrary: p i)
  case (Cons x xs)
  show ?case
  proof (cases i)
    case 0
    with Cons.prems show ?thesis by simp
  next
    case (Suc j)
    have "m (p + 1 + of_nat j) = xs ! j" using Cons.IH [of "p + 1" j] Cons.prems Suc by simp
    with Suc show ?thesis by (simp add: ac_simps)
  qed
qed simp

lemma memcpy_loop_cstr:
  assumes "cstr m src xs" and "apart dest src (length xs)" and "i < length xs"
  shows "memcpy_loop m dest src (length xs) (dest + of_nat i) = xs ! i"
proof -
  have "memcpy_loop m (of_nat (unat dest)) (of_nat (unat src)) (length xs) (of_nat (unat dest + i)) = m (of_nat (unat src + i))"
    using memcpy_loop_nat [of "unat src" "length xs" "unat dest" m] assms(2,3) by (auto simp: apart_def simp del: of_nat_add)
  then show ?thesis using cstr_nth [OF assms(1,3)] by simp
qed

text \<open>\<open>strdup\<close> returns a terminated copy of its argument, in memory that does not overlap it. The copy is
  terminated only because the count of \<open>strncpy\<close> wraps around and the padding loop then stores
  a zero \<open>2^64 - 1\<close> times at the same address.\<close>

theorem strdup_copy:
  assumes s: "cstr m str xs" and a: "apart (kmalloc (of_nat (length xs) + 1)) str (length xs)"
  shows "\<exists>m'. strdup kmalloc m str = Some (kmalloc (of_nat (length xs) + 1), m')
     \<and> cstr m' (kmalloc (of_nat (length xs) + 1)) xs"
proof -
  let ?r = "kmalloc (of_nat (length xs) + 1)" and ?n = "length xs"
  let ?m1 = "memcpy_loop m ?r str ?n"
  have n: "unat (of_nat ?n :: size_t) = ?n" using a by (simp add: apart_def unat_of_nat)
  have "strncpy_copy m ?r str ?n = (?m1, ?r + of_nat ?n, - 1)"
    using strncpy_copy_cstr [OF s a, of ?n] by simp
  then have dup: "strdup kmalloc m str = Some (?r, ?m1(?r + of_nat ?n := 0))"
    by (simp add: strdup_def strlen_cstr [OF s] Let_def strncpy_def n strncpy_pad_eq unat_eq_0)
  have "(?m1(?r + of_nat ?n := 0)) (?r + of_nat i) = xs ! i" if "i < ?n" for i
    using memcpy_loop_cstr [OF s a that] addr_of_nat_eq_iff [of i ?n] a that by (auto simp: apart_def)
  then have "cstr (?m1(?r + of_nat ?n := 0)) ?r xs"
    using cstr_nonzero [OF s] by (intro cstr_of_bytes) auto
  with dup show ?thesis by blast
qed

theorem strdup_copy_witness:
  "\<exists>m'. strdup (\<lambda>_. 0x100) ((\<lambda>_. 7)(16 := 47, 17 := 97, 18 := 0)) 16 = Some (0x100, m') \<and> cstr m' 0x100 [47, 97]"
  using strdup_copy [of "(\<lambda>_. 7)(16 := 47, 17 := 97, 18 := 0)" 16 "[47, 97]" "\<lambda>_. 0x100"] by (simp add: apart_def)

text \<open>\<open>strncpy\<close> with a count of exactly the length of the source plus its terminator copies the characters
  and writes no terminator: the byte behind the copy keeps its old value.\<close>

theorem strncpy_no_terminator:
  assumes s: "cstr m src xs" and a: "apart dest src (length xs)" and n: "unat n = Suc (length xs)"
  shows "snd (strncpy m dest src n) (dest + of_nat (length xs)) = m (dest + of_nat (length xs))"
proof -
  have "snd (strncpy m dest src n) = memcpy_loop m dest src (length xs)"
    using strncpy_copy_cstr [OF s a, of "unat n"] n by (simp add: strncpy_def strncpy_pad_eq)
  moreover have "memcpy_loop m (of_nat (unat dest)) (of_nat (unat src)) (length xs) (of_nat (unat dest + length xs)) = m (of_nat (unat dest + length xs))"
    using memcpy_loop_nat [of "unat src" "length xs" "unat dest" m] a by (auto simp: apart_def simp del: of_nat_add)
  ultimately show ?thesis by simp
qed

theorem strncpy_no_terminator_witness:
  "snd (strncpy ((\<lambda>_. 7)(16 := 47, 17 := 97, 18 := 0)) 0x100 16 3) 0x102 = 7"
  using strncpy_no_terminator [of "(\<lambda>_. 7)(16 := 47, 17 := 97, 18 := 0)" 16 "[47, 97]" "0x100" 3] by (simp add: apart_def)

end
