(* ===== verification/Watermark.thy ===== *)
theory Watermark
  imports Prelude
begin

text \<open>
  The contract of the two allocators that hand out a region from a watermark and never take anything back: the early heap
  (\<open>mm/heap.c\<close>) and the ranges of virtual addresses (\<open>mm/valloc.c\<close>). What a sequence of requests gives is proved here
  once, from the contract.
\<close>

definition range_of :: "addr_t \<Rightarrow> size_t \<Rightarrow> nat set" where
  "range_of a sz = {unat a ..< unat a + unat sz}"

text \<open>A sequence of requests; NULL stands for the ones refused.\<close>

fun reserve_all :: "('s \<Rightarrow> size_t \<Rightarrow> (addr_t \<times> 's) res) \<Rightarrow> 's \<Rightarrow> size_t list \<Rightarrow> (addr_t list \<times> 's) res" where
  "reserve_all reserve s [] = Inr ([], s)"
| "reserve_all reserve s (sz # szs) =
     bind_res (reserve s sz) (\<lambda>(a, s). bind_res (reserve_all reserve s szs) (\<lambda>(as, s). Inr (a # as, s)))"

locale watermark =
  fixes reserve :: "'s \<Rightarrow> size_t \<Rightarrow> (addr_t \<times> 's) res"
    and mark :: "'s \<Rightarrow> addr_t"
    and limit :: "'s \<Rightarrow> nat"
    and ready :: "'s \<Rightarrow> bool"
  assumes bounds: "ready s \<Longrightarrow> mark s \<noteq> NULL \<and> unat (mark s) \<le> limit s \<and> limit s < 2 ^ 64"
    and granted: "ready s \<Longrightarrow> unat (mark s) + unat sz \<le> limit s \<Longrightarrow>
      \<exists>s'. reserve s sz = Inr (mark s, s') \<and> ready s' \<and> limit s' = limit s \<and> mark s' = mark s + sz"
    and refused: "ready s \<Longrightarrow> limit s < unat (mark s) + unat sz \<Longrightarrow> unat (mark s) + unat sz < 2 ^ 64 \<Longrightarrow> reserve s sz = Inr (NULL, s)"
begin

lemma mark_up: "ready s \<Longrightarrow> unat (mark s) + unat sz \<le> limit s \<Longrightarrow> unat (mark s + sz) = unat (mark s) + unat sz"
  using bounds [of s] by (simp add: unat_add_no_overflow)

lemma reserve_step:
  assumes "ready s" and "limit s + unat sz < 2 ^ 64"
  shows "\<exists>a s'. reserve s sz = Inr (a, s') \<and> ready s' \<and> limit s' = limit s \<and> unat (mark s) \<le> unat (mark s')
    \<and> (a \<noteq> NULL \<longrightarrow> range_of a sz \<subseteq> {unat (mark s) ..< unat (mark s')})"
proof (cases "unat (mark s) + unat sz \<le> limit s")
  case True
  then show ?thesis using granted [OF assms(1) True] mark_up [OF assms(1) True] by (auto simp: range_of_def)
next
  case False
  moreover have "unat (mark s) + unat sz < 2 ^ 64" using assms(2) bounds [OF assms(1)] by linarith
  ultimately show ?thesis using refused [OF assms(1)] assms(1) by auto
qed

text \<open>The ranges given lie above the mark and below the limit, and each lies below the later ones.\<close>

lemma reserve_all_ranges:
  assumes "ready s" and "\<forall>sz \<in> set szs. limit s + unat sz < 2 ^ 64"
  shows "\<exists>as s'. reserve_all reserve s szs = Inr (as, s') \<and> ready s' \<and> limit s' = limit s \<and> length as = length szs
    \<and> (\<forall>i < length as. as ! i \<noteq> NULL \<longrightarrow> range_of (as ! i) (szs ! i) \<subseteq> {unat (mark s) ..< limit s})
    \<and> (\<forall>i < length as. \<forall>j < i. as ! i \<noteq> NULL \<and> as ! j \<noteq> NULL \<longrightarrow> range_of (as ! i) (szs ! i) \<inter> range_of (as ! j) (szs ! j) = {})"
  using assms
proof (induction szs arbitrary: s)
  case (Cons sz szs)
  obtain a s1 where a: "reserve s sz = Inr (a, s1)" "ready s1" "limit s1 = limit s" "unat (mark s) \<le> unat (mark s1)"
      "a \<noteq> NULL \<longrightarrow> range_of a sz \<subseteq> {unat (mark s) ..< unat (mark s1)}"
    using reserve_step [OF Cons.prems(1), of sz] Cons.prems(2) by auto
  obtain as s2 where as: "reserve_all reserve s1 szs = Inr (as, s2)" "ready s2" "limit s2 = limit s" "length as = length szs"
      "\<forall>i < length as. as ! i \<noteq> NULL \<longrightarrow> range_of (as ! i) (szs ! i) \<subseteq> {unat (mark s1) ..< limit s}"
      "\<forall>i < length as. \<forall>j < i. as ! i \<noteq> NULL \<and> as ! j \<noteq> NULL \<longrightarrow> range_of (as ! i) (szs ! i) \<inter> range_of (as ! j) (szs ! j) = {}"
    using Cons.IH [OF a(2)] Cons.prems(2) a(3) by auto
  have le: "unat (mark s1) \<le> limit s" using bounds [OF a(2)] a(3) by simp
  have inside: "range_of ((a # as) ! i) ((sz # szs) ! i) \<subseteq> {unat (mark s) ..< limit s}"
    if "i < length (a # as)" "(a # as) ! i \<noteq> NULL" for i
    using that a(4,5) as(5) le by (cases i) fastforce+
  have "range_of ((a # as) ! i) ((sz # szs) ! i) \<inter> range_of ((a # as) ! j) ((sz # szs) ! j) = {}"
    if h: "i < length (a # as)" "j < i" "(a # as) ! i \<noteq> NULL" "(a # as) ! j \<noteq> NULL" for i j
  proof (cases j)
    case 0
    then obtain i' where "i = Suc i'" using h by (cases i) auto
    then have "range_of ((a # as) ! i) ((sz # szs) ! i) \<subseteq> {unat (mark s1) ..}" using h as(5) by fastforce
    moreover have "range_of a sz \<subseteq> {..< unat (mark s1)}" using a(5) h 0 by auto
    ultimately show ?thesis using 0 by fastforce
  next
    case (Suc j')
    then obtain i' where "i = Suc i'" "j' < i'" using h by (cases i) auto
    then show ?thesis using h Suc as(6) by simp
  qed
  then show ?case using a(1) as(1-4) inside by (intro exI [of _ "a # as"] exI [of _ s2]) auto
qed simp

end

end
