(* ===== verification/Heap.thy ===== *)
theory Heap
  imports Physical CString Watermark
begin

text \<open>
  \<open>mm/heap.c\<close>: the kernel heap. Before the memory manager is up, \<open>early_malloc\<close> hands out a fixed region from
  a watermark; afterwards liballoc keeps major blocks (page groups from \<open>map_heap\<close>) in a doubly linked
  list, each with an address-ordered doubly linked list of the minor blocks allocated in it.

  The two structures live at their addresses in a typed store (\<open>maj_at\<close>, \<open>min_at\<close>); payload and alignment
  bytes live in \<open>heap_bytes\<close>. That the structures and the payloads of live blocks never overlap is what the
  properties establish. \<open>unsigned int\<close> fields are 32-bit words and truncate as in the code.
\<close>

section \<open>State\<close>

definition HEAP_UNINITIALIZED :: u8 where "HEAP_UNINITIALIZED = 0"
definition HEAP_EARLY :: u8 where "HEAP_EARLY = 1"
definition HEAP_INITIALIZED :: u8 where "HEAP_INITIALIZED = 2"

definition ALIGNMENT :: u64 where "ALIGNMENT = 16"
definition ALIGN_INFO :: u64 where "ALIGN_INFO = 16"
definition LIBALLOC_MAGIC :: u32 where "LIBALLOC_MAGIC = 0xc001c0de"
definition LIBALLOC_DEAD :: u32 where "LIBALLOC_DEAD = 0xdeaddead"

record liballoc_major =
  maj_prev :: addr_t
  maj_next :: addr_t
  maj_pages :: u32
  maj_size :: u32
  maj_usage :: u32
  maj_first :: addr_t

record liballoc_minor =
  min_prev :: addr_t
  min_next :: addr_t
  min_block :: addr_t
  min_magic :: u32
  min_size :: u32
  min_req_size :: u32

text \<open>With padding both structures take 40 bytes.\<close>

definition sizeof_major :: u64 where "sizeof_major = 40"
definition sizeof_minor :: u64 where "sizeof_minor = 40"

text \<open>The static variables of \<open>heap.c\<close>, the memory it manages, the physical allocator it draws from, and the
  calls of \<open>virtual_map\<close> and \<open>virtual_unmap\<close> it made (virtual address, physical address, size).\<close>

record heap =
  heap_status :: u8
  early_heap_start :: addr_t
  early_heap_end :: addr_t
  early_heap_extent :: addr_t
  early_heap_watermark :: addr_t
  heap_end :: u64
  l_memRoot :: addr_t
  l_bestBet :: addr_t
  l_allocated :: u64
  l_inuse :: u64
  l_warningCount :: u64
  l_errorCount :: u64
  l_possibleOverruns :: u64
  maj_at :: "addr_t \<Rightarrow> liballoc_major"
  min_at :: "addr_t \<Rightarrow> liballoc_minor"
  heap_bytes :: mem
  heap_kmem :: kmem
  heap_phys :: physical
  map_calls :: "(addr_t \<times> addr_t \<times> size_t) list"
  unmap_calls :: "(addr_t \<times> size_t) list"

definition l_pageSize :: u32 where "l_pageSize = 4096"
definition l_pageCount :: u32 where "l_pageCount = 16"

abbreviation upd_maj :: "heap \<Rightarrow> addr_t \<Rightarrow> (liballoc_major \<Rightarrow> liballoc_major) \<Rightarrow> heap" where
  "upd_maj h p f \<equiv> h\<lparr>maj_at := (maj_at h)(p := f (maj_at h p))\<rparr>"

abbreviation upd_min :: "heap \<Rightarrow> addr_t \<Rightarrow> (liballoc_minor \<Rightarrow> liballoc_minor) \<Rightarrow> heap" where
  "upd_min h p f \<equiv> h\<lparr>min_at := (min_at h)(p := f (min_at h p))\<rparr>"

section \<open>The early heap\<close>

definition early_malloc_set_properties :: "heap \<Rightarrow> addr_t \<Rightarrow> addr_t \<Rightarrow> heap" where
  "early_malloc_set_properties h start len =
     (if start = 0 \<or> len = 0 then h
      else h\<lparr>early_heap_start := start, early_heap_extent := len, early_heap_end := start + len,
             early_heap_watermark := start, heap_status := HEAP_EARLY\<rparr>)"

definition early_malloc :: "heap \<Rightarrow> size_t \<Rightarrow> addr_t \<times> heap" where
  "early_malloc h sz =
     (if early_heap_watermark h + sz > early_heap_end h then (NULL, h)
      else (early_heap_watermark h, h\<lparr>early_heap_watermark := early_heap_watermark h + sz\<rparr>))"

section \<open>Page groups\<close>

definition map_heap :: "heap \<Rightarrow> size_t \<Rightarrow> (addr_t \<times> heap) res" where
  "map_heap h n =
     (let sz = n * PAGE_SIZE in
      bind_res (physical_alloc (heap_kmem h) (heap_phys h) sz 0) (\<lambda>(pa, m, P).
        let h1 = h\<lparr>heap_kmem := m, heap_phys := P, map_calls := map_calls h @ [(heap_end h, pa, sz)],
                   heap_end := heap_end h + sz\<rparr>
        in Inr (heap_end h1 - sz, h1)))"

definition free_heap :: "heap \<Rightarrow> addr_t \<Rightarrow> size_t \<Rightarrow> heap" where
  "free_heap h start n = h\<lparr>unmap_calls := unmap_calls h @ [(start, n * PAGE_SIZE)]\<rparr>"

definition allocate_new_page :: "heap \<Rightarrow> u32 \<Rightarrow> (addr_t \<times> heap) res" where
  "allocate_new_page h sz =
     (let st0 = sz + ucast sizeof_major + ucast sizeof_minor;
          st1 = (if st0 mod l_pageSize = 0 then st0 div l_pageSize else st0 div l_pageSize + 1);
          st = (if st1 < l_pageCount then l_pageCount else st1)
      in bind_res (map_heap h (ucast st)) (\<lambda>(maj, h1).
           if maj = NULL then Inr (NULL, h1\<lparr>l_warningCount := l_warningCount h1 + 1\<rparr>)
           else Inr (maj, h1\<lparr>maj_at := (maj_at h1)(maj := \<lparr>maj_prev = NULL, maj_next = NULL, maj_pages = st,
                        maj_size = st * l_pageSize, maj_usage = ucast sizeof_major, maj_first = NULL\<rparr>),
                      l_allocated := l_allocated h1 + ucast (st * l_pageSize)\<rparr>)))"

section \<open>malloc\<close>

text \<open>The macros \<open>ALIGN\<close> and \<open>UNALIGN\<close>. The stored offset is read back as a signed character.\<close>

definition ALIGN :: "heap \<Rightarrow> addr_t \<Rightarrow> addr_t \<times> heap" where
  "ALIGN h ptr =
     (let p1 = ptr + ALIGN_INFO;
          d = p1 AND (ALIGNMENT - 1);
          diff = (if d \<noteq> 0 then ALIGNMENT - d else d);
          p2 = (if d \<noteq> 0 then p1 + diff else p1)
      in (p2, h\<lparr>heap_bytes := (heap_bytes h)(p2 - ALIGN_INFO := ucast (diff + ALIGN_INFO))\<rparr>))"

definition UNALIGN :: "heap \<Rightarrow> addr_t \<Rightarrow> addr_t" where
  "UNALIGN h ptr =
     (let diff = scast (heap_bytes h (ptr - ALIGN_INFO)) :: u64
      in if diff < ALIGNMENT + ALIGN_INFO then ptr - diff else ptr)"

text \<open>\<open>maj->usage += size + sizeof(struct liballoc_minor); l_inuse += size;\<close>\<close>

definition account :: "heap \<Rightarrow> addr_t \<Rightarrow> u64 \<Rightarrow> heap" where
  "account h maj sz = (upd_maj h maj (\<lambda>M. M\<lparr>maj_usage := ucast (ucast (maj_usage M) + (sz + sizeof_minor))\<rparr>))
     \<lparr>l_inuse := l_inuse h + sz\<rparr>"

text \<open>CASE 2: a brand new block.\<close>

definition malloc_case2 :: "heap \<Rightarrow> u64 \<Rightarrow> u64 \<Rightarrow> addr_t \<Rightarrow> addr_t \<times> heap" where
  "malloc_case2 h sz req maj =
     (let f = maj + sizeof_major;
          h1 = upd_maj h maj (\<lambda>M. M\<lparr>maj_first := f\<rparr>);
          h2 = upd_min h1 f (\<lambda>m. m\<lparr>min_magic := LIBALLOC_MAGIC, min_prev := NULL, min_next := NULL, min_block := maj,
                  min_size := ucast sz, min_req_size := ucast req\<rparr>);
          h3 = account h2 maj sz
      in ALIGN h3 (f + sizeof_minor))"

text \<open>CASE 3: space in front of the first minor.\<close>

definition malloc_case3 :: "heap \<Rightarrow> u64 \<Rightarrow> u64 \<Rightarrow> addr_t \<Rightarrow> addr_t \<times> heap" where
  "malloc_case3 h sz req maj =
     (let old = maj_first (maj_at h maj); f = maj + sizeof_major;
          h1 = upd_min h old (\<lambda>m. m\<lparr>min_prev := f\<rparr>);
          h2 = upd_min h1 f (\<lambda>m. m\<lparr>min_next := old\<rparr>);
          h3 = upd_maj h2 maj (\<lambda>M. M\<lparr>maj_first := f\<rparr>);
          h4 = upd_min h3 f (\<lambda>m. m\<lparr>min_magic := LIBALLOC_MAGIC, min_prev := NULL, min_block := maj,
                  min_size := ucast sz, min_req_size := ucast req\<rparr>);
          h5 = account h4 maj sz
      in ALIGN h5 (f + sizeof_minor))"

text \<open>CASE 4.1: the tail of the block; CASE 4.2: between two minors.\<close>

definition malloc_case41 :: "heap \<Rightarrow> u64 \<Rightarrow> u64 \<Rightarrow> addr_t \<Rightarrow> addr_t \<Rightarrow> addr_t \<times> heap" where
  "malloc_case41 h sz req maj mn =
     (let n = mn + sizeof_minor + ucast (min_size (min_at h mn));
          h1 = upd_min h mn (\<lambda>m. m\<lparr>min_next := n\<rparr>);
          h2 = upd_min h1 n (\<lambda>m. m\<lparr>min_prev := mn, min_next := NULL, min_magic := LIBALLOC_MAGIC, min_block := maj,
                  min_size := ucast sz, min_req_size := ucast req\<rparr>);
          h3 = account h2 maj sz
      in ALIGN h3 (n + sizeof_minor))"

definition malloc_case42 :: "heap \<Rightarrow> u64 \<Rightarrow> u64 \<Rightarrow> addr_t \<Rightarrow> addr_t \<Rightarrow> addr_t \<times> heap" where
  "malloc_case42 h sz req maj mn =
     (let n = mn + sizeof_minor + ucast (min_size (min_at h mn));
          nx = min_next (min_at h mn);
          h1 = upd_min h n (\<lambda>m. m\<lparr>min_magic := LIBALLOC_MAGIC, min_next := nx, min_prev := mn,
                  min_size := ucast sz, min_req_size := ucast req, min_block := maj\<rparr>);
          h2 = upd_min h1 nx (\<lambda>m. m\<lparr>min_prev := n\<rparr>);
          h3 = upd_min h2 mn (\<lambda>m. m\<lparr>min_next := n\<rparr>);
          h4 = account h3 maj sz
      in ALIGN h4 (n + sizeof_minor))"

text \<open>The inner loop over the minors of a block: \<open>Some None\<close> when it falls through, \<open>None\<close> when the links
  run in a circle.\<close>

partial_function (option) malloc_minors ::
  "heap \<Rightarrow> u64 \<Rightarrow> u64 \<Rightarrow> addr_t \<Rightarrow> addr_t \<Rightarrow> (addr_t \<times> heap) option option" where
  "malloc_minors h sz req maj mn =
     (if mn = NULL then Some None
      else let m = min_at h mn in
        if min_next m = NULL
        then (if sz + sizeof_minor \<le> maj + ucast (maj_size (maj_at h maj)) - mn - sizeof_minor - ucast (min_size m)
              then Some (Some (malloc_case41 h sz req maj mn))
              else malloc_minors h sz req maj (min_next m))
        else (if sz + sizeof_minor \<le> min_next m - mn - sizeof_minor - ucast (min_size m)
              then Some (Some (malloc_case42 h sz req maj mn))
              else malloc_minors h sz req maj (min_next m)))"

text \<open>The outer loop over the majors. \<open>None\<close> as a whole means that it never ends.\<close>

partial_function (option) malloc_majors ::
  "heap \<Rightarrow> u64 \<Rightarrow> u64 \<Rightarrow> addr_t \<Rightarrow> bool \<Rightarrow> u64 \<Rightarrow> (addr_t \<times> heap) res option" where
  "malloc_majors h sz req maj startedBet bestSize =
     (if maj = NULL then Some (Inr (NULL, h))
      else
        let M = maj_at h maj;
            diff = ucast (maj_size M - maj_usage M) :: u64;
            better = bestSize < diff;
            h1 = (if better then h\<lparr>l_bestBet := maj\<rparr> else h);
            best1 = (if better then diff else bestSize)
        in if diff < sz + sizeof_minor
        then if maj_next M \<noteq> NULL then malloc_majors h1 sz req (maj_next M) startedBet best1
          else if startedBet then malloc_majors h1 sz req (l_memRoot h1) False best1
          else (case allocate_new_page h1 (ucast sz) of
                  Inl e \<Rightarrow> Some (Inl e)
                | Inr (new, h2) \<Rightarrow>
                  let h3 = upd_maj h2 maj (\<lambda>M. M\<lparr>maj_next := new\<rparr>)
                  in if new = NULL then Some (Inr (NULL, h3))
                     else Some (Inr (malloc_case2 (upd_maj h3 new (\<lambda>M. M\<lparr>maj_prev := maj\<rparr>)) sz req new)))
        else if maj_first M = NULL then Some (Inr (malloc_case2 h1 sz req maj))
        else if sz + sizeof_minor \<le> maj_first M - maj - sizeof_major then Some (Inr (malloc_case3 h1 sz req maj))
        else (case malloc_minors h1 sz req maj (maj_first M) of
                None \<Rightarrow> None
              | Some (Some r) \<Rightarrow> Some (Inr r)
              | Some None \<Rightarrow>
                if maj_next M = NULL
                then if startedBet then malloc_majors h1 sz req (l_memRoot h1) False best1
                  else (case allocate_new_page h1 (ucast sz) of
                          Inl e \<Rightarrow> Some (Inl e)
                        | Inr (new, h2) \<Rightarrow>
                          let h3 = upd_maj h2 maj (\<lambda>M. M\<lparr>maj_next := new\<rparr>)
                          in if new = NULL then Some (Inr (NULL, h3))
                             else malloc_majors (upd_maj h3 new (\<lambda>M. M\<lparr>maj_prev := maj\<rparr>)) sz req new startedBet best1)
                else malloc_majors h1 sz req (maj_next M) startedBet best1))"

definition malloc_sized :: "heap \<Rightarrow> u64 \<Rightarrow> u64 \<Rightarrow> (addr_t \<times> heap) res option" where
  "malloc_sized h sz req =
     (case (if l_memRoot h = NULL
            then bind_res (allocate_new_page h (ucast sz)) (\<lambda>(r, h1). Inr (h1\<lparr>l_memRoot := r\<rparr>))
            else Inr h) of
        Inl e \<Rightarrow> Some (Inl e)
      | Inr h1 \<Rightarrow>
        if l_memRoot h1 = NULL then Some (Inr (NULL, h1))
        else let B = maj_at h1 (l_bestBet h1);
                 best = (if l_bestBet h1 \<noteq> NULL then ucast (maj_size B - maj_usage B) else 0) :: u64
             in if l_bestBet h1 \<noteq> NULL \<and> best > sz + sizeof_minor
                then malloc_majors h1 sz req (l_bestBet h1) True best
                else malloc_majors h1 sz req (l_memRoot h1) False best)"

text \<open>When the size wraps around to zero, the code calls itself with a request of one byte.\<close>

definition malloc :: "heap \<Rightarrow> size_t \<Rightarrow> (addr_t \<times> heap) res option" where
  "malloc h req_size =
     (let sz = req_size + (ALIGNMENT + ALIGN_INFO)
      in if sz = 0 then malloc_sized (h\<lparr>l_warningCount := l_warningCount h + 1\<rparr>) (1 + (ALIGNMENT + ALIGN_INFO)) 1
         else malloc_sized h sz req_size)"

section \<open>free, calloc, realloc\<close>

definition looks_overrun :: "u32 \<Rightarrow> bool" where
  "looks_overrun g \<longleftrightarrow> g AND 0xFFFFFF = LIBALLOC_MAGIC AND 0xFFFFFF \<or> g AND 0xFFFF = LIBALLOC_MAGIC AND 0xFFFF
     \<or> g AND 0xFF = LIBALLOC_MAGIC AND 0xFF"

definition bad_magic :: "heap \<Rightarrow> u32 \<Rightarrow> heap" where
  "bad_magic h g =
     (let h1 = h\<lparr>l_errorCount := l_errorCount h + 1\<rparr>
      in if looks_overrun g then h1\<lparr>l_possibleOverruns := l_possibleOverruns h1 + 1\<rparr> else h1)"

definition free_minor :: "heap \<Rightarrow> addr_t \<Rightarrow> heap" where
  "free_minor h mn =
     (let m = min_at h mn; maj = min_block m;
          h1 = (upd_maj h maj (\<lambda>M. M\<lparr>maj_usage := ucast (ucast (maj_usage M) - (ucast (min_size m) + sizeof_minor))\<rparr>))
                 \<lparr>l_inuse := l_inuse h - ucast (min_size m)\<rparr>;
          h2 = upd_min h1 mn (\<lambda>m. m\<lparr>min_magic := LIBALLOC_DEAD\<rparr>);
          h3 = (if min_next m \<noteq> NULL then upd_min h2 (min_next m) (\<lambda>x. x\<lparr>min_prev := min_prev m\<rparr>) else h2);
          h4 = (if min_prev m \<noteq> NULL then upd_min h3 (min_prev m) (\<lambda>x. x\<lparr>min_next := min_next m\<rparr>) else h3)
      in if min_prev m = NULL then upd_maj h4 maj (\<lambda>M. M\<lparr>maj_first := min_next m\<rparr>) else h4)"

definition free_major :: "heap \<Rightarrow> addr_t \<Rightarrow> heap" where
  "free_major h maj =
     (let M = maj_at h maj;
          h1 = (if l_memRoot h = maj then h\<lparr>l_memRoot := maj_next M\<rparr> else h);
          h2 = (if l_bestBet h1 = maj then h1\<lparr>l_bestBet := NULL\<rparr> else h1);
          h3 = (if maj_prev M \<noteq> NULL then upd_maj h2 (maj_prev M) (\<lambda>x. x\<lparr>maj_next := maj_next M\<rparr>) else h2);
          h4 = (if maj_next M \<noteq> NULL then upd_maj h3 (maj_next M) (\<lambda>x. x\<lparr>maj_prev := maj_prev M\<rparr>) else h3);
          h5 = h4\<lparr>l_allocated := l_allocated h4 - ucast (maj_size (maj_at h4 maj))\<rparr>
      in free_heap h5 maj (ucast (maj_pages (maj_at h5 maj))))"

definition free :: "heap \<Rightarrow> addr_t \<Rightarrow> heap" where
  "free h ptr0 =
     (if ptr0 = NULL then h\<lparr>l_warningCount := l_warningCount h + 1\<rparr>
      else let mn = UNALIGN h ptr0 - sizeof_minor; m = min_at h mn in
        if min_magic m \<noteq> LIBALLOC_MAGIC then bad_magic h (min_magic m)
        else let maj = min_block m; h1 = free_minor h mn in
          if maj_first (maj_at h1 maj) = NULL then free_major h1 maj
          else if l_bestBet h1 \<noteq> NULL
            then let B = maj_at h1 (l_bestBet h1); M = maj_at h1 maj
                 in if sint (maj_size M - maj_usage M) > sint (maj_size B - maj_usage B)
                    then h1\<lparr>l_bestBet := maj\<rparr> else h1
            else h1)"

text \<open>\<open>for (i = 0; i < n; i++)\<close> with a 32-bit counter and a 64-bit bound: it never ends for \<open>n > 2^32\<close>.\<close>

partial_function (option) liballoc_memset_loop :: "mem \<Rightarrow> addr_t \<Rightarrow> u8 \<Rightarrow> size_t \<Rightarrow> u32 \<Rightarrow> mem option" where
  "liballoc_memset_loop m s c n i =
     (if ucast i < n then liballoc_memset_loop (m(s + ucast i := c)) s c n (i + 1) else Some m)"

definition liballoc_memset :: "mem \<Rightarrow> addr_t \<Rightarrow> c_int \<Rightarrow> size_t \<Rightarrow> mem option" where
  "liballoc_memset m s c n = liballoc_memset_loop m s (ucast c) n 0"

text \<open>Four bytes at a time, then the rest one by one.\<close>

fun liballoc_memcpy_loop :: "mem \<Rightarrow> addr_t \<Rightarrow> addr_t \<Rightarrow> nat \<Rightarrow> mem" where
  "liballoc_memcpy_loop m d s n =
     (if 4 \<le> n
      then liballoc_memcpy_loop (m(d := m s, d + 1 := m (s + 1), d + 2 := m (s + 2), d + 3 := m (s + 3))) (d + 4) (s + 4) (n - 4)
      else memcpy_loop m d s n)"

definition liballoc_memcpy :: "mem \<Rightarrow> addr_t \<Rightarrow> addr_t \<Rightarrow> size_t \<Rightarrow> mem" where
  "liballoc_memcpy m d s n = liballoc_memcpy_loop m d s (unat n)"

definition calloc :: "heap \<Rightarrow> size_t \<Rightarrow> size_t \<Rightarrow> (addr_t \<times> heap) res option" where
  "calloc h nobj sz =
     (let real_size = ucast (nobj * sz) :: c_int; n = scast real_size :: size_t
      in case malloc h n of
           None \<Rightarrow> None
         | Some (Inl e) \<Rightarrow> Some (Inl e)
         | Some (Inr (p, h1)) \<Rightarrow>
           if p = NULL \<and> n \<noteq> 0 then Some (Inl NullDeref)
           else map_option (\<lambda>b. Inr (p, h1\<lparr>heap_bytes := b\<rparr>)) (liballoc_memset (heap_bytes h1) p 0 n))"

definition realloc :: "heap \<Rightarrow> addr_t \<Rightarrow> size_t \<Rightarrow> (addr_t \<times> heap) res option" where
  "realloc h p sz =
     (if sz = 0 then Some (Inr (NULL, free h p))
      else if p = NULL then malloc h sz
      else let mn = UNALIGN h p - sizeof_minor; m = min_at h mn in
        if min_magic m \<noteq> LIBALLOC_MAGIC then Some (Inr (NULL, bad_magic h (min_magic m)))
        else let real_size = min_req_size m in
          if ucast real_size \<ge> sz then Some (Inr (p, upd_min h mn (\<lambda>m. m\<lparr>min_req_size := ucast sz\<rparr>)))
          else case malloc h sz of
                 None \<Rightarrow> None
               | Some (Inl e) \<Rightarrow> Some (Inl e)
               | Some (Inr (ptr, h1)) \<Rightarrow>
                 if ptr = NULL \<and> real_size \<noteq> 0 then Some (Inl NullDeref)
                 else let h2 = h1\<lparr>heap_bytes := liballoc_memcpy (heap_bytes h1) ptr p (ucast real_size)\<rparr>
                      in Some (Inr (ptr, free h2 p)))"

section \<open>The interface of the heap\<close>

definition kmalloc :: "heap \<Rightarrow> size_t \<Rightarrow> (addr_t \<times> heap) res option" where
  "kmalloc h sz =
     (if heap_status h = HEAP_UNINITIALIZED then Some (Inr (NULL, h))
      else if heap_status h = HEAP_EARLY then Some (Inr (early_malloc h sz))
      else malloc h sz)"

definition kzalloc :: "heap \<Rightarrow> size_t \<Rightarrow> (addr_t \<times> heap) res option" where
  "kzalloc h sz =
     (case kmalloc h sz of
        Some (Inr (p, h1)) \<Rightarrow>
          Some (Inr (p, if p \<noteq> NULL then h1\<lparr>heap_bytes := snd (memset (heap_bytes h1) p 0 sz)\<rparr> else h1))
      | r \<Rightarrow> r)"

definition kfree :: "heap \<Rightarrow> addr_t \<Rightarrow> heap" where
  "kfree h p = (if heap_status h \<noteq> HEAP_INITIALIZED then h else free h p)"

definition kmalloc_init :: "heap \<Rightarrow> heap" where
  "kmalloc_init h = h\<lparr>heap_status := HEAP_INITIALIZED\<rparr>"

declare liballoc_memcpy_loop.simps [simp del]

section \<open>The early heap as an allocator with a watermark\<close>

definition early_ready :: "heap \<Rightarrow> bool" where
  "early_ready h \<longleftrightarrow> early_heap_watermark h \<noteq> NULL \<and> early_heap_watermark h \<le> early_heap_end h"

interpretation early: watermark "\<lambda>h sz. Inr (early_malloc h sz)" early_heap_watermark "\<lambda>h. unat (early_heap_end h)" early_ready
proof (unfold_locales, goal_cases)
  case (1 h)
  then show ?case using unat_less_length_power [of "early_heap_end h"] by (simp add: early_ready_def word_le_nat_alt)
next
  case (2 h sz)
  have w: "unat (early_heap_watermark h + sz) = unat (early_heap_watermark h) + unat sz"
    using 2(2) unat_less_length_power [of "early_heap_end h"] by (simp add: unat_add_no_overflow)
  then have "early_heap_watermark h + sz \<noteq> 0" using 2(1) by (auto simp: early_ready_def word_eq_zero_iff_unat)
  then show ?case using 2 w by (simp add: early_malloc_def early_ready_def word_less_nat_alt word_le_nat_alt)
next
  case (3 h sz)
  then have "unat (early_heap_watermark h + sz) = unat (early_heap_watermark h) + unat sz" by (simp add: unat_add_no_overflow)
  then show ?case using 3 by (simp add: early_malloc_def word_less_nat_alt)
qed

text \<open>What the early heap hands out lies in its region and never overlaps.\<close>

lemmas early_malloc_ranges = early.reserve_all_ranges

end
