(* ===== verification/Heap_Invariant.thy ===== *)
theory Heap_Invariant
  imports Heap
begin

text \<open>
  The invariant of the liballoc heap of \<open>Heap\<close> and what \<open>malloc\<close> and \<open>free\<close> do with it: the majors form a
  doubly linked list in address order, the minors of each major form a doubly linked list in address
  order inside it, no two structures or payloads overlap, and the usage counters are exact.
\<close>

section \<open>Doubly linked lists that end in NULL\<close>

fun mlist :: "(addr_t \<Rightarrow> addr_t) \<Rightarrow> (addr_t \<Rightarrow> addr_t) \<Rightarrow> addr_t \<Rightarrow> addr_t \<Rightarrow> addr_t list \<Rightarrow> bool" where
  "mlist n p pr c [] = (c = NULL)"
| "mlist n p pr c (x # xs) = (c = x \<and> x \<noteq> NULL \<and> p x = pr \<and> mlist n p x (n x) xs)"

fun mseg :: "(addr_t \<Rightarrow> addr_t) \<Rightarrow> (addr_t \<Rightarrow> addr_t) \<Rightarrow> addr_t \<Rightarrow> addr_t \<Rightarrow> addr_t list \<Rightarrow> addr_t \<Rightarrow> bool" where
  "mseg n p pr c [] d = (c = d)"
| "mseg n p pr c (x # xs) d = (c = x \<and> x \<noteq> NULL \<and> p x = pr \<and> mseg n p x (n x) xs d)"

lemma mlist_append:
  "mlist n p pr c (xs @ ys) \<longleftrightarrow> (\<exists>d. mseg n p pr c xs d \<and> mlist n p (last (pr # xs)) d ys)"
  by (induction xs arbitrary: pr c) auto

lemma mseg_append:
  "mseg n p pr c (xs @ ys) e \<longleftrightarrow> (\<exists>d. mseg n p pr c xs d \<and> mseg n p (last (pr # xs)) d ys e)"
  by (induction xs arbitrary: pr c) auto

lemma mlist_cong:
  "(\<And>x. x \<in> set xs \<Longrightarrow> n' x = n x) \<Longrightarrow> (\<And>x. x \<in> set xs \<Longrightarrow> p' x = p x) \<Longrightarrow> mlist n' p' pr c xs = mlist n p pr c xs"
  by (induction xs arbitrary: pr c) auto

lemma mseg_cong:
  "(\<And>x. x \<in> set xs \<Longrightarrow> n' x = n x) \<Longrightarrow> (\<And>x. x \<in> set xs \<Longrightarrow> p' x = p x) \<Longrightarrow> mseg n' p' pr c xs d = mseg n p pr c xs d"
  by (induction xs arbitrary: pr c) auto

lemma mlist_nonnull: "mlist n p pr c xs \<Longrightarrow> NULL \<notin> set xs"
  by (induction xs arbitrary: pr c) auto

definition first_of :: "addr_t list \<Rightarrow> addr_t" where "first_of ys = (case ys of [] \<Rightarrow> NULL | y # _ \<Rightarrow> y)"
definition last_of :: "addr_t list \<Rightarrow> addr_t" where "last_of xs = last (NULL # xs)"

lemma first_of_simps [simp]: "first_of [] = NULL" "first_of (y # ys) = y"
  by (simp_all add: first_of_def)

lemma last_of_simps [simp]: "last_of [] = NULL" "last_of (xs @ [x]) = x"
  by (simp_all add: last_of_def)

lemma last_of_in: "xs \<noteq> [] \<Longrightarrow> last_of xs \<in> set xs"
  by (simp add: last_of_def)

lemma mlist_first: "mlist n p pr c xs \<Longrightarrow> c = first_of xs"
  by (cases xs) auto

text \<open>Insertion of \<open>a\<close> between \<open>xs\<close> and \<open>ys\<close>, and removal, as updates of the two link functions.\<close>

lemma mlist_insert:
  assumes "mlist n p NULL c (xs @ ys)" and "distinct (xs @ a # ys)" and "a \<noteq> NULL"
    and "n' a = first_of ys" and "p' a = last_of xs"
    and "\<And>x. x \<in> set (xs @ ys) \<Longrightarrow> n' x = (if xs \<noteq> [] \<and> x = last_of xs then a else n x)"
    and "\<And>x. x \<in> set (xs @ ys) \<Longrightarrow> p' x = (if ys \<noteq> [] \<and> x = first_of ys then a else p x)"
    and "c' = (if xs = [] then a else c)"
  shows "mlist n' p' NULL c' (xs @ a # ys)"
proof -
  obtain d where seg: "mseg n p NULL c xs d" and ml: "mlist n p (last (NULL # xs)) d ys"
    using assms(1) by (auto simp: mlist_append)
  have tail: "mlist n' p' a (first_of ys) ys"
  proof (cases ys)
    case Nil
    then show ?thesis by simp
  next
    case (Cons y zs)
    have "y \<noteq> last_of xs" if "xs \<noteq> []" using assms(2) Cons that by (auto simp: last_of_def)
    then have ny: "n' y = n y" using assms(6) [of y] Cons by auto
    have "mlist n' p' y (n y) zs = mlist n p y (n y) zs"
    proof (rule mlist_cong)
      fix x assume x: "x \<in> set zs"
      have "x \<noteq> last_of xs" if "xs \<noteq> []" using assms(2) Cons that x last_of_in [OF that] by auto
      then show "n' x = n x" using assms(6) [of x] Cons x by auto
      have "x \<noteq> y" using assms(2) Cons x by auto
      then show "p' x = p x" using assms(7) [of x] Cons x by auto
    qed
    then show ?thesis using ml Cons ny assms(7) [of y] by simp
  qed
  show ?thesis
  proof (cases xs rule: rev_cases)
    case Nil
    then show ?thesis using tail assms(3,4,5,8) by (simp add: last_of_def)
  next
    case (snoc us u)
    have "mseg n' p' NULL c us u \<longleftrightarrow> mseg n p NULL c us u"
    proof (rule mseg_cong)
      fix x assume x: "x \<in> set us"
      have "x \<noteq> u" using assms(2) snoc x by auto
      then show "n' x = n x" using assms(6) [of x] snoc x by auto
      have "x \<noteq> first_of ys" if "ys \<noteq> []" using assms(2) snoc x that by (cases ys) auto
      then show "p' x = p x" using assms(7) [of x] snoc x by auto
    qed
    moreover have "n' u = a" using assms(6) [of u] snoc by simp
    moreover have "p' u = p u"
    proof -
      have "u \<noteq> first_of ys" if "ys \<noteq> []" using assms(2) snoc that by (cases ys) auto
      then show ?thesis using assms(7) [of u] snoc by auto
    qed
    ultimately show ?thesis
      using seg tail snoc assms(3,4,5,8) by (auto simp: mlist_append mseg_append)
  qed
qed

lemma mlist_remove:
  assumes "mlist n p NULL c (xs @ a # ys)" and "distinct (xs @ a # ys)"
    and "\<And>x. x \<in> set (xs @ ys) \<Longrightarrow> n' x = (if xs \<noteq> [] \<and> x = last_of xs then first_of ys else n x)"
    and "\<And>x. x \<in> set (xs @ ys) \<Longrightarrow> p' x = (if ys \<noteq> [] \<and> x = first_of ys then last_of xs else p x)"
    and "c' = (if xs = [] then first_of ys else c)"
  shows "mlist n' p' NULL c' (xs @ ys)"
proof -
  have seg: "mseg n p NULL c xs a" and ml: "mlist n p a (n a) ys"
    using assms(1) by (auto simp: mlist_append)
  have tail: "mlist n' p' (last_of xs) (first_of ys) ys"
  proof (cases ys)
    case Nil
    then show ?thesis by simp
  next
    case (Cons y zs)
    have "y \<noteq> last_of xs" if "xs \<noteq> []" using assms(2) Cons that by (auto simp: last_of_def)
    then have ny: "n' y = n y" using assms(3) [of y] Cons by auto
    have "mlist n' p' y (n y) zs = mlist n p y (n y) zs"
    proof (rule mlist_cong)
      fix x assume x: "x \<in> set zs"
      have "x \<noteq> last_of xs" if "xs \<noteq> []" using assms(2) Cons that x last_of_in [OF that] by auto
      then show "n' x = n x" using assms(3) [of x] Cons x by auto
      have "x \<noteq> y" using assms(2) Cons x by auto
      then show "p' x = p x" using assms(4) [of x] Cons x by auto
    qed
    then show ?thesis using ml Cons ny assms(4) [of y] by simp
  qed
  show ?thesis
  proof (cases xs rule: rev_cases)
    case Nil
    then show ?thesis using tail assms(5) by simp
  next
    case (snoc us u)
    have "mseg n' p' NULL c us u \<longleftrightarrow> mseg n p NULL c us u"
    proof (rule mseg_cong)
      fix x assume x: "x \<in> set us"
      have "x \<noteq> u" using assms(2) snoc x by auto
      then show "n' x = n x" using assms(3) [of x] snoc x by auto
      have "x \<noteq> first_of ys" if "ys \<noteq> []" using assms(2) snoc x that by (cases ys) auto
      then show "p' x = p x" using assms(4) [of x] snoc x by auto
    qed
    moreover have "n' u = first_of ys" using assms(3) [of u] snoc by simp
    moreover have "p' u = p u"
    proof -
      have "u \<noteq> first_of ys" if "ys \<noteq> []" using assms(2) snoc that by (cases ys) auto
      then show ?thesis using assms(4) [of u] snoc by auto
    qed
    ultimately show ?thesis
      using seg tail snoc assms(5) by (auto simp: mlist_append mseg_append)
  qed
qed

section \<open>Blocks in address order\<close>

text \<open>Blocks \<open>ms\<close>, each taking \<open>w m\<close> bytes, lie in order between \<open>lo\<close> and \<open>hi\<close>.\<close>

fun spaced :: "(addr_t \<Rightarrow> nat) \<Rightarrow> nat \<Rightarrow> addr_t list \<Rightarrow> nat \<Rightarrow> bool" where
  "spaced w lo [] hi = (lo \<le> hi)"
| "spaced w lo (m # ms) hi = (lo \<le> unat m \<and> spaced w (unat m + w m) ms hi)"

definition end_of :: "(addr_t \<Rightarrow> nat) \<Rightarrow> nat \<Rightarrow> addr_t list \<Rightarrow> nat" where
  "end_of w lo xs = (if xs = [] then lo else unat (last xs) + w (last xs))"

lemma end_of_Cons: "end_of w lo (x # xs) = end_of w (unat x + w x) xs"
  by (simp add: end_of_def)

lemma spaced_append: "spaced w lo (xs @ ys) hi \<longleftrightarrow> spaced w lo xs (end_of w lo xs) \<and> spaced w (end_of w lo xs) ys hi"
proof (induction xs arbitrary: lo)
  case Nil
  then show ?case by (simp add: end_of_def)
qed (simp add: end_of_Cons)

lemma spaced_bounds: "spaced w lo ms hi \<Longrightarrow> lo \<le> hi \<and> (\<forall>m \<in> set ms. lo \<le> unat m \<and> unat m + w m \<le> hi)"
  by (induction ms arbitrary: lo) (auto, fastforce+)

lemma spaced_cong: "(\<And>m. m \<in> set ms \<Longrightarrow> w' m = w m) \<Longrightarrow> spaced w' lo ms hi = spaced w lo ms hi"
  by (induction ms arbitrary: lo) auto

lemma spaced_mono: "spaced w lo ms hi \<Longrightarrow> lo' \<le> lo \<Longrightarrow> hi \<le> hi' \<Longrightarrow> spaced w lo' ms hi'"
  by (induction ms arbitrary: lo lo') auto

lemma spaced_apart:
  assumes "spaced w lo ms hi" and "m \<in> set ms" and "m' \<in> set ms" and "m \<noteq> m'"
  shows "unat m + w m \<le> unat m' \<or> unat m' + w m' \<le> unat m"
  using assms
proof (induction ms arbitrary: lo)
  case (Cons x xs)
  then show ?case using spaced_bounds [of w "unat x + w x" xs hi] by auto
qed simp

lemma spaced_distinct: "spaced w lo ms hi \<Longrightarrow> (\<And>m. m \<in> set ms \<Longrightarrow> 0 < w m) \<Longrightarrow> distinct ms"
proof (induction ms arbitrary: lo)
  case (Cons x xs)
  have "0 < w x" using Cons.prems(2) by simp
  moreover have "\<forall>m \<in> set xs. unat x + w x \<le> unat m" using spaced_bounds [of w "unat x + w x" xs hi] Cons.prems by auto
  ultimately have "x \<notin> set xs" by fastforce
  then show ?case using Cons by auto
qed simp

lemma spaced_remove: "spaced w lo (xs @ a # ys) hi \<Longrightarrow> spaced w lo (xs @ ys) hi"
  by (auto simp: spaced_append intro: spaced_mono)

lemma end_of_le: "spaced w lo (xs @ ys) hi \<Longrightarrow> end_of w lo xs \<le> hi"
  using spaced_bounds [of w "end_of w lo xs" ys hi] by (auto simp: spaced_append)

section \<open>Alignment\<close>

definition user_ptr :: "addr_t \<Rightarrow> addr_t" where
  "user_ptr m = (let p1 = m + 56; d = p1 AND 15 in if d \<noteq> 0 then p1 + (16 - d) else p1)"

lemma ALIGN_eq:
  "ALIGN h (m + 40) = (user_ptr m, h\<lparr>heap_bytes := (heap_bytes h)(user_ptr m - 16 := ucast (user_ptr m - (m + 40)))\<rparr>)"
proof -
  have a: "m + 40 + 16 = m + 56" and b: "m + 56 + (16 - d) - (m + 40) = 16 - d + 16" and c: "m + 56 - (m + 40) = 0 + 16"
    for d :: u64 by simp_all
  show ?thesis
    unfolding ALIGN_def user_ptr_def Let_def ALIGN_INFO_def ALIGNMENT_def a
    by (cases "(m + 56) AND 15 = 0") (simp_all only: b c if_True if_False not_not simp_thms diff_numeral_simps, simp_all)
qed

lemma ALIGN_pair: "ALIGN h (m + 40) = (user_ptr m, snd (ALIGN h (m + 40)))"
  by (simp only: ALIGN_eq snd_conv)

lemma unat_and_15: "unat (w AND 15) = unat w mod 16" for w :: u64
proof -
  have "w AND 15 = take_bit 4 w" by (simp add: take_bit_eq_mask mask_eq_exp_minus_1)
  then show ?thesis using unat_take_bit_mod [of 4 w] by simp
qed

lemma dvd_16_round: "16 dvd x + (if x mod 16 = 0 then 0 else 16 - x mod 16)" for x :: nat
  by presburger

lemma user_ptr_bounds:
  assumes "unat m + 72 \<le> 2 ^ 64"
  shows "unat m + 56 \<le> unat (user_ptr m)" and "unat (user_ptr m) < unat m + 72" and "16 dvd unat (user_ptr m)"
proof -
  have p1: "unat (m + 56) = unat m + 56" using assms by (subst unat_add_no_overflow) auto
  define r where "r = (unat m + 56) mod 16"
  have d: "unat ((m + 56) AND 15) = r" by (simp only: unat_and_15 p1 r_def)
  have "r < 16" by (simp add: r_def)
  have un: "unat (user_ptr m) = unat m + 56 + (if r = 0 then 0 else 16 - r)"
  proof (cases "r = 0")
    case True
    then have "(m + 56) AND 15 = 0" using d by (simp add: word_eq_zero_iff_unat)
    then show ?thesis using True p1 by (simp add: user_ptr_def Let_def)
  next
    case False
    then have "(m + 56) AND 15 \<noteq> 0" using d by (auto simp: word_eq_zero_iff_unat)
    moreover have t: "unat (16 - ((m + 56) AND 15)) = 16 - r"
      using d \<open>r < 16\<close> by (subst unat_sub_no_underflow) (auto simp: word_le_nat_alt)
    moreover have "unat m + 56 + (16 - r) < 2 ^ 64"
    proof -
      have "16 dvd unat m + 56 + (16 - r)" using dvd_16_round [of "unat m + 56"] False by (simp add: r_def)
      moreover have "unat m + 56 + (16 - r) < unat m + 72" using False by simp
      ultimately show ?thesis using assms by simp
    qed
    moreover from this have "unat (m + 56 + (16 - ((m + 56) AND 15))) = unat m + 56 + (16 - r)"
      using p1 t unat_add_no_overflow [of "m + 56" "16 - ((m + 56) AND 15)"] by simp
    ultimately show ?thesis using False by (simp only: user_ptr_def Let_def if_True if_False not_False_eq_True)
  qed
  show "unat m + 56 \<le> unat (user_ptr m)" "unat (user_ptr m) < unat m + 72"
    using un \<open>r < 16\<close> by auto
  show "16 dvd unat (user_ptr m)"
    unfolding un r_def by (rule dvd_16_round)
qed

lemma scast_small_byte: "scast (ucast w :: u8) = w" if "unat w < 32" for w :: u64
proof -
  have "take_bit 5 w = w" using that by (simp add: word_unat_eq_iff unat_take_bit_mod)
  then have hi: "\<not> bit w k" if "5 \<le> k" for k using that bit_take_bit_iff [of 5 w k] by auto
  show ?thesis
  proof (rule bit_word_eqI)
    fix n assume "n < LENGTH(64)"
    then show "bit (scast (ucast w :: u8) :: u64) n = bit w n"
      using hi [of n] hi [of 7] by (cases "n < 8") (auto simp: bit_signed_iff bit_ucast_iff min_def)
  qed
qed

lemma UNALIGN_user_ptr:
  assumes "unat m + 72 \<le> 2 ^ 64" and "heap_bytes h (user_ptr m - 16) = ucast (user_ptr m - (m + 40))"
  shows "UNALIGN h (user_ptr m) = m + 40"
proof -
  note B = user_ptr_bounds [OF assms(1)]
  have "unat (m + 40) = unat m + 40" using assms(1) by (subst unat_add_no_overflow) auto
  then have d: "unat (user_ptr m - (m + 40)) = unat (user_ptr m) - (unat m + 40)"
    using B by (subst unat_sub_no_underflow) (auto simp: word_le_nat_alt)
  then have "scast (ucast (user_ptr m - (m + 40)) :: u8) = user_ptr m - (m + 40)"
    using B by (intro scast_small_byte) auto
  moreover have "user_ptr m - (m + 40) < 32" using d B by (simp add: word_less_nat_alt)
  ultimately show ?thesis using assms(2) by (simp add: UNALIGN_def Let_def ALIGN_INFO_def ALIGNMENT_def)
qed

section \<open>The invariant\<close>

definition w_min :: "heap \<Rightarrow> addr_t \<Rightarrow> nat" where "w_min h m = 40 + unat (min_size (min_at h m))"
definition w_maj :: "heap \<Rightarrow> addr_t \<Rightarrow> nat" where "w_maj h M = unat (maj_size (maj_at h M))"

definition minor_ok :: "heap \<Rightarrow> addr_t \<Rightarrow> addr_t \<Rightarrow> bool" where
  "minor_ok h M m \<longleftrightarrow> min_magic (min_at h m) = LIBALLOC_MAGIC \<and> min_block (min_at h m) = M
     \<and> unat (min_req_size (min_at h m)) + 32 \<le> unat (min_size (min_at h m))
     \<and> heap_bytes h (user_ptr m - 16) = ucast (user_ptr m - (m + 40))"

definition major_ok :: "heap \<Rightarrow> addr_t \<Rightarrow> addr_t list \<Rightarrow> bool" where
  "major_ok h M ms \<longleftrightarrow>
     mlist (\<lambda>m. min_next (min_at h m)) (\<lambda>m. min_prev (min_at h m)) NULL (maj_first (maj_at h M)) ms
     \<and> spaced (w_min h) (unat M + 40) ms (unat M + w_maj h M)
     \<and> unat (maj_usage (maj_at h M)) = 40 + sum_list (map (w_min h) ms)
     \<and> (\<forall>m \<in> set ms. minor_ok h M m)"

text \<open>\<open>Bs\<close> lists the majors in order, each with its minors in order.\<close>

definition heap_inv :: "heap \<Rightarrow> (addr_t \<times> addr_t list) list \<Rightarrow> bool" where
  "heap_inv h Bs \<longleftrightarrow>
     mlist (\<lambda>M. maj_next (maj_at h M)) (\<lambda>M. maj_prev (maj_at h M)) NULL (l_memRoot h) (map fst Bs)
     \<and> spaced (w_maj h) 0 (map fst Bs) (unat (heap_end h))
     \<and> (\<forall>(M, ms) \<in> set Bs. major_ok h M ms)
     \<and> (l_bestBet h = NULL \<or> l_bestBet h \<in> fst ` set Bs)"

definition live :: "(addr_t \<times> addr_t list) list \<Rightarrow> addr_t set" where
  "live Bs = (\<Union>(M, ms) \<in> set Bs. set ms)"

lemma major_okD:
  assumes "major_ok h M ms"
  shows "spaced (w_min h) (unat M + 40) ms (unat M + w_maj h M)"
    and "unat (maj_usage (maj_at h M)) = 40 + sum_list (map (w_min h) ms)"
    and "m \<in> set ms \<Longrightarrow> minor_ok h M m"
    and "maj_first (maj_at h M) = first_of ms"
    and "NULL \<notin> set ms" and "distinct ms" and "40 \<le> w_maj h M"
    and "m \<in> set ms \<Longrightarrow> unat M + 40 \<le> unat m \<and> unat m + w_min h m \<le> unat M + w_maj h M"
  using assms mlist_first mlist_nonnull spaced_distinct [of "w_min h" "unat M + 40" ms]
    spaced_bounds [of "w_min h" "unat M + 40" ms]
  by (fastforce simp: major_ok_def w_min_def)+

lemma heap_invD:
  assumes "heap_inv h Bs"
  shows "(M, ms) \<in> set Bs \<Longrightarrow> major_ok h M ms"
    and "NULL \<notin> fst ` set Bs" and "distinct (map fst Bs)"
    and "(M, ms) \<in> set Bs \<Longrightarrow> unat M + w_maj h M \<le> unat (heap_end h)"
    and "(M, ms) \<in> set Bs \<Longrightarrow> (M', ms') \<in> set Bs \<Longrightarrow> M \<noteq> M' \<Longrightarrow>
      unat M + w_maj h M \<le> unat M' \<or> unat M' + w_maj h M' \<le> unat M"
proof -
  have sp: "spaced (w_maj h) 0 (map fst Bs) (unat (heap_end h))" using assms by (simp add: heap_inv_def)
  show ok: "(M, ms) \<in> set Bs \<Longrightarrow> major_ok h M ms" for M ms using assms by (auto simp: heap_inv_def)
  have "NULL \<notin> set (map fst Bs)" using assms mlist_nonnull unfolding heap_inv_def by blast
  then show "NULL \<notin> fst ` set Bs" by simp
  show "distinct (map fst Bs)"
    by (rule spaced_distinct [OF sp]) (use ok major_okD(7) in fastforce)
  show "(M, ms) \<in> set Bs \<Longrightarrow> unat M + w_maj h M \<le> unat (heap_end h)"
    using spaced_bounds [OF sp] by force
  show "(M, ms) \<in> set Bs \<Longrightarrow> (M', ms') \<in> set Bs \<Longrightarrow> M \<noteq> M' \<Longrightarrow>
      unat M + w_maj h M \<le> unat M' \<or> unat M' + w_maj h M' \<le> unat M"
    using spaced_apart [OF sp, of M M'] by force
qed

section \<open>Insertion of a minor\<close>

definition link_minor :: "heap \<Rightarrow> addr_t \<Rightarrow> addr_t \<Rightarrow> addr_t \<Rightarrow> addr_t \<Rightarrow> u64 \<Rightarrow> u64 \<Rightarrow> heap" where
  "link_minor h M pr a nx sz req =
     (let f0 = (min_at h)(a := \<lparr>min_prev = pr, min_next = nx, min_block = M, min_magic = LIBALLOC_MAGIC,
                 min_size = ucast sz, min_req_size = ucast req\<rparr>);
          f1 = (if nx \<noteq> NULL then f0(nx := (f0 nx)\<lparr>min_prev := a\<rparr>) else f0);
          f2 = (if pr \<noteq> NULL then f1(pr := (f1 pr)\<lparr>min_next := a\<rparr>) else f1)
      in h\<lparr>min_at := f2,
           maj_at := (maj_at h)(M := (maj_at h M)\<lparr>maj_first := (if pr = NULL then a else maj_first (maj_at h M)),
              maj_usage := ucast (ucast (maj_usage (maj_at h M)) + (sz + sizeof_minor))\<rparr>),
           l_inuse := l_inuse h + sz\<rparr>)"

text \<open>Each case of \<open>malloc\<close> assigns all six fields of the new minor, so it is such an insertion.\<close>

lemma minor_overwrite:
  "m\<lparr>min_magic := g, min_prev := p, min_next := n, min_block := b, min_size := s, min_req_size := q\<rparr>
     = \<lparr>min_prev = p, min_next = n, min_block = b, min_magic = g, min_size = s, min_req_size = q\<rparr>"
  "m\<lparr>min_next := n, min_magic := g, min_prev := p, min_block := b, min_size := s, min_req_size := q\<rparr>
     = \<lparr>min_prev = p, min_next = n, min_block = b, min_magic = g, min_size = s, min_req_size = q\<rparr>"
  "m\<lparr>min_prev := p, min_next := n, min_magic := g, min_block := b, min_size := s, min_req_size := q\<rparr>
     = \<lparr>min_prev = p, min_next = n, min_block = b, min_magic = g, min_size = s, min_req_size = q\<rparr>"
  "m\<lparr>min_magic := g, min_next := n, min_prev := p, min_size := s, min_req_size := q, min_block := b\<rparr>
     = \<lparr>min_prev = p, min_next = n, min_block = b, min_magic = g, min_size = s, min_req_size = q\<rparr>"
  by (cases m; simp)+

lemma case2_link:
  assumes "f = M + 40"
  shows "malloc_case2 h sz req M = ALIGN (link_minor h M NULL f NULL sz req) (f + 40)"
  unfolding malloc_case2_def sizeof_major_def assms [symmetric]
  by (simp add: link_minor_def account_def Let_def sizeof_minor_def minor_overwrite)

lemma case3_link:
  assumes "maj_first (maj_at h M) = y" and "y \<noteq> NULL" and "y \<noteq> f" and "f = M + 40"
  shows "malloc_case3 h sz req M = ALIGN (link_minor h M NULL f y sz req) (f + 40)"
  unfolding malloc_case3_def sizeof_major_def assms(4) [symmetric]
  using assms(1-3)
  by (simp add: link_minor_def account_def Let_def sizeof_minor_def minor_overwrite fun_upd_twist)

lemma case41_link:
  assumes "mn \<noteq> NULL" and "mn \<noteq> a" and "a = mn + 40 + ucast (min_size (min_at h mn))"
  shows "malloc_case41 h sz req M mn = ALIGN (link_minor h M mn a NULL sz req) (a + 40)"
  unfolding malloc_case41_def sizeof_minor_def assms(3) [symmetric]
  using assms(1,2)
  by (simp add: link_minor_def account_def Let_def sizeof_minor_def minor_overwrite fun_upd_twist)

lemma case42_link:
  assumes "mn \<noteq> NULL" and "mn \<noteq> a" and "a = mn + 40 + ucast (min_size (min_at h mn))"
    and "min_next (min_at h mn) = y" and "y \<noteq> NULL" and "y \<noteq> mn" and "y \<noteq> a"
  shows "malloc_case42 h sz req M mn = ALIGN (link_minor h M mn a y sz req) (a + 40)"
  unfolding malloc_case42_def sizeof_minor_def assms(3) [symmetric]
  using assms(1,2,4-)
  by (simp add: link_minor_def account_def Let_def sizeof_minor_def minor_overwrite)

text \<open>The address of the new minor lies in a gap of its block.\<close>

definition gap :: "heap \<Rightarrow> addr_t \<Rightarrow> addr_t list \<Rightarrow> addr_t \<Rightarrow> addr_t list \<Rightarrow> u64 \<Rightarrow> bool" where
  "gap h M xs a ys sz \<longleftrightarrow> end_of (w_min h) (unat M + 40) xs \<le> unat a
     \<and> unat a + 40 + unat sz \<le> (case ys of [] \<Rightarrow> unat M + w_maj h M | y # _ \<Rightarrow> unat y)"

lemma gap_fresh:
  assumes ok: "major_ok h M (xs @ ys)" and g: "gap h M xs a ys sz"
  shows "a \<notin> set (xs @ ys)" and "unat M + 40 \<le> unat a" and "unat a + 40 + unat sz \<le> unat M + w_maj h M"
    and "m \<in> set (xs @ ys) \<Longrightarrow> unat m + w_min h m \<le> unat a \<or> unat a + 40 + unat sz \<le> unat m"
proof -
  have sp: "spaced (w_min h) (unat M + 40) xs (end_of (w_min h) (unat M + 40) xs)"
    "spaced (w_min h) (end_of (w_min h) (unat M + 40) xs) ys (unat M + w_maj h M)"
    using major_okD(1) [OF ok] by (simp_all add: spaced_append)
  note b1 = spaced_bounds [OF sp(1)] and b2 = spaced_bounds [OF sp(2)]
  have xs: "unat m + w_min h m \<le> unat a" if "m \<in> set xs" for m
    using b1 that g by (auto simp: gap_def)
  have ys: "unat a + 40 + unat sz \<le> unat m" if "m \<in> set ys" for m
  proof (cases ys)
    case (Cons y zs)
    then have "unat y \<le> unat m"
      using that sp(2) spaced_bounds [of "w_min h" "unat y + w_min h y" zs] by fastforce
    then show ?thesis using g Cons by (auto simp: gap_def)
  qed (use that in simp)
  show "unat m + w_min h m \<le> unat a \<or> unat a + 40 + unat sz \<le> unat m" if "m \<in> set (xs @ ys)" for m
    using that xs ys by auto
  from this [of a] show "a \<notin> set (xs @ ys)" by (auto simp: w_min_def)
  show "unat M + 40 \<le> unat a" using b1 g by (auto simp: gap_def)
  show "unat a + 40 + unat sz \<le> unat M + w_maj h M"
  proof (cases ys)
    case Nil
    then show ?thesis using g by (simp add: gap_def)
  next
    case (Cons y zs)
    then have "unat y \<le> unat M + w_maj h M" using b2 by auto
    then show ?thesis using g Cons by (auto simp: gap_def)
  qed
qed

lemma user_ptr_apart:
  assumes "unat m + 72 \<le> 2 ^ 64" and "unat a + 72 \<le> 2 ^ 64" and "unat m + 72 \<le> unat a \<or> unat a + 72 \<le> unat m"
  shows "user_ptr m - 16 \<noteq> user_ptr a - 16"
proof -
  have "unat (user_ptr m) \<noteq> unat (user_ptr a)"
    using user_ptr_bounds [OF assms(1)] user_ptr_bounds [OF assms(2)] assms(3) by linarith
  then show ?thesis by auto
qed

lemma spaced_sum: "spaced w lo ms hi \<Longrightarrow> lo + sum_list (map w ms) \<le> hi"
  by (induction ms arbitrary: lo) (auto, fastforce)

lemma major_ok_frame:
  assumes "major_ok h M ms" and "\<And>m. m \<in> set ms \<Longrightarrow> min_at h' m = min_at h m"
    and "\<And>m. m \<in> set ms \<Longrightarrow> heap_bytes h' (user_ptr m - 16) = heap_bytes h (user_ptr m - 16)"
    and "maj_first (maj_at h' M) = maj_first (maj_at h M)" and "maj_usage (maj_at h' M) = maj_usage (maj_at h M)"
    and "maj_size (maj_at h' M) = maj_size (maj_at h M)"
  shows "major_ok h' M ms"
proof -
  have w: "w_min h' m = w_min h m" if "m \<in> set ms" for m using that assms(2) by (simp add: w_min_def)
  have W: "w_maj h' M = w_maj h M" using assms(6) by (simp add: w_maj_def)
  have "mlist (\<lambda>m. min_next (min_at h' m)) (\<lambda>m. min_prev (min_at h' m)) NULL (maj_first (maj_at h' M)) ms"
    using assms(1,4) mlist_cong [of ms "\<lambda>m. min_next (min_at h' m)" "\<lambda>m. min_next (min_at h m)"
        "\<lambda>m. min_prev (min_at h' m)" "\<lambda>m. min_prev (min_at h m)"] assms(2)
    by (simp add: major_ok_def)
  moreover have "spaced (w_min h') (unat M + 40) ms (unat M + w_maj h' M)"
    using major_okD(1) [OF assms(1)] spaced_cong [of ms "w_min h'" "w_min h"] w by (simp add: W)
  moreover have "sum_list (map (w_min h') ms) = sum_list (map (w_min h) ms)"
    using w by (metis (mono_tags, lifting) map_eq_conv)
  moreover have "minor_ok h' M m" if "m \<in> set ms" for m
    using major_okD(3) [OF assms(1) that] assms(2,3) [OF that] by (simp add: minor_ok_def)
  ultimately show ?thesis using assms(1,5) by (simp add: major_ok_def)
qed

text \<open>What a live block takes of the address space.\<close>

lemma live_bounds:
  assumes "heap_inv h Bs" and "(M, ms) \<in> set Bs" and "m \<in> set ms"
  shows "72 \<le> w_min h m" and "unat M + 40 \<le> unat m" and "unat m + w_min h m \<le> unat M + w_maj h M"
    and "unat m + 72 \<le> 2 ^ 64"
proof -
  note ok = heap_invD(1) [OF assms(1,2)]
  show w: "72 \<le> w_min h m" using major_okD(3) [OF ok assms(3)] by (simp add: minor_ok_def w_min_def)
  show b: "unat M + 40 \<le> unat m" "unat m + w_min h m \<le> unat M + w_maj h M" using major_okD(8) [OF ok assms(3)] by simp_all
  have "unat M + w_maj h M \<le> unat (heap_end h)" by (rule heap_invD(4) [OF assms(1,2)])
  then have "unat m + 72 \<le> unat (heap_end h)" using b w by linarith
  then show "unat m + 72 \<le> 2 ^ 64" using unat_less_length_power [of "heap_end h"] by simp
qed

lemma unat_ucast_32: "unat (ucast w :: u32) = unat w" if "unat w < 2 ^ 32" for w :: u64
  using that by (simp add: unsigned_ucast_eq take_bit_nat_eq_self)

text \<open>\<open>h'\<close> is \<open>h\<close> after a minor for \<open>sz\<close> bytes was put at \<open>a\<close> between \<open>xs\<close> and \<open>ys\<close> of the major \<open>M\<close>.\<close>

definition inserted ::
  "heap \<Rightarrow> heap \<Rightarrow> (addr_t \<times> addr_t list) list \<Rightarrow> (addr_t \<times> addr_t list) list \<Rightarrow> addr_t \<Rightarrow> addr_t list
     \<Rightarrow> addr_t \<Rightarrow> addr_t list \<Rightarrow> u64 \<Rightarrow> u64 \<Rightarrow> bool" where
  "inserted h h' B1 B2 M xs a ys sz req \<longleftrightarrow>
     heap_inv h (B1 @ (M, xs @ ys) # B2) \<and> gap h M xs a ys sz
     \<and> unat req + 32 \<le> unat sz \<and> unat sz < 2 ^ 32
     \<and> h' = snd (ALIGN (link_minor h M (last_of xs) a (first_of ys) sz req) (a + 40))"

lemma insertedD:
  assumes "inserted h h' B1 B2 M xs a ys sz req"
  shows "heap_inv h (B1 @ (M, xs @ ys) # B2)" and "gap h M xs a ys sz"
    and "unat req + 32 \<le> unat sz" and "unat sz < 2 ^ 32"
    and "h' = snd (ALIGN (link_minor h M (last_of xs) a (first_of ys) sz req) (a + 40))"
    and "major_ok h M (xs @ ys)" and "unat M + w_maj h M \<le> unat (heap_end h)"
    and "a \<notin> set (xs @ ys)" and "unat M + 40 \<le> unat a" and "unat a + 40 + unat sz \<le> unat M + w_maj h M"
    and "unat a + 72 \<le> 2 ^ 64" and "a \<noteq> NULL"
proof -
  show inv: "heap_inv h (B1 @ (M, xs @ ys) # B2)" and g: "gap h M xs a ys sz"
    and sz: "unat req + 32 \<le> unat sz" "unat sz < 2 ^ 32"
    and "h' = snd (ALIGN (link_minor h M (last_of xs) a (first_of ys) sz req) (a + 40))"
    using assms by (simp_all add: inserted_def)
  show ok: "major_ok h M (xs @ ys)" using heap_invD(1) [OF inv] by simp
  show top: "unat M + w_maj h M \<le> unat (heap_end h)" using heap_invD(4) [OF inv, of M "xs @ ys"] by simp
  show "a \<notin> set (xs @ ys)" "unat M + 40 \<le> unat a" and b: "unat a + 40 + unat sz \<le> unat M + w_maj h M"
    using gap_fresh [OF ok g] by auto
  show "unat a + 72 \<le> 2 ^ 64" using b top sz unat_less_length_power [of "heap_end h"] by simp
  show "a \<noteq> NULL" using \<open>unat M + 40 \<le> unat a\<close> by auto
qed

lemma inserted_ends:
  assumes "inserted h h' B1 B2 M xs a ys sz req"
  shows "xs \<noteq> [] \<Longrightarrow> last_of xs \<in> set xs" and "ys \<noteq> [] \<Longrightarrow> first_of ys \<in> set ys"
    and "last_of xs \<noteq> NULL \<longleftrightarrow> xs \<noteq> []" and "first_of ys \<noteq> NULL \<longleftrightarrow> ys \<noteq> []"
proof -
  have nn: "NULL \<notin> set (xs @ ys)" by (rule major_okD(5) [OF insertedD(6) [OF assms]])
  show x: "xs \<noteq> [] \<Longrightarrow> last_of xs \<in> set xs" by (rule last_of_in)
  show "ys \<noteq> [] \<Longrightarrow> first_of ys \<in> set ys" by (cases ys) auto
  show "last_of xs \<noteq> NULL \<longleftrightarrow> xs \<noteq> []" using x nn by (cases "xs = []") auto
  show "first_of ys \<noteq> NULL \<longleftrightarrow> ys \<noteq> []" using nn by (cases ys) auto
qed

lemma inserted_at_a:
  assumes "inserted h h' B1 B2 M xs a ys sz req"
  shows "min_at h' a = \<lparr>min_prev = last_of xs, min_next = first_of ys, min_block = M, min_magic = LIBALLOC_MAGIC,
    min_size = ucast sz, min_req_size = ucast req\<rparr>"
proof -
  have "a \<noteq> last_of xs" if "last_of xs \<noteq> NULL" using inserted_ends [OF assms] insertedD(8) [OF assms] that by auto
  moreover have "a \<noteq> first_of ys" if "first_of ys \<noteq> NULL" using inserted_ends [OF assms] insertedD(8) [OF assms] that by auto
  ultimately show ?thesis by (simp add: insertedD(5) [OF assms] ALIGN_eq link_minor_def Let_def)
qed

lemma inserted_other:
  assumes I: "inserted h h' B1 B2 M xs a ys sz req" and "m \<noteq> a"
  shows "min_next (min_at h' m) = (if xs \<noteq> [] \<and> m = last_of xs then a else min_next (min_at h m))"
    and "min_prev (min_at h' m) = (if ys \<noteq> [] \<and> m = first_of ys then a else min_prev (min_at h m))"
    and "min_block (min_at h' m) = min_block (min_at h m)" and "min_magic (min_at h' m) = min_magic (min_at h m)"
    and "min_size (min_at h' m) = min_size (min_at h m)" and "min_req_size (min_at h' m) = min_req_size (min_at h m)"
    and "m \<notin> set (xs @ ys) \<Longrightarrow> min_at h' m = min_at h m"
  using assms(2) inserted_ends [OF I] by (auto simp: insertedD(5) [OF I] ALIGN_eq link_minor_def Let_def)

lemma inserted_fields:
  assumes "inserted h h' B1 B2 M xs a ys sz req"
  shows "heap_end h' = heap_end h" and "l_memRoot h' = l_memRoot h" and "l_bestBet h' = l_bestBet h"
    and "maj_next (maj_at h' N) = maj_next (maj_at h N)" and "maj_prev (maj_at h' N) = maj_prev (maj_at h N)"
    and "maj_size (maj_at h' N) = maj_size (maj_at h N)" and "N \<noteq> M \<Longrightarrow> maj_at h' N = maj_at h N"
    and "heap_bytes h' = (heap_bytes h)(user_ptr a - 16 := ucast (user_ptr a - (a + 40)))"
    and "w_min h' a = 40 + unat sz" and "m \<noteq> a \<Longrightarrow> w_min h' m = w_min h m" and "w_maj h' N = w_maj h N"
    and "heap_kmem h' = heap_kmem h" and "heap_phys h' = heap_phys h"
  using insertedD(4) [OF assms] inserted_at_a [OF assms] inserted_other [OF assms, of m]
  by (simp_all add: insertedD(5) [OF assms] ALIGN_eq link_minor_def Let_def w_min_def w_maj_def unat_ucast_32)

lemma inserted_spaced:
  assumes I: "inserted h h' B1 B2 M xs a ys sz req"
  shows "spaced (w_min h') (unat M + 40) (xs @ a # ys) (unat M + w_maj h' M)"
proof -
  note W = inserted_fields(9-11) [OF I] and g = insertedD(2) [OF I]
  have notin: "\<And>m. m \<in> set xs \<Longrightarrow> m \<noteq> a" "\<And>m. m \<in> set ys \<Longrightarrow> m \<noteq> a" using insertedD(8) [OF I] by auto
  have e: "end_of (w_min h') (unat M + 40) xs = end_of (w_min h) (unat M + 40) xs"
    using notin(1) by (cases xs rule: rev_cases) (auto simp: end_of_def W)
  have sp: "spaced (w_min h) (unat M + 40) xs (end_of (w_min h) (unat M + 40) xs)"
    "spaced (w_min h) (end_of (w_min h) (unat M + 40) xs) ys (unat M + w_maj h M)"
    using major_okD(1) [OF insertedD(6) [OF I]] by (simp_all add: spaced_append)
  have "spaced (w_min h) (unat a + 40 + unat sz) ys (unat M + w_maj h M)"
    using sp(2) g by (cases ys) (auto simp: gap_def)
  then have "spaced (w_min h') (unat a + w_min h' a) ys (unat M + w_maj h' M)"
    using spaced_cong [of ys "w_min h'" "w_min h"] notin(2) by (simp add: W add.assoc)
  moreover have "spaced (w_min h') (unat M + 40) xs (end_of (w_min h') (unat M + 40) xs)"
    using sp(1) spaced_cong [of xs "w_min h'" "w_min h"] notin(1) by (simp add: e W)
  ultimately show ?thesis using g by (simp add: spaced_append gap_def e)
qed

lemma inserted_usage:
  assumes I: "inserted h h' B1 B2 M xs a ys sz req"
  shows "unat (maj_usage (maj_at h' M)) = 40 + sum_list (map (w_min h') (xs @ a # ys))"
proof -
  note W = inserted_fields(9-11) [OF I] and sz = insertedD(4) [OF I]
  have m: "map (w_min h') xs = map (w_min h) xs" "map (w_min h') ys = map (w_min h) ys"
    using insertedD(8) [OF I] by (auto intro!: W(2))
  have sum: "sum_list (map (w_min h') (xs @ a # ys)) = sum_list (map (w_min h) (xs @ ys)) + (unat sz + 40)"
    unfolding map_append list.map m sum_list_append sum_list.Cons W(1) by simp
  have "unat M + 40 + sum_list (map (w_min h') (xs @ a # ys)) \<le> unat M + w_maj h' M"
    by (rule spaced_sum [OF inserted_spaced [OF I]])
  then have "40 + sum_list (map (w_min h) (xs @ ys)) + (unat sz + 40) < 2 ^ 32"
    unfolding sum using unat_less_length_power [of "maj_size (maj_at h M)"] by (simp add: w_maj_def inserted_fields(6) [OF I])
  then have lt: "unat (maj_usage (maj_at h M)) + (unat sz + 40) < 2 ^ 32" using major_okD(2) [OF insertedD(6) [OF I]] by simp
  have "unat (sz + 40) = unat sz + 40" using sz by (subst unat_add_no_overflow) auto
  then have "unat (ucast (maj_usage (maj_at h M)) + (sz + 40)) = unat (maj_usage (maj_at h M)) + (unat sz + 40)"
    using lt by (subst unat_add_no_overflow) (auto simp: unat_ucast_widen)
  then have "unat (maj_usage (maj_at h' M)) = unat (maj_usage (maj_at h M)) + (unat sz + 40)"
    using lt by (simp add: insertedD(5) [OF I] ALIGN_eq link_minor_def Let_def sizeof_minor_def unat_ucast_32)
  then show ?thesis using major_okD(2) [OF insertedD(6) [OF I]] sum by simp
qed

lemma inserted_major:
  assumes I: "inserted h h' B1 B2 M xs a ys sz req"
  shows "major_ok h' M (xs @ a # ys)"
proof -
  note D = insertedD [OF I] and ok = insertedD(6) [OF I]
  have memM: "(M, xs @ ys) \<in> set (B1 @ (M, xs @ ys) # B2)" by simp
  have notin: "m \<in> set (xs @ ys) \<Longrightarrow> m \<noteq> a" for m using D(8) by auto
  have dist: "distinct (xs @ a # ys)" using major_okD(6) [OF ok] D(8) by auto
  have first: "maj_first (maj_at h' M) = (if xs = [] then a else maj_first (maj_at h M))"
    using inserted_ends(3) [OF I] by (simp add: D(5) ALIGN_eq link_minor_def Let_def)
  have "mlist (\<lambda>m. min_next (min_at h' m)) (\<lambda>m. min_prev (min_at h' m)) NULL (maj_first (maj_at h' M)) (xs @ a # ys)"
  proof (rule mlist_insert [OF _ dist D(12)])
    show "mlist (\<lambda>m. min_next (min_at h m)) (\<lambda>m. min_prev (min_at h m)) NULL (maj_first (maj_at h M)) (xs @ ys)"
      using ok by (simp add: major_ok_def)
  qed (use first inserted_at_a [OF I] inserted_other(1,2) [OF I notin] in auto)
  moreover have "minor_ok h' M m" if "m \<in> set (xs @ a # ys)" for m
  proof (cases "m = a")
    case True
    then show ?thesis using D(3,4) inserted_at_a [OF I] inserted_fields(8) [OF I]
      by (simp add: minor_ok_def unat_ucast_32)
  next
    case False
    then have m: "m \<in> set (xs @ ys)" using that by auto
    have "unat m + 72 \<le> unat a \<or> unat a + 72 \<le> unat m"
      using gap_fresh(4) [OF ok D(2) m] live_bounds(1) [OF D(1) memM m] D(3) by auto
    then have "user_ptr m - 16 \<noteq> user_ptr a - 16"
      using user_ptr_apart live_bounds(4) [OF D(1) memM m] D(11) by blast
    then show ?thesis using major_okD(3) [OF ok m] inserted_other(3-6) [OF I False] inserted_fields(8) [OF I]
      by (simp add: minor_ok_def)
  qed
  ultimately show ?thesis
    using inserted_spaced [OF I] inserted_usage [OF I] by (simp add: major_ok_def)
qed

lemma inserted_other_major:
  assumes I: "inserted h h' B1 B2 M xs a ys sz req" and mem: "(N, ms) \<in> set (B1 @ B2)"
  shows "major_ok h' N ms"
proof -
  note D = insertedD [OF I]
  have memM: "(M, xs @ ys) \<in> set (B1 @ (M, xs @ ys) # B2)" and memN: "(N, ms) \<in> set (B1 @ (M, xs @ ys) # B2)"
    using mem by auto
  have NM: "N \<noteq> M"
    using heap_invD(3) [OF D(1)] mem by (auto simp: image_iff)
  have sep: "unat N + w_maj h N \<le> unat M \<or> unat M + w_maj h M \<le> unat N"
    using heap_invD(5) [OF D(1) memN memM NM] .
  show ?thesis
  proof (rule major_ok_frame [OF heap_invD(1) [OF D(1) memN]])
    fix m assume m: "m \<in> set ms"
    note bm = live_bounds [OF D(1) memN m]
    have apart: "unat m + 72 \<le> unat a \<or> unat a + 72 \<le> unat m"
      using bm sep D(3,9,10) by linarith
    have "m \<notin> set (xs @ ys)"
    proof
      assume "m \<in> set (xs @ ys)"
      then have "unat M + 40 \<le> unat m" "unat m + w_min h m \<le> unat M + w_maj h M"
        using live_bounds [OF D(1) memM] by auto
      then show False using bm sep by linarith
    qed
    moreover have "m \<noteq> a" using apart by auto
    ultimately show "min_at h' m = min_at h m" using inserted_other(7) [OF I] by blast
    show "heap_bytes h' (user_ptr m - 16) = heap_bytes h (user_ptr m - 16)"
      using user_ptr_apart [OF bm(4) D(11) apart] inserted_fields(8) [OF I] by simp
  qed (use NM inserted_fields(7) [OF I] in auto)
qed

lemma inserted_inv:
  assumes I: "inserted h h' B1 B2 M xs a ys sz req"
  shows "heap_inv h' (B1 @ (M, xs @ a # ys) # B2)"
proof -
  note D = insertedD [OF I] and F = inserted_fields [OF I]
  let ?Ms = "map fst (B1 @ (M, xs @ a # ys) # B2)"
  have Ms: "?Ms = map fst (B1 @ (M, xs @ ys) # B2)" by simp
  have "major_ok h' N ms" if "(N, ms) \<in> set (B1 @ (M, xs @ a # ys) # B2)" for N ms
    using that inserted_major [OF I] inserted_other_major [OF I] by auto
  moreover have "mlist (\<lambda>M. maj_next (maj_at h' M)) (\<lambda>M. maj_prev (maj_at h' M)) NULL (l_memRoot h') ?Ms"
    unfolding Ms using D(1) by (simp add: heap_inv_def F)
  moreover have "spaced (w_maj h') 0 ?Ms (unat (heap_end h'))"
    unfolding Ms using D(1) spaced_cong [of "map fst (B1 @ (M, xs @ ys) # B2)" "w_maj h'" "w_maj h"]
    by (simp add: heap_inv_def F)
  moreover have "l_bestBet h' = NULL \<or> l_bestBet h' \<in> fst ` set (B1 @ (M, xs @ a # ys) # B2)"
    using D(1) by (auto simp: heap_inv_def F)
  ultimately show ?thesis unfolding heap_inv_def by blast
qed

section \<open>The search for a gap\<close>

text \<open>The result of a successful allocation from \<open>h\<close> with blocks \<open>Bs\<close>: the minor \<open>a\<close> is new, the other live
  blocks keep their sizes, and the pointer handed out is the aligned one of \<open>a\<close>.\<close>

definition allocated ::
  "heap \<Rightarrow> (addr_t \<times> addr_t list) list \<Rightarrow> heap \<Rightarrow> (addr_t \<times> addr_t list) list \<Rightarrow> addr_t \<Rightarrow> u64 \<Rightarrow> u64 \<Rightarrow> bool" where
  "allocated h Bs h' Bs' a sz req \<longleftrightarrow> heap_inv h' Bs' \<and> live Bs' = insert a (live Bs) \<and> a \<notin> live Bs
     \<and> unat (min_size (min_at h' a)) = unat sz \<and> unat (min_req_size (min_at h' a)) = unat req
     \<and> (\<forall>m \<in> live Bs. min_size (min_at h' m) = min_size (min_at h m) \<and> min_req_size (min_at h' m) = min_req_size (min_at h m))"

lemma live_append: "live (B1 @ (M, ms) # B2) = live B1 \<union> set ms \<union> live B2"
  by (auto simp: live_def)

lemma inserted_allocated:
  assumes I: "inserted h h' B1 B2 M xs a ys sz req"
  shows "allocated h (B1 @ (M, xs @ ys) # B2) h' (B1 @ (M, xs @ a # ys) # B2) a sz req"
proof -
  note D = insertedD [OF I]
  have memM: "(M, xs @ ys) \<in> set (B1 @ (M, xs @ ys) # B2)" by simp
  have notin: "a \<notin> set ms" if mem: "(N, ms) \<in> set (B1 @ B2)" for N ms
  proof
    assume a: "a \<in> set ms"
    have memN: "(N, ms) \<in> set (B1 @ (M, xs @ ys) # B2)" using mem by auto
    have "N \<noteq> M" using heap_invD(3) [OF D(1)] mem by (auto simp: image_iff)
    then have "unat N + w_maj h N \<le> unat M \<or> unat M + w_maj h M \<le> unat N"
      using heap_invD(5) [OF D(1) memN memM] by blast
    then show False using live_bounds [OF D(1) memN a] D(9,10) by linarith
  qed
  then have fresh: "a \<notin> live (B1 @ (M, xs @ ys) # B2)" using D(8) by (fastforce simp: live_def)
  have "live (B1 @ (M, xs @ a # ys) # B2) = insert a (live (B1 @ (M, xs @ ys) # B2))"
    by (auto simp: live_append)
  moreover have "unat (min_size (min_at h' a)) = unat sz" "unat (min_req_size (min_at h' a)) = unat req"
    using inserted_at_a [OF I] D(3,4) by (simp_all add: unat_ucast_32)
  moreover have "min_size (min_at h' m) = min_size (min_at h m) \<and> min_req_size (min_at h' m) = min_req_size (min_at h m)"
    if "m \<in> live (B1 @ (M, xs @ ys) # B2)" for m
  proof -
    have "m \<noteq> a" using fresh that by auto
    then show ?thesis using inserted_other(5,6) [OF I] by blast
  qed
  ultimately show ?thesis
    unfolding allocated_def using inserted_inv [OF I] fresh by blast
qed

lemma minor_next:
  assumes "major_ok h M (xs @ y # ys)"
  shows "min_next (min_at h y) = first_of ys"
proof -
  have "mlist (\<lambda>m. min_next (min_at h m)) (\<lambda>m. min_prev (min_at h m)) y (min_next (min_at h y)) ys"
    using assms by (auto simp: major_ok_def mlist_append)
  then show ?thesis by (rule mlist_first)
qed

lemma unat_sub3:
  fixes p q s :: u64
  assumes "unat q + 40 + unat s \<le> unat p"
  shows "unat (p - q - 40 - s) = unat p - (unat q + 40 + unat s)"
proof -
  have a: "unat (p - q) = unat p - unat q" using assms by (intro unat_sub_no_underflow) (simp add: word_le_nat_alt)
  have b: "unat (p - q - 40) = unat p - unat q - 40" using assms a by (subst unat_sub_no_underflow) (auto simp: word_le_nat_alt)
  show ?thesis using assms b by (subst unat_sub_no_underflow) (auto simp: word_le_nat_alt)
qed

lemma minor_end:
  assumes inv: "heap_inv h Bs" and mem: "(M, ms) \<in> set Bs" and y: "y \<in> set ms"
  shows "unat (y + 40 + ucast (min_size (min_at h y))) = unat y + w_min h y" and "y \<noteq> y + 40 + ucast (min_size (min_at h y))"
proof -
  have "unat y + w_min h y \<le> unat (heap_end h)"
    using live_bounds(3) [OF inv mem y] heap_invD(4) [OF inv mem] by linarith
  then have lt: "unat y + w_min h y < 2 ^ 64" using unat_less_length_power [of "heap_end h"] by simp
  have s: "unat (ucast (min_size (min_at h y)) :: u64) = unat (min_size (min_at h y))" by (simp add: unat_ucast_widen)
  have "unat (y + 40) = unat y + 40" using lt by (subst unat_add_no_overflow) (auto simp: w_min_def)
  then show e: "unat (y + 40 + ucast (min_size (min_at h y))) = unat y + w_min h y"
    using lt s by (subst unat_add_no_overflow) (auto simp: w_min_def)
  show "y \<noteq> y + 40 + ucast (min_size (min_at h y))"
  proof
    assume "y = y + 40 + ucast (min_size (min_at h y))"
    then have "unat y = unat (y + 40 + ucast (min_size (min_at h y)))" by (rule arg_cong)
    then show False unfolding e by (simp add: w_min_def)
  qed
qed

text \<open>The space behind a minor, as the code computes it from the end of the block or the next minor.\<close>

lemma gap_behind:
  assumes inv: "heap_inv h (B1 @ (M, xs @ y # ys) # B2)" and sz: "unat sz < 2 ^ 32"
    and lim: "unat (lim :: u64) = (case ys of [] \<Rightarrow> unat M + w_maj h M | z # _ \<Rightarrow> unat z)"
    and fits: "sz + 40 \<le> lim - y - 40 - ucast (min_size (min_at h y))"
  shows "gap h M (xs @ [y]) (y + 40 + ucast (min_size (min_at h y))) ys sz"
proof -
  have mem: "(M, xs @ y # ys) \<in> set (B1 @ (M, xs @ y # ys) # B2)" by simp
  have y: "y \<in> set (xs @ y # ys)" by simp
  have ok: "major_ok h M (xs @ y # ys)" using heap_invD(1) [OF inv mem] .
  have "spaced (w_min h) (unat y + w_min h y) ys (unat M + w_maj h M)"
    using major_okD(1) [OF ok] by (simp add: spaced_append)
  then have le: "unat y + w_min h y \<le> unat lim" using lim by (cases ys) auto
  have s40: "unat (sz + 40) = unat sz + 40" using sz by (subst unat_add_no_overflow) auto
  have "unat (lim - y - 40 - ucast (min_size (min_at h y))) = unat lim - (unat y + w_min h y)"
    using unat_sub3 [of y "ucast (min_size (min_at h y))" lim] le by (simp add: w_min_def unat_ucast_widen)
  then have "unat sz + 40 \<le> unat lim - (unat y + w_min h y)" using fits s40 by (simp add: word_le_nat_alt)
  then have "unat y + w_min h y + 40 + unat sz \<le> unat lim" using le by linarith
  then show ?thesis using lim minor_end(1) [OF inv mem y] by (auto simp: gap_def end_of_def split: list.splits)
qed

text \<open>The inner loop falls through or finds a gap behind one of the minors.\<close>

lemma malloc_minors_spec:
  assumes inv: "heap_inv h (B1 @ (M, xs @ y # ys) # B2)" and sz: "unat req + 32 \<le> unat sz" "unat sz < 2 ^ 32"
  shows "malloc_minors h sz req M y = Some None
    \<or> (\<exists>us vs a h'. xs @ y # ys = us @ vs \<and> malloc_minors h sz req M y = Some (Some (user_ptr a, h'))
        \<and> inserted h h' B1 B2 M us a vs sz req)"
  using inv
proof (induction ys arbitrary: xs y)
  case Nil
  let ?a = "y + 40 + ucast (min_size (min_at h y))"
  have mem: "(M, xs @ [y]) \<in> set (B1 @ (M, xs @ [y]) # B2)" by simp
  have ok: "major_ok h M (xs @ [y])" using heap_invD(1) [OF Nil mem] .
  have y: "y \<noteq> NULL" using major_okD(5) [OF ok] by auto
  have nx: "min_next (min_at h y) = NULL" using minor_next [of h M xs y "[]"] ok by simp
  have top: "unat M + w_maj h M < 2 ^ 64"
    using heap_invD(4) [OF Nil mem] unat_less_length_power [of "heap_end h"] by simp
  then have lim: "unat (M + ucast (maj_size (maj_at h M))) = unat M + w_maj h M"
    by (subst unat_add_no_overflow) (auto simp: w_maj_def unat_ucast_widen)
  show ?case
  proof (cases "sz + 40 \<le> M + ucast (maj_size (maj_at h M)) - y - 40 - ucast (min_size (min_at h y))")
    case True
    have g: "gap h M (xs @ [y]) ?a [] sz" using gap_behind [OF Nil sz(2) _ True] lim by simp
    let ?h' = "snd (ALIGN (link_minor h M y ?a NULL sz req) (?a + 40))"
    have "inserted h ?h' B1 B2 M (xs @ [y]) ?a [] sz req"
      using Nil g sz by (simp add: inserted_def)
    moreover have "malloc_case41 h sz req M y = (user_ptr ?a, ?h')"
      by (rule trans [OF case41_link [OF y minor_end(2) [OF Nil mem] refl] ALIGN_pair]) simp
    then have "malloc_minors h sz req M y = Some (Some (user_ptr ?a, ?h'))"
      using True y nx by (simp only: malloc_minors.simps [of h _ _ _ y] sizeof_minor_def Let_def if_True if_False simp_thms)
    ultimately show ?thesis by fastforce
  next
    case False
    then show ?thesis using y nx by (simp add: malloc_minors.simps [of h _ _ _ y] malloc_minors.simps [of h _ _ _ NULL] sizeof_minor_def)
  qed
next
  case (Cons z zs)
  let ?a = "y + 40 + ucast (min_size (min_at h y))"
  have mem: "(M, xs @ y # z # zs) \<in> set (B1 @ (M, xs @ y # z # zs) # B2)" by simp
  have ok: "major_ok h M (xs @ y # z # zs)" using heap_invD(1) [OF Cons.prems mem] .
  have y: "y \<noteq> NULL" "z \<noteq> NULL" "z \<noteq> y" using major_okD(5,6) [OF ok] by auto
  have nx: "min_next (min_at h y) = z" using minor_next [of h M xs y "z # zs"] ok by simp
  show ?case
  proof (cases "sz + 40 \<le> z - y - 40 - ucast (min_size (min_at h y))")
    case True
    have g: "gap h M (xs @ [y]) ?a (z # zs) sz" using gap_behind [OF Cons.prems sz(2) _ True] by simp
    have za: "z \<noteq> ?a" using g by (auto simp: gap_def)
    let ?h' = "snd (ALIGN (link_minor h M y ?a z sz req) (?a + 40))"
    have "inserted h ?h' B1 B2 M (xs @ [y]) ?a (z # zs) sz req"
      using Cons.prems g sz by (simp add: inserted_def)
    moreover have "malloc_case42 h sz req M y = (user_ptr ?a, ?h')"
      by (rule trans [OF case42_link [OF y(1) minor_end(2) [OF Cons.prems mem] refl nx y(2,3) za] ALIGN_pair]) simp
    then have "malloc_minors h sz req M y = Some (Some (user_ptr ?a, ?h'))"
      using True y nx by (simp only: malloc_minors.simps [of h _ _ _ y] sizeof_minor_def Let_def if_True if_False simp_thms)
    ultimately show ?thesis by fastforce
  next
    case False
    then have "malloc_minors h sz req M y = malloc_minors h sz req M z"
      using y nx by (simp add: malloc_minors.simps [of h _ _ _ y] sizeof_minor_def)
    then show ?thesis using Cons.IH [of "xs @ [y]" z] Cons.prems by simp
  qed
qed

section \<open>New page groups\<close>

definition phys_ok :: "heap \<Rightarrow> bool" where
  "phys_ok h \<longleftrightarrow> (\<exists>fl1 H1 fl2 H2. physical_inv (heap_kmem h) (heap_phys h) fl1 H1 fl2 H2)"

lemma physical_alloc_total:
  assumes "phys_ok h"
  shows "\<exists>a m P. physical_alloc (heap_kmem h) (heap_phys h) n 0 = Inr (a, m, P)"
proof -
  obtain b fl H where b: "region_buddy (phys_normal_region (heap_phys h)) = Some b" and inv: "buddy_inv (heap_kmem h) b fl H"
    using assms by (auto simp: phys_ok_def physical_inv_def zone_def split: option.splits)
  have "\<exists>a m b'. buddy_alloc (heap_kmem h) (Some b) n = Inr (a, m, b')"
    using buddy_alloc_inv [OF inv, of n] by (auto split: if_splits)
  then show ?thesis using b by (auto simp: physical_alloc_def)
qed

text \<open>The number of pages the code requests.\<close>

lemma page_count:
  fixes sz :: u32
  assumes "unat sz < 2 ^ 31"
  defines "st0 \<equiv> sz + 40 + 40"
  defines "st1 \<equiv> (if st0 mod 4096 = 0 then st0 div 4096 else st0 div 4096 + 1)"
  defines "st \<equiv> (if st1 < 16 then 16 else st1)"
  shows "unat (st * 4096) = unat st * 4096" and "unat sz + 80 \<le> unat st * 4096" and "unat st * 4096 \<le> unat sz + 0x10000"
    and "unat st < 2 ^ 20"
proof -
  have "unat (sz + 40) = unat sz + 40" using assms(1) by (subst unat_add_no_overflow) auto
  then have s0: "unat st0 = unat sz + 80" unfolding st0_def using assms(1) by (subst unat_add_no_overflow) auto
  have z: "st0 mod 4096 = 0 \<longleftrightarrow> (unat sz + 80) mod 4096 = 0"
    by (simp add: word_eq_zero_iff_unat unat_mod_distrib s0)
  have d: "unat (st0 div 4096) = (unat sz + 80) div 4096" by (simp add: unat_div_distrib s0)
  have dl: "(unat sz + 80) div 4096 \<le> 2 ^ 19" using assms(1) by (simp add: less_mult_imp_div_less)
  then have "unat (st0 div 4096 + 1) = (unat sz + 80) div 4096 + 1" using d by (subst unat_add_no_overflow) auto
  then have s1: "unat st1 = (unat sz + 80) div 4096 + (if (unat sz + 80) mod 4096 = 0 then 0 else 1)"
    using z d by (simp add: st1_def)
  have s: "unat st = (if unat st1 < 16 then 16 else unat st1)" by (simp add: st_def word_less_nat_alt)
  show lt: "unat st < 2 ^ 20" using s s1 dl by auto
  then show m: "unat (st * 4096) = unat st * 4096" by (subst unat_mult_no_overflow) auto
  have q: "(unat sz + 80) div 4096 * 4096 + (unat sz + 80) mod 4096 = unat sz + 80" by simp
  have "unat sz + 80 \<le> unat st1 * 4096"
  proof -
    define d where "d = (unat sz + 80) div 4096"
    define r where "r = (unat sz + 80) mod 4096"
    have "unat sz + 80 = d * 4096 + r" "r < 4096" by (simp_all add: d_def r_def)
    then show ?thesis unfolding s1 d_def [symmetric] r_def [symmetric] by (cases "r = 0") auto
  qed
  then show "unat sz + 80 \<le> unat st * 4096" using s by (auto split: if_splits)
  have "unat st1 * 4096 \<le> unat sz + 80 + 4096" using s1 q by (simp split: if_splits)
  then show "unat st * 4096 \<le> unat sz + 0x10000" using s by (auto split: if_splits)
qed

definition page_room :: "heap \<Rightarrow> u64 \<Rightarrow> bool" where
  "page_room h sz \<longleftrightarrow> phys_ok h \<and> 0 < unat (heap_end h) \<and> unat (heap_end h) + unat sz + 0x10000 < 2 ^ 64"

lemma allocate_new_page_spec:
  assumes room: "page_room h sz" and sz: "unat sz < 2 ^ 31"
  shows "\<exists>h2 st. allocate_new_page h (ucast sz) = Inr (heap_end h, h2)
    \<and> maj_at h2 = (maj_at h)(heap_end h := \<lparr>maj_prev = NULL, maj_next = NULL, maj_pages = st, maj_size = st * 4096,
         maj_usage = 40, maj_first = NULL\<rparr>)
    \<and> unat sz + 80 \<le> unat (st * 4096) \<and> unat (heap_end h2) = unat (heap_end h) + unat (st * 4096)
    \<and> min_at h2 = min_at h \<and> heap_bytes h2 = heap_bytes h \<and> l_memRoot h2 = l_memRoot h \<and> l_bestBet h2 = l_bestBet h"
proof -
  define s where "s = (ucast sz :: u32)"
  have us: "unat s = unat sz" using sz by (simp add: s_def unat_ucast_32)
  define st0 where "st0 = s + 40 + 40"
  define st1 where "st1 = (if st0 mod 4096 = 0 then st0 div 4096 else st0 div 4096 + 1)"
  define st where "st = (if st1 < 16 then 16 else st1)"
  note P = page_count [of s, folded st0_def, folded st1_def, folded st_def]
  have "unat s < 2 ^ 31" using us sz by simp
  note P = P [OF this]
  have un: "unat (ucast st * PAGE_SIZE :: u64) = unat st * 4096"
    using P(4) by (subst unat_mult_no_overflow) (auto simp: PAGE_SIZE_def unat_ucast_widen)
  obtain pa m Q where pa: "physical_alloc (heap_kmem h) (heap_phys h) (ucast st * PAGE_SIZE) 0 = Inr (pa, m, Q)"
    using physical_alloc_total [of h "ucast st * PAGE_SIZE"] room unfolding page_room_def by blast
  have nn: "heap_end h \<noteq> NULL" using room by (auto simp: page_room_def)
  have e: "unat (heap_end h + ucast st * PAGE_SIZE) = unat (heap_end h) + unat (st * 4096)"
    using un P(1,3) room us by (subst unat_add_no_overflow) (auto simp: page_room_def)
  have pages: "(let st0 = s + ucast sizeof_major + ucast sizeof_minor;
          st1 = (if st0 mod l_pageSize = 0 then st0 div l_pageSize else st0 div l_pageSize + 1)
      in if st1 < l_pageCount then l_pageCount else st1) = st"
    by (simp add: st_def st1_def st0_def l_pageSize_def l_pageCount_def sizeof_major_def sizeof_minor_def Let_def)
  have U: "allocate_new_page h s = bind_res (map_heap h (ucast st)) (\<lambda>(maj, h1).
           if maj = NULL then Inr (NULL, h1\<lparr>l_warningCount := l_warningCount h1 + 1\<rparr>)
           else Inr (maj, h1\<lparr>maj_at := (maj_at h1)(maj := \<lparr>maj_prev = NULL, maj_next = NULL, maj_pages = st,
                        maj_size = st * l_pageSize, maj_usage = ucast sizeof_major, maj_first = NULL\<rparr>),
                      l_allocated := l_allocated h1 + ucast (st * l_pageSize)\<rparr>))"
    unfolding allocate_new_page_def Let_def by (simp only: pages [unfolded Let_def])
  let ?h1 = "h\<lparr>heap_kmem := m, heap_phys := Q, map_calls := map_calls h @ [(heap_end h, pa, ucast st * PAGE_SIZE)],
                   heap_end := heap_end h + ucast st * PAGE_SIZE\<rparr>"
  have "map_heap h (ucast st) = Inr (heap_end h, ?h1)" using pa by (simp add: map_heap_def Let_def)
  then have A: "allocate_new_page h s = Inr (heap_end h, ?h1\<lparr>maj_at := (maj_at h)(heap_end h := \<lparr>maj_prev = NULL, maj_next = NULL, maj_pages = st,
                        maj_size = st * 4096, maj_usage = 40, maj_first = NULL\<rparr>),
                      l_allocated := l_allocated h + ucast (st * 4096)\<rparr>)"
    using nn by (simp add: U l_pageSize_def sizeof_major_def)
  show ?thesis unfolding s_def [symmetric] A using e P(1,2) us by auto
qed

lemma new_major_ok:
  "maj_first (maj_at h N) = NULL \<Longrightarrow> maj_usage (maj_at h N) = 40 \<Longrightarrow> 40 \<le> w_maj h N \<Longrightarrow> major_ok h N []"
  by (simp add: major_ok_def)

lemma w_maj_cong: "(\<And>N. N \<in> set Ns \<Longrightarrow> maj_size (maj_at h' N) = maj_size (maj_at h N)) \<Longrightarrow>
    spaced (w_maj h') lo Ns hi = spaced (w_maj h) lo Ns hi"
  by (rule spaced_cong) (simp add: w_maj_def)

text \<open>A new page group at the end of the list of majors.\<close>

lemma append_major_inv:
  assumes inv: "heap_inv h (B1 @ [(M, ms)])" and room: "page_room h sz" and sz: "unat sz < 2 ^ 31"
  shows "\<exists>h2 h4. allocate_new_page h (ucast sz) = Inr (heap_end h, h2)
    \<and> h4 = upd_maj (upd_maj h2 M (\<lambda>x. x\<lparr>maj_next := heap_end h\<rparr>)) (heap_end h) (\<lambda>x. x\<lparr>maj_prev := M\<rparr>)
    \<and> heap_inv h4 (B1 @ (M, ms) # [(heap_end h, [])]) \<and> min_at h4 = min_at h
    \<and> unat sz + 80 \<le> w_maj h4 (heap_end h)"
proof -
  let ?N = "heap_end h" and ?Bs = "B1 @ [(M, ms)]"
  obtain h2 st where A: "allocate_new_page h (ucast sz) = Inr (?N, h2)"
    and maj: "maj_at h2 = (maj_at h)(?N := \<lparr>maj_prev = NULL, maj_next = NULL, maj_pages = st, maj_size = st * 4096,
         maj_usage = 40, maj_first = NULL\<rparr>)"
    and big: "unat sz + 80 \<le> unat (st * 4096)" and he: "unat (heap_end h2) = unat ?N + unat (st * 4096)"
    and same: "min_at h2 = min_at h" "heap_bytes h2 = heap_bytes h" "l_memRoot h2 = l_memRoot h" "l_bestBet h2 = l_bestBet h"
    using allocate_new_page_spec [OF room sz] by blast
  define h4 where "h4 = upd_maj (upd_maj h2 M (\<lambda>x. x\<lparr>maj_next := ?N\<rparr>)) ?N (\<lambda>x. x\<lparr>maj_prev := M\<rparr>)"
  have old: "N \<noteq> ?N" if N: "N \<in> fst ` set ?Bs" for N
  proof -
    obtain ns where "(N, ns) \<in> set ?Bs" using N by fastforce
    then have "unat N + w_maj h N \<le> unat ?N" "40 \<le> w_maj h N"
      using heap_invD(1,4) [OF inv] major_okD(7) by blast+
    then show ?thesis by auto
  qed
  then have MN: "M \<noteq> ?N" by simp
  have nn: "?N \<noteq> NULL" using room by (auto simp: page_room_def)
  have at: "maj_at h4 N = (if N = ?N then \<lparr>maj_prev = M, maj_next = NULL, maj_pages = st, maj_size = st * 4096,
         maj_usage = 40, maj_first = NULL\<rparr> else if N = M then (maj_at h N)\<lparr>maj_next := ?N\<rparr> else maj_at h N)" for N
    using MN by (simp add: h4_def maj)
  have fields: "heap_end h4 = heap_end h2" "l_memRoot h4 = l_memRoot h" "l_bestBet h4 = l_bestBet h" "min_at h4 = min_at h"
      "heap_bytes h4 = heap_bytes h"
    by (simp_all add: h4_def same)
  have "mlist (\<lambda>N. maj_next (maj_at h4 N)) (\<lambda>N. maj_prev (maj_at h4 N)) NULL (l_memRoot h4) (map fst ?Bs @ ?N # [])"
  proof (rule mlist_insert [where c = "l_memRoot h"])
    show "mlist (\<lambda>N. maj_next (maj_at h N)) (\<lambda>N. maj_prev (maj_at h N)) NULL (l_memRoot h) (map fst ?Bs @ [])"
      using inv by (simp add: heap_inv_def)
    show "distinct (map fst ?Bs @ ?N # [])" using heap_invD(3) [OF inv] old by auto
  qed (use nn old in \<open>auto simp: at fields last_of_def\<close>)
  moreover have "spaced (w_maj h4) 0 (map fst ?Bs @ [?N]) (unat (heap_end h4))"
  proof -
    have "spaced (w_maj h) 0 (map fst ?Bs) (unat ?N)" using inv by (simp add: heap_inv_def)
    then have "spaced (w_maj h4) 0 (map fst ?Bs) (unat ?N)"
      using w_maj_cong [of "map fst ?Bs" h4 h] old by (simp add: at)
    then have "spaced (w_maj h4) 0 (map fst ?Bs) (end_of (w_maj h4) 0 (map fst ?Bs))"
        and "end_of (w_maj h4) 0 (map fst ?Bs) \<le> unat ?N"
      using spaced_append [of "w_maj h4" 0 "map fst ?Bs" "[]" "unat ?N"] by simp_all
    then show ?thesis using he by (simp add: spaced_append fields at w_maj_def)
  qed
  moreover have "major_ok h4 N ns" if mem: "(N, ns) \<in> set (?Bs @ [(?N, [])])" for N ns
  proof (cases "N = ?N")
    case True
    then have "(N, ns) \<notin> set ?Bs" using old [of N] by (metis fst_conv image_eqI)
    then have "ns = []" using mem by auto
    then show ?thesis using True big new_major_ok [of h4 ?N] by (simp add: at w_maj_def)
  next
    case False
    then have "(N, ns) \<in> set ?Bs" using that by auto
    then show ?thesis using False by (intro major_ok_frame [OF heap_invD(1) [OF inv]]) (auto simp: at fields)
  qed
  moreover have "l_bestBet h4 = NULL \<or> l_bestBet h4 \<in> fst ` set (?Bs @ [(?N, [])])"
    using inv by (auto simp: heap_inv_def fields)
  ultimately have "heap_inv h4 (?Bs @ [(?N, [])])" unfolding heap_inv_def by auto
  moreover have "unat sz + 80 \<le> w_maj h4 ?N" using big by (simp add: w_maj_def at)
  ultimately show ?thesis using A fields(4) h4_def by auto
qed

lemma first_major_inv:
  assumes inv: "heap_inv h []" and room: "page_room h sz" and sz: "unat sz < 2 ^ 31"
  shows "\<exists>h2. allocate_new_page h (ucast sz) = Inr (heap_end h, h2)
    \<and> heap_inv (h2\<lparr>l_memRoot := heap_end h\<rparr>) [(heap_end h, [])] \<and> min_at h2 = min_at h
    \<and> unat sz + 80 \<le> w_maj h2 (heap_end h) \<and> l_bestBet h2 = NULL"
proof -
  let ?N = "heap_end h"
  obtain h2 st where A: "allocate_new_page h (ucast sz) = Inr (?N, h2)"
    and maj: "maj_at h2 = (maj_at h)(?N := \<lparr>maj_prev = NULL, maj_next = NULL, maj_pages = st, maj_size = st * 4096,
         maj_usage = 40, maj_first = NULL\<rparr>)"
    and big: "unat sz + 80 \<le> unat (st * 4096)" and he: "unat (heap_end h2) = unat ?N + unat (st * 4096)"
    and same: "min_at h2 = min_at h" "l_bestBet h2 = l_bestBet h"
    using allocate_new_page_spec [OF room sz] by blast
  have best: "l_bestBet h = NULL" using inv by (simp add: heap_inv_def)
  have nn: "?N \<noteq> NULL" using room by (auto simp: page_room_def)
  have "major_ok (h2\<lparr>l_memRoot := ?N\<rparr>) ?N []"
    using big by (intro new_major_ok) (simp_all add: maj w_maj_def)
  then have "heap_inv (h2\<lparr>l_memRoot := ?N\<rparr>) [(?N, [])]"
    using nn he best by (simp add: heap_inv_def maj w_maj_def same)
  then show ?thesis using A big best by (simp add: same maj w_maj_def)
qed

section \<open>The search over the majors\<close>

definition good :: "heap \<Rightarrow> (addr_t \<times> addr_t list) list \<Rightarrow> (addr_t \<times> heap) res option \<Rightarrow> u64 \<Rightarrow> u64 \<Rightarrow> bool" where
  "good h Bs r sz req \<longleftrightarrow> (\<exists>a h' Bs'. r = Some (Inr (user_ptr a, h')) \<and> allocated h Bs h' Bs' a sz req)"

lemma allocated_from:
  "allocated h1 Bs1 h' Bs' a sz req \<Longrightarrow> min_at h1 = min_at h \<Longrightarrow> live Bs1 = live Bs \<Longrightarrow> allocated h Bs h' Bs' a sz req"
  by (simp add: allocated_def)

lemma heap_inv_best:
  assumes "heap_inv h Bs" and "M \<in> fst ` set Bs"
  shows "heap_inv (h\<lparr>l_bestBet := M\<rparr>) Bs"
proof -
  have "w_maj (h\<lparr>l_bestBet := M\<rparr>) = w_maj h" by (rule ext) (simp add: w_maj_def)
  moreover have "major_ok (h\<lparr>l_bestBet := M\<rparr>) N ns" if "(N, ns) \<in> set Bs" for N ns
    by (rule major_ok_frame [OF heap_invD(1) [OF assms(1) that]]) simp_all
  ultimately show ?thesis using assms by (auto simp: heap_inv_def)
qed

lemma major_next:
  assumes "heap_inv h (B1 @ (M, ms) # B2)"
  shows "maj_next (maj_at h M) = first_of (map fst B2)" and "l_memRoot h = first_of (map fst (B1 @ (M, ms) # B2))" and "M \<noteq> NULL"
proof -
  have ml: "mlist (\<lambda>M. maj_next (maj_at h M)) (\<lambda>M. maj_prev (maj_at h M)) NULL (l_memRoot h) (map fst (B1 @ (M, ms) # B2))"
    using assms by (simp add: heap_inv_def)
  then have "mlist (\<lambda>M. maj_next (maj_at h M)) (\<lambda>M. maj_prev (maj_at h M)) M (maj_next (maj_at h M)) (map fst B2)"
    by (auto simp: mlist_append)
  then show "maj_next (maj_at h M) = first_of (map fst B2)" by (rule mlist_first)
  show "l_memRoot h = first_of (map fst (B1 @ (M, ms) # B2))" by (rule mlist_first [OF ml])
  show "M \<noteq> NULL" using mlist_nonnull [OF ml] by auto
qed

lemma major_free:
  assumes "major_ok h M ms"
  shows "unat (ucast (maj_size (maj_at h M) - maj_usage (maj_at h M)) :: u64) = w_maj h M - (40 + sum_list (map (w_min h) ms))"
    and "40 + sum_list (map (w_min h) ms) \<le> w_maj h M"
proof -
  show le: "40 + sum_list (map (w_min h) ms) \<le> w_maj h M" using spaced_sum [OF major_okD(1) [OF assms]] by simp
  have "maj_usage (maj_at h M) \<le> maj_size (maj_at h M)"
    using le major_okD(2) [OF assms] by (simp add: word_le_nat_alt w_maj_def)
  then show "unat (ucast (maj_size (maj_at h M) - maj_usage (maj_at h M)) :: u64) = w_maj h M - (40 + sum_list (map (w_min h) ms))"
    using major_okD(2) [OF assms] by (simp add: unat_ucast_widen unat_sub_no_underflow w_maj_def)
qed

text \<open>An empty block with enough room, and room in front of the first minor.\<close>

lemma case2_inserted:
  assumes inv: "heap_inv h (B1 @ (M, []) # B2)" and big: "unat sz + 80 \<le> w_maj h M"
    and sz: "unat req + 32 \<le> unat sz" "unat sz < 2 ^ 32"
  shows "\<exists>a h'. malloc_case2 h sz req M = (user_ptr a, h') \<and> inserted h h' B1 B2 M [] a [] sz req"
proof -
  have "unat M + w_maj h M < 2 ^ 64"
    using heap_invD(4) [OF inv, of M "[]"] unat_less_length_power [of "heap_end h"] by simp
  then have "unat (M + 40) = unat M + 40" using big by (subst unat_add_no_overflow) auto
  then have "gap h M [] (M + 40) [] sz" using big by (simp add: gap_def end_of_def)
  then have "inserted h (snd (ALIGN (link_minor h M NULL (M + 40) NULL sz req) (M + 40 + 40))) B1 B2 M [] (M + 40) [] sz req"
    using inv sz by (simp add: inserted_def)
  moreover have "malloc_case2 h sz req M = (user_ptr (M + 40), snd (ALIGN (link_minor h M NULL (M + 40) NULL sz req) (M + 40 + 40)))"
    by (rule trans [OF case2_link [OF refl] ALIGN_pair])
  ultimately show ?thesis by blast
qed

lemma case3_inserted:
  assumes inv: "heap_inv h (B1 @ (M, y # ys) # B2)" and fits: "sz + 40 \<le> y - M - 40"
    and sz: "unat req + 32 \<le> unat sz" "unat sz < 2 ^ 32"
  shows "\<exists>a h'. malloc_case3 h sz req M = (user_ptr a, h') \<and> inserted h h' B1 B2 M [] a (y # ys) sz req"
proof -
  have mem: "(M, y # ys) \<in> set (B1 @ (M, y # ys) # B2)" by simp
  have ok: "major_ok h M (y # ys)" using heap_invD(1) [OF inv mem] .
  have b: "unat M + 40 \<le> unat y" using live_bounds(2) [OF inv mem, of y] by simp
  have m40: "unat (M + 40) = unat M + 40"
    using b unat_less_length_power [of y] by (subst unat_add_no_overflow) auto
  have "unat (y - M - 40) = unat y - (unat M + 40)" using unat_sub3 [of M 0 y] b by simp
  moreover have "unat (sz + 40) = unat sz + 40" using sz by (subst unat_add_no_overflow) auto
  ultimately have "unat M + 40 + 40 + unat sz \<le> unat y" using fits b by (simp add: word_le_nat_alt)
  then have g: "gap h M [] (M + 40) (y # ys) sz" using m40 by (simp add: gap_def end_of_def)
  then have "y \<noteq> M + 40" by (auto simp: gap_def)
  have "inserted h (snd (ALIGN (link_minor h M NULL (M + 40) y sz req) (M + 40 + 40))) B1 B2 M [] (M + 40) (y # ys) sz req"
    using inv sz g by (simp add: inserted_def)
  moreover have "malloc_case3 h sz req M = (user_ptr (M + 40), snd (ALIGN (link_minor h M NULL (M + 40) y sz req) (M + 40 + 40)))"
    by (rule trans [OF case3_link ALIGN_pair]) (use major_okD(4,5) [OF ok] \<open>y \<noteq> M + 40\<close> in auto)
  ultimately show ?thesis by blast
qed

text \<open>The remembered best block does not matter to what is live.\<close>

definition best_of :: "heap \<Rightarrow> addr_t \<Rightarrow> u64 \<Rightarrow> heap" where
  "best_of h M best = (if best < ucast (maj_size (maj_at h M) - maj_usage (maj_at h M)) then h\<lparr>l_bestBet := M\<rparr> else h)"

lemma best_of_fields [simp]:
  "maj_at (best_of h M best) = maj_at h" "min_at (best_of h M best) = min_at h" "heap_end (best_of h M best) = heap_end h"
  "l_memRoot (best_of h M best) = l_memRoot h" "w_maj (best_of h M best) = w_maj h" "w_min (best_of h M best) = w_min h"
  by (simp_all add: best_of_def w_maj_def w_min_def fun_eq_iff)

lemma best_of_inv:
  assumes "heap_inv h Bs" and "M \<in> fst ` set Bs"
  shows "heap_inv (best_of h M best) Bs"
  using assms heap_inv_best by (simp add: best_of_def)

lemma best_of_room: "page_room (best_of h M best) sz = page_room h sz"
  by (simp add: page_room_def phys_ok_def best_of_def)

lemma best_of_best: "(if best < ucast (maj_size (maj_at h M) - maj_usage (maj_at h M)) then h\<lparr>l_bestBet := M\<rparr> else h) = best_of h M best"
  by (simp add: best_of_def)

lemma unat_need: "unat sz < 2 ^ 32 \<Longrightarrow> unat (sz + 40) = unat sz + 40" for sz :: u64
  by (subst unat_add_no_overflow) auto

lemma good_case2:
  assumes inv: "heap_inv h1 (B1 @ (M, []) # B2)" and big: "unat sz + 80 \<le> w_maj h1 M"
    and sz: "unat req + 32 \<le> unat sz" "unat sz < 2 ^ 31"
    and src: "min_at h1 = min_at h" "live (B1 @ (M, []) # B2) = live Bs"
  shows "good h Bs (Some (Inr (malloc_case2 h1 sz req M))) sz req"
proof -
  have "unat sz < 2 ^ 32" using sz by simp
  then obtain a h' where "malloc_case2 h1 sz req M = (user_ptr a, h')" and I: "inserted h1 h' B1 B2 M [] a [] sz req"
    using case2_inserted [OF inv big sz(1)] by blast
  moreover have "allocated h1 (B1 @ (M, []) # B2) h' (B1 @ (M, [a]) # B2) a sz req"
    using inserted_allocated [OF I] by simp
  ultimately show ?thesis using allocated_from src unfolding good_def by metis
qed

lemma good_inserted:
  assumes I: "inserted h1 h' B1 B2 M us a vs sz req" and "min_at h1 = min_at h"
  shows "good h (B1 @ (M, us @ vs) # B2) (Some (Inr (user_ptr a, h'))) sz req"
  unfolding good_def using allocated_from [OF inserted_allocated [OF I] assms(2) refl] by blast

lemma malloc_majors_fresh:
  assumes inv: "heap_inv h (B1 @ (M, []) # B2)" and big: "unat sz + 80 \<le> w_maj h M"
    and sz: "unat req + 32 \<le> unat sz" "unat sz < 2 ^ 31"
  shows "good h (B1 @ (M, []) # B2) (malloc_majors h sz req M sb best) sz req"
proof -
  have ok: "major_ok h M []" using heap_invD(1) [OF inv, of M "[]"] by simp
  have "unat (ucast (maj_size (maj_at h M) - maj_usage (maj_at h M)) :: u64) = w_maj h M - 40"
    using major_free(1) [OF ok] by simp
  then have "\<not> ucast (maj_size (maj_at h M) - maj_usage (maj_at h M)) < sz + 40"
    using big unat_need [of sz] sz(2) by (simp add: word_less_nat_alt)
  then have "malloc_majors h sz req M sb best = Some (Inr (malloc_case2 (best_of h M best) sz req M))"
    using major_next(3) [OF inv] major_okD(4) [OF ok]
    by (simp add: malloc_majors.simps [of h _ _ M] Let_def sizeof_minor_def best_of_best)
  moreover have "heap_inv (best_of h M best) (B1 @ (M, []) # B2)" by (rule best_of_inv [OF inv]) simp
  then have "good h (B1 @ (M, []) # B2) (Some (Inr (malloc_case2 (best_of h M best) sz req M))) sz req"
    using big sz by (intro good_case2) simp_all
  ultimately show ?thesis by simp
qed

text \<open>The block is full and the last one: a new page group is linked behind it.\<close>

lemma grow_good:
  assumes inv: "heap_inv h1 (B1 @ [(M, ms)])" and room: "page_room h1 sz"
    and sz: "unat req + 32 \<le> unat sz" "unat sz < 2 ^ 31" and min: "min_at h1 = min_at h"
  shows "\<exists>h2. allocate_new_page h1 (ucast sz) = Inr (heap_end h1, h2) \<and> heap_end h1 \<noteq> NULL
    \<and> (let h4 = upd_maj (upd_maj h2 M (\<lambda>x. x\<lparr>maj_next := heap_end h1\<rparr>)) (heap_end h1) (\<lambda>x. x\<lparr>maj_prev := M\<rparr>)
       in good h (B1 @ [(M, ms)]) (Some (Inr (malloc_case2 h4 sz req (heap_end h1)))) sz req
        \<and> good h (B1 @ [(M, ms)]) (malloc_majors h4 sz req (heap_end h1) sb best) sz req)"
proof -
  let ?N = "heap_end h1"
  obtain h2 h4 where A: "allocate_new_page h1 (ucast sz) = Inr (?N, h2)"
    and h4: "h4 = upd_maj (upd_maj h2 M (\<lambda>x. x\<lparr>maj_next := ?N\<rparr>)) ?N (\<lambda>x. x\<lparr>maj_prev := M\<rparr>)"
    and inv4: "heap_inv h4 (B1 @ (M, ms) # [(?N, [])])" and min4: "min_at h4 = min_at h1" and big: "unat sz + 80 \<le> w_maj h4 ?N"
    using append_major_inv [OF inv room sz(2)] by metis
  have inv4': "heap_inv h4 ((B1 @ [(M, ms)]) @ (?N, []) # [])" using inv4 by simp
  have lv: "live ((B1 @ [(M, ms)]) @ (?N, []) # []) = live (B1 @ [(M, ms)])" by (auto simp: live_def)
  have "good h (B1 @ [(M, ms)]) (Some (Inr (malloc_case2 h4 sz req ?N))) sz req"
    using good_case2 [OF inv4' big sz _ lv] min min4 by simp
  moreover have "good h (B1 @ [(M, ms)]) (malloc_majors h4 sz req ?N sb best) sz req"
  proof -
    obtain a h' Bs' where "malloc_majors h4 sz req ?N sb best = Some (Inr (user_ptr a, h'))"
      "allocated h4 ((B1 @ [(M, ms)]) @ (?N, []) # []) h' Bs' a sz req"
      using malloc_majors_fresh [OF inv4' big sz, of sb best] unfolding good_def by blast
    then show ?thesis unfolding good_def using allocated_from [of h4 _ h' Bs' a sz req h] min min4 lv by metis
  qed
  moreover have "?N \<noteq> NULL" using room by (auto simp: page_room_def)
  ultimately show ?thesis using A unfolding h4 Let_def by blast
qed

lemma malloc_majors_step:
  assumes inv: "heap_inv h (B1 @ (M, ms) # B2)" and room: "page_room h sz"
    and sz: "unat req + 32 \<le> unat sz" "unat sz < 2 ^ 31"
  shows "good h (B1 @ (M, ms) # B2) (malloc_majors h sz req M sb best) sz req
    \<or> (\<exists>best1. malloc_majors h sz req M sb best = malloc_majors (best_of h M best) sz req (first_of (map fst B2)) sb best1) \<and> B2 \<noteq> []
    \<or> (\<exists>best1. malloc_majors h sz req M sb best = malloc_majors (best_of h M best) sz req (l_memRoot h) False best1) \<and> sb"
proof -
  let ?Bs = "B1 @ (M, ms) # B2" and ?h1 = "best_of h M best"
  let ?d = "ucast (maj_size (maj_at h M) - maj_usage (maj_at h M)) :: u64"
  define best1 where "best1 = (if best < ?d then ?d else best)"
  have sz32: "unat sz < 2 ^ 32" using sz by simp
  have ok: "major_ok h M ms" using heap_invD(1) [OF inv, of M ms] by simp
  have inv1: "heap_inv ?h1 ?Bs" by (rule best_of_inv [OF inv]) simp
  have nx: "maj_next (maj_at h M) = first_of (map fst B2)" and M: "M \<noteq> NULL" using major_next [OF inv] by auto
  have nx0: "maj_next (maj_at h M) = NULL \<longleftrightarrow> B2 = []"
    unfolding nx using heap_invD(2) [OF inv] by (cases B2) auto
  have first: "maj_first (maj_at h M) = first_of ms" by (rule major_okD(4) [OF ok])
  note U = malloc_majors.simps [of h sz req M sb best, unfolded Let_def best_of_best, folded best1_def]
  have grow: "good h ?Bs (case allocate_new_page ?h1 (ucast sz) of Inl e \<Rightarrow> Some (Inl e)
      | Inr (new, h2) \<Rightarrow> let h3 = upd_maj h2 M (\<lambda>M. M\<lparr>maj_next := new\<rparr>) in if new = NULL then Some (Inr (NULL, h3))
          else F (upd_maj h3 new (\<lambda>x. x\<lparr>maj_prev := M\<rparr>)) new) sz req"
    if "B2 = []" and F: "F = (\<lambda>h4 new. Some (Inr (malloc_case2 h4 sz req new))) \<or> F = (\<lambda>h4 new. malloc_majors h4 sz req new False best1)" for F
    using grow_good [of ?h1 B1 M ms sz req h False best1] inv1 room sz that by (auto simp: best_of_room Let_def)
  show ?thesis
  proof (cases "?d < sz + 40")
    case True
    show ?thesis
    proof (cases "B2 = [] \<and> \<not> sb")
      case last: True
      then have "malloc_majors h sz req M sb best = (case allocate_new_page ?h1 (ucast sz) of Inl e \<Rightarrow> Some (Inl e)
          | Inr (new, h2) \<Rightarrow> let h3 = upd_maj h2 M (\<lambda>M. M\<lparr>maj_next := new\<rparr>) in if new = NULL then Some (Inr (NULL, h3))
          else Some (Inr (malloc_case2 (upd_maj h3 new (\<lambda>x. x\<lparr>maj_prev := M\<rparr>)) sz req new)))"
        using True M nx0 by (subst U) (simp add: sizeof_minor_def Let_def split: sum.split)
      then show ?thesis using grow [of "\<lambda>h4 new. Some (Inr (malloc_case2 h4 sz req new))"] last by simp
    next
      case False
      then show ?thesis using True M nx0 nx by (auto simp: U sizeof_minor_def)
    qed
  next
    case room_left: False
    show ?thesis
    proof (cases ms)
      case Nil
      have "unat ?d = w_maj h M - 40" using major_free(1) [OF ok] Nil by simp
      then have "unat sz + 80 \<le> w_maj h M"
        using room_left unat_need [OF sz32] major_free(2) [OF ok] Nil by (simp add: word_less_nat_alt)
      then show ?thesis using malloc_majors_fresh [of h B1 M B2 sz req sb best] inv sz Nil by simp
    next
      case (Cons y ys)
      have y: "y \<noteq> NULL" using major_okD(5) [OF ok] Cons by auto
      have fy: "maj_first (maj_at h M) = y" using first Cons by simp
      show ?thesis
      proof (cases "sz + 40 \<le> y - M - 40")
        case True
        obtain a h' where "malloc_case3 ?h1 sz req M = (user_ptr a, h')" and I: "inserted ?h1 h' B1 B2 M [] a (y # ys) sz req"
          using case3_inserted [of ?h1 B1 M y ys B2 sz req] inv1 True sz(1) sz32 Cons by auto
        moreover from this have "malloc_majors h sz req M sb best = Some (Inr (user_ptr a, h'))"
          using room_left M fy y True by (simp add: U sizeof_minor_def sizeof_major_def)
        ultimately show ?thesis using good_inserted [OF I, of h] Cons by simp
      next
        case nofront: False
        show ?thesis
        proof (cases "malloc_minors ?h1 sz req M y = Some None")
          case False
          then obtain us vs a h' where "y # ys = us @ vs" "malloc_minors ?h1 sz req M y = Some (Some (user_ptr a, h'))"
              and I: "inserted ?h1 h' B1 B2 M us a vs sz req"
            using malloc_minors_spec [of ?h1 B1 M "[]" y ys B2 req sz] inv1 sz(1) sz32 Cons by auto
          moreover from this have "malloc_majors h sz req M sb best = Some (Inr (user_ptr a, h'))"
            using room_left M fy y nofront by (simp add: U sizeof_minor_def sizeof_major_def)
          ultimately show ?thesis using good_inserted [OF I, of h] Cons by simp
        next
          case full: True
          show ?thesis
          proof (cases "B2 = [] \<and> \<not> sb")
            case last: True
            then have "malloc_majors h sz req M sb best = (case allocate_new_page ?h1 (ucast sz) of Inl e \<Rightarrow> Some (Inl e)
                | Inr (new, h2) \<Rightarrow> let h3 = upd_maj h2 M (\<lambda>M. M\<lparr>maj_next := new\<rparr>) in if new = NULL then Some (Inr (NULL, h3))
                else malloc_majors (upd_maj h3 new (\<lambda>x. x\<lparr>maj_prev := M\<rparr>)) sz req new False best1)"
              using room_left M fy y nofront full nx0 by (subst U) (simp add: sizeof_minor_def sizeof_major_def Let_def split: sum.split)
            then show ?thesis using grow [of "\<lambda>h4 new. malloc_majors h4 sz req new False best1"] last by simp
          next
            case False
            then show ?thesis using room_left M fy y nofront full nx0 nx
              by (auto simp: U sizeof_minor_def sizeof_major_def)
          qed
        qed
      qed
    qed
  qed
qed

end
