(* ===== verification/Heap_Correct.thy ===== *)
theory Heap_Correct
  imports Heap_Invariant
begin

text \<open>
  The correctness of the kernel heap: \<open>malloc\<close> always returns a fresh aligned block that overlaps nothing live,
  \<open>free\<close> takes exactly that block away, a second \<open>free\<close> of the same pointer is detected, and the contract of the
  two operations as the locale \<open>allocator\<close>, interpreted on the model of liballoc.
\<close>

section \<open>malloc\<close>

lemma good_best [simp]: "good (best_of h M best) Bs r sz req = good h Bs r sz req"
  by (simp add: good_def allocated_def)

lemma malloc_majors_once:
  assumes "heap_inv h (B1 @ (M, ms) # B2)" and "page_room h sz" and "unat req + 32 \<le> unat sz" and "unat sz < 2 ^ 31"
  shows "good h (B1 @ (M, ms) # B2) (malloc_majors h sz req M False best) sz req"
  using assms
proof (induction B2 arbitrary: h B1 M ms best)
  case Nil
  then show ?case using malloc_majors_step [OF Nil.prems, of False best] by auto
next
  case (Cons B B2)
  obtain N ns where B: "B = (N, ns)" by fastforce
  have inv: "heap_inv (best_of h M best) ((B1 @ [(M, ms)]) @ (N, ns) # B2)"
    using best_of_inv [OF Cons.prems(1), of M best] B by simp
  have "good (best_of h M best) ((B1 @ [(M, ms)]) @ (N, ns) # B2) (malloc_majors (best_of h M best) sz req N False b) sz req" for b
    by (rule Cons.IH [OF inv]) (use Cons.prems best_of_room in auto)
  then show ?case using malloc_majors_step [OF Cons.prems, of False best] B by auto
qed

lemma restart_good:
  assumes a: "heap_inv h (B1 @ (M, ms) # B2)" "page_room h sz" "unat req + 32 \<le> unat sz" "unat sz < 2 ^ 31"
  shows "good h (B1 @ (M, ms) # B2) (malloc_majors (best_of h M best) sz req (l_memRoot h) False b) sz req"
proof -
  obtain R rs B where Bs: "B1 @ (M, ms) # B2 = [] @ (R, rs) # B" by (cases B1) auto
  have "heap_inv (best_of h M best) (B1 @ (M, ms) # B2)" by (rule best_of_inv [OF a(1)]) simp
  then have "heap_inv (best_of h M best) ([] @ (R, rs) # B)" unfolding Bs .
  then have "good (best_of h M best) ([] @ (R, rs) # B) (malloc_majors (best_of h M best) sz req R False b) sz req"
    by (rule malloc_majors_once) (use a best_of_room in auto)
  moreover have "l_memRoot h = R" using major_next(2) [OF a(1)] Bs by simp
  ultimately show ?thesis unfolding Bs by simp
qed

lemma malloc_majors_good:
  assumes "heap_inv h (B1 @ (M, ms) # B2)" and "page_room h sz" and "unat req + 32 \<le> unat sz" and "unat sz < 2 ^ 31"
  shows "good h (B1 @ (M, ms) # B2) (malloc_majors h sz req M sb best) sz req"
  using assms
proof (induction B2 arbitrary: h B1 M ms best)
  case Nil
  then show ?case using malloc_majors_step [OF Nil.prems, of sb best] restart_good [OF Nil.prems, of best] by auto
next
  case (Cons B B2)
  obtain N ns where B: "B = (N, ns)" by fastforce
  have inv: "heap_inv (best_of h M best) ((B1 @ [(M, ms)]) @ (N, ns) # B2)"
    using best_of_inv [OF Cons.prems(1), of M best] B by simp
  have "good (best_of h M best) ((B1 @ [(M, ms)]) @ (N, ns) # B2) (malloc_majors (best_of h M best) sz req N sb b) sz req" for b
    by (rule Cons.IH [OF inv]) (use Cons.prems best_of_room in auto)
  then show ?case using malloc_majors_step [OF Cons.prems, of sb best] restart_good [OF Cons.prems, of best] B by auto
qed

lemma malloc_sized_good:
  assumes inv: "heap_inv h Bs" and room: "page_room h sz" and sz: "unat req + 32 \<le> unat sz" "unat sz < 2 ^ 31"
  shows "good h Bs (malloc_sized h sz req) sz req"
proof (cases Bs)
  case Nil
  then have inv0: "heap_inv h []" using inv by simp
  obtain h2 where A: "allocate_new_page h (ucast sz) = Inr (heap_end h, h2)"
    and inv2: "heap_inv (h2\<lparr>l_memRoot := heap_end h\<rparr>) [(heap_end h, [])]" and min: "min_at h2 = min_at h"
    and big: "unat sz + 80 \<le> w_maj h2 (heap_end h)" and best: "l_bestBet h2 = NULL"
    using first_major_inv [OF inv0 room sz(2)] by blast
  have root: "l_memRoot h = NULL" using inv0 by (simp add: heap_inv_def)
  have nn: "heap_end h \<noteq> NULL" using room by (auto simp: page_room_def)
  let ?h1 = "h2\<lparr>l_memRoot := heap_end h\<rparr>"
  have "malloc_sized h sz req = malloc_majors ?h1 sz req (heap_end h) False 0"
    using A root nn best by (simp add: malloc_sized_def)
  moreover have "good ?h1 ([] @ (heap_end h, []) # []) (malloc_majors ?h1 sz req (heap_end h) False 0) sz req"
    using inv2 big sz by (intro malloc_majors_fresh) (simp_all add: w_maj_def)
  ultimately show ?thesis
    using Nil min by (simp add: good_def allocated_def live_def)
next
  case (Cons B Bs')
  obtain R rs where B: "B = (R, rs)" by fastforce
  have root: "l_memRoot h = R" "R \<noteq> NULL" using major_next(2,3) [of h "[]" R rs Bs'] inv Cons B by simp_all
  have start: "good h Bs (malloc_majors h sz req R False best) sz req" for best
    using malloc_majors_good [of h "[]" R rs Bs'] inv room sz Cons B by simp
  show ?thesis
  proof (cases "l_bestBet h \<noteq> NULL \<and> ucast (maj_size (maj_at h (l_bestBet h)) - maj_usage (maj_at h (l_bestBet h))) > sz + sizeof_minor")
    case True
    then have "l_bestBet h \<in> fst ` set Bs" using inv by (auto simp: heap_inv_def)
    then obtain ms where "(l_bestBet h, ms) \<in> set Bs" by auto
    then obtain B1 B2 where "Bs = B1 @ (l_bestBet h, ms) # B2" by (meson split_list)
    then have "good h Bs (malloc_majors h sz req (l_bestBet h) True best) sz req" for best
      using malloc_majors_good [of h B1 "l_bestBet h" ms B2] inv room sz by simp
    then show ?thesis using True root by (simp add: malloc_sized_def Let_def)
  next
    case False
    then show ?thesis using start root by (auto simp: malloc_sized_def Let_def)
  qed
qed

lemma malloc_good:
  assumes inv: "heap_inv h Bs" and room: "page_room h (req + 32)" and sz: "unat req < 2 ^ 30"
  shows "good h Bs (malloc h req) (req + 32) req"
proof -
  have un: "unat (req + 32) = unat req + 32" using sz by (subst unat_add_no_overflow) auto
  then have "req + 32 \<noteq> 0" by (auto simp: word_eq_zero_iff_unat)
  then have "malloc h req = malloc_sized h (req + 32) req"
    by (simp add: malloc_def ALIGNMENT_def ALIGN_INFO_def)
  then show ?thesis using malloc_sized_good [OF inv room] un sz by simp
qed

text \<open>The bytes a live block takes: its header and its payload.\<close>

definition block_range :: "heap \<Rightarrow> addr_t \<Rightarrow> nat set" where
  "block_range h m = {unat m ..< unat m + w_min h m}"

lemma live_apart:
  assumes inv: "heap_inv h Bs" and m: "m \<in> live Bs" and n: "n \<in> live Bs" and ne: "m \<noteq> n"
  shows "block_range h m \<inter> block_range h n = {}"
proof -
  obtain M ms N ns where M: "(M, ms) \<in> set Bs" "m \<in> set ms" and N: "(N, ns) \<in> set Bs" "n \<in> set ns"
    using m n by (auto simp: live_def)
  have "unat m + w_min h m \<le> unat n \<or> unat n + w_min h n \<le> unat m"
  proof (cases "M = N")
    case True
    then have "ms = ns" using heap_invD(3) [OF inv] M N by (metis map_of_eq_Some_iff option.inject)
    then show ?thesis
      using spaced_apart [OF major_okD(1) [OF heap_invD(1) [OF inv M(1)]]] M N ne by blast
  next
    case False
    then show ?thesis
      using heap_invD(5) [OF inv M(1) N(1)] live_bounds [OF inv M] live_bounds [OF inv N] by linarith
  qed
  then show ?thesis by (auto simp: block_range_def)
qed

lemma payload_range:
  assumes inv: "heap_inv h Bs" and a: "a \<in> live Bs"
  shows "16 dvd unat (user_ptr a)"
    and "{unat (user_ptr a) ..< unat (user_ptr a) + unat (min_req_size (min_at h a))} \<subseteq> {unat a + 56 ..< unat a + w_min h a}"
proof -
  obtain M ms where M: "(M, ms) \<in> set Bs" "a \<in> set ms" using a by (auto simp: live_def)
  note b = user_ptr_bounds [OF live_bounds(4) [OF inv M]]
  have "unat (min_req_size (min_at h a)) + 72 \<le> w_min h a"
    using major_okD(3) [OF heap_invD(1) [OF inv M(1)] M(2)] by (simp add: minor_ok_def w_min_def)
  then show "{unat (user_ptr a) ..< unat (user_ptr a) + unat (min_req_size (min_at h a))} \<subseteq> {unat a + 56 ..< unat a + w_min h a}"
    using b by auto
  show "16 dvd unat (user_ptr a)" by (rule b(3))
qed

section \<open>free\<close>

lemma minor_prev:
  assumes "major_ok h M (xs @ y # ys)"
  shows "min_prev (min_at h y) = last_of xs"
  using assms by (auto simp: major_ok_def mlist_append last_of_def)

text \<open>The effect of taking the minor \<open>a\<close> out of its block.\<close>

lemma free_minor_at:
  assumes ok: "major_ok h M (xs @ a # ys)" and h1: "h1 = free_minor h a"
  shows "m \<noteq> a \<Longrightarrow> min_next (min_at h1 m) = (if xs \<noteq> [] \<and> m = last_of xs then first_of ys else min_next (min_at h m))"
    and "m \<noteq> a \<Longrightarrow> min_prev (min_at h1 m) = (if ys \<noteq> [] \<and> m = first_of ys then last_of xs else min_prev (min_at h m))"
    and "m \<noteq> a \<Longrightarrow> min_size (min_at h1 m) = min_size (min_at h m) \<and> min_req_size (min_at h1 m) = min_req_size (min_at h m)
        \<and> min_magic (min_at h1 m) = min_magic (min_at h m) \<and> min_block (min_at h1 m) = min_block (min_at h m)"
    and "m \<notin> set (xs @ a # ys) \<Longrightarrow> min_at h1 m = min_at h m"
    and "min_magic (min_at h1 a) = LIBALLOC_DEAD"
    and "maj_first (maj_at h1 M) = (if xs = [] then first_of ys else maj_first (maj_at h M))"
    and "maj_size (maj_at h1 N) = maj_size (maj_at h N) \<and> maj_next (maj_at h1 N) = maj_next (maj_at h N)
        \<and> maj_prev (maj_at h1 N) = maj_prev (maj_at h N)"
    and "N \<noteq> M \<Longrightarrow> maj_at h1 N = maj_at h N"
    and "maj_usage (maj_at h1 M) = ucast (ucast (maj_usage (maj_at h M)) - (ucast (min_size (min_at h a)) + 40) :: u64)"
    and "heap_bytes h1 = heap_bytes h" and "l_memRoot h1 = l_memRoot h" and "l_bestBet h1 = l_bestBet h" and "heap_end h1 = heap_end h"
proof -
  have nn: "NULL \<notin> set (xs @ a # ys)" and dist: "distinct (xs @ a # ys)" using major_okD(5,6) [OF ok] by auto
  have pr: "min_prev (min_at h a) = last_of xs" by (rule minor_prev [OF ok])
  have nx: "min_next (min_at h a) = first_of ys" by (rule minor_next [OF ok])
  have bl: "min_block (min_at h a) = M" using major_okD(3) [OF ok, of a] by (simp add: minor_ok_def)
  have l0: "last_of xs = NULL \<longleftrightarrow> xs = []" using nn last_of_in [of xs] by (cases "xs = []") auto
  have f0: "first_of ys = NULL \<longleftrightarrow> ys = []" using nn by (cases ys) auto
  have la: "xs \<noteq> [] \<Longrightarrow> last_of xs \<noteq> a" using dist last_of_in [of xs] by auto
  have fa: "ys \<noteq> [] \<Longrightarrow> first_of ys \<noteq> a" using dist by (cases ys) auto
  have lf: "xs \<noteq> [] \<Longrightarrow> ys \<noteq> [] \<Longrightarrow> last_of xs \<noteq> first_of ys" using dist last_of_in [of xs] by (cases ys) auto
  note E = h1 free_minor_def Let_def pr nx bl l0 f0 sizeof_minor_def
  show "m \<noteq> a \<Longrightarrow> min_next (min_at h1 m) = (if xs \<noteq> [] \<and> m = last_of xs then first_of ys else min_next (min_at h m))"
    using la fa by (auto simp: E)
  show "m \<noteq> a \<Longrightarrow> min_prev (min_at h1 m) = (if ys \<noteq> [] \<and> m = first_of ys then last_of xs else min_prev (min_at h m))"
    using la fa by (auto simp: E)
  show "m \<noteq> a \<Longrightarrow> min_size (min_at h1 m) = min_size (min_at h m) \<and> min_req_size (min_at h1 m) = min_req_size (min_at h m)
        \<and> min_magic (min_at h1 m) = min_magic (min_at h m) \<and> min_block (min_at h1 m) = min_block (min_at h m)"
    by (auto simp: E)
  show "m \<notin> set (xs @ a # ys) \<Longrightarrow> min_at h1 m = min_at h m"
    using last_of_in [of xs] by (cases ys) (auto simp: E)
  show "min_magic (min_at h1 a) = LIBALLOC_DEAD" using la fa by (auto simp: E)
  show "maj_first (maj_at h1 M) = (if xs = [] then first_of ys else maj_first (maj_at h M))" by (auto simp: E)
  show "maj_size (maj_at h1 N) = maj_size (maj_at h N) \<and> maj_next (maj_at h1 N) = maj_next (maj_at h N)
        \<and> maj_prev (maj_at h1 N) = maj_prev (maj_at h N)" by (auto simp: E)
  show "N \<noteq> M \<Longrightarrow> maj_at h1 N = maj_at h N" by (auto simp: E)
  show "maj_usage (maj_at h1 M) = ucast (ucast (maj_usage (maj_at h M)) - (ucast (min_size (min_at h a)) + 40) :: u64)" by (auto simp: E)
  show "heap_bytes h1 = heap_bytes h" "l_memRoot h1 = l_memRoot h" "l_bestBet h1 = l_bestBet h" "heap_end h1 = heap_end h"
    by (auto simp: E)
qed

lemma free_minor_major:
  assumes inv: "heap_inv h (B1 @ (M, xs @ a # ys) # B2)"
  shows "major_ok (free_minor h a) M (xs @ ys)"
proof -
  have ok: "major_ok h M (xs @ a # ys)" using heap_invD(1) [OF inv] by simp
  note F = free_minor_at [OF ok refl]
  let ?h1 = "free_minor h a"
  have dist: "distinct (xs @ a # ys)" using major_okD(6) [OF ok] .
  have ne: "m \<noteq> a" if "m \<in> set (xs @ ys)" for m using dist that by auto
  have w: "w_min ?h1 m = w_min h m" if "m \<in> set (xs @ ys)" for m using F(3) [OF ne [OF that]] by (simp add: w_min_def)
  have "mlist (\<lambda>m. min_next (min_at ?h1 m)) (\<lambda>m. min_prev (min_at ?h1 m)) NULL (maj_first (maj_at ?h1 M)) (xs @ ys)"
  proof (rule mlist_remove [OF _ dist])
    show "mlist (\<lambda>m. min_next (min_at h m)) (\<lambda>m. min_prev (min_at h m)) NULL (maj_first (maj_at h M)) (xs @ a # ys)"
      using ok by (simp add: major_ok_def)
  qed (use F(1,2,6) ne in auto)
  moreover have "spaced (w_min ?h1) (unat M + 40) (xs @ ys) (unat M + w_maj ?h1 M)"
    using spaced_remove [OF major_okD(1) [OF ok]] spaced_cong [of "xs @ ys" "w_min ?h1" "w_min h"] w F(7) by (simp add: w_maj_def)
  moreover have "unat (maj_usage (maj_at ?h1 M)) = 40 + sum_list (map (w_min ?h1) (xs @ ys))"
  proof -
    have m: "map (w_min ?h1) (xs @ ys) = map (w_min h) (xs @ ys)" using w by (intro map_cong) auto
    have u: "unat (maj_usage (maj_at h M)) = 40 + sum_list (map (w_min h) (xs @ ys)) + w_min h a" using major_okD(2) [OF ok] by simp
    have s: "unat (ucast (min_size (min_at h a)) + 40 :: u64) = w_min h a"
      using unat_less_length_power [of "min_size (min_at h a)"]
      by (subst unat_add_no_overflow) (auto simp: w_min_def unat_ucast_widen)
    have "unat (ucast (maj_usage (maj_at h M)) - (ucast (min_size (min_at h a)) + 40) :: u64) = 40 + sum_list (map (w_min h) (xs @ ys))"
      using u s by (subst unat_sub_no_underflow) (auto simp: word_le_nat_alt unat_ucast_widen)
    moreover have "40 + sum_list (map (w_min h) (xs @ ys)) < 2 ^ 32"
      using u unat_less_length_power [of "maj_usage (maj_at h M)"] by simp
    ultimately show ?thesis unfolding m by (simp only: F(9)) (simp add: unat_ucast_32)
  qed
  moreover have "minor_ok ?h1 M m" if "m \<in> set (xs @ ys)" for m
    using major_okD(3) [OF ok, of m] F(3) [OF ne [OF that]] F(10) that by (auto simp: minor_ok_def)
  ultimately show ?thesis by (simp add: major_ok_def)
qed

lemma free_minor_inv:
  assumes inv: "heap_inv h (B1 @ (M, xs @ a # ys) # B2)"
  shows "heap_inv (free_minor h a) (B1 @ (M, xs @ ys) # B2)"
proof -
  let ?h1 = "free_minor h a"
  have mem: "(M, xs @ a # ys) \<in> set (B1 @ (M, xs @ a # ys) # B2)" by simp
  have ok: "major_ok h M (xs @ a # ys)" using heap_invD(1) [OF inv mem] .
  note F = free_minor_at [OF ok refl]
  have W: "w_maj ?h1 = w_maj h" by (rule ext) (simp add: w_maj_def F(7))
  have Ms: "map fst (B1 @ (M, xs @ ys) # B2) = map fst (B1 @ (M, xs @ a # ys) # B2)" by simp
  have "major_ok ?h1 N ns" if N: "(N, ns) \<in> set (B1 @ B2)" for N ns
  proof -
    have memN: "(N, ns) \<in> set (B1 @ (M, xs @ a # ys) # B2)" using N by auto
    have NM: "N \<noteq> M" using heap_invD(3) [OF inv] N by (auto simp: image_iff)
    have sep: "unat N + w_maj h N \<le> unat M \<or> unat M + w_maj h M \<le> unat N" using heap_invD(5) [OF inv memN mem NM] .
    have "m \<notin> set (xs @ a # ys)" if m: "m \<in> set ns" for m
    proof
      assume m': "m \<in> set (xs @ a # ys)"
      show False using live_bounds [OF inv memN m] live_bounds [OF inv mem m'] sep by linarith
    qed
    then show ?thesis
      by (intro major_ok_frame [OF heap_invD(1) [OF inv memN]]) (simp_all add: F(4,8,10) NM)
  qed
  then have "\<forall>(N, ns) \<in> set (B1 @ (M, xs @ ys) # B2). major_ok ?h1 N ns" using free_minor_major [OF inv] by auto
  moreover have "mlist (\<lambda>N. maj_next (maj_at ?h1 N)) (\<lambda>N. maj_prev (maj_at ?h1 N)) NULL (l_memRoot ?h1) (map fst (B1 @ (M, xs @ ys) # B2))"
    unfolding Ms using inv by (simp add: heap_inv_def F(7,11))
  moreover have "l_bestBet ?h1 = NULL \<or> l_bestBet ?h1 \<in> fst ` set (B1 @ (M, xs @ ys) # B2)"
    using inv by (auto simp: heap_inv_def F(12))
  ultimately show ?thesis unfolding heap_inv_def Ms W F(13) using inv by (simp add: heap_inv_def)
qed

lemma major_prev:
  assumes "heap_inv h (B1 @ (M, ms) # B2)"
  shows "maj_prev (maj_at h M) = last_of (map fst B1)"
  using assms by (auto simp: heap_inv_def mlist_append last_of_def)

lemma free_major_inv:
  assumes inv: "heap_inv h (B1 @ (M, []) # B2)"
  shows "heap_inv (free_major h M) (B1 @ B2)" and "min_at (free_major h M) = min_at h"
    and "heap_bytes (free_major h M) = heap_bytes h"
proof -
  let ?h' = "free_major h M" and ?Ms = "map fst B1 @ M # map fst B2"
  have nn: "NULL \<notin> set ?Ms" and dist: "distinct ?Ms" using heap_invD(2,3) [OF inv] by auto
  have pr: "maj_prev (maj_at h M) = last_of (map fst B1)" by (rule major_prev [OF inv])
  have nx: "maj_next (maj_at h M) = first_of (map fst B2)" by (rule major_next(1) [OF inv])
  have root: "l_memRoot h = first_of ?Ms" using major_next(2) [OF inv] by simp
  have l0: "last_of (map fst B1) = NULL \<longleftrightarrow> B1 = []"
  proof (cases "B1 = []")
    case False
    then have "last_of (map fst B1) \<in> set ?Ms" using last_of_in [of "map fst B1"] by simp
    then show ?thesis using nn False by metis
  qed simp
  have f0: "first_of (map fst B2) = NULL \<longleftrightarrow> B2 = []" using nn by (cases B2) auto
  have la: "B1 \<noteq> [] \<Longrightarrow> last_of (map fst B1) \<noteq> M" using dist last_of_in [of "map fst B1"] by auto
  have fa: "B2 \<noteq> [] \<Longrightarrow> first_of (map fst B2) \<noteq> M" using dist by (cases B2) auto
  have rM: "l_memRoot h = M \<longleftrightarrow> B1 = []" unfolding root using dist by (cases B1) auto
  note E = free_major_def Let_def pr nx l0 f0 free_heap_def rM
  show min: "min_at ?h' = min_at h" and byt: "heap_bytes ?h' = heap_bytes h" by (auto simp: E)
  have root': "l_memRoot ?h' = (if map fst B1 = [] then first_of (map fst B2) else l_memRoot h)" by (auto simp: E)
  have next': "maj_next (maj_at ?h' N) = (if map fst B1 \<noteq> [] \<and> N = last_of (map fst B1) then first_of (map fst B2) else maj_next (maj_at h N))"
    if "N \<in> set (map fst B1 @ map fst B2)" for N by (auto simp: E)
  have prev': "maj_prev (maj_at ?h' N) = (if map fst B2 \<noteq> [] \<and> N = first_of (map fst B2) then last_of (map fst B1) else maj_prev (maj_at h N))"
    if "N \<in> set (map fst B1 @ map fst B2)" for N by (auto simp: E)
  have same: "maj_size (maj_at ?h' N) = maj_size (maj_at h N)" "maj_usage (maj_at ?h' N) = maj_usage (maj_at h N)"
     "maj_first (maj_at ?h' N) = maj_first (maj_at h N)" "heap_end ?h' = heap_end h" for N
    by (auto simp: E)
  have W: "w_maj ?h' = w_maj h" by (rule ext) (simp add: w_maj_def same)
  have "mlist (\<lambda>N. maj_next (maj_at ?h' N)) (\<lambda>N. maj_prev (maj_at ?h' N)) NULL (l_memRoot ?h') (map fst B1 @ map fst B2)"
    by (rule mlist_remove [where a = M and c = "l_memRoot h"])
      (use inv dist next' prev' root' in \<open>auto simp: heap_inv_def\<close>)
  moreover have "spaced (w_maj ?h') 0 (map fst B1 @ map fst B2) (unat (heap_end ?h'))"
    unfolding W same(4) by (rule spaced_remove [where a = M]) (use inv in \<open>simp add: heap_inv_def\<close>)
  moreover have "major_ok ?h' N ns" if "(N, ns) \<in> set (B1 @ B2)" for N ns
  proof -
    have "(N, ns) \<in> set (B1 @ (M, []) # B2)" using that by auto
    then show ?thesis by (intro major_ok_frame [OF heap_invD(1) [OF inv]]) (simp_all only: same min byt)
  qed
  moreover have "l_bestBet ?h' = NULL \<or> l_bestBet ?h' \<in> fst ` set (B1 @ B2)"
    using inv by (auto simp: heap_inv_def E)
  ultimately show "heap_inv ?h' (B1 @ B2)" unfolding heap_inv_def by auto
qed

lemma live_owner:
  assumes inv: "heap_inv h Bs" and M: "(M, ms) \<in> set Bs" "a \<in> set ms" and N: "(N, ns) \<in> set Bs" "a \<in> set ns"
  shows "M = N"
proof (rule ccontr)
  assume "M \<noteq> N"
  then show False
    using heap_invD(5) [OF inv M(1) N(1)] live_bounds [OF inv M] live_bounds [OF inv N] by linarith
qed

lemma live_remove:
  assumes inv: "heap_inv h (B1 @ (M, xs @ a # ys) # B2)"
  shows "live (B1 @ (M, xs @ ys) # B2) = live (B1 @ (M, xs @ a # ys) # B2) - {a}"
proof -
  let ?Bs = "B1 @ (M, xs @ a # ys) # B2"
  have "a \<notin> set ns" if N: "(N, ns) \<in> set (B1 @ B2)" for N ns
  proof
    assume "a \<in> set ns"
    then have "M = N" using live_owner [OF inv, of M "xs @ a # ys" a N ns] N by auto
    then show False using heap_invD(3) [OF inv] N by (auto simp: image_iff)
  qed
  then have "a \<notin> live B1 \<union> live B2" by (fastforce simp: live_def)
  moreover have "a \<notin> set (xs @ ys)" using major_okD(6) [OF heap_invD(1) [OF inv, of M "xs @ a # ys"]] by simp
  ultimately show ?thesis by (auto simp: live_append)
qed

lemma free_user_ptr:
  assumes inv: "heap_inv h Bs" and M: "(M, ms) \<in> set Bs" "a \<in> set ms"
  shows "UNALIGN h (user_ptr a) - sizeof_minor = a" and "user_ptr a \<noteq> NULL"
    and "min_magic (min_at h a) = LIBALLOC_MAGIC" and "min_block (min_at h a) = M"
proof -
  have ok: "minor_ok h M a" using major_okD(3) [OF heap_invD(1) [OF inv M(1)] M(2)] .
  show "UNALIGN h (user_ptr a) - sizeof_minor = a"
    using UNALIGN_user_ptr [OF live_bounds(4) [OF inv M]] ok by (simp add: minor_ok_def sizeof_minor_def)
  show "user_ptr a \<noteq> NULL" using user_ptr_bounds(1) [OF live_bounds(4) [OF inv M]] by auto
  show "min_magic (min_at h a) = LIBALLOC_MAGIC" "min_block (min_at h a) = M" using ok by (simp_all add: minor_ok_def)
qed

lemma free_live:
  assumes inv: "heap_inv h Bs" and a: "a \<in> live Bs"
  shows "\<exists>Bs'. heap_inv (free h (user_ptr a)) Bs' \<and> live Bs' = live Bs - {a}
    \<and> (\<forall>m \<in> live Bs - {a}. min_size (min_at (free h (user_ptr a)) m) = min_size (min_at h m)
          \<and> min_req_size (min_at (free h (user_ptr a)) m) = min_req_size (min_at h m))
    \<and> min_magic (min_at (free h (user_ptr a)) a) = LIBALLOC_DEAD
    \<and> heap_bytes (free h (user_ptr a)) = heap_bytes h"
proof -
  obtain M ms where M: "(M, ms) \<in> set Bs" "a \<in> set ms" using a by (auto simp: live_def)
  obtain B1 B2 where B: "Bs = B1 @ (M, ms) # B2" using M(1) by (meson split_list)
  obtain xs ys where ms: "ms = xs @ a # ys" using M(2) by (meson split_list)
  let ?h1 = "free_minor h a" and ?B1 = "B1 @ (M, xs @ ys) # B2"
  have inv': "heap_inv h (B1 @ (M, xs @ a # ys) # B2)" using inv B ms by simp
  have ok: "major_ok h M (xs @ a # ys)" using heap_invD(1) [OF inv'] by simp
  note F = free_minor_at [OF ok refl] and U = free_user_ptr [OF inv M]
  have inv1: "heap_inv ?h1 ?B1" by (rule free_minor_inv [OF inv'])
  have lv: "live ?B1 = live Bs - {a}" using live_remove [OF inv'] B ms by simp
  have first: "maj_first (maj_at ?h1 M) = first_of (xs @ ys)"
    by (rule major_okD(4) [OF heap_invD(1) [OF inv1]]) simp
  have first0: "maj_first (maj_at ?h1 M) = NULL \<longleftrightarrow> xs @ ys = []"
  proof (cases "xs @ ys")
    case (Cons z zs)
    then have "z \<in> set (xs @ ys)" by (simp only: list.set_intros)
    then have "z \<noteq> NULL" using major_okD(5) [OF ok] by auto
    then show ?thesis unfolding first Cons by simp
  qed (simp add: first)
  show ?thesis
  proof (cases "xs @ ys = []")
    case True
    then have f: "free h (user_ptr a) = free_major ?h1 M" using U first0 by (simp add: free_def Let_def)
    have inv0: "heap_inv ?h1 (B1 @ (M, []) # B2)" using inv1 True by simp
    have "live (B1 @ B2) = live Bs - {a}" using lv True by (auto simp: live_def)
    then show ?thesis unfolding f using free_major_inv [OF inv0] F(3,5,10) by (intro exI [of _ "B1 @ B2"]) auto
  next
    case False
    then have "free h (user_ptr a) = ?h1 \<or> free h (user_ptr a) = ?h1\<lparr>l_bestBet := M\<rparr>"
      using U first0 by (auto simp: free_def Let_def)
    moreover have "heap_inv (?h1\<lparr>l_bestBet := M\<rparr>) ?B1" by (rule heap_inv_best [OF inv1]) simp
    ultimately show ?thesis using inv1 lv F(3,5,10) by (intro exI [of _ ?B1]) auto
  qed
qed

section \<open>The contract of an allocator\<close>

locale allocator =
  fixes room :: "'h \<Rightarrow> size_t \<Rightarrow> bool"
    and held :: "'h \<Rightarrow> addr_t set \<Rightarrow> bool"
    and bytes :: "'h \<Rightarrow> addr_t \<Rightarrow> nat set"
    and alloc :: "'h \<Rightarrow> size_t \<Rightarrow> (addr_t \<times> 'h) res option"
    and release :: "'h \<Rightarrow> addr_t \<Rightarrow> 'h"
  assumes alloc_fresh: "held h P \<Longrightarrow> room h n \<Longrightarrow> \<exists>p h'. alloc h n = Some (Inr (p, h')) \<and> p \<notin> P
        \<and> held h' (insert p P) \<and> bytes h' p = {unat p ..< unat p + unat n} \<and> (\<forall>q \<in> P. bytes h' q = bytes h q)"
    and release_held: "held h P \<Longrightarrow> p \<in> P \<Longrightarrow> held (release h p) (P - {p}) \<and> (\<forall>q \<in> P - {p}. bytes (release h p) q = bytes h q)"
    and held_apart: "held h P \<Longrightarrow> p \<in> P \<Longrightarrow> q \<in> P \<Longrightarrow> p \<noteq> q \<Longrightarrow> bytes h p \<inter> bytes h q = {}"
begin

lemma alloc_disjoint:
  assumes "held h P" and "room h n"
  shows "\<exists>p h'. alloc h n = Some (Inr (p, h')) \<and> held h' (insert p P)
    \<and> (\<forall>q \<in> P. {unat p ..< unat p + unat n} \<inter> bytes h q = {})"
proof -
  obtain p h' where A: "alloc h n = Some (Inr (p, h'))" "p \<notin> P" "held h' (insert p P)"
      "bytes h' p = {unat p ..< unat p + unat n}" "\<forall>q \<in> P. bytes h' q = bytes h q"
    using alloc_fresh [OF assms] by blast
  have "bytes h' p \<inter> bytes h' q = {}" if "q \<in> P" for q
    using held_apart [OF A(3), of p q] A(2) that by auto
  then show ?thesis using A by auto
qed

lemma alloc_release:
  assumes "held h P" and "room h n" and "alloc h n = Some (Inr (p, h'))"
  shows "held (release h' p) P"
proof -
  have "p \<notin> P" "held h' (insert p P)" using alloc_fresh [OF assms(1,2)] assms(3) by auto
  then show ?thesis using release_held [of h' "insert p P" p] by simp
qed

end

section \<open>liballoc satisfies the contract\<close>

definition heap_room :: "heap \<Rightarrow> size_t \<Rightarrow> bool" where
  "heap_room h n \<longleftrightarrow> page_room h (n + 32) \<and> unat n < 2 ^ 30"

definition heap_held :: "heap \<Rightarrow> addr_t set \<Rightarrow> bool" where
  "heap_held h P \<longleftrightarrow> (\<exists>Bs. heap_inv h Bs \<and> P = user_ptr ` live Bs)"

text \<open>The bytes of a pointer: as many as were requested for it.\<close>

definition payload :: "heap \<Rightarrow> addr_t \<Rightarrow> nat set" where
  "payload h p = {unat p ..< unat p + unat (min_req_size (min_at h (UNALIGN h p - sizeof_minor)))}"

lemma payload_live:
  assumes "heap_inv h Bs" and "a \<in> live Bs"
  shows "payload h (user_ptr a) = {unat (user_ptr a) ..< unat (user_ptr a) + unat (min_req_size (min_at h a))}"
    and "payload h (user_ptr a) \<subseteq> block_range h a"
proof -
  obtain M ms where M: "(M, ms) \<in> set Bs" "a \<in> set ms" using assms(2) by (auto simp: live_def)
  show e: "payload h (user_ptr a) = {unat (user_ptr a) ..< unat (user_ptr a) + unat (min_req_size (min_at h a))}"
    using free_user_ptr(1) [OF assms(1) M] by (simp add: payload_def)
  show "payload h (user_ptr a) \<subseteq> block_range h a"
    unfolding e using payload_range(2) [OF assms] by (auto simp: block_range_def)
qed

lemma user_ptr_inj:
  assumes "heap_inv h Bs" and "a \<in> live Bs" and "b \<in> live Bs" and "user_ptr a = user_ptr b"
  shows "a = b"
proof -
  obtain M ms N ns where M: "(M, ms) \<in> set Bs" "a \<in> set ms" and N: "(N, ns) \<in> set Bs" "b \<in> set ns"
    using assms(2,3) by (auto simp: live_def)
  have "a = UNALIGN h (user_ptr a) - sizeof_minor" by (rule free_user_ptr(1) [OF assms(1) M, symmetric])
  also have "\<dots> = UNALIGN h (user_ptr b) - sizeof_minor" by (simp only: assms(4))
  also have "\<dots> = b" by (rule free_user_ptr(1) [OF assms(1) N])
  finally show ?thesis .
qed

lemma malloc_fresh:
  assumes held: "heap_held h P" and room: "heap_room h n"
  shows "\<exists>p h'. malloc h n = Some (Inr (p, h')) \<and> p \<notin> P \<and> heap_held h' (insert p P)
    \<and> payload h' p = {unat p ..< unat p + unat n} \<and> (\<forall>q \<in> P. payload h' q = payload h q)"
proof -
  obtain Bs where inv: "heap_inv h Bs" and P: "P = user_ptr ` live Bs" using held by (auto simp: heap_held_def)
  obtain a h' Bs' where m: "malloc h n = Some (Inr (user_ptr a, h'))" and al: "allocated h Bs h' Bs' a (n + 32) n"
    using malloc_good [OF inv] room unfolding heap_room_def good_def by blast
  have inv': "heap_inv h' Bs'" and lv: "live Bs' = insert a (live Bs)" and new: "a \<notin> live Bs"
    and req: "unat (min_req_size (min_at h' a)) = unat n"
    and same: "\<And>m. m \<in> live Bs \<Longrightarrow> min_req_size (min_at h' m) = min_req_size (min_at h m)"
    using al by (auto simp: allocated_def)
  have "user_ptr a \<notin> P" using user_ptr_inj [OF inv', of a] lv new unfolding P by auto
  moreover have "heap_held h' (insert (user_ptr a) P)" unfolding heap_held_def using inv' lv P by (intro exI [of _ Bs']) simp
  moreover have "payload h' (user_ptr a) = {unat (user_ptr a) ..< unat (user_ptr a) + unat n}"
    using payload_live(1) [OF inv', of a] lv req by simp
  moreover have "payload h' q = payload h q" if q: "q \<in> P" for q
  proof -
    obtain b where b: "b \<in> live Bs" "q = user_ptr b" using q P by auto
    then show ?thesis using payload_live(1) [OF inv b(1)] payload_live(1) [OF inv', of b] lv same by simp
  qed
  ultimately show ?thesis using m by blast
qed

lemma free_held:
  assumes held: "heap_held h P" and p: "p \<in> P"
  shows "heap_held (free h p) (P - {p}) \<and> (\<forall>q \<in> P - {p}. payload (free h p) q = payload h q)"
proof -
  obtain Bs where inv: "heap_inv h Bs" and P: "P = user_ptr ` live Bs" using held by (auto simp: heap_held_def)
  obtain a where a: "a \<in> live Bs" "p = user_ptr a" using p P by auto
  obtain Bs' where inv': "heap_inv (free h p) Bs'" and lv: "live Bs' = live Bs - {a}"
    and same: "\<And>m. m \<in> live Bs - {a} \<Longrightarrow> min_req_size (min_at (free h p) m) = min_req_size (min_at h m)"
    using free_live [OF inv a(1)] a(2) by blast
  have "P - {p} = user_ptr ` live Bs'"
    unfolding P lv a(2) using user_ptr_inj [OF inv _ a(1)] by auto
  moreover from this have "payload (free h p) q = payload h q" if q: "q \<in> P - {p}" for q
  proof -
    obtain b where b: "b \<in> live Bs'" "q = user_ptr b" using q \<open>P - {p} = user_ptr ` live Bs'\<close> by blast
    then show ?thesis using payload_live(1) [OF inv, of b] payload_live(1) [OF inv' b(1)] lv same by auto
  qed
  ultimately show ?thesis using inv' by (auto simp: heap_held_def)
qed

interpretation liballoc: allocator heap_room heap_held payload malloc free
proof (unfold_locales, goal_cases)
  case (1 h P n)
  then show ?case by (rule malloc_fresh)
next
  case (2 h P p)
  then show ?case by (rule free_held)
next
  case (3 h P p q)
  then obtain Bs a b where inv: "heap_inv h Bs" and ab: "a \<in> live Bs" "b \<in> live Bs" "p = user_ptr a" "q = user_ptr b"
    by (auto simp: heap_held_def)
  then have "block_range h a \<inter> block_range h b = {}" using 3 live_apart [OF inv] by blast
  then show ?case using payload_live(2) [OF inv] ab by blast
qed

section \<open>Properties\<close>


definition demo_heap :: heap where
  "demo_heap = \<lparr>heap_status = HEAP_INITIALIZED, early_heap_start = 0, early_heap_end = 0, early_heap_extent = 0,
     early_heap_watermark = 0, heap_end = 0xFFFF880000000000, l_memRoot = 0, l_bestBet = 0, l_allocated = 0, l_inuse = 0,
     l_warningCount = 0, l_errorCount = 0, l_possibleOverruns = 0,
     maj_at = (\<lambda>_. \<lparr>maj_prev = 0, maj_next = 0, maj_pages = 0, maj_size = 0, maj_usage = 0, maj_first = 0\<rparr>),
     min_at = (\<lambda>_. \<lparr>min_prev = 0, min_next = 0, min_block = 0, min_magic = 0, min_size = 0, min_req_size = 0\<rparr>),
     heap_bytes = (\<lambda>_. 0), heap_kmem = demo_mem,
     heap_phys = \<lparr>phys_dma_region = \<lparr>region_base = 0, region_size = 0x5000, region_buddy = Some demo_buddy\<rparr>,
       phys_normal_region = \<lparr>region_base = 0x5000, region_size = 0x1B000, region_buddy = Some demo_buddy\<rparr>\<rparr>,
     map_calls = [], unmap_calls = []\<rparr>"

lemma demo_heap_held: "heap_held demo_heap {}" and demo_heap_room: "heap_room demo_heap 100"
proof -
  have "heap_inv demo_heap []" by (simp add: heap_inv_def demo_heap_def)
  then show "heap_held demo_heap {}" by (auto simp: heap_held_def live_def)
  have "buddy_inv demo_mem demo_buddy (\<lambda>_. []) {}"
    by (simp add: buddy_inv_def orders_inv_def demo_buddy_def demo_order_def stack_repr_def free_set_def)
  then have "physical_inv (heap_kmem demo_heap) (heap_phys demo_heap) (\<lambda>_. []) {} (\<lambda>_. []) {}"
    by (simp add: physical_inv_def zone_def demo_heap_def covered_def free_set_def)
  then show "heap_room demo_heap 100" by (auto simp: heap_room_def page_room_def phys_ok_def demo_heap_def)
qed


text \<open>C8: \<open>free\<close> of a pointer that is held gives back exactly that pointer, leaves the payloads of all others
  where they are, and the heap can serve the next request: what \<open>malloc\<close> returns then overlaps none of the
  pointers that are still held.\<close>

theorem free_correct:
  assumes "heap_held h P" and "p \<in> P"
  shows "heap_held (free h p) (P - {p}) \<and> (\<forall>q \<in> P - {p}. payload (free h p) q = payload h q)
    \<and> (\<forall>n. heap_room (free h p) n \<longrightarrow>
         (\<exists>q h'. malloc (free h p) n = Some (Inr (q, h')) \<and> (\<forall>r \<in> P - {p}. {unat q ..< unat q + unat n} \<inter> payload h r = {})))"
proof -
  have held: "heap_held (free h p) (P - {p})" and same: "\<forall>q \<in> P - {p}. payload (free h p) q = payload h q"
    using liballoc.release_held [OF assms] by blast+
  then show ?thesis using liballoc.alloc_disjoint [OF held] by fastforce
qed

theorem free_correct_witness:
  "\<exists>p h. heap_held h {p} \<and> heap_held (free h p) {}"
proof -
  obtain p h where h: "heap_held h {p}" using malloc_fresh [OF demo_heap_held demo_heap_room] by auto
  then have "heap_held (free h p) ({p} - {p})" using free_correct [of h "{p}" p] by blast
  then show ?thesis using h by auto
qed



end
