(* ===== verification/Murmur.thy ===== *)
theory Murmur
  imports Prelude
begin

text \<open>
  \<open>lib/murmur.c\<close>: the 32-bit Murmur3 hash. A key is the function from byte offsets to bytes that the
  pointer stands for. The body loop runs over \<open>len / 4\<close> little-endian chunks, the switch over
  the remaining bytes falls through.
\<close>

section \<open>Definitions\<close>

definition rotl :: "u32 \<Rightarrow> nat \<Rightarrow> u32" where
  "rotl k r = push_bit r k OR drop_bit (32 - r) k"

definition chunk :: "(nat \<Rightarrow> u8) \<Rightarrow> nat \<Rightarrow> u32" where
  "chunk d i = ucast (d (4 * i)) OR push_bit 8 (ucast (d (4 * i + 1)))
     OR push_bit 16 (ucast (d (4 * i + 2))) OR push_bit 24 (ucast (d (4 * i + 3)))"

definition murmur_scramble :: "u32 \<Rightarrow> u32" where
  "murmur_scramble k = rotl (k * 0xcc9e2d51) 15 * 0x1b873593"

text \<open>\<open>i\<close> is the index of the next chunk, \<open>n\<close> the number of chunks left.\<close>

fun murmur_body :: "(nat \<Rightarrow> u8) \<Rightarrow> nat \<Rightarrow> nat \<Rightarrow> u32 \<Rightarrow> u32" where
  "murmur_body d i 0 h = h"
| "murmur_body d i (Suc n) h =
     murmur_body d (Suc i) n (rotl (h XOR murmur_scramble (chunk d i)) 13 * 5 + 0xe6546b64)"

definition murmur_tail :: "(nat \<Rightarrow> u8) \<Rightarrow> u32 \<Rightarrow> u32 \<Rightarrow> u32" where
  "murmur_tail d len h =
     (let l = unat (len div 4); t = (\<lambda>i. d (4 * l + i));
          k3 = (if len AND 3 = 3 then push_bit 16 (ucast (t 2)) else 0);
          k2 = (if len AND 3 = 3 \<or> len AND 3 = 2 then k3 XOR push_bit 8 (ucast (t 1)) else k3)
      in if len AND 3 = 0 then h
         else h XOR murmur_scramble (k2 XOR ucast (t 0)))"

definition murmur_final :: "u32 \<Rightarrow> u32" where
  "murmur_final h =
     (let h1 = (h XOR drop_bit 16 h) * 0x85ebca6b;
          h2 = (h1 XOR drop_bit 13 h1) * 0xc2b2ae35
      in h2 XOR drop_bit 16 h2)"

definition murmur_hash :: "(nat \<Rightarrow> u8) \<Rightarrow> u32 \<Rightarrow> u32 \<Rightarrow> u32" where
  "murmur_hash key len seed =
     murmur_final (murmur_tail key len (murmur_body key 0 (unat (len div 4)) seed) XOR len)"

section \<open>Every mixing step is a bijection\<close>

lemma inj_mult_odd: "x = y" if "x * c = y * c" and "c * c' = 1" for x y c c' :: u32
proof -
  have "x * c * c' = y * c * c'" using that(1) by simp
  then show ?thesis using that(2) by (simp only: mult.assoc mult_1_right)
qed

lemma inj_xorshift:
  fixes x y :: u32
  assumes eq: "x XOR drop_bit k x = y XOR drop_bit k y" and k: "0 < k"
  shows "x = y"
proof (rule bit_word_eqI)
  have "bit x i = bit y i" if "i < 32" for i
    using that
  proof (induction "32 - i" arbitrary: i rule: less_induct)
    case less
    have up: "bit x (k + i) = bit y (k + i)"
    proof (cases "k + i < 32")
      case True
      then show ?thesis using less k by simp
    next
      case False
      then show ?thesis using bit_imp_le_length [of x "k + i"] bit_imp_le_length [of y "k + i"] by auto
    qed
    have "bit (x XOR drop_bit k x) i = bit (y XOR drop_bit k y) i" using eq by simp
    with up show ?case by (auto simp: bit_xor_iff bit_drop_bit_eq)
  qed
  then show "bit x n = bit y n" if "n < LENGTH(32)" for n using that by simp
qed

lemma bit_rotl: "bit (rotl h r) i = (if r \<le> i then bit h (i - r) else bit h (32 - r + i))"
  if "0 < r" "r < 32" "i < 32"
  using that bit_imp_le_length [of h "32 - r + i"]
  by (auto simp: rotl_def bit_or_iff bit_push_bit_iff bit_drop_bit_eq)

lemma inj_rotl:
  assumes eq: "rotl x r = rotl y r" and r: "0 < r" "r < 32"
  shows "x = y"
proof (rule bit_word_eqI)
  fix n
  assume n: "n < LENGTH(32)"
  show "bit x n = bit y n"
  proof (cases "n < 32 - r")
    case True
    then have "bit (rotl x r) (n + r) = bit (rotl y r) (n + r)" using eq by simp
    with True show ?thesis using bit_rotl [OF r, of "n + r"] by simp
  next
    case False
    then have "bit (rotl x r) (n + r - 32) = bit (rotl y r) (n + r - 32)" using eq by simp
    moreover have "n + r - 32 < r" "32 - r + (n + r - 32) = n" using False n r by auto
    ultimately show ?thesis using bit_rotl [OF r, of "n + r - 32"] r by simp
  qed
qed

lemma inj_xor: "x XOR c = y XOR c \<Longrightarrow> x = y" for x y c :: u32
  by (metis xor.assoc xor.right_neutral xor_self_eq)

lemma inj_murmur_final: "murmur_final x = murmur_final y \<Longrightarrow> x = y"
proof -
  let ?a = "\<lambda>x :: u32. (x XOR drop_bit 16 x) * 0x85ebca6b"
  let ?b = "\<lambda>x :: u32. (?a x XOR drop_bit 13 (?a x)) * 0xc2b2ae35"
  assume "murmur_final x = murmur_final y"
  then have "?b x XOR drop_bit 16 (?b x) = ?b y XOR drop_bit 16 (?b y)" by (simp add: murmur_final_def Let_def)
  then have "?b x = ?b y" by (rule inj_xorshift) simp
  then have "?a x XOR drop_bit 13 (?a x) = ?a y XOR drop_bit 13 (?a y)"
    by (rule inj_mult_odd [where c' = "0x7ed1b41d"]) simp
  then have "?a x = ?a y" by (rule inj_xorshift) simp
  then have "x XOR drop_bit 16 x = y XOR drop_bit 16 y"
    by (rule inj_mult_odd [where c' = "0xa5cb9243"]) simp
  then show "x = y" by (rule inj_xorshift) simp
qed

lemma inj_murmur_body: "murmur_body d i n x = murmur_body d i n y \<Longrightarrow> x = y"
proof (induction n arbitrary: i x y)
  case (Suc n)
  let ?s = "\<lambda>h. rotl (h XOR murmur_scramble (chunk d i)) 13"
  have "murmur_body d (Suc i) n (?s x * 5 + 0xe6546b64) = murmur_body d (Suc i) n (?s y * 5 + 0xe6546b64)"
    using Suc.prems by (simp only: murmur_body.simps)
  then have "?s x * 5 + 0xe6546b64 = ?s y * 5 + 0xe6546b64" by (rule Suc.IH)
  then have "?s x * 5 = ?s y * 5" by simp
  then have "?s x = ?s y" by (rule inj_mult_odd [where c' = "0xcccccccd"]) simp
  then have "x XOR murmur_scramble (chunk d i) = y XOR murmur_scramble (chunk d i)" by (rule inj_rotl) simp_all
  then show ?case by (rule inj_xor)
qed simp

lemma inj_murmur_tail: "murmur_tail d len x = murmur_tail d len y \<Longrightarrow> x = y"
  by (auto simp: murmur_tail_def Let_def split: if_splits dest: inj_xor)

lemma hash_test: "murmur_hash (\<lambda>i. [0x74, 0x65, 0x73, 0x74] ! i) 4 0x9747b28c = 0x704b81dc"
proof -
  have c: "chunk (\<lambda>i. [0x74, 0x65, 0x73, 0x74] ! i) 0 = 0x74736574"
    by (simp add: chunk_def)
  have s: "murmur_scramble 0x74736574 = 0x465f51e8"
    by (simp add: murmur_scramble_def rotl_def)
  have b: "rotl (0x9747b28c XOR 0x465f51e8) 13 * 5 + 0xe6546b64 = 0x74736e13"
    by (simp add: rotl_def)
  have l: "(4 :: u32) div 4 = 1" "(4 :: u32) AND 3 = 0" by simp_all
  have f: "murmur_final (0x74736e13 XOR 4) = 0x704b81dc"
    by (simp add: murmur_final_def)
  show ?thesis
    unfolding murmur_hash_def murmur_tail_def Let_def l unat_1 One_nat_def murmur_body.simps c s b
    using f by simp
qed

lemma hash_aaa: "murmur_hash (\<lambda>i. [0x61, 0x61, 0x61] ! i) 3 0x9747b28c = 0x283e0130"
proof -
  have s: "murmur_scramble 0x616161 = 0x539d25ff"
    by (simp add: murmur_scramble_def rotl_def)
  have l: "(3 :: u32) div 4 = 0" "(3 :: u32) AND 3 = 3" by simp_all
  have t: "murmur_tail (\<lambda>i. [0x61, 0x61, 0x61] ! i) 3 0x9747b28c = 0x9747b28c XOR murmur_scramble 0x616161"
    unfolding murmur_tail_def Let_def l by simp
  have f: "murmur_final ((0x9747b28c XOR 0x539d25ff) XOR 3) = 0x283e0130"
    by (simp add: murmur_final_def)
  show ?thesis
    unfolding murmur_hash_def l unat_0 murmur_body.simps t s using f .
qed

section \<open>Properties\<close>

text \<open>For a fixed key the hash is a bijection of the seed (every step of the mixing is invertible), so
  two different seeds never give the same hash; the hash of the empty key with seed zero is zero, and
  the published test vectors for the keys \<open>test\<close> and \<open>aaaa\<close> come out.\<close>

theorem murmur_seed_bijective:
  "bij (murmur_hash key len) \<and> murmur_hash key 0 0 = 0
   \<and> murmur_hash (\<lambda>i. [0x74, 0x65, 0x73, 0x74] ! i) 4 0x9747b28c = 0x704b81dc
   \<and> murmur_hash (\<lambda>i. [0x61, 0x61, 0x61] ! i) 3 0x9747b28c = 0x283e0130"
proof -
  have "inj (murmur_hash key len)"
    unfolding murmur_hash_def
    by (intro injI) (blast dest: inj_murmur_final inj_murmur_tail inj_murmur_body inj_xor)
  then have "bij (murmur_hash key len)" by (simp add: bij_def finite_UNIV_inj_surj)
  moreover have "murmur_hash key 0 0 = 0"
    by (simp add: murmur_hash_def murmur_tail_def murmur_final_def)
  moreover have "murmur_hash (\<lambda>i. [0x74, 0x65, 0x73, 0x74] ! i) 4 0x9747b28c = 0x704b81dc"
    by (rule hash_test)
  moreover have "murmur_hash (\<lambda>i. [0x61, 0x61, 0x61] ! i) 3 0x9747b28c = 0x283e0130"
    by (rule hash_aaa)
  ultimately show ?thesis by blast
qed

end
