(* ===== verification/Hashmap.thy ===== *)
theory Hashmap
  imports Murmur
begin

text \<open>
  \<open>lib/hashmap.c\<close>: a chained hash table. A bucket holds a copy of its key (the bytes that were
  allocated for it) and a value; a bucket chain is the sequence its \<open>list.h\<close> list stands for,
  insertion at the front. A lookup compares as many bytes as the key it looks for has, which may read
  past a shorter stored key: that is the fault \<open>OutOfBounds\<close>. \<open>kzalloc_ok\<close> tells for which sizes
  \<open>kzalloc\<close> returns memory; its result is used unchecked.
\<close>

section \<open>Definitions\<close>

definition MURMUR_SEED :: u32 where "MURMUR_SEED = 0x1234ABCD"

record bucket =
  bucket_key :: "u8 list"
  bucket_value :: addr_t

record hashmap =
  hashmap_size :: size_t
  hashmap_buckets :: "bucket list list"

definition hashmap_hash :: "u8 list \<Rightarrow> size_t \<Rightarrow> size_t res" where
  "hashmap_hash key hsize =
     (let h = ucast (murmur_hash (\<lambda>i. key ! i) (of_nat (length key)) MURMUR_SEED) :: size_t
      in if hsize = 0 then Inl DivByZero else Inr (h mod hsize))"

text \<open>\<open>sizeof(struct hashmap)\<close> is 8 and \<open>sizeof(struct list_element)\<close> is 16. When the product wraps
  around, the loop initialises lists outside the allocation.\<close>

definition hashmap_create :: "(size_t \<Rightarrow> bool) \<Rightarrow> size_t \<Rightarrow> hashmap res" where
  "hashmap_create kzalloc_ok sz =
     (if \<not> kzalloc_ok (8 + sz * 16) then Inl NullDeref
      else if unat (8 + sz * 16) < 8 + unat sz * 16 then Inl OutOfBounds
      else Inr \<lparr>hashmap_size = sz, hashmap_buckets = replicate (unat sz) []\<rparr>)"

text \<open>\<open>memcmp(bucket->key, key, key_size)\<close> as the test for equality, byte by byte.\<close>

fun key_matches :: "u8 list \<Rightarrow> u8 list \<Rightarrow> bool res" where
  "key_matches stored [] = Inr True"
| "key_matches [] (k # ks) = Inl OutOfBounds"
| "key_matches (s # ss) (k # ks) = (if s \<noteq> k then Inr False else key_matches ss ks)"

fun bucket_search :: "bucket list \<Rightarrow> u8 list \<Rightarrow> addr_t res" where
  "bucket_search [] key = Inr NULL"
| "bucket_search (b # bs) key =
     bind_res (key_matches (bucket_key b) key)
       (\<lambda>eq. if eq then Inr (bucket_value b) else bucket_search bs key)"

definition hashmap_get :: "hashmap \<Rightarrow> u8 list \<Rightarrow> addr_t res" where
  "hashmap_get h key =
     bind_res (hashmap_hash key (hashmap_size h)) (\<lambda>index.
       if unat index < length (hashmap_buckets h)
       then if hashmap_buckets h ! unat index = [] then Inr NULL
            else bucket_search (hashmap_buckets h ! unat index) key
       else Inl OutOfBounds)"

definition hashmap_set :: "(size_t \<Rightarrow> bool) \<Rightarrow> hashmap \<Rightarrow> u8 list \<Rightarrow> addr_t \<Rightarrow> (size_t \<times> hashmap) res" where
  "hashmap_set kzalloc_ok h key value =
     bind_res (hashmap_hash key (hashmap_size h)) (\<lambda>index.
       if \<not> kzalloc_ok 32 \<or> \<not> kzalloc_ok (of_nat (length key)) then Inl NullDeref
       else if unat index < length (hashmap_buckets h)
       then Inr (index, h\<lparr>hashmap_buckets := (hashmap_buckets h)[unat index :=
                   \<lparr>bucket_key = key, bucket_value = value\<rparr> # hashmap_buckets h ! unat index]\<rparr>)
       else Inl OutOfBounds)"

section \<open>The contract of a dictionary\<close>

text \<open>A sequence of insertions.\<close>

fun put_all :: "('m \<Rightarrow> 'k \<Rightarrow> 'v \<Rightarrow> 'm res) \<Rightarrow> 'm \<Rightarrow> ('k \<times> 'v) list \<Rightarrow> 'm res" where
  "put_all put m [] = Inr m"
| "put_all put m ((k, v) # kvs) = bind_res (put m k v) (\<lambda>m'. put_all put m' kvs)"

text \<open>\<open>wf n\<close> holds of tables whose keys all have \<open>n\<close> bytes.\<close>

locale dictionary =
  fixes wf :: "nat \<Rightarrow> 'm \<Rightarrow> bool"
    and get :: "'m \<Rightarrow> 'k list \<Rightarrow> addr_t res"
    and put :: "'m \<Rightarrow> 'k list \<Rightarrow> addr_t \<Rightarrow> 'm res"
  assumes put_ok: "wf n m \<Longrightarrow> length k = n \<Longrightarrow> \<exists>m'. put m k v = Inr m' \<and> wf n m'"
    and get_ok: "wf n m \<Longrightarrow> length k = n \<Longrightarrow> \<exists>v. get m k = Inr v"
    and get_put: "wf n m \<Longrightarrow> length k = n \<Longrightarrow> length j = n \<Longrightarrow> put m k v = Inr m' \<Longrightarrow>
        get m' j = (if j = k then Inr v else get m j)"
begin

text \<open>After any sequence of insertions a lookup gives the value inserted last for its key.\<close>

lemma get_put_all:
  assumes "wf n m" and "\<forall>(k, v) \<in> set kvs. length k = n" and "length j = n"
  shows "\<exists>m'. put_all put m kvs = Inr m' \<and> wf n m'
    \<and> get m' j = (case map_of (rev kvs) j of None \<Rightarrow> get m j | Some v \<Rightarrow> Inr v)"
  using assms(1,2)
proof (induction kvs arbitrary: m)
  case (Cons kv kvs)
  obtain k v where kv: "kv = (k, v)" by fastforce
  obtain m1 where m1: "put m k v = Inr m1" "wf n m1" using put_ok [of n m k v] Cons.prems kv by auto
  have "get m1 j = (if j = k then Inr v else get m j)"
    using get_put [OF Cons.prems(1) _ assms(3) m1(1)] Cons.prems kv by simp
  moreover obtain m' where "put_all put m1 kvs = Inr m'" "wf n m'"
      "get m' j = (case map_of (rev kvs) j of None \<Rightarrow> get m1 j | Some v \<Rightarrow> Inr v)"
    using Cons.IH [OF m1(2)] Cons.prems by auto
  ultimately show ?case using m1(1) kv by (auto simp: map_add_def split: option.splits)
qed auto

end

section \<open>The hash table satisfies the contract\<close>

definition hashmap_wf :: "nat \<Rightarrow> hashmap \<Rightarrow> bool" where
  "hashmap_wf n h \<longleftrightarrow> hashmap_size h \<noteq> 0 \<and> length (hashmap_buckets h) = unat (hashmap_size h)
     \<and> (\<forall>bs \<in> set (hashmap_buckets h). \<forall>b \<in> set bs. length (bucket_key b) = n)"

definition hashmap_put :: "hashmap \<Rightarrow> u8 list \<Rightarrow> addr_t \<Rightarrow> hashmap res" where
  "hashmap_put h key value = bind_res (hashmap_set (\<lambda>_. True) h key value) (\<lambda>(index, h'). Inr h')"

lemma key_matches_eq: "length s = length k \<Longrightarrow> key_matches s k = Inr (s = k)"
  by (induction s k rule: key_matches.induct) auto

lemma bucket_search_eq:
  "\<forall>b \<in> set bs. length (bucket_key b) = length key \<Longrightarrow>
     bucket_search bs key = Inr (case find (\<lambda>b. bucket_key b = key) bs of None \<Rightarrow> NULL | Some b \<Rightarrow> bucket_value b)"
  by (induction bs) (auto simp: key_matches_eq)

lemma hash_in_range:
  assumes "hashmap_wf n h"
  obtains i where "hashmap_hash key (hashmap_size h) = Inr i" and "unat i < length (hashmap_buckets h)"
proof -
  have "unat (x mod hashmap_size h) < unat (hashmap_size h)" for x
    using assms by (simp add: hashmap_wf_def unat_mod_distrib unat_gt_0 word_less_nat_alt [symmetric])
  then show ?thesis using assms that by (simp add: hashmap_wf_def hashmap_hash_def)
qed

lemma hashmap_get_eq:
  assumes "hashmap_wf (length key) h" and "hashmap_hash key (hashmap_size h) = Inr i"
  shows "hashmap_get h key = Inr (case find (\<lambda>b. bucket_key b = key) (hashmap_buckets h ! unat i) of
      None \<Rightarrow> NULL | Some b \<Rightarrow> bucket_value b)"
proof -
  obtain i' where i: "hashmap_hash key (hashmap_size h) = Inr i'" "unat i' < length (hashmap_buckets h)"
    using hash_in_range [OF assms(1)] .
  then have [simp]: "i' = i" using assms(2) by simp
  have "\<forall>b \<in> set (hashmap_buckets h ! unat i). length (bucket_key b) = length key"
    using assms(1) i(2) by (auto simp: hashmap_wf_def)
  then show ?thesis using i bucket_search_eq by (auto simp: hashmap_get_def)
qed

lemma hashmap_wf_cons:
  assumes "hashmap_wf n m" and "i < length (hashmap_buckets m)" and "length (bucket_key b) = n"
  shows "hashmap_wf n (m\<lparr>hashmap_buckets := (hashmap_buckets m)[i := b # hashmap_buckets m ! i]\<rparr>)"
proof -
  have "length (bucket_key c) = n" if "c \<in> set (hashmap_buckets m ! i)" for c
    using assms(1) nth_mem [OF assms(2)] that by (auto simp: hashmap_wf_def)
  then show ?thesis
    using assms by (auto simp: hashmap_wf_def dest!: set_update_subset_insert [THEN subsetD])
qed

interpretation hmap: dictionary hashmap_wf hashmap_get hashmap_put
proof (unfold_locales, goal_cases)
  case (1 n m k v)
  obtain i where "hashmap_hash k (hashmap_size m) = Inr i" "unat i < length (hashmap_buckets m)"
    using hash_in_range [OF 1(1)] .
  with 1 show ?case
    by (auto simp: hashmap_put_def hashmap_set_def intro!: hashmap_wf_cons)
next
  case (2 n m k)
  then show ?case using hash_in_range hashmap_get_eq by metis
next
  case (3 n m k j v m')
  obtain i where i: "hashmap_hash k (hashmap_size m) = Inr i" "unat i < length (hashmap_buckets m)"
    using hash_in_range [OF 3(1)] .
  obtain i' where i': "hashmap_hash j (hashmap_size m) = Inr i'" "unat i' < length (hashmap_buckets m)"
    using hash_in_range [OF 3(1)] .
  let ?m' = "m\<lparr>hashmap_buckets := (hashmap_buckets m)[unat i := \<lparr>bucket_key = k, bucket_value = v\<rparr> # hashmap_buckets m ! unat i]\<rparr>"
  have m': "m' = ?m'" using 3(4) i by (simp add: hashmap_put_def hashmap_set_def)
  have "hashmap_wf n m'"
    using 3 i unfolding m' by (auto intro!: hashmap_wf_cons)
  then have g': "hashmap_get m' j = Inr (case find (\<lambda>b. bucket_key b = j) (hashmap_buckets m' ! unat i') of
      None \<Rightarrow> NULL | Some b \<Rightarrow> bucket_value b)"
    using hashmap_get_eq [of j m' i'] 3(3) i' by (simp add: m')
  have g: "hashmap_get m j = Inr (case find (\<lambda>b. bucket_key b = j) (hashmap_buckets m ! unat i') of
      None \<Rightarrow> NULL | Some b \<Rightarrow> bucket_value b)"
    using hashmap_get_eq [of j m i'] 3(1,3) i' by simp
  show ?case
  proof (cases "i' = i")
    case True
    then show ?thesis using g g' i by (auto simp: m')
  next
    case False
    then have "j \<noteq> k" using i i' by auto
    moreover have "unat i' \<noteq> unat i" using False by (simp add: word_unat_eq_iff)
    ultimately show ?thesis using g g' by (simp add: m')
  qed
qed

section \<open>Properties\<close>

text \<open>C14: as long as all keys have the same length, the table is a dictionary: starting from
  \<open>hashmap_create\<close> with a size that is not zero, after any sequence of insertions (none of them faults)
  a lookup returns the value inserted last for its key, and NULL for a key never inserted.\<close>

theorem hashmap_last_write_wins:
  assumes create: "hashmap_create (\<lambda>_. True) sz = Inr h" and sz: "sz \<noteq> 0"
    and keys: "\<forall>(k, v) \<in> set kvs. length k = n" and j: "length j = n"
  shows "\<exists>h'. put_all hashmap_put h kvs = Inr h' \<and> hashmap_get h' j =
    Inr (case map_of (rev kvs) j of None \<Rightarrow> NULL | Some v \<Rightarrow> v)"
proof -
  have h: "h = \<lparr>hashmap_size = sz, hashmap_buckets = replicate (unat sz) []\<rparr>"
    using create by (auto simp: hashmap_create_def split: if_splits)
  then have wf: "hashmap_wf n h" using sz by (simp add: hashmap_wf_def)
  obtain i where "hashmap_hash j (hashmap_size h) = Inr i" "unat i < length (hashmap_buckets h)"
    using hash_in_range [OF wf] .
  then have "hashmap_get h j = Inr NULL" by (simp add: hashmap_get_def h)
  then show ?thesis
    using hmap.get_put_all [OF wf keys j] by (auto split: option.splits)
qed

theorem hashmap_last_write_wins_witness:
  "\<exists>h h'. hashmap_create (\<lambda>_. True) 0x100 = Inr h
     \<and> put_all hashmap_put h [([116], 1), ([98], 2), ([116], 3)] = Inr h' \<and> hashmap_get h' [116] = Inr 3"
proof -
  obtain h where h: "hashmap_create (\<lambda>_. True) 0x100 = Inr h" by (simp add: hashmap_create_def)
  then show ?thesis using hashmap_last_write_wins [OF h, of "[([116], 1), ([98], 2), ([116], 3)]" 1 "[116]"] by auto
qed

text \<open>With keys of different lengths the table confuses a key with its prefix, and a lookup can read past
  a stored key: when the chains meet, looking up a proper prefix of a stored key returns that key's value,
  and looking up a proper extension is an access out of bounds. Here on a table with one chain.\<close>

theorem hashmap_prefix_confusion:
  "\<exists>h h'. hashmap_create (\<lambda>_. True) 1 = Inr h \<and> hashmap_put h (k @ [x]) v = Inr h'
     \<and> hashmap_get h' k = Inr v \<and> hashmap_get h' (k @ [x, y]) = Inl OutOfBounds"
proof -
  have one: "hashmap_hash key 1 = Inr 0" for key by (simp add: hashmap_hash_def)
  have pre: "key_matches (k @ [x]) k = Inr True" for k by (induction k) auto
  have ext: "key_matches (k @ [x]) (k @ [x, y]) = Inl OutOfBounds" for k by (induction k) auto
  show ?thesis
    by (simp add: hashmap_create_def hashmap_put_def hashmap_set_def hashmap_get_def one pre ext)
qed

end
