(* ===== verification/Vfs.thy ===== *)
theory Vfs
  imports Hashmap
begin

text \<open>
  The virtual file system: \<open>include/fs/*.h\<close>, \<open>fs/dentry.c\<close>, \<open>fs/inode.c\<close>, \<open>fs/mount.c\<close>, \<open>fs/fs.c\<close>,
  \<open>fs/path.c\<close>, \<open>fs/file.c\<close>, \<open>fs/device.c\<close>, \<open>block/block.c\<close> and the only file system, \<open>fs/initfs/initfs.c\<close>.
  Inodes, superblocks and the data of initfs live at addresses; dentries, files and mount points are values, since
  nothing shares them. A string is its characters (the string functions are verified in \<open>CString\<close>; the names are
  shorter than \<open>DENTRY_NAME_MAX - 1\<close>, for longer ones \<open>strncpy\<close> leaves no terminator). The addresses the successive
  calls of \<open>kmalloc\<close> return are an input of the model (\<open>fs_allocs\<close>; NULL, or the end of the list, is a failed
  allocation).
\<close>

section \<open>Definitions\<close>

subsection \<open>Constants\<close>

definition EIO :: u64 where "EIO = 5"
definition ENOENT :: u64 where "ENOENT = 2"
definition ENODEV :: u64 where "ENODEV = 19"

definition O_CREAT :: u32 where "O_CREAT = 0x0200"
definition DENTRY_NAME_MAX :: nat where "DENTRY_NAME_MAX = 256"

definition S_IFMT :: mode_t where "S_IFMT = 0xF000"
definition S_IFDIR :: mode_t where "S_IFDIR = 0x4000"
definition S_ISDIR :: "mode_t \<Rightarrow> bool" where "S_ISDIR m \<longleftrightarrow> m AND S_IFMT = S_IFDIR"

definition MAX_INODES :: nat where "MAX_INODES = 1000"

subsection \<open>Structures\<close>

text \<open>The tables of function pointers: initfs provides the only one of each kind.\<close>

datatype inode_operations = Initfs_inode_operations
datatype file_operations = Initfs_file_operations
datatype superblock_operations = Initfs_superblock_operations

record mountpoint =
  mp_inode :: addr_t
  mp_sb :: addr_t

record inode =
  i_ino :: ino_t
  i_mode :: mode_t
  i_uid :: uid_t
  i_gid :: gid_t
  i_size :: size_t
  i_atime :: time_t
  i_mtime :: time_t
  i_ctime :: time_t
  i_flags :: u32
  i_ops :: "inode_operations option"
  i_fops :: "file_operations option"
  i_sb :: addr_t
  i_mp :: "mountpoint list"
  i_fs_dev :: "addr_t option"

record dentry =
  d_sb :: addr_t
  d_ino :: ino_t
  d_name :: string

record superblock =
  s_ops :: "superblock_operations option"
  s_root :: addr_t
  s_data :: addr_t

record filesystem =
  fs_addr :: addr_t
  fs_name :: string

record fs_file =
  f_inode :: addr_t
  f_dentry :: dentry
  f_off :: off_t
  f_ops :: "file_operations option"

text \<open>The data of initfs. The contents of a file are the buffer \<open>kmalloc\<close> returned (None for a byte nobody wrote), and a
  slot of the inode table is unwritten until an inode is stored there, because the table is not cleared.\<close>

record initfs_dirent =
  dir_name :: string
  dir_ino :: ino_t

record initfs_inode =
  rn_mode :: mode_t
  rn_ino :: ino_t
  rn_uid :: uid_t
  rn_gid :: gid_t
  rn_size :: size_t
  rn_nlink :: nlink_t
  rn_data :: "u8 option list option"
  rn_entries :: "initfs_dirent list"

datatype slot = Unwritten | Null_slot | Slot initfs_inode

record initfs_data =
  data_inodes :: "nat \<Rightarrow> slot"
  data_next :: ino_t

record fs =
  inode_at :: "addr_t \<Rightarrow> inode"
  sb_at :: "addr_t \<Rightarrow> superblock"
  data_at :: "addr_t \<Rightarrow> initfs_data"
  inode_cache :: hashmap
  fs_list :: "filesystem list"
  proc_root :: addr_t
  proc_cwd :: addr_t
  fs_allocs :: "addr_t list"

definition zero_inode :: inode where
  "zero_inode = \<lparr>i_ino = 0, i_mode = 0, i_uid = 0, i_gid = 0, i_size = 0, i_atime = 0, i_mtime = 0, i_ctime = 0, i_flags = 0,
     i_ops = None, i_fops = None, i_sb = 0, i_mp = [], i_fs_dev = None\<rparr>"

definition zero_rnode :: initfs_inode where
  "zero_rnode = \<lparr>rn_mode = 0, rn_ino = 0, rn_uid = 0, rn_gid = 0, rn_size = 0, rn_nlink = 0, rn_data = None, rn_entries = []\<rparr>"

text \<open>Dereferencing: NULL, and the small negative numbers an error code makes as a pointer, are faults.\<close>

definition deref :: "(addr_t \<Rightarrow> 'a) \<Rightarrow> addr_t \<Rightarrow> 'a res" where
  "deref store p = (if p = NULL then Inl NullDeref else if p \<ge> - 4095 then Inl OutOfBounds else Inr (store p))"

definition upd_inode :: "fs \<Rightarrow> addr_t \<Rightarrow> (inode \<Rightarrow> inode) \<Rightarrow> fs" where
  "upd_inode s p g = s\<lparr>inode_at := (inode_at s)(p := g (inode_at s p))\<rparr>"

definition upd_data :: "fs \<Rightarrow> addr_t \<Rightarrow> (initfs_data \<Rightarrow> initfs_data) \<Rightarrow> fs" where
  "upd_data s p g = s\<lparr>data_at := (data_at s)(p := g (data_at s p))\<rparr>"

definition fs_kmalloc :: "fs \<Rightarrow> addr_t \<times> fs" where
  "fs_kmalloc s = (case fs_allocs s of [] \<Rightarrow> (NULL, s) | a # as \<Rightarrow> (a, s\<lparr>fs_allocs := as\<rparr>))"

subsection \<open>initfs: files\<close>

definition rnode_slot :: "initfs_data \<Rightarrow> ino_t \<Rightarrow> slot res" where
  "rnode_slot d n = (if unat n < MAX_INODES
     then case data_inodes d (unat n) of Unwritten \<Rightarrow> Inl Uninitialised | sl \<Rightarrow> Inr sl
     else Inl OutOfBounds)"

definition set_slot :: "initfs_data \<Rightarrow> ino_t \<Rightarrow> initfs_inode \<Rightarrow> initfs_data" where
  "set_slot d n r = d\<lparr>data_inodes := (data_inodes d)(unat n := Slot r)\<rparr>"

text \<open>The first lines of every operation: the data of the superblock, and the initfs inode of an inode. \<open>Inr None\<close> is the
  early return of \<open>-EIO\<close>.\<close>

definition initfs_node :: "fs \<Rightarrow> inode \<Rightarrow> (addr_t \<times> initfs_inode) option res" where
  "initfs_node s ino =
     bind_res (deref (sb_at s) (i_sb ino)) (\<lambda>sb.
       if s_data sb = NULL then Inr None
       else bind_res (rnode_slot (data_at s (s_data sb)) (i_ino ino)) (\<lambda>sl.
         case sl of Slot r \<Rightarrow> Inr (Some (s_data sb, r)) | _ \<Rightarrow> Inr None))"

text \<open>\<open>memcpy(buffer, i_data + offset, tot)\<close>.\<close>

definition copy_out :: "u8 option list option \<Rightarrow> off_t \<Rightarrow> size_t \<Rightarrow> u8 option list res" where
  "copy_out d offset tot =
     (if tot = 0 then Inr [] else case d of None \<Rightarrow> Inl NullDeref
      | Some b \<Rightarrow> if unat offset + unat tot \<le> length b then Inr (take (unat tot) (drop (unat offset) b)) else Inl OutOfBounds)"

text \<open>The result and the bytes stored into the caller's buffer from its start.\<close>

definition initfs_read :: "fs \<Rightarrow> fs_file \<Rightarrow> size_t \<Rightarrow> off_t \<Rightarrow> (ssize_t \<times> u8 option list) res" where
  "initfs_read s file sz offset =
     bind_res (deref (inode_at s) (f_inode file)) (\<lambda>ino.
     bind_res (initfs_node s ino) (\<lambda>n. case n of None \<Rightarrow> Inr (- EIO, [])
     | Some (p, rnode) \<Rightarrow>
        let tot = sz + offset;
            tot = (if tot > rn_size rnode then rn_size rnode - offset else tot)
        in bind_res (copy_out (rn_data rnode) offset tot) (\<lambda>bytes. Inr (tot, bytes))))"

text \<open>\<open>memcpy(new, i_data, i_size)\<close> into the fresh buffer of \<open>tot\<close> bytes, when there are contents.\<close>

definition grow :: "u8 option list option \<Rightarrow> size_t \<Rightarrow> size_t \<Rightarrow> u8 option list res" where
  "grow d isize tot =
     (case d of None \<Rightarrow> Inr (replicate (unat tot) None)
      | Some b \<Rightarrow> if unat isize \<le> length b \<and> unat isize \<le> unat tot
          then Inr (take (unat isize) b @ replicate (unat tot - unat isize) None) else Inl OutOfBounds)"

definition initfs_write :: "fs \<Rightarrow> fs_file \<Rightarrow> u8 list \<Rightarrow> size_t \<Rightarrow> off_t \<Rightarrow> (ssize_t \<times> fs) res" where
  "initfs_write s file buffer sz offset =
     bind_res (deref (inode_at s) (f_inode file)) (\<lambda>ino.
     bind_res (initfs_node s ino) (\<lambda>n. case n of None \<Rightarrow> Inr (- EIO, s)
     | Some (p, rnode) \<Rightarrow>
        let tot = sz + offset;
            (new, s) = fs_kmalloc s
        in if new = NULL then Inl NullDeref else
           bind_res (grow (rn_data rnode) (rn_size rnode) tot) (\<lambda>b.
           if unat sz \<le> length buffer \<and> unat offset + unat sz \<le> length b
           then let b = take (unat offset) b @ map Some (take (unat sz) buffer) @ drop (unat offset + unat sz) b;
                    rnode = rnode\<lparr>rn_data := Some b, rn_size := rn_size rnode + sz\<rparr>;
                    s = upd_data s p (\<lambda>d. set_slot d (i_ino ino) rnode);
                    s = upd_inode s (f_inode file) (\<lambda>i. i\<lparr>i_size := i_size i + sz\<rparr>)
                in Inr (sz, s)
           else Inl OutOfBounds)))"

subsection \<open>Inodes\<close>

definition le_bytes :: "u64 \<Rightarrow> u8 list" where
  "le_bytes w = map (\<lambda>i. ucast (drop_bit (8 * i) w)) [0 ..< 8]"

definition inode_key :: "addr_t \<Rightarrow> ino_t \<Rightarrow> u8 list" where
  "inode_key sb ino = le_bytes sb @ le_bytes ino"

definition inode_check_cache :: "fs \<Rightarrow> addr_t \<Rightarrow> ino_t \<Rightarrow> addr_t res" where
  "inode_check_cache s sb ino = hashmap_get (inode_cache s) (inode_key sb ino)"

definition inode_insert_cache :: "fs \<Rightarrow> addr_t \<Rightarrow> addr_t \<Rightarrow> fs res" where
  "inode_insert_cache s sb p =
     bind_res (deref (inode_at s) p) (\<lambda>ino.
     bind_res (hashmap_set (\<lambda>_. True) (inode_cache s) (inode_key sb (i_ino ino)) p) (\<lambda>(index, h).
       Inr (s\<lparr>inode_cache := h\<rparr>)))"

text \<open>No superblock has an \<open>alloc_inode\<close>.\<close>

definition inode_allocate :: "fs \<Rightarrow> addr_t \<Rightarrow> (addr_t \<times> fs) res" where
  "inode_allocate s sb =
     bind_res (deref (sb_at s) sb) (\<lambda>b. case s_ops b of None \<Rightarrow> Inl NullDeref
     | Some Initfs_superblock_operations \<Rightarrow>
         let (p, s) = fs_kmalloc s
         in Inr (p, if p = NULL then s else upd_inode s p (\<lambda>_. zero_inode)))"

definition inode_init :: "fs \<Rightarrow> fs res" where
  "inode_init s = bind_res (hashmap_create (\<lambda>_. True) 0x4000) (\<lambda>h. Inr (s\<lparr>inode_cache := h\<rparr>))"

subsection \<open>initfs: inodes and directories\<close>

definition initfs_allocate :: "fs \<Rightarrow> addr_t \<Rightarrow> (addr_t \<times> fs) res" where
  "initfs_allocate s sb =
     bind_res (inode_allocate s sb) (\<lambda>(p, s). if p = NULL then Inl NullDeref
       else Inr (p, upd_inode s p (\<lambda>i. i\<lparr>i_ops := Some Initfs_inode_operations, i_fops := Some Initfs_file_operations, i_sb := sb\<rparr>)))"

text \<open>\<open>strncpy\<close> into a name of \<open>DENTRY_NAME_MAX\<close> bytes.\<close>

definition copy_name :: "string \<Rightarrow> string" where
  "copy_name name = take DENTRY_NAME_MAX name"

text \<open>The inode created, or \<open>-EIO\<close> as a pointer, and the dentry with its inode number. Both the new initfs inode and the
  directory entry come from \<open>kzalloc\<close> and are used unchecked; the table has no bound check.\<close>

definition initfs_create :: "fs \<Rightarrow> addr_t \<Rightarrow> dentry \<Rightarrow> mode_t \<Rightarrow> (addr_t \<times> dentry \<times> fs) res" where
  "initfs_create s parent dentry mode =
     bind_res (deref (inode_at s) parent) (\<lambda>par.
     bind_res (deref (sb_at s) (i_sb par)) (\<lambda>sb.
     let data = s_data sb; (rnode, s) = fs_kmalloc s in
     bind_res (initfs_allocate s (i_sb par)) (\<lambda>(p, s).
     let (dir, s) = fs_kmalloc s in
     if data = NULL then Inl NullDeref else
     bind_res (rnode_slot (data_at s data) (i_ino par)) (\<lambda>sl. case sl of
       Slot iparent \<Rightarrow>
         let n = data_next (data_at s data) in
         if rnode = NULL \<or> dir = NULL then Inl NullDeref
         else if \<not> unat n < MAX_INODES then Inl OutOfBounds
         else let s = upd_inode s p (\<lambda>i. i\<lparr>i_ino := n, i_mode := mode\<rparr>);
                  dentry = dentry\<lparr>d_ino := n\<rparr>;
                  entry = \<lparr>dir_name = copy_name (d_name dentry), dir_ino = n\<rparr>;
                  s = upd_data s data (\<lambda>d. set_slot (d\<lparr>data_next := n + 1\<rparr>) n (zero_rnode\<lparr>rn_ino := n, rn_mode := mode\<rparr>));
                  s = upd_data s data (\<lambda>d. case data_inodes d (unat (i_ino par)) of
                        Slot r \<Rightarrow> set_slot d (i_ino par) (r\<lparr>rn_entries := entry # rn_entries r\<rparr>) | _ \<Rightarrow> d)
              in Inr (p, dentry, s)
     | _ \<Rightarrow> Inr (- EIO, dentry, s)))))"

definition initfs_lookup :: "fs \<Rightarrow> addr_t \<Rightarrow> dentry \<Rightarrow> (u64 \<times> dentry) res" where
  "initfs_lookup s root entry =
     bind_res (deref (inode_at s) root) (\<lambda>ino.
     bind_res (initfs_node s ino) (\<lambda>n. case n of None \<Rightarrow> Inr (- EIO, entry)
     | Some (p, rnode) \<Rightarrow> (case find (\<lambda>e. dir_name e = d_name entry) (rn_entries rnode) of
          Some e \<Rightarrow> Inr (0, entry\<lparr>d_ino := dir_ino e, d_sb := i_sb ino\<rparr>)
        | None \<Rightarrow> Inr (- ENOENT, entry))))"

definition initfs_write_inode :: "fs \<Rightarrow> addr_t \<Rightarrow> (u64 \<times> fs) res" where
  "initfs_write_inode s node =
     bind_res (deref (inode_at s) node) (\<lambda>ino.
     bind_res (initfs_node s ino) (\<lambda>n. case n of None \<Rightarrow> Inr (- EIO, s)
     | Some (p, rnode) \<Rightarrow> Inr (0, upd_data s p (\<lambda>d. set_slot d (i_ino ino) (rnode\<lparr>rn_mode := i_mode ino, rn_ino := i_ino ino,
          rn_uid := i_uid ino, rn_gid := i_gid ino, rn_size := i_size ino\<rparr>)))))"

definition initfs_read_inode :: "fs \<Rightarrow> addr_t \<Rightarrow> (u64 \<times> fs) res" where
  "initfs_read_inode s node =
     bind_res (deref (inode_at s) node) (\<lambda>ino.
     bind_res (initfs_node s ino) (\<lambda>n. case n of None \<Rightarrow> Inr (- EIO, s)
     | Some (p, rnode) \<Rightarrow> Inr (0, upd_inode s node (\<lambda>i. i\<lparr>i_mode := rn_mode rnode, i_ino := rn_ino rnode, i_uid := rn_uid rnode,
          i_gid := rn_gid rnode, i_size := rn_size rnode, i_ops := Some Initfs_inode_operations,
          i_fops := Some Initfs_file_operations\<rparr>))))"

definition initfs_mount :: "fs \<Rightarrow> addr_t \<Rightarrow> (u64 \<times> fs) res" where
  "initfs_mount s sb =
     (let (data, s) = fs_kmalloc s in
      if data = NULL \<or> sb = NULL then Inl NullDeref
      else let s = upd_data s data (\<lambda>_. \<lparr>data_inodes = (\<lambda>_. Unwritten), data_next = 1\<rparr>);
               s = s\<lparr>sb_at := (sb_at s)(sb := (sb_at s sb)\<lparr>s_data := data, s_ops := Some Initfs_superblock_operations\<rparr>)\<rparr>
           in bind_res (initfs_allocate s sb) (\<lambda>(root_inode, s).
              let s = upd_inode s root_inode (\<lambda>i. i\<lparr>i_ino := 0, i_mode := S_IFDIR\<rparr>);
                  s = s\<lparr>sb_at := (sb_at s)(sb := (sb_at s sb)\<lparr>s_root := root_inode\<rparr>)\<rparr>;
                  (root, s) = fs_kmalloc s
              in if root = NULL then Inl NullDeref
                 else Inr (0, upd_data s data (\<lambda>d. set_slot d 0 (zero_rnode\<lparr>rn_ino := 0, rn_mode := S_IFDIR\<rparr>)))))"

subsection \<open>Dentries\<close>

definition call_lookup :: "fs \<Rightarrow> addr_t \<Rightarrow> dentry \<Rightarrow> (u64 \<times> dentry) res" where
  "call_lookup s p d =
     bind_res (deref (inode_at s) p) (\<lambda>ino. case i_ops ino of None \<Rightarrow> Inl NullDeref
     | Some Initfs_inode_operations \<Rightarrow> initfs_lookup s p d)"

definition dentry_allocate :: "fs \<Rightarrow> dentry option \<times> fs" where
  "dentry_allocate s = (let (p, s) = fs_kmalloc s in (if p = NULL then None else Some \<lparr>d_sb = 0, d_ino = 0, d_name = []\<rparr>, s))"

definition dentry_lookup :: "fs \<Rightarrow> addr_t \<Rightarrow> string \<Rightarrow> (dentry option \<times> fs) res" where
  "dentry_lookup s p name =
     (if p = NULL then Inr (None, s)
      else case dentry_allocate s of (None, s) \<Rightarrow> Inr (None, s)
      | (Some d, s) \<Rightarrow> bind_res (call_lookup s p (d\<lparr>d_name := copy_name name\<rparr>)) (\<lambda>(r, d).
          if r <s 0 then Inr (None, s) else Inr (Some d, s)))"

definition inode_resolve_dentry :: "fs \<Rightarrow> dentry option \<Rightarrow> (addr_t \<times> fs) res" where
  "inode_resolve_dentry s dentry =
     (case dentry of None \<Rightarrow> Inr (NULL, s)
      | Some d \<Rightarrow>
        bind_res (inode_check_cache s (d_sb d) (d_ino d)) (\<lambda>p. if p \<noteq> NULL then Inr (p, s) else
        bind_res (inode_allocate s (d_sb d)) (\<lambda>(p, s). if p = NULL then Inr (NULL, s) else
        bind_res (initfs_read_inode (upd_inode s p (\<lambda>i. i\<lparr>i_ino := d_ino d, i_sb := d_sb d\<rparr>)) p) (\<lambda>(r, s). Inr (p, s)))))"

subsection \<open>Paths\<close>

text \<open>One call of \<open>strtok_r(str, "/", &str)\<close>: the token and the rest.\<close>

definition next_token :: "string \<Rightarrow> (string \<times> string) option" where
  "next_token str =
     (let str = dropWhile (\<lambda>c. c = CHR ''/'') str
      in if str = [] then None
         else Some (takeWhile (\<lambda>c. c \<noteq> CHR ''/'') str, drop 1 (dropWhile (\<lambda>c. c \<noteq> CHR ''/'') str)))"

text \<open>\<open>dirname\<close>: trailing slashes are cut off (one that is the whole string stays), then everything behind the last slash;
  a string with no slash, or with its only one in front, gives the root.\<close>

definition strip_slashes :: "string \<Rightarrow> string" where
  "strip_slashes path = rev (dropWhile (\<lambda>c. c = CHR ''/'') (rev path))"

definition dirname :: "string \<Rightarrow> string" where
  "dirname original =
     (if original = [] then ''/''
      else let path = strip_slashes original
           in if path = [] then ''/''
              else let dir = rev (dropWhile (\<lambda>c. c \<noteq> CHR ''/'') (rev path))
                   in if length dir \<le> 1 then ''/'' else butlast dir)"

definition basename :: "string \<Rightarrow> string" where
  "basename name = rev (takeWhile (\<lambda>c. c \<noteq> CHR ''/'') (rev name))"

definition path_resolve_mountpoint :: "fs \<Rightarrow> addr_t \<Rightarrow> addr_t res" where
  "path_resolve_mountpoint s original =
     bind_res (deref (inode_at s) original) (\<lambda>ino.
       case i_mp ino of mp # _ \<Rightarrow> Inr (mp_inode mp) | [] \<Rightarrow> Inr original)"

lemma bind_res_cong [fundef_cong]:
  "r = r' \<Longrightarrow> (\<And>x. r' = Inr x \<Longrightarrow> f x = g x) \<Longrightarrow> bind_res r f = bind_res r' g"
  by (cases r') auto

lemma next_token_shorter: "next_token str = Some (name, rest) \<Longrightarrow> length rest < length str"
proof -
  assume a: "next_token str = Some (name, rest)"
  let ?t = "dropWhile (\<lambda>c. c = CHR ''/'') str"
  have t: "?t \<noteq> []" and r: "rest = drop 1 (dropWhile (\<lambda>c. c \<noteq> CHR ''/'') ?t)"
    using a by (auto simp: next_token_def Let_def split: if_splits)
  have "hd ?t \<noteq> CHR ''/''" using t hd_dropWhile [of "\<lambda>c. c = CHR ''/''" str] by simp
  then have "length (dropWhile (\<lambda>c. c \<noteq> CHR ''/'') ?t) < length ?t"
    using t by (cases ?t) (auto simp: le_imp_less_Suc length_dropWhile_le)
  then show ?thesis unfolding r using length_dropWhile_le [of "\<lambda>c. c = CHR ''/''" str] by (simp add: less_diff_conv)
qed

function resolve_dentry_loop :: "fs \<Rightarrow> addr_t \<Rightarrow> dentry option \<Rightarrow> string \<Rightarrow> (dentry option \<times> fs) res" where
  "resolve_dentry_loop s inode dentry str =
     (if inode = NULL then Inr (dentry, s)
      else case next_token str of None \<Rightarrow> Inr (dentry, s)
      | Some (name, rest) \<Rightarrow>
          bind_res (dentry_lookup s inode name) (\<lambda>(d, s1). case d of None \<Rightarrow> Inr (None, s1) | Some d' \<Rightarrow>
          bind_res (inode_resolve_dentry s1 d) (\<lambda>(p, s2).
          bind_res (path_resolve_mountpoint s2 p) (\<lambda>q. resolve_dentry_loop s2 q d rest))))"
  by pat_completeness auto
termination
  by (relation "measure (\<lambda>(s, inode, dentry, str). length str)") (auto dest: next_token_shorter)

declare resolve_dentry_loop.simps [simp del]

definition path_resolve_dentry :: "fs \<Rightarrow> addr_t \<Rightarrow> string \<Rightarrow> (dentry option \<times> fs) res" where
  "path_resolve_dentry s start path = (if start = NULL then Inr (None, s) else resolve_dentry_loop s start None path)"

text \<open>The inode, the dentry stored through the pointer (None where it is not stored), and the new state.\<close>

definition path_resolve_existing :: "fs \<Rightarrow> addr_t \<Rightarrow> string \<Rightarrow> (addr_t \<times> dentry option \<times> fs) res" where
  "path_resolve_existing s start path =
     bind_res (path_resolve_dentry s start path) (\<lambda>(d, s). case d of None \<Rightarrow> Inr (NULL, None, s)
     | Some _ \<Rightarrow> bind_res (inode_resolve_dentry s d) (\<lambda>(p, s). Inr (p, d, s)))"

text \<open>\<open>path_resolve\<close> without \<open>O_CREAT\<close>, as \<open>__path_resolve_create\<close> calls it for the directory.\<close>

definition path_lookup :: "fs \<Rightarrow> string \<Rightarrow> (addr_t \<times> dentry option \<times> fs) res" where
  "path_lookup s path =
     (case path of c # cs \<Rightarrow> if c = CHR ''/''
        then if cs = [] then Inr (proc_root s, None, s) else path_resolve_existing s (proc_root s) cs
        else path_resolve_existing s (proc_cwd s) path
      | [] \<Rightarrow> path_resolve_existing s (proc_cwd s) path)"

definition path_resolve_create :: "fs \<Rightarrow> addr_t \<Rightarrow> string \<Rightarrow> mode_t \<Rightarrow> (addr_t \<times> dentry option \<times> fs) res" where
  "path_resolve_create s start path mode =
     (if start = NULL then Inr (NULL, None, s)
      else bind_res (path_lookup s (dirname path)) (\<lambda>(dir, _, s).
        if dir = NULL then Inr (NULL, None, s) else
        bind_res (deref (inode_at s) dir) (\<lambda>dino.
        if \<not> S_ISDIR (i_mode dino) then Inr (NULL, None, s) else
        bind_res (dentry_lookup s dir (basename path)) (\<lambda>(found, s). case found of
          Some _ \<Rightarrow> bind_res (inode_resolve_dentry s found) (\<lambda>(p, s). Inr (p, None, s))
        | None \<Rightarrow>
            let (new, s) = fs_kmalloc s in if new = NULL then Inl NullDeref else
            case i_ops dino of None \<Rightarrow> Inl NullDeref | Some Initfs_inode_operations \<Rightarrow>
            bind_res (initfs_create s dir \<lparr>d_sb = 0, d_ino = 0, d_name = copy_name (basename path)\<rparr> mode) (\<lambda>(p, d, s).
            bind_res (deref (inode_at s) p) (\<lambda>ino.
            bind_res (inode_insert_cache s (i_sb ino) p) (\<lambda>s. Inr (p, Some d, s))))))))"

definition path_resolve :: "fs \<Rightarrow> string \<Rightarrow> u32 \<Rightarrow> mode_t \<Rightarrow> (addr_t \<times> dentry option \<times> fs) res" where
  "path_resolve s path flags mode =
     (if path = ''/'' then Inr (proc_root s, None, s)
      else let (start, path') = (case path of c # cs \<Rightarrow> if c = CHR ''/'' then (proc_root s, cs) else (proc_cwd s, path)
                                 | [] \<Rightarrow> (proc_cwd s, path))
           in if flags AND O_CREAT \<noteq> 0 then path_resolve_create s start path' mode
              else path_resolve_existing s start path')"

subsection \<open>Files\<close>

definition file_allocate :: "fs \<Rightarrow> bool \<times> fs" where
  "file_allocate s = (let (p, s) = fs_kmalloc s in (p \<noteq> NULL, s))"

definition file_open :: "fs \<Rightarrow> string \<Rightarrow> u32 \<Rightarrow> mode_t \<Rightarrow> (fs_file option \<times> fs) res" where
  "file_open s name flags mode =
     bind_res (path_resolve s name flags mode) (\<lambda>(p, d, s). case d of None \<Rightarrow> Inr (None, s)
     | Some dentry \<Rightarrow> if p = NULL then Inr (None, s) else
         let (ok, s) = file_allocate s in if \<not> ok then Inr (None, s) else
         bind_res (deref (inode_at s) p) (\<lambda>ino.
           Inr (Some \<lparr>f_inode = p, f_dentry = dentry, f_off = 0, f_ops = i_fops ino\<rparr>, s)))"

text \<open>The read operation of a block device is a parameter: device, size and offset to result and bytes.\<close>

definition file_pread ::
  "(addr_t \<Rightarrow> size_t \<Rightarrow> off_t \<Rightarrow> ssize_t \<times> u8 option list) \<Rightarrow> fs \<Rightarrow> fs_file option \<Rightarrow> addr_t \<Rightarrow> size_t \<Rightarrow> (ssize_t \<times> u8 option list) res" where
  "file_pread blk_read s fo buffer sz =
     (case fo of None \<Rightarrow> Inr (- EIO, []) | Some f \<Rightarrow> if buffer = NULL then Inr (- EIO, []) else
      bind_res (deref (inode_at s) (f_inode f)) (\<lambda>ino. case i_fs_dev ino of
        Some blk \<Rightarrow> Inr (blk_read blk sz (f_off f))
      | None \<Rightarrow> (case f_ops f of None \<Rightarrow> Inl NullDeref | Some Initfs_file_operations \<Rightarrow> initfs_read s f sz (f_off f))))"

definition file_read ::
  "(addr_t \<Rightarrow> size_t \<Rightarrow> off_t \<Rightarrow> ssize_t \<times> u8 option list) \<Rightarrow> fs \<Rightarrow> fs_file option \<Rightarrow> addr_t \<Rightarrow> size_t
    \<Rightarrow> (ssize_t \<times> u8 option list \<times> fs_file option) res" where
  "file_read blk_read s fo buffer sz =
     (if fo = None \<or> buffer = NULL then Inr (- EIO, [], fo)
      else bind_res (file_pread blk_read s fo buffer sz) (\<lambda>(r, bytes).
        Inr (r, bytes, if 0 <s r then map_option (\<lambda>f. f\<lparr>f_off := f_off f + r\<rparr>) fo else fo)))"

text \<open>The buffer of a write is its bytes, None for NULL.\<close>

definition file_pwrite :: "fs \<Rightarrow> fs_file option \<Rightarrow> u8 list option \<Rightarrow> size_t \<Rightarrow> (ssize_t \<times> fs) res" where
  "file_pwrite s fo buffer sz =
     (case (fo, buffer) of
        (Some f, Some b) \<Rightarrow> (case f_ops f of None \<Rightarrow> Inl NullDeref | Some Initfs_file_operations \<Rightarrow> initfs_write s f b sz (f_off f))
      | _ \<Rightarrow> Inr (- EIO, s))"

definition file_write :: "fs \<Rightarrow> fs_file option \<Rightarrow> u8 list option \<Rightarrow> size_t \<Rightarrow> (ssize_t \<times> fs \<times> fs_file option) res" where
  "file_write s fo buffer sz =
     (if fo = None \<or> buffer = None then Inr (- EIO, s, fo)
      else bind_res (file_pwrite s fo buffer sz) (\<lambda>(r, s).
        Inr (r, s, if 0 <s r then map_option (\<lambda>f. f\<lparr>f_off := f_off f + r\<rparr>) fo else fo)))"

subsection \<open>File systems, mounting, devices\<close>

definition filesystem_register :: "fs \<Rightarrow> filesystem \<Rightarrow> u32 \<times> fs" where
  "filesystem_register s f = (0, s\<lparr>fs_list := f # fs_list s\<rparr>)"

definition filesystem_unregister :: "fs \<Rightarrow> filesystem \<Rightarrow> u32 \<times> fs" where
  "filesystem_unregister s f = (0, s\<lparr>fs_list := filter (\<lambda>g. fs_addr g \<noteq> fs_addr f) (fs_list s)\<rparr>)"

definition filesystem_get :: "fs \<Rightarrow> string \<Rightarrow> filesystem option" where
  "filesystem_get s name = find (\<lambda>f. fs_name f = name) (fs_list s)"

definition filesystem_init :: "fs \<Rightarrow> fs res" where
  "filesystem_init s = inode_init s"

definition mount_fs :: "fs \<Rightarrow> string \<Rightarrow> string \<Rightarrow> (u64 \<times> fs) res" where
  "mount_fs s mountpoint name =
     (case filesystem_get s name of None \<Rightarrow> Inr (- ENODEV, s)
      | Some _ \<Rightarrow>
        let (sb, s) = fs_kmalloc s in
        bind_res (initfs_mount s sb) (\<lambda>(r, s). if r <s 0 then Inr (r, s) else
        let (mp, s) = fs_kmalloc s in if mp = NULL then Inl NullDeref else
        let m = \<lparr>mp_inode = s_root (sb_at s sb), mp_sb = sb\<rparr> in
        bind_res (path_resolve s mountpoint 0 0) (\<lambda>(p, _, s). if p = NULL then Inr (- ENOENT, s) else
          Inr (0, upd_inode s p (\<lambda>i. i\<lparr>i_mp := m # i_mp i\<rparr>)))))"

definition rootfs_init :: "fs \<Rightarrow> fs res" where
  "rootfs_init s =
     (case filesystem_get s ''initfs'' of None \<Rightarrow> Inr s
      | Some _ \<Rightarrow>
        let (sb, s) = fs_kmalloc s in
        bind_res (initfs_mount s sb) (\<lambda>(r, s). if r <s 0 then Inr s else
        let s = s\<lparr>proc_root := s_root (sb_at s sb), proc_cwd := s_root (sb_at s sb)\<rparr> in
        bind_res (path_resolve s ''/dev'' O_CREAT S_IFDIR) (\<lambda>(p, _, s). Inr s)))"

definition init_initfs :: "fs \<Rightarrow> addr_t \<Rightarrow> u32 \<times> fs" where
  "init_initfs s initfs_filesystem = (0, snd (filesystem_register s \<lparr>fs_addr = initfs_filesystem, fs_name = ''initfs''\<rparr>))"

definition mknod :: "fs \<Rightarrow> string \<Rightarrow> mode_t \<Rightarrow> (addr_t \<times> fs) res" where
  "mknod s path mode =
     bind_res (path_resolve s path O_CREAT mode) (\<lambda>(p, _, s). if p = NULL then Inr (NULL, s) else
     bind_res (deref (inode_at s) p) (\<lambda>_. Inr (p, upd_inode s p (\<lambda>i. i\<lparr>i_mode := mode, i_uid := 0\<rparr>))))"

definition block_mount_inode :: "fs \<Rightarrow> addr_t \<Rightarrow> addr_t \<Rightarrow> (u32 \<times> fs) res" where
  "block_mount_inode s p block =
     (let (device, s) = fs_kmalloc s in if device = NULL then Inr (1, s)
      else bind_res (deref (inode_at s) p) (\<lambda>_. Inr (0, upd_inode s p (\<lambda>i. i\<lparr>i_fs_dev := Some block\<rparr>))))"

definition DEV_BITS :: nat where "DEV_BITS = 20"
definition DEV_MASK :: u32 where "DEV_MASK = 0xFFF"
definition MAJOR :: "dev_t \<Rightarrow> u32" where "MAJOR dev = drop_bit DEV_BITS dev"
definition MINOR :: "dev_t \<Rightarrow> u32" where "MINOR dev = dev AND DEV_MASK"
definition MKDEV :: "u32 \<Rightarrow> u32 \<Rightarrow> dev_t" where "MKDEV major minor = push_bit DEV_BITS major OR minor"

section \<open>Files as byte strings\<close>

text \<open>An open initfs file with contents \<open>c\<close>: the buffer is exactly as long as the size says.\<close>

definition holds_file :: "fs \<Rightarrow> fs_file \<Rightarrow> u8 list \<Rightarrow> bool" where
  "holds_file s f c \<longleftrightarrow> f_ops f = Some Initfs_file_operations \<and> length c < 2 ^ 63 \<and>
     (\<exists>ino p r. deref (inode_at s) (f_inode f) = Inr ino \<and> i_fs_dev ino = None \<and> initfs_node s ino = Inr (Some (p, r))
       \<and> rn_size r = of_nat (length c) \<and> (rn_data r = Some (map Some c) \<or> rn_data r = None \<and> c = []))"

lemma unat_of_length: "n < 2 ^ 63 \<Longrightarrow> unat (of_nat n :: u64) = n"
  by (simp add: unat_of_nat take_bit_nat_eq_self)

lemma initfs_node_slot:
  assumes "initfs_node s ino = Inr (Some (p, r))"
  shows "\<exists>sb. deref (sb_at s) (i_sb ino) = Inr sb \<and> s_data sb = p \<and> p \<noteq> NULL \<and> unat (i_ino ino) < MAX_INODES
    \<and> data_inodes (data_at s p) (unat (i_ino ino)) = Slot r"
  using assms by (auto simp: initfs_node_def bind_res_Inr_iff rnode_slot_def split: if_splits slot.splits)

lemma initfs_node_update:
  assumes n: "initfs_node s ino = Inr (Some (p, r))" and j: "i_sb j = i_sb ino" "i_ino j = i_ino ino"
    and sb: "sb_at s' = sb_at s" and d: "data_at s' = data_at (upd_data s p (\<lambda>d. set_slot d (i_ino ino) r'))"
  shows "initfs_node s' j = Inr (Some (p, r'))"
  using initfs_node_slot [OF n] j sb d
  by (auto simp: initfs_node_def rnode_slot_def upd_data_def set_slot_def)

lemma initfs_write_append:
  assumes h: "holds_file s f c" and len: "length c + length bs < 2 ^ 63" and al: "fs_allocs s = a # as" "a \<noteq> NULL"
    and off: "f_off f = of_nat (length c)"
  shows "\<exists>s'. initfs_write s f bs (of_nat (length bs)) (f_off f) = Inr (of_nat (length bs), s')
    \<and> holds_file s' f (c @ bs) \<and> fs_allocs s' = as"
proof -
  obtain ino p r where H: "deref (inode_at s) (f_inode f) = Inr ino" "i_fs_dev ino = None" "initfs_node s ino = Inr (Some (p, r))"
      "rn_size r = of_nat (length c)" and d: "rn_data r = Some (map Some c) \<or> rn_data r = None \<and> c = []"
      and ops: "f_ops f = Some Initfs_file_operations"
    using h by (auto simp: holds_file_def)
  have ino: "ino = inode_at s (f_inode f)" using H(1) by (auto simp: deref_def split: if_splits)
  have uc: "unat (of_nat (length c) :: u64) = length c" and ub: "unat (of_nat (length bs) :: u64) = length bs"
    and ut: "unat (of_nat (length bs) + of_nat (length c) :: u64) = length bs + length c"
    using len unat_of_length [of "length c"] unat_of_length [of "length bs"]
    by (simp_all add: unat_add_no_overflow)
  let ?s1 = "s\<lparr>fs_allocs := as\<rparr>" and ?r = "r\<lparr>rn_data := Some (map Some (c @ bs)), rn_size := rn_size r + of_nat (length bs)\<rparr>"
  let ?s' = "upd_inode (upd_data ?s1 p (\<lambda>d. set_slot d (i_ino ino) ?r)) (f_inode f) (\<lambda>i. i\<lparr>i_size := i_size i + of_nat (length bs)\<rparr>)"
  have g: "grow (rn_data r) (rn_size r) (of_nat (length bs) + of_nat (length c)) = Inr (map Some c @ replicate (length bs) None)"
    using d H(4) ut uc by (auto simp: grow_def)
  have w: "initfs_write s f bs (of_nat (length bs)) (f_off f) = Inr (of_nat (length bs), ?s')"
    using H al g ub uc by (simp add: initfs_write_def off fs_kmalloc_def Let_def)
  have nodes: "initfs_node ?s' (ino\<lparr>i_size := i_size ino + of_nat (length bs)\<rparr>) = Inr (Some (p, ?r))"
    by (rule initfs_node_update [OF H(3)]) (simp_all add: upd_inode_def upd_data_def)
  moreover have "deref (inode_at ?s') (f_inode f) = Inr (ino\<lparr>i_size := i_size ino + of_nat (length bs)\<rparr>)"
    using H(1) ino by (auto simp: deref_def upd_inode_def upd_data_def split: if_splits)
  ultimately have "holds_file ?s' f (c @ bs)"
    using H(2,4) len ops unfolding holds_file_def
    by (intro conjI exI [of _ "ino\<lparr>i_size := i_size ino + of_nat (length bs)\<rparr>"] exI [of _ p] exI [of _ ?r]) simp_all
  then show ?thesis using w by (auto simp: upd_inode_def upd_data_def)
qed

lemma file_write_append:
  assumes h: "holds_file s f c" and bs: "bs \<noteq> []" "length c + length bs < 2 ^ 63" and al: "fs_allocs s = a # as" "a \<noteq> NULL"
    and off: "f_off f = of_nat (length c)"
  shows "\<exists>s' f'. file_write s (Some f) (Some bs) (of_nat (length bs)) = Inr (of_nat (length bs), s', Some f')
    \<and> holds_file s' f' (c @ bs) \<and> f_off f' = of_nat (length (c @ bs)) \<and> fs_allocs s' = as \<and> f_inode f' = f_inode f"
proof -
  obtain s' where w: "initfs_write s f bs (of_nat (length bs)) (f_off f) = Inr (of_nat (length bs), s')"
      "holds_file s' f (c @ bs)" "fs_allocs s' = as"
    using initfs_write_append [OF h bs(2) al off] by blast
  have ub: "unat (of_nat (length bs) :: u64) = length bs" using bs(2) unat_of_length [of "length bs"] by simp
  have pos: "0 <s (of_nat (length bs) :: u64)"
  proof -
    have "uint (of_nat (length bs) :: u64) = int (length bs)" using ub by (metis uint_nat)
    then have "sint (of_nat (length bs) :: u64) = int (length bs)"
      unfolding sint_uint using bs(2) by (simp only:) (simp add: signed_take_bit_int_eq_self)
    then show ?thesis using bs(1) by (simp add: word_sless_alt)
  qed
  have ops: "f_ops f = Some Initfs_file_operations" using h by (simp add: holds_file_def)
  have "file_write s (Some f) (Some bs) (of_nat (length bs)) = Inr (of_nat (length bs), s', Some (f\<lparr>f_off := f_off f + of_nat (length bs)\<rparr>))"
    using w(1) pos ops by (simp add: file_write_def file_pwrite_def)
  moreover have "holds_file s' (f\<lparr>f_off := f_off f + of_nat (length bs)\<rparr>) (c @ bs)" using w(2) by (simp add: holds_file_def)
  ultimately show ?thesis using w(3) off by auto
qed

text \<open>Consecutive calls of \<open>file_write\<close> on one file.\<close>

fun write_all :: "fs \<Rightarrow> fs_file option \<Rightarrow> u8 list list \<Rightarrow> (fs \<times> fs_file option) res" where
  "write_all s f [] = Inr (s, f)"
| "write_all s f (b # bs) = bind_res (file_write s f (Some b) (of_nat (length b))) (\<lambda>(r, s, f). write_all s f bs)"

lemma write_all_append:
  assumes "holds_file s f c" and "\<forall>b \<in> set bs. b \<noteq> []" and "length c + length (concat bs) < 2 ^ 63"
    and "length (fs_allocs s) \<ge> length bs" and "\<forall>a \<in> set (fs_allocs s). a \<noteq> NULL" and "f_off f = of_nat (length c)"
  shows "\<exists>s' f'. write_all s (Some f) bs = Inr (s', Some f') \<and> holds_file s' f' (c @ concat bs) \<and> f_inode f' = f_inode f"
  using assms
proof (induction bs arbitrary: s f c)
  case (Cons b bs)
  obtain a as where al: "fs_allocs s = a # as" using Cons.prems(4) by (cases "fs_allocs s") auto
  obtain s1 f1 where 1: "file_write s (Some f) (Some b) (of_nat (length b)) = Inr (of_nat (length b), s1, Some f1)"
      "holds_file s1 f1 (c @ b)" "f_off f1 = of_nat (length (c @ b))" "fs_allocs s1 = as" "f_inode f1 = f_inode f"
    using file_write_append [OF Cons.prems(1) _ _ al, of b] Cons.prems al by auto
  have "\<exists>s' f'. write_all s1 (Some f1) bs = Inr (s', Some f') \<and> holds_file s' f' ((c @ b) @ concat bs) \<and> f_inode f' = f_inode f1"
    by (rule Cons.IH) (use Cons.prems 1 al in auto)
  then show ?case using 1 by auto
qed auto

lemma file_pread_start:
  assumes "holds_file s f c" and "f_off f = 0" and "buffer \<noteq> NULL"
  shows "file_pread blk s (Some f) buffer n = Inr (of_nat (min (unat n) (length c)), map Some (take (unat n) c))"
proof -
  obtain ino p r where H: "deref (inode_at s) (f_inode f) = Inr ino" "i_fs_dev ino = None" "initfs_node s ino = Inr (Some (p, r))"
      "rn_size r = of_nat (length c)" and d: "rn_data r = Some (map Some c) \<or> rn_data r = None \<and> c = []"
      and ops: "f_ops f = Some Initfs_file_operations" and len: "length c < 2 ^ 63"
    using assms(1) by (auto simp: holds_file_def)
  let ?t = "if n > rn_size r then rn_size r else n"
  have uc: "unat (of_nat (length c) :: u64) = length c" using len by (rule unat_of_length)
  have ut: "unat ?t = min (unat n) (length c)" and t: "?t = of_nat (min (unat n) (length c))"
    using H(4) uc by (auto simp: word_less_nat_alt min_def)
  have "copy_out (rn_data r) 0 ?t = Inr (map Some (take (unat n) c))"
  proof (cases "?t = 0")
    case True
    then have "min (unat n) (length c) = 0" using ut by simp
    then have "take (unat n) c = []" by (auto simp: min_def split: if_splits)
    then show ?thesis using True by (simp add: copy_out_def)
  next
    case False
    then have "min (unat n) (length c) \<noteq> 0" unfolding ut [symmetric] unat_eq_0 .
    then have "rn_data r = Some (map Some c)" using d by auto
    moreover have "take (min (unat n) (length c)) c = take (unat n) c" by (simp add: min_def)
    ultimately show ?thesis using False unfolding copy_out_def ut by (simp add: take_map)
  qed
  then have "file_pread blk s (Some f) buffer n = Inr (?t, map Some (take (unat n) c))"
    using H(1-3) ops assms(2,3) by (cases "rn_size r < n") (simp_all add: file_pread_def initfs_read_def)
  then show ?thesis using t by simp
qed

section \<open>Properties\<close>

text \<open>C7: initfs stores what is written. Whatever sequence of non-empty chunks is written through an open empty file, the
  writes succeed while memory lasts, and a read from the start returns exactly the concatenation of the
  chunks, cut at the size asked for and at the end of the file.\<close>

theorem initfs_write_read:
  assumes h: "holds_file s f []" and off: "f_off f = 0" and ne: "\<forall>b \<in> set bs. b \<noteq> []" and len: "length (concat bs) < 2 ^ 63"
    and al: "length (fs_allocs s) \<ge> length bs" "\<forall>a \<in> set (fs_allocs s). a \<noteq> NULL" and buf: "buffer \<noteq> NULL"
  shows "\<exists>s' f'. write_all s (Some f) bs = Inr (s', Some f')
    \<and> file_pread blk s' (Some (f'\<lparr>f_off := 0\<rparr>)) buffer n
      = Inr (of_nat (min (unat n) (length (concat bs))), map Some (take (unat n) (concat bs)))"
proof -
  obtain s' f' where w: "write_all s (Some f) bs = Inr (s', Some f')" and h': "holds_file s' f' (concat bs)"
    using write_all_append [OF h ne _ al(1,2)] off len by auto
  then have "file_pread blk s' (Some (f'\<lparr>f_off := 0\<rparr>)) buffer n = Inr (of_nat (min (unat n) (length (concat bs))), map Some (take (unat n) (concat bs)))"
    by (intro file_pread_start) (simp_all add: holds_file_def buf)
  then show ?thesis using w by blast
qed

definition demo_inode :: inode where
  "demo_inode = zero_inode\<lparr>i_ops := Some Initfs_inode_operations, i_fops := Some Initfs_file_operations, i_sb := 0x100\<rparr>"

text \<open>A state with an initfs mounted at the root: superblock 0x100, data 0x200, the root directory at 0x300 and an empty
  file with inode number 1 at 0x400.\<close>

definition demo_fs :: fs where
  "demo_fs = \<lparr>inode_at = (\<lambda>p. if p = 0x300 then demo_inode\<lparr>i_mode := S_IFDIR\<rparr> else demo_inode\<lparr>i_ino := 1\<rparr>),
     sb_at = (\<lambda>_. \<lparr>s_ops = Some Initfs_superblock_operations, s_root = 0x300, s_data = 0x200\<rparr>),
     data_at = (\<lambda>_. \<lparr>data_inodes = (\<lambda>_. Unwritten)(0 := Slot (zero_rnode\<lparr>rn_mode := S_IFDIR\<rparr>), 1 := Slot (zero_rnode\<lparr>rn_ino := 1\<rparr>)), data_next = 2\<rparr>),
     inode_cache = \<lparr>hashmap_size = 1, hashmap_buckets = [[]]\<rparr>, fs_list = [], proc_root = 0x300, proc_cwd = 0x300,
     fs_allocs = [0x1000, 0x2000, 0x3000, 0x4000, 0x5000, 0x6000]\<rparr>"

definition demo_file :: fs_file where
  "demo_file = \<lparr>f_inode = 0x400, f_dentry = \<lparr>d_sb = 0x100, d_ino = 1, d_name = ''f''\<rparr>, f_off = 0, f_ops = Some Initfs_file_operations\<rparr>"

lemma demo_file_holds: "holds_file demo_fs demo_file []"
  by (simp add: holds_file_def demo_fs_def demo_file_def deref_def demo_inode_def zero_inode_def initfs_node_def rnode_slot_def
      MAX_INODES_def zero_rnode_def)

theorem initfs_write_read_witness:
  "\<exists>s' f'. write_all demo_fs (Some demo_file) [[1, 2], [3]] = Inr (s', Some f')
    \<and> file_pread (\<lambda>_ _ _. (0, [])) s' (Some (f'\<lparr>f_off := 0\<rparr>)) 0x9000 3 = Inr (3, [Some 1, Some 2, Some 3])"
  using initfs_write_read [OF demo_file_holds, of "[[1, 2], [3]]" "0x9000" "\<lambda>_ _ _. (0, [])" 3]
  by (simp add: demo_file_def demo_fs_def)

text \<open>A read at an offset returns more than was asked for. When the file is long enough, \<open>initfs_read\<close> adds the offset
  to the size and copies that many bytes into a buffer the caller sized for the request alone.\<close>

theorem initfs_read_overruns_buffer:
  assumes h: "holds_file s f c" and n: "2 * unat offset + unat sz \<le> length c" and off: "0 < offset"
  shows "\<exists>bytes. initfs_read s f sz offset = Inr (sz + offset, bytes) \<and> length bytes = unat sz + unat offset \<and> unat sz < length bytes"
proof -
  obtain ino p r where H: "deref (inode_at s) (f_inode f) = Inr ino" "initfs_node s ino = Inr (Some (p, r))"
      "rn_size r = of_nat (length c)" and d: "rn_data r = Some (map Some c) \<or> rn_data r = None \<and> c = []" and len: "length c < 2 ^ 63"
    using h by (auto simp: holds_file_def)
  have o: "0 < unat offset" using off by (simp add: word_less_nat_alt)
  then have dd: "rn_data r = Some (map Some c)" using d n by auto
  have uc: "unat (of_nat (length c) :: u64) = length c" using len by (rule unat_of_length)
  have ut: "unat (sz + offset) = unat sz + unat offset" using n len by (subst unat_add_no_overflow) auto
  then have "\<not> sz + offset > rn_size r" "sz + offset \<noteq> 0" using H(3) uc n o by (auto simp: word_less_nat_alt word_eq_zero_iff_unat)
  then show ?thesis
    using H dd ut n o by (simp add: initfs_read_def copy_out_def)
qed

theorem initfs_read_overruns_buffer_witness:
  "\<exists>s' bytes. holds_file s' demo_file [1, 2, 3] \<and> initfs_read s' demo_file 1 1 = Inr (2, bytes) \<and> length bytes = 2"
proof -
  have "\<exists>s'. initfs_write demo_fs demo_file [1, 2, 3] (of_nat (length [1 :: u8, 2, 3])) (f_off demo_file) = Inr (of_nat (length [1 :: u8, 2, 3]), s')
    \<and> holds_file s' demo_file ([] @ [1, 2, 3]) \<and> fs_allocs s' = [0x2000, 0x3000, 0x4000, 0x5000, 0x6000]"
    by (rule initfs_write_append [OF demo_file_holds, where a = "0x1000"]) (simp_all add: demo_fs_def demo_file_def)
  then obtain s' where "holds_file s' demo_file [1, 2, 3]" by auto
  then show ?thesis using initfs_read_overruns_buffer [of s' demo_file "[1, 2, 3]" 1 1] by auto
qed

section \<open>Creating and finding\<close>

text \<open>A directory of a mounted initfs, an initfs inode with its own slot in the table, and that the next number is free.\<close>

definition directory :: "fs \<Rightarrow> addr_t \<Rightarrow> initfs_dirent list \<Rightarrow> bool" where
  "directory s dir es \<longleftrightarrow> (\<exists>ino sb p r. deref (inode_at s) dir = Inr ino \<and> i_ops ino = Some Initfs_inode_operations \<and> S_ISDIR (i_mode ino)
     \<and> i_mp ino = []
     \<and> deref (sb_at s) (i_sb ino) = Inr sb \<and> s_ops sb = Some Initfs_superblock_operations \<and> s_data sb = p \<and> p \<noteq> NULL
     \<and> unat (i_ino ino) < MAX_INODES \<and> data_inodes (data_at s p) (unat (i_ino ino)) = Slot r \<and> rn_entries r = es)"

definition create_room :: "fs \<Rightarrow> addr_t \<Rightarrow> bool" where
  "create_room s dir \<longleftrightarrow> (let n = data_next (data_at s (s_data (sb_at s (i_sb (inode_at s dir)))))
     in unat n < MAX_INODES \<and> n \<noteq> i_ino (inode_at s dir))"

definition plain_name :: "string \<Rightarrow> bool" where
  "plain_name name \<longleftrightarrow> name \<noteq> [] \<and> CHR ''/'' \<notin> set name \<and> length name < 255"

lemma plain_name_simps:
  assumes "plain_name name"
  shows "copy_name name = name" and "basename name = name" and "dirname name = ''/''"
    and "next_token name = Some (name, [])" and "hd name \<noteq> CHR ''/''" and "name \<noteq> ''/''"
proof -
  have n: "name \<noteq> []" "CHR ''/'' \<notin> set name" "length name < 255" using assms by (auto simp: plain_name_def)
  have no: "takeWhile (\<lambda>c. c \<noteq> CHR ''/'') xs = xs" "dropWhile (\<lambda>c. c \<noteq> CHR ''/'') xs = []" if "CHR ''/'' \<notin> set xs" for xs
    using that by (induction xs) auto
  have hd: "hd name \<noteq> CHR ''/''" using n hd_in_set by metis
  then have dn: "dropWhile (\<lambda>c. c = CHR ''/'') name = name" using n by (cases name) auto
  have "last name \<noteq> CHR ''/''" using n last_in_set by metis
  then have "dropWhile (\<lambda>c. c = CHR ''/'') (rev name) = rev name" using n by (cases "rev name") (auto simp: last_rev [symmetric] dest: arg_cong [of _ _ hd] simp: hd_rev)
  then have st: "strip_slashes name = name" by (simp add: strip_slashes_def)
  show "copy_name name = name" using n by (simp add: copy_name_def DENTRY_NAME_MAX_def)
  show "basename name = name" unfolding basename_def by (subst no(1)) (use n in simp_all)
  have "dropWhile (\<lambda>c. c \<noteq> CHR ''/'') (rev name) = []" by (rule no(2)) (use n in simp)
  then show "dirname name = ''/''" using n st by (simp add: dirname_def Let_def del: dropWhile_eq_Nil_conv)
  show "next_token name = Some (name, [])"
    using dn no [OF n(2)] n(1) by (simp add: next_token_def Let_def del: dropWhile_eq_Nil_conv takeWhile_eq_all_conv)
  show "hd name \<noteq> CHR ''/''" by (rule hd)
  show "name \<noteq> ''/''" using n by auto
qed

text \<open>Looking up a name that is in the directory, and one that is not.\<close>

lemma dentry_lookup_directory:
  assumes d: "directory s dir es" and n: "copy_name name = name" and al: "fs_allocs s = a # as" "a \<noteq> NULL"
  shows "dentry_lookup s dir name = Inr (case find (\<lambda>e. dir_name e = name) es of
      None \<Rightarrow> None | Some e \<Rightarrow> Some \<lparr>d_sb = i_sb (inode_at s dir), d_ino = dir_ino e, d_name = name\<rparr>, s\<lparr>fs_allocs := as\<rparr>)"
proof -
  obtain ino sb p r where D: "deref (inode_at s) dir = Inr ino" "i_ops ino = Some Initfs_inode_operations"
      "deref (sb_at s) (i_sb ino) = Inr sb" "s_data sb = p" "p \<noteq> NULL" "unat (i_ino ino) < MAX_INODES"
      "data_inodes (data_at s p) (unat (i_ino ino)) = Slot r" "rn_entries r = es"
    using d by (auto simp: directory_def)
  have nz: "dir \<noteq> NULL" and ino: "inode_at s dir = ino" using D(1) by (auto simp: deref_def split: if_splits)
  have neg: "(- ENOENT) <s 0" "\<not> (0 :: u64) <s 0" by (simp_all add: ENOENT_def word_sless_alt)
  have "initfs_node (s\<lparr>fs_allocs := as\<rparr>) ino = Inr (Some (p, r))" using D by (simp add: initfs_node_def rnode_slot_def)
  then show ?thesis
    using D(1,2,8) nz ino n al neg
    by (simp add: dentry_lookup_def dentry_allocate_def fs_kmalloc_def call_lookup_def initfs_lookup_def split: option.split)
qed

lemma inode_key_length: "length (inode_key sb n) = 16"
  by (simp add: inode_key_def le_bytes_def)

definition empty_file :: "fs \<Rightarrow> addr_t \<Rightarrow> bool" where
  "empty_file s p \<longleftrightarrow> i_fops (inode_at s p) = Some Initfs_file_operations \<and> i_fs_dev (inode_at s p) = None
     \<and> (\<exists>q r. initfs_node s (inode_at s p) = Inr (Some (q, r)) \<and> rn_size r = 0 \<and> rn_data r = None)"

text \<open>Creation in a directory: the new inode has the number after the last one, the cache finds it, and the directory has
  its entry in front.\<close>

lemma initfs_create_directory:
  assumes d: "directory s dir es" and room: "create_room s dir" and al: "fs_allocs s = a1 # a2 # a3 # as"
    and ok: "a1 \<noteq> NULL" "a3 \<noteq> NULL" "deref (inode_at s) a2 = Inr i0" and fresh: "a2 \<noteq> dir"
    and nm: "copy_name (d_name d0) = d_name d0"
  shows "\<exists>s'. initfs_create s dir d0 mode = Inr (a2, d0\<lparr>d_ino := i_ino (inode_at s' a2)\<rparr>, s')
    \<and> directory s' dir (\<lparr>dir_name = d_name d0, dir_ino = i_ino (inode_at s' a2)\<rparr> # es)
    \<and> i_sb (inode_at s' a2) = i_sb (inode_at s dir) \<and> inode_at s' dir = inode_at s dir \<and> i_mode (inode_at s' a2) = mode
    \<and> i_mp (inode_at s' a2) = [] \<and> inode_cache s' = inode_cache s \<and> proc_root s' = proc_root s \<and> fs_allocs s' = as
    \<and> empty_file s' a2 \<and> i_ino (inode_at s' a2) \<noteq> i_ino (inode_at s dir)"
proof -
  obtain ino sb p r where D: "deref (inode_at s) dir = Inr ino" "i_ops ino = Some Initfs_inode_operations" "S_ISDIR (i_mode ino)" "i_mp ino = []"
      "deref (sb_at s) (i_sb ino) = Inr sb" "s_ops sb = Some Initfs_superblock_operations" "s_data sb = p" "p \<noteq> NULL"
      "unat (i_ino ino) < MAX_INODES" "data_inodes (data_at s p) (unat (i_ino ino)) = Slot r" "rn_entries r = es"
    using d by (auto simp: directory_def)
  have ino: "inode_at s dir = ino" and sb: "sb_at s (i_sb ino) = sb" and a2: "a2 \<noteq> NULL"
    using D(1,5) ok(3) by (auto simp: deref_def split: if_splits)
  let ?n = "data_next (data_at s p)"
  have n: "unat ?n < MAX_INODES" "unat ?n \<noteq> unat (i_ino ino)" using room ino sb D(7) by (auto simp: create_room_def Let_def dest: word_unat_eq_iff [THEN iffD2])
  let ?e = "\<lparr>dir_name = d_name d0, dir_ino = ?n\<rparr>"
  let ?I = "(inode_at s)(a2 := zero_inode\<lparr>i_ops := Some Initfs_inode_operations, i_fops := Some Initfs_file_operations,
      i_sb := i_sb ino, i_ino := ?n, i_mode := mode\<rparr>)"
  let ?D = "(data_at s p)\<lparr>data_next := ?n + 1, data_inodes := (data_inodes (data_at s p))(unat ?n := Slot (zero_rnode\<lparr>rn_ino := ?n, rn_mode := mode\<rparr>),
      unat (i_ino ino) := Slot (r\<lparr>rn_entries := ?e # es\<rparr>))\<rparr>"
  let ?s = "s\<lparr>inode_at := ?I, data_at := (data_at s)(p := ?D), fs_allocs := as\<rparr>"
  have "initfs_create s dir d0 mode = Inr (a2, d0\<lparr>d_ino := ?n\<rparr>, ?s)"
    using D al ok a2 n fresh nm
    by (simp add: initfs_create_def fs_kmalloc_def initfs_allocate_def inode_allocate_def rnode_slot_def upd_inode_def upd_data_def
        set_slot_def Let_def)
  moreover have "directory ?s dir (?e # es)"
    unfolding directory_def
    by (intro exI [of _ ino] exI [of _ sb] exI [of _ p] exI [of _ "r\<lparr>rn_entries := ?e # es\<rparr>"])
      (use D fresh in \<open>simp add: deref_def split: if_splits\<close>)
  moreover have "empty_file ?s a2"
    using D(5,7,8) n by (simp add: empty_file_def initfs_node_def rnode_slot_def zero_inode_def zero_rnode_def)
  ultimately show ?thesis using fresh ino n(2) by (intro exI [of _ ?s]) (auto simp: zero_inode_def)
qed

lemma initfs_node_cache [simp]: "initfs_node (s\<lparr>inode_cache := h\<rparr>) ino = initfs_node s ino"
  by (simp add: initfs_node_def cong: if_cong)

lemma path_create_in_root:
  assumes d: "directory s (proc_root s) es" and room: "create_room s (proc_root s)" and nm: "plain_name name" and start: "start \<noteq> NULL"
    and new: "find (\<lambda>e. dir_name e = name) es = None" and wf: "hashmap_wf 16 (inode_cache s)"
    and al: "fs_allocs s = b1 # b2 # a1 # a2 # a3 # as" and ok: "b1 \<noteq> NULL" "b2 \<noteq> NULL" "a1 \<noteq> NULL" "a3 \<noteq> NULL"
      "a2 \<noteq> NULL" "a2 < - 4095" "a2 \<noteq> proc_root s"
  shows "\<exists>d' s'. path_resolve_create s start name mode = Inr (a2, Some d', s')
    \<and> directory s' (proc_root s) (\<lparr>dir_name = name, dir_ino = i_ino (inode_at s' a2)\<rparr> # es)
    \<and> i_mode (inode_at s' a2) = mode \<and> i_mp (inode_at s' a2) = [] \<and> d_ino d' = i_ino (inode_at s' a2)
    \<and> inode_check_cache s' (i_sb (inode_at s' (proc_root s))) (i_ino (inode_at s' a2)) = Inr a2
    \<and> proc_root s' = proc_root s \<and> fs_allocs s' = as \<and> empty_file s' a2
    \<and> i_ino (inode_at s' a2) \<noteq> i_ino (inode_at s' (proc_root s))"
proof -
  note N = plain_name_simps [OF nm]
  let ?s1 = "s\<lparr>fs_allocs := b2 # a1 # a2 # a3 # as\<rparr>" and ?s2 = "s\<lparr>fs_allocs := a1 # a2 # a3 # as\<rparr>" and ?root = "proc_root s"
  obtain ino where D: "deref (inode_at s) ?root = Inr ino" "i_ops ino = Some Initfs_inode_operations" "S_ISDIR (i_mode ino)"
    using d by (auto simp: directory_def)
  have rz: "?root \<noteq> NULL" using D(1) by (auto simp: deref_def)
  have look: "dentry_lookup s ?root name = Inr (None, ?s1)" using dentry_lookup_directory [OF d N(1) al ok(1)] new by simp
  have d2: "directory ?s2 ?root es" using d by (simp add: directory_def)
  have r2: "create_room ?s2 ?root" using room by (simp add: create_room_def)
  have "deref (inode_at ?s2) a2 = Inr (inode_at s a2)" using ok by (simp add: deref_def)
  from initfs_create_directory [OF d2 r2 _ ok(3,4) this, of as "\<lparr>d_sb = 0, d_ino = 0, d_name = name\<rparr>" mode]
  obtain s3 where C: "initfs_create ?s2 ?root \<lparr>d_sb = 0, d_ino = 0, d_name = name\<rparr> mode
        = Inr (a2, \<lparr>d_sb = 0, d_ino = i_ino (inode_at s3 a2), d_name = name\<rparr>, s3)"
      "directory s3 ?root (\<lparr>dir_name = name, dir_ino = i_ino (inode_at s3 a2)\<rparr> # es)"
      "i_sb (inode_at s3 a2) = i_sb (inode_at s ?root)" "inode_at s3 ?root = inode_at s ?root" "i_mode (inode_at s3 a2) = mode"
      "i_mp (inode_at s3 a2) = []" "inode_cache s3 = inode_cache s" "proc_root s3 = ?root" "fs_allocs s3 = as"
      "empty_file s3 a2" "i_ino (inode_at s3 a2) \<noteq> i_ino (inode_at s3 ?root)"
    using ok(7) N(1) by auto
  have der3: "deref (inode_at s3) a2 = Inr (inode_at s3 a2)" using ok by (simp add: deref_def)
  let ?k = "inode_key (i_sb (inode_at s3 a2)) (i_ino (inode_at s3 a2))"
  obtain h where h: "hashmap_put (inode_cache s) ?k a2 = Inr h" using hmap.put_ok [OF wf, of ?k a2] inode_key_length by blast
  have get: "hashmap_get h ?k = Inr a2" using hmap.get_put [OF wf _ _ h, of ?k] inode_key_length by simp
  have ins: "inode_insert_cache s3 (i_sb (inode_at s3 a2)) a2 = Inr (s3\<lparr>inode_cache := h\<rparr>)"
    using h der3 C(7) by (auto simp: inode_insert_cache_def hashmap_put_def bind_res_Inr_iff)
  have root: "path_lookup s (dirname name) = Inr (?root, None, s)" unfolding N(3) by (simp add: path_lookup_def)
  have "path_resolve_create s start name mode = Inr (a2, Some \<lparr>d_sb = 0, d_ino = i_ino (inode_at s3 a2), d_name = name\<rparr>, s3\<lparr>inode_cache := h\<rparr>)"
    using start root rz D look C(1) ins der3 ok(2) N(1,2) unfolding path_resolve_create_def
    by (simp add: fs_kmalloc_def)
  moreover have "directory (s3\<lparr>inode_cache := h\<rparr>) ?root (\<lparr>dir_name = name, dir_ino = i_ino (inode_at s3 a2)\<rparr> # es)"
    using C(2) by (simp add: directory_def)
  moreover have "inode_check_cache (s3\<lparr>inode_cache := h\<rparr>) (i_sb (inode_at s3 ?root)) (i_ino (inode_at s3 a2)) = Inr a2"
    using get C(3,4) by (simp add: inode_check_cache_def)
  ultimately show ?thesis
    using C(3-6,8-11)
    by (intro exI [of _ "\<lparr>d_sb = 0, d_ino = i_ino (inode_at s3 a2), d_name = name\<rparr>"] exI [of _ "s3\<lparr>inode_cache := h\<rparr>"]) (simp add: empty_file_def)
qed

text \<open>A path of one name from the root: found through the directory and the inode cache, or not in the directory.\<close>

lemma path_resolve_in_root:
  assumes d: "directory s (proc_root s) es" and nm: "plain_name name" and e: "find (\<lambda>e. dir_name e = name) es = Some e"
    and c: "inode_check_cache s (i_sb (inode_at s (proc_root s))) (dir_ino e) = Inr p" and p: "p \<noteq> NULL" "p < - 4095" "i_mp (inode_at s p) = []"
    and al: "fs_allocs s = a # as" "a \<noteq> NULL"
  shows "path_resolve s (CHR ''/'' # name) 0 mode
    = Inr (p, Some \<lparr>d_sb = i_sb (inode_at s (proc_root s)), d_ino = dir_ino e, d_name = name\<rparr>, s\<lparr>fs_allocs := as\<rparr>)"
proof -
  let ?d = "\<lparr>d_sb = i_sb (inode_at s (proc_root s)), d_ino = dir_ino e, d_name = name\<rparr>" and ?s = "s\<lparr>fs_allocs := as\<rparr>"
  note N = plain_name_simps [OF nm]
  have rz: "proc_root s \<noteq> NULL" using d by (auto simp: directory_def deref_def)
  have ne: "name \<noteq> []" using nm by (simp add: plain_name_def)
  have look: "dentry_lookup s (proc_root s) name = Inr (Some ?d, ?s)" using dentry_lookup_directory [OF d N(1) al] e by simp
  have res: "inode_resolve_dentry ?s (Some ?d) = Inr (p, ?s)" using c p by (simp add: inode_resolve_dentry_def inode_check_cache_def)
  have mp: "path_resolve_mountpoint ?s p = Inr p" using p by (simp add: path_resolve_mountpoint_def deref_def)
  have "resolve_dentry_loop ?s p (Some ?d) [] = Inr (Some ?d, ?s)" by (subst resolve_dentry_loop.simps) (simp add: next_token_def)
  then have "resolve_dentry_loop s (proc_root s) None name = Inr (Some ?d, ?s)"
    using rz N(4) look res mp by (subst resolve_dentry_loop.simps) simp
  then show ?thesis using ne rz res by (simp add: path_resolve_def path_resolve_existing_def path_resolve_dentry_def)
qed

lemma path_resolve_missing:
  assumes d: "directory s (proc_root s) es" and t: "next_token path = Some (name, rest)" "copy_name name = name" "path \<noteq> []"
    and e: "find (\<lambda>e. dir_name e = name) es = None" and al: "fs_allocs s = a # as" "a \<noteq> NULL"
  shows "path_resolve s (CHR ''/'' # path) 0 mode = Inr (NULL, None, s\<lparr>fs_allocs := as\<rparr>)"
proof -
  have rz: "proc_root s \<noteq> NULL" using d by (auto simp: directory_def deref_def)
  have "dentry_lookup s (proc_root s) name = Inr (None, s\<lparr>fs_allocs := as\<rparr>)" using dentry_lookup_directory [OF d t(2) al] e by simp
  then have "resolve_dentry_loop s (proc_root s) None path = Inr (None, s\<lparr>fs_allocs := as\<rparr>)"
    using rz t(1) by (subst resolve_dentry_loop.simps) simp
  then show ?thesis using t(3) rz by (simp add: path_resolve_def path_resolve_existing_def path_resolve_dentry_def)
qed

text \<open>C26: a file created at the root is found again: after \<open>path_resolve("/name", O_CREAT)\<close> of a name the root directory
  does not have, resolving the same path without \<open>O_CREAT\<close> gives the same inode, with the mode it was created with
  and the dentry naming its number.\<close>

theorem path_create_lookup:
  assumes "directory s (proc_root s) es" and "create_room s (proc_root s)" and nm: "plain_name name"
    and "find (\<lambda>e. dir_name e = name) es = None" and "hashmap_wf 16 (inode_cache s)"
    and "fs_allocs s = b1 # b2 # a1 # a2 # a3 # a4 # as" and "b1 \<noteq> NULL" and "b2 \<noteq> NULL" and "a1 \<noteq> NULL" and "a3 \<noteq> NULL" and a4: "a4 \<noteq> NULL"
    and a2: "a2 \<noteq> NULL" "a2 < - 4095" "a2 \<noteq> proc_root s"
  shows "\<exists>d s'. path_resolve s (CHR ''/'' # name) O_CREAT mode = Inr (a2, Some d, s') \<and> i_mode (inode_at s' a2) = mode
    \<and> (\<exists>d' s''. path_resolve s' (CHR ''/'' # name) 0 mode' = Inr (a2, Some d', s'') \<and> d_ino d' = i_ino (inode_at s' a2) \<and> d_name d' = name)"
proof -
  have rz: "proc_root s \<noteq> NULL" using assms(1) by (auto simp: directory_def deref_def)
  obtain d s' where C: "path_resolve_create s (proc_root s) name mode = Inr (a2, Some d, s')"
      "directory s' (proc_root s) (\<lparr>dir_name = name, dir_ino = i_ino (inode_at s' a2)\<rparr> # es)"
      "i_mode (inode_at s' a2) = mode" "i_mp (inode_at s' a2) = []"
      "inode_check_cache s' (i_sb (inode_at s' (proc_root s))) (i_ino (inode_at s' a2)) = Inr a2"
      "proc_root s' = proc_root s" "fs_allocs s' = a4 # as"
    using path_create_in_root [OF assms(1,2) nm rz assms(4-10) a2] by blast
  have ne: "name \<noteq> []" using nm by (simp add: plain_name_def)
  have "path_resolve s (CHR ''/'' # name) O_CREAT mode = Inr (a2, Some d, s')"
    using C(1) ne by (simp add: path_resolve_def O_CREAT_def)
  moreover have "\<exists>d'. path_resolve s' (CHR ''/'' # name) 0 mode' = Inr (a2, Some d', s'\<lparr>fs_allocs := as\<rparr>)
      \<and> d_ino d' = i_ino (inode_at s' a2) \<and> d_name d' = name"
    using path_resolve_in_root [of s' _ name _ a2] C nm a2(1,2) a4 by simp
  ultimately show ?thesis using C(3) by blast
qed

lemma demo_directory: "directory demo_fs 0x300 []" and demo_room: "create_room demo_fs 0x300" and demo_cache: "hashmap_wf 16 (inode_cache demo_fs)"
  by (simp_all add: directory_def create_room_def hashmap_wf_def demo_fs_def demo_inode_def zero_inode_def zero_rnode_def deref_def
      MAX_INODES_def S_ISDIR_def S_IFDIR_def S_IFMT_def)

theorem path_create_lookup_witness:
  "\<exists>d s'. path_resolve demo_fs ''/dev'' O_CREAT S_IFDIR = Inr (0x4000, Some d, s') \<and> i_mode (inode_at s' 0x4000) = S_IFDIR
    \<and> (\<exists>d' s''. path_resolve s' ''/dev'' 0 0 = Inr (0x4000, Some d', s'') \<and> d_ino d' = i_ino (inode_at s' 0x4000) \<and> d_name d' = ''dev'')"
  by (rule path_create_lookup [of demo_fs "[]" "''dev''" "0x1000" "0x2000" "0x3000" "0x4000" "0x5000" "0x6000" "[]"])
    (use demo_directory demo_room demo_cache in \<open>simp_all add: demo_fs_def plain_name_def\<close>)

text \<open>A relative path with \<open>O_CREAT\<close> is created in the wrong place: \<open>dirname\<close> of a name without a slash is the root,
  so the file appears in the root directory whatever the working directory is.\<close>

theorem path_create_relative_in_root:
  assumes "directory s (proc_root s) es" and "create_room s (proc_root s)" and "plain_name name"
    and "find (\<lambda>e. dir_name e = name) es = None" and "hashmap_wf 16 (inode_cache s)"
    and "fs_allocs s = b1 # b2 # a1 # a2 # a3 # as" and "b1 \<noteq> NULL" and "b2 \<noteq> NULL" and "a1 \<noteq> NULL" and "a3 \<noteq> NULL"
    and "a2 \<noteq> NULL" and "a2 < - 4095" and "a2 \<noteq> proc_root s"
    and cwd: "proc_cwd s \<noteq> NULL" "proc_cwd s \<noteq> proc_root s"
  shows "\<exists>d s' n. path_resolve s name O_CREAT mode = Inr (a2, Some d, s')
    \<and> directory s' (proc_root s) (\<lparr>dir_name = name, dir_ino = n\<rparr> # es)"
proof -
  have "path_resolve s name O_CREAT mode = path_resolve_create s (proc_cwd s) name mode"
    using plain_name_simps(5,6) [OF assms(3)] assms(3) by (cases name) (auto simp: path_resolve_def O_CREAT_def plain_name_def)
  moreover obtain d s' where "path_resolve_create s (proc_cwd s) name mode = Inr (a2, Some d, s')"
      "directory s' (proc_root s) (\<lparr>dir_name = name, dir_ino = i_ino (inode_at s' a2)\<rparr> # es)"
    using path_create_in_root [OF assms(1-3) cwd(1) assms(4-13), of mode] by blast
  ultimately show ?thesis by auto
qed

theorem path_create_relative_in_root_witness:
  "\<exists>d s' n. path_resolve (demo_fs\<lparr>proc_cwd := 0x400\<rparr>) ''x'' O_CREAT 0 = Inr (0x4000, Some d, s')
    \<and> directory s' 0x300 [\<lparr>dir_name = ''x'', dir_ino = n\<rparr>]"
proof -
  let ?s = "demo_fs\<lparr>proc_cwd := 0x400\<rparr>"
  have "directory ?s (proc_root ?s) []" "create_room ?s (proc_root ?s)" "hashmap_wf 16 (inode_cache ?s)"
    using demo_directory demo_room demo_cache by (simp_all add: directory_def create_room_def demo_fs_def)
  moreover have "proc_root ?s = 0x300" by (simp add: demo_fs_def)
  ultimately show ?thesis
    using path_create_relative_in_root [of ?s "[]" "''x''" "0x1000" "0x2000" "0x3000" "0x4000" "0x5000" "[0x6000]" 0]
    by (simp add: demo_fs_def plain_name_def)
qed

end
