(* ===== verification/Paging.thy ===== *)
theory Paging
  imports Physical
begin

text \<open>
  Virtual memory on x86_64: \<open>arch/include/x86_64/mm/mm.h\<close>, \<open>arch/include/x86_64/mm/mmap.h\<close>,
  \<open>include/mm/virtual.h\<close>, \<open>arch/x86_64/mm/map.c\<close>, \<open>unmap.c\<close>, \<open>clone.c\<close> and \<open>mm/virtual.c\<close>.
  Physical memory is a map from frame numbers to page tables. The kernel edits page tables through the recursive
  entry of the current top-level table, so every access to a table goes through the translation the processor makes
  (\<open>hw_walk\<close>) with the tables as they are at that moment; an access through an entry that is not present is
  the fault \<open>PageFault\<close>. The TLB is taken to be consistent, which the \<open>invlpg\<close> calls of the source see to.
\<close>

section \<open>Definitions\<close>

subsection \<open>Page tables\<close>

type_synonym frame = "40 word"
type_synonym idx = "9 word"

definition PAGE_MASK :: u64 where "PAGE_MASK = 0xFFFFFFFFFFFFF000"

definition PML4_INDEX :: "u64 \<Rightarrow> u64" where "PML4_INDEX x = drop_bit 39 x AND 0x1FF"
definition PDPT_INDEX :: "u64 \<Rightarrow> u64" where "PDPT_INDEX x = drop_bit 30 x AND 0x1FF"
definition PD_INDEX :: "u64 \<Rightarrow> u64" where "PD_INDEX x = drop_bit 21 x AND 0x1FF"
definition PT_INDEX :: "u64 \<Rightarrow> u64" where "PT_INDEX x = drop_bit 12 x AND 0x1FF"

definition RECURSIVE_ENTRY :: u64 where "RECURSIVE_ENTRY = 510"
definition COPY_ENTRY :: u64 where "COPY_ENTRY = 509"

record page =
  present :: bool
  writable :: bool
  user :: bool
  writethrough_cache :: bool
  disable_cache :: bool
  accessed :: bool
  dirty :: bool
  huge_page :: bool
  global :: bool
  cow :: bool
  available_1 :: "2 word"
  address :: frame
  available_2 :: "11 word"
  nx :: bool

definition zero_page :: page where
  "zero_page = \<lparr>present = False, writable = False, user = False, writethrough_cache = False, disable_cache = False,
     accessed = False, dirty = False, huge_page = False, global = False, cow = False, available_1 = 0, address = 0,
     available_2 = 0, nx = False\<rparr>"

type_synonym page_table = "idx \<Rightarrow> page"

definition entry_to_address :: "u64 \<Rightarrow> u64 \<Rightarrow> u64 \<Rightarrow> u64 \<Rightarrow> addr_t" where
  "entry_to_address pml4 pdp pd pt =
     (let address = push_bit 39 pml4;
          address = (if (address AND push_bit 47 1) > 0 then address OR 0xFFFF000000000000 else address)
      in address OR push_bit 30 pdp OR push_bit 21 pd OR push_bit 12 pt)"

subsection \<open>The memory map and the flags\<close>

definition VMA_BASE :: u64 where "VMA_BASE = 0xFFFFFFFF80000000"
definition KERNEL_START :: u64 where "KERNEL_START = 0xFFFFFFFF80100000"
definition KERNEL_END :: u64 where "KERNEL_END = 0xFFFFFFFF80A00000"
definition VGA_START :: u64 where "VGA_START = 0xFFFFFFFF800B8000"
definition VGA_END :: u64 where "VGA_END = 0xFFFFFFFF800BFD00"
definition HIGHER_HALF :: u64 where "HIGHER_HALF = 0xFFFF800000000000"
definition DMA_MAX :: u64 where "DMA_MAX = 0x1000000"
definition KERNEL_PHYS :: u64 where "KERNEL_PHYS = 0x100000"
definition VGA_PHYS :: u64 where "VGA_PHYS = 0xB8000"

definition PAGE_PRESENT :: u8 where "PAGE_PRESENT = 0x1"
definition PAGE_WRITABLE :: u8 where "PAGE_WRITABLE = 0x2"
definition PAGE_USER :: u8 where "PAGE_USER = 0x4"
definition PAGE_GLOBAL :: u8 where "PAGE_GLOBAL = 0x8"
definition PAGE_NX :: u8 where "PAGE_NX = 0x10"

record memory_context =
  physical_base :: addr_t
  virtual_base :: addr_t

subsection \<open>The machine\<close>

text \<open>The page frames, the root of the current translation, the kernel's own context, the physical memory manager
  the tables are allocated from, and the address of the page \<open>phys_page_virt\<close> of \<open>lib/stack.c\<close>, the window through which that
  manager reaches the links in free pages.\<close>

record vm =
  frames :: "frame \<Rightarrow> page_table"
  vm_cr3 :: addr_t
  kernel_context :: memory_context
  vm_kmem :: kmem
  vm_phys :: physical
  phys_page_virt :: addr_t

definition frame_of :: "addr_t \<Rightarrow> frame" where
  "frame_of a = ucast (a div 0x1000)"

text \<open>The page walk of the processor from the table in frame \<open>root\<close>: four levels, fewer through a large page.\<close>

definition hw_walk :: "(frame \<Rightarrow> page_table) \<Rightarrow> frame \<Rightarrow> addr_t \<Rightarrow> frame option" where
  "hw_walk fr root a =
     (let e4 = fr root (ucast (PML4_INDEX a)) in if \<not> present e4 then None else
      let e3 = fr (address e4) (ucast (PDPT_INDEX a)) in if \<not> present e3 then None else
      if huge_page e3 then Some (address e3 + ucast (PD_INDEX a) * 512 + ucast (PT_INDEX a)) else
      let e2 = fr (address e3) (ucast (PD_INDEX a)) in if \<not> present e2 then None else
      if huge_page e2 then Some (address e2 + ucast (PT_INDEX a)) else
      let e1 = fr (address e2) (ucast (PT_INDEX a)) in if \<not> present e1 then None else Some (address e1))"

text \<open>Access to the table a pointer designates.\<close>

definition table_frame :: "vm \<Rightarrow> addr_t \<Rightarrow> frame res" where
  "table_frame s p = (case hw_walk (frames s) (frame_of (vm_cr3 s)) p of None \<Rightarrow> Inl PageFault | Some f \<Rightarrow> Inr f)"

definition set_page :: "vm \<Rightarrow> frame \<Rightarrow> idx \<Rightarrow> (page \<Rightarrow> page) \<Rightarrow> vm" where
  "set_page s f i g = s\<lparr>frames := (frames s)(f := (frames s f)(i := g (frames s f i)))\<rparr>"

definition read_entry :: "vm \<Rightarrow> addr_t \<Rightarrow> u64 \<Rightarrow> page res" where
  "read_entry s t i = bind_res (table_frame s t) (\<lambda>f. Inr (frames s f (ucast i)))"

definition write_entry :: "vm \<Rightarrow> addr_t \<Rightarrow> u64 \<Rightarrow> (page \<Rightarrow> page) \<Rightarrow> vm res" where
  "write_entry s t i g = bind_res (table_frame s t) (\<lambda>f. Inr (set_page s f (ucast i) g))"

definition zero_table :: "vm \<Rightarrow> addr_t \<Rightarrow> vm res" where
  "zero_table s t = bind_res (table_frame s t) (\<lambda>f. Inr (s\<lparr>frames := (frames s)(f := (\<lambda>_. zero_page))\<rparr>))"

text \<open>The table \<open>current\<close> of the source, \<open>kernel_context.virtual_base\<close>: the kernel image is mapped at \<open>VMA_BASE\<close>.\<close>

definition current :: "vm \<Rightarrow> frame" where
  "current s = frame_of (virtual_base (kernel_context s) - VMA_BASE)"

definition set_fractal :: "vm \<Rightarrow> u64 \<Rightarrow> frame \<Rightarrow> vm" where
  "set_fractal s entry f = set_page s (current s) (ucast entry) (\<lambda>p. p\<lparr>address := f\<rparr>)"

definition get_fractal :: "vm \<Rightarrow> u64 \<Rightarrow> frame" where
  "get_fractal s entry = address (frames s (current s) (ucast entry))"

subsection \<open>Mapping\<close>

text \<open>The page allocator is an argument of the functions of \<open>map.c\<close>: \<open>physical_alloc\<close> moves the window of \<open>lib/stack.c\<close>, which is a call of
  \<open>virtual_map\<close> again, so the functions are used at two depths.\<close>

definition virtual_set_address :: "(vm \<Rightarrow> (addr_t \<times> vm) res) \<Rightarrow> vm \<Rightarrow> addr_t \<Rightarrow> u64 \<Rightarrow> (bool \<times> vm) res" where
  "virtual_set_address alloc s t i =
     bind_res (read_entry s t i) (\<lambda>page.
       if \<not> present page
       then bind_res (alloc s) (\<lambda>(addr, s1).
              bind_res (write_entry s1 t i (\<lambda>p. p\<lparr>address := frame_of addr\<rparr>)) (\<lambda>s'.
                Inr (True, s')))
       else Inr (False, s))"

definition page_set_flags :: "u8 \<Rightarrow> page \<Rightarrow> page" where
  "page_set_flags flags p = p\<lparr>present := True, writable := flags AND PAGE_WRITABLE \<noteq> 0, user := flags AND PAGE_USER \<noteq> 0,
     global := flags AND PAGE_GLOBAL \<noteq> 0, nx := flags AND PAGE_NX \<noteq> 0\<rparr>"

definition virtual_set_flags :: "vm \<Rightarrow> addr_t \<Rightarrow> u64 \<Rightarrow> u8 \<Rightarrow> vm res" where
  "virtual_set_flags s t i flags = write_entry s t i (page_set_flags flags)"

text \<open>The step the source writes out for each of the three upper levels: entry \<open>i\<close> of table \<open>t\<close>, whose table is \<open>next\<close>.\<close>

definition map_level :: "(vm \<Rightarrow> (addr_t \<times> vm) res) \<Rightarrow> vm \<Rightarrow> addr_t \<Rightarrow> u64 \<Rightarrow> addr_t \<Rightarrow> u8 \<Rightarrow> vm res" where
  "map_level alloc s t i nxt flags =
     bind_res (virtual_set_address alloc s t i) (\<lambda>(r, s1).
     bind_res (virtual_set_flags s1 t i flags) (\<lambda>s2.
       if r then zero_table s2 nxt else Inr s2))"

text \<open>The four table pointers.\<close>

definition ptr_pml4 :: addr_t where
  "ptr_pml4 = entry_to_address RECURSIVE_ENTRY RECURSIVE_ENTRY RECURSIVE_ENTRY RECURSIVE_ENTRY"
definition ptr_pdpt :: "addr_t \<Rightarrow> addr_t" where
  "ptr_pdpt v = entry_to_address RECURSIVE_ENTRY RECURSIVE_ENTRY RECURSIVE_ENTRY (PML4_INDEX v)"
definition ptr_pd :: "addr_t \<Rightarrow> addr_t" where
  "ptr_pd v = entry_to_address RECURSIVE_ENTRY RECURSIVE_ENTRY (PML4_INDEX v) (PDPT_INDEX v)"
definition ptr_pt :: "addr_t \<Rightarrow> addr_t" where
  "ptr_pt v = entry_to_address RECURSIVE_ENTRY (PML4_INDEX v) (PDPT_INDEX v) (PD_INDEX v)"

definition map_page :: "(vm \<Rightarrow> (addr_t \<times> vm) res) \<Rightarrow> vm \<Rightarrow> memory_context \<Rightarrow> addr_t \<Rightarrow> addr_t \<Rightarrow> u8 \<Rightarrow> vm res" where
  "map_page alloc s context virtual physical flags =
     (let original_fractal = get_fractal s RECURSIVE_ENTRY;
          s = set_fractal s RECURSIVE_ENTRY (frame_of (physical_base context))
      in bind_res (map_level alloc s ptr_pml4 (PML4_INDEX virtual) (ptr_pdpt virtual) flags) (\<lambda>s.
         bind_res (map_level alloc s (ptr_pdpt virtual) (PDPT_INDEX virtual) (ptr_pd virtual) flags) (\<lambda>s.
         bind_res (map_level alloc s (ptr_pd virtual) (PD_INDEX virtual) (ptr_pt virtual) flags) (\<lambda>s.
         bind_res (virtual_set_flags s (ptr_pt virtual) (PT_INDEX virtual) flags) (\<lambda>s.
         bind_res (write_entry s (ptr_pt virtual) (PT_INDEX virtual) (\<lambda>p. p\<lparr>address := frame_of physical\<rparr>)) (\<lambda>s.
           Inr (set_fractal s RECURSIVE_ENTRY original_fractal)))))))"

text \<open>Moving the window, the call of \<open>virtual_map\<close> in \<open>stack_map\<close>. When a table on the way to the window is missing, its allocation finds
  the free lists as the call that moves the window found them: an allocation that needs the window starts the same call again and so never
  returns, and one that has nothing to give returns without it.\<close>

definition nested_alloc :: "vm \<Rightarrow> (addr_t \<times> vm) res" where
  "nested_alloc s =
     bind_res (physical_alloc ((vm_kmem s)\<lparr>window_maps := []\<rparr>) (vm_phys s) 0x1000 0) (\<lambda>(a, m, P).
       if window_maps m = [] then Inr (a, s) else Inl Diverges)"

definition window_map :: "vm \<Rightarrow> addr_t \<Rightarrow> vm res" where
  "window_map s physical = map_page nested_alloc s (kernel_context s) (phys_page_virt s) physical (PAGE_PRESENT OR PAGE_WRITABLE)"

primrec show_pages :: "addr_t list \<Rightarrow> vm \<Rightarrow> vm res" where
  "show_pages [] s = Inr s"
| "show_pages (p # ps) s = bind_res (window_map s p) (show_pages ps)"

text \<open>The physical memory manager on the machine: its work on the free lists, and the window moved as often as it was.\<close>

definition vm_physical_alloc :: "vm \<Rightarrow> size_t \<Rightarrow> u8 \<Rightarrow> (addr_t \<times> vm) res" where
  "vm_physical_alloc s sz flags =
     bind_res (physical_alloc ((vm_kmem s)\<lparr>window_maps := []\<rparr>) (vm_phys s) sz flags) (\<lambda>(a, m, P).
     bind_res (show_pages (window_maps m) s) (\<lambda>s. Inr (a, s\<lparr>vm_kmem := m, vm_phys := P\<rparr>)))"

definition vm_physical_free :: "vm \<Rightarrow> addr_t \<Rightarrow> size_t \<Rightarrow> vm res" where
  "vm_physical_free s a sz =
     bind_res (physical_free ((vm_kmem s)\<lparr>window_maps := []\<rparr>) (vm_phys s) a sz) (\<lambda>(m, P).
     bind_res (show_pages (window_maps m) s) (\<lambda>s. Inr (s\<lparr>vm_kmem := m, vm_phys := P\<rparr>)))"

definition page_alloc :: "vm \<Rightarrow> (addr_t \<times> vm) res" where
  "page_alloc s = vm_physical_alloc s 0x1000 0"

definition arch_virtual_map :: "vm \<Rightarrow> memory_context \<Rightarrow> addr_t \<Rightarrow> addr_t \<Rightarrow> u8 \<Rightarrow> vm res" where
  "arch_virtual_map s context virtual physical flags = map_page page_alloc s context virtual physical flags"

subsection \<open>Unmapping\<close>

definition virtual_table_is_empty :: "page_table \<Rightarrow> bool" where
  "virtual_table_is_empty table = (\<forall>i \<in> set [0 ..< 512]. \<not> present (table (of_nat i)))"

text \<open>The step for each level on the way up: when the table \<open>t\<close> has become empty, the frame that entry \<open>i\<close> of its parent
  names is freed and the entry cleared.\<close>

definition unmap_level :: "vm \<Rightarrow> addr_t \<Rightarrow> addr_t \<Rightarrow> u64 \<Rightarrow> vm res" where
  "unmap_level s t parent i =
     bind_res (table_frame s t) (\<lambda>f.
       if virtual_table_is_empty (frames s f)
       then bind_res (read_entry s parent i) (\<lambda>e.
            bind_res (vm_physical_free s (ucast (address e) * 0x1000) 0x1000) (\<lambda>s.
              write_entry s parent i (\<lambda>_. zero_page)))
       else Inr s)"

definition arch_virtual_unmap :: "vm \<Rightarrow> memory_context \<Rightarrow> addr_t \<Rightarrow> vm res" where
  "arch_virtual_unmap s context virtual =
     (let original_fractal = get_fractal s RECURSIVE_ENTRY;
          s = set_fractal s RECURSIVE_ENTRY (frame_of (physical_base context));
          s = s\<lparr>vm_cr3 := physical_base (kernel_context s)\<rparr>
      in bind_res (read_entry s ptr_pml4 (PML4_INDEX virtual)) (\<lambda>e4. if \<not> present e4 then Inr s else
         bind_res (read_entry s (ptr_pdpt virtual) (PDPT_INDEX virtual)) (\<lambda>e3. if \<not> present e3 then Inr s else
         bind_res (read_entry s (ptr_pd virtual) (PD_INDEX virtual)) (\<lambda>e2. if \<not> present e2 then Inr s else
         bind_res (read_entry s (ptr_pt virtual) (PT_INDEX virtual)) (\<lambda>e1. if \<not> present e1 then Inr s else
         bind_res (write_entry s (ptr_pt virtual) (PT_INDEX virtual) (\<lambda>_. zero_page)) (\<lambda>s.
         bind_res (unmap_level s (ptr_pt virtual) (ptr_pd virtual) (PD_INDEX virtual)) (\<lambda>s.
         bind_res (unmap_level s (ptr_pd virtual) (ptr_pdpt virtual) (PDPT_INDEX virtual)) (\<lambda>s.
         bind_res (unmap_level s (ptr_pdpt virtual) ptr_pml4 (PML4_INDEX virtual)) (\<lambda>s.
           Inr (set_fractal s RECURSIVE_ENTRY original_fractal))))))))))"

subsection \<open>Cloning\<close>

text \<open>\<open>for (int i = 0; i < 512; i++)\<close> over a state.\<close>

definition for_entries :: "(u64 \<Rightarrow> vm \<Rightarrow> vm res) \<Rightarrow> vm \<Rightarrow> vm res" where
  "for_entries body s = fold (\<lambda>i r. bind_res r (body (of_nat i))) [0 ..< 512] (Inr s)"

text \<open>\<open>memcpy(&new->pages[i], &old->pages[i], sizeof(struct page))\<close>.\<close>

definition copy_entry :: "vm \<Rightarrow> addr_t \<Rightarrow> addr_t \<Rightarrow> u64 \<Rightarrow> vm res" where
  "copy_entry s new old i = bind_res (read_entry s old i) (\<lambda>e. write_entry s new i (\<lambda>_. e))"

text \<open>Both upper levels allocate a table for a present entry, copy the entry and redirect it.\<close>

definition copy_with_new_table :: "vm \<Rightarrow> addr_t \<Rightarrow> addr_t \<Rightarrow> u64 \<Rightarrow> vm res" where
  "copy_with_new_table s new old i =
     bind_res (page_alloc s) (\<lambda>(a, s).
     bind_res (copy_entry s new old i) (\<lambda>s.
       write_entry s new i (\<lambda>p. p\<lparr>address := frame_of a\<rparr>)))"

definition copy_pt_entry :: "vm \<Rightarrow> addr_t \<Rightarrow> addr_t \<Rightarrow> vm res" where
  "copy_pt_entry s new_pt old_pt =
     for_entries (\<lambda>i s. bind_res (read_entry s old_pt i) (\<lambda>e.
       if present e then copy_entry s new_pt old_pt i else Inr s)) s"

definition copy_pd_entry :: "vm \<Rightarrow> addr_t \<Rightarrow> addr_t \<Rightarrow> u64 \<Rightarrow> u64 \<Rightarrow> vm res" where
  "copy_pd_entry s new_pd old_pd pml4_index pdpt_index =
     for_entries (\<lambda>i s. bind_res (read_entry s old_pd i) (\<lambda>e.
       if present e
       then bind_res (copy_with_new_table s new_pd old_pd i) (\<lambda>s.
              copy_pt_entry s (entry_to_address COPY_ENTRY pml4_index pdpt_index i)
                (entry_to_address RECURSIVE_ENTRY pml4_index pdpt_index i))
       else Inr s)) s"

definition copy_pdpt_entry :: "vm \<Rightarrow> addr_t \<Rightarrow> addr_t \<Rightarrow> u64 \<Rightarrow> vm res" where
  "copy_pdpt_entry s new_pdpt old_pdpt pml4_index =
     for_entries (\<lambda>i s. bind_res (read_entry s old_pdpt i) (\<lambda>e.
       if present e
       then bind_res (copy_with_new_table s new_pdpt old_pdpt i) (\<lambda>s.
              copy_pd_entry s (entry_to_address COPY_ENTRY COPY_ENTRY pml4_index i)
                (entry_to_address RECURSIVE_ENTRY RECURSIVE_ENTRY pml4_index i) pml4_index i)
       else Inr s)) s"

definition arch_virtual_clone :: "vm \<Rightarrow> memory_context \<Rightarrow> memory_context \<Rightarrow> vm res" where
  "arch_virtual_clone s original new =
     (let s = set_fractal s RECURSIVE_ENTRY (frame_of (physical_base original));
          s = set_fractal s COPY_ENTRY (frame_of (physical_base new));
          s = s\<lparr>vm_cr3 := physical_base (kernel_context s)\<rparr>;
          new_pml4 = entry_to_address COPY_ENTRY COPY_ENTRY COPY_ENTRY COPY_ENTRY;
          old_pml4 = ptr_pml4
      in bind_res (zero_table s new_pml4) (\<lambda>s.
         bind_res (for_entries (\<lambda>i s. copy_entry s new_pml4 old_pml4 i) s) (\<lambda>s.
           for_entries (\<lambda>i s.
             if i \<ge> PML4_INDEX HIGHER_HALF then copy_entry s new_pml4 old_pml4 i
             else bind_res (read_entry s old_pml4 i) (\<lambda>e.
               if present e
               then bind_res (copy_with_new_table s new_pml4 old_pml4 i) (\<lambda>s.
                      copy_pdpt_entry s (entry_to_address COPY_ENTRY COPY_ENTRY COPY_ENTRY i)
                        (entry_to_address RECURSIVE_ENTRY RECURSIVE_ENTRY RECURSIVE_ENTRY i) i)
               else Inr s)) s)))"

subsection \<open>The generic layer\<close>

text \<open>The loops of \<open>mm/virtual.c\<close>; the outer option is None where the counter wraps round for ever.\<close>

partial_function (option) virtual_map_loop ::
  "vm \<Rightarrow> memory_context \<Rightarrow> addr_t \<Rightarrow> addr_t \<Rightarrow> size_t \<Rightarrow> u8 \<Rightarrow> size_t \<Rightarrow> vm res option" where
  "virtual_map_loop s context virtual physical sz flags mapped =
     (if mapped < sz
      then case arch_virtual_map s context (virtual + mapped) (physical + mapped) flags of
             Inl e \<Rightarrow> Some (Inl e)
           | Inr s' \<Rightarrow> virtual_map_loop s' context virtual physical sz flags (mapped + PAGE_SIZE)
      else Some (Inr s))"

definition virtual_map :: "vm \<Rightarrow> memory_context option \<Rightarrow> addr_t \<Rightarrow> addr_t \<Rightarrow> size_t \<Rightarrow> u8 \<Rightarrow> vm res option" where
  "virtual_map s context virtual physical sz flags =
     (case context of None \<Rightarrow> Some (Inr s)
      | Some c \<Rightarrow> if sz = 0 then Some (Inr s) else virtual_map_loop s c virtual physical sz flags 0)"

partial_function (option) virtual_unmap_loop ::
  "vm \<Rightarrow> memory_context \<Rightarrow> addr_t \<Rightarrow> size_t \<Rightarrow> size_t \<Rightarrow> vm res option" where
  "virtual_unmap_loop s context virtual sz mapped =
     (if mapped < sz
      then case arch_virtual_unmap s context virtual of
             Inl e \<Rightarrow> Some (Inl e)
           | Inr s' \<Rightarrow> virtual_unmap_loop s' context virtual sz (mapped + PAGE_SIZE)
      else Some (Inr s))"

definition virtual_unmap :: "vm \<Rightarrow> memory_context option \<Rightarrow> addr_t \<Rightarrow> size_t \<Rightarrow> vm res option" where
  "virtual_unmap s context virtual sz =
     (case context of None \<Rightarrow> Some (Inr s)
      | Some c \<Rightarrow> if sz = 0 then Some (Inr s) else virtual_unmap_loop s c virtual sz 0)"

definition virtual_clone :: "vm \<Rightarrow> memory_context \<Rightarrow> memory_context \<Rightarrow> vm res" where
  "virtual_clone s original new = arch_virtual_clone s original new"

section \<open>Recursive addresses\<close>

lemma bit_take_9: "a < 512 \<Longrightarrow> 9 \<le> n \<Longrightarrow> \<not> bit a n" for a :: u64
proof -
  assume "a < 512" "9 \<le> n"
  then have "unat a < 2 ^ 9" by (simp add: word_less_nat_iff)
  then have "unat (take_bit 9 a) = unat a" by (simp only: unat_take_bit_mod) simp
  then have "take_bit 9 a = a" by (simp only: word_unat_eq_iff)
  then show "\<not> bit a n" using \<open>9 \<le> n\<close> by (metis bit_take_bit_iff not_le)
qed

lemma bit_and_9: "bit (drop_bit k x AND 0x1FF) n \<longleftrightarrow> n < 9 \<and> bit x (k + n)" for x :: u64
proof -
  have "(0x1FF :: u64) = mask 9" by (simp add: mask_eq_exp_minus_1)
  then have "bit (drop_bit k x AND 0x1FF) n \<longleftrightarrow> bit (drop_bit k x) n \<and> bit (mask 9 :: u64) n" by (simp only: bit_and_iff)
  then show ?thesis by (auto simp: bit_mask_iff bit_drop_bit_eq)
qed

lemma bit_high: "bit (0xFFFF000000000000 :: u64) n \<longleftrightarrow> 48 \<le> n \<and> n < 64"
proof -
  have *: "(0xFFFF000000000000 :: u64) = push_bit 48 (mask 16)" by (simp add: mask_eq_exp_minus_1 push_bit_eq_mult)
  show ?thesis unfolding * bit_push_bit_iff bit_mask_iff by auto
qed

lemma entry_to_address_bit:
  "bit (entry_to_address a p d t) n \<longleftrightarrow> n < 64 \<and>
     ((39 \<le> n \<and> bit a (n - 39)) \<or> ((push_bit 39 a AND push_bit 47 1) > 0 \<and> 48 \<le> n) \<or> (30 \<le> n \<and> bit p (n - 30))
      \<or> (21 \<le> n \<and> bit d (n - 21)) \<or> (12 \<le> n \<and> bit t (n - 12)))"
proof (cases "(push_bit 39 a AND push_bit 47 1) > 0")
  case True
  then show ?thesis unfolding entry_to_address_def Let_def if_P [OF True] bit_or_iff bit_push_bit_iff bit_high
    using True by auto
next
  case False
  then show ?thesis unfolding entry_to_address_def Let_def if_not_P [OF False] bit_or_iff bit_push_bit_iff
    using False by auto
qed

lemma entry_indices:
  assumes "a < 512" and "p < 512" and "d < 512" and "t < 512"
  shows "PML4_INDEX (entry_to_address a p d t) = a" and "PDPT_INDEX (entry_to_address a p d t) = p"
    and "PD_INDEX (entry_to_address a p d t) = d" and "PT_INDEX (entry_to_address a p d t) = t"
proof -
  note z = bit_take_9 [OF assms(1)] bit_take_9 [OF assms(2)] bit_take_9 [OF assms(3)] bit_take_9 [OF assms(4)]
  have ext: "x = y" if "\<And>n. n < 9 \<Longrightarrow> bit x n = bit y n" "\<And>n. 9 \<le> n \<Longrightarrow> \<not> bit x n" "\<And>n. 9 \<le> n \<Longrightarrow> \<not> bit y n" for x y :: u64
    by (rule bit_word_eqI) (metis that not_le)
  show "PML4_INDEX (entry_to_address a p d t) = a"
    by (rule ext) (use z in \<open>simp_all add: PML4_INDEX_def bit_and_9 entry_to_address_bit\<close>)
  show "PDPT_INDEX (entry_to_address a p d t) = p"
    by (rule ext) (use z in \<open>simp_all add: PDPT_INDEX_def bit_and_9 entry_to_address_bit\<close>)
  show "PD_INDEX (entry_to_address a p d t) = d"
    by (rule ext) (use z in \<open>simp_all add: PD_INDEX_def bit_and_9 entry_to_address_bit\<close>)
  show "PT_INDEX (entry_to_address a p d t) = t"
    by (rule ext) (use z in \<open>simp_all add: PT_INDEX_def bit_and_9 entry_to_address_bit\<close>)
qed

lemma index_less [simp]: "PML4_INDEX x < 512" "PDPT_INDEX x < 512" "PD_INDEX x < 512" "PT_INDEX x < 512"
proof -
  have "y AND 0x1FF < (512 :: u64)" for y
  proof -
    have "y AND 0x1FF \<le> (0x1FF :: u64)" by (rule word_and_le1)
    then show ?thesis by (auto simp: word_le_nat_iff word_less_nat_iff)
  qed
  then show "PML4_INDEX x < 512" "PDPT_INDEX x < 512" "PD_INDEX x < 512" "PT_INDEX x < 512"
    by (simp_all add: PML4_INDEX_def PDPT_INDEX_def PD_INDEX_def PT_INDEX_def)
qed


section \<open>Address spaces as trees\<close>

text \<open>The walk along a path of indices, the tables below a table (\<open>n\<close> levels of tables, entries in \<open>X\<close> of the
  first left out), and that these tables form a tree without large pages.\<close>

fun walk :: "(frame \<Rightarrow> page_table) \<Rightarrow> frame \<Rightarrow> idx list \<Rightarrow> frame option" where
  "walk fr f [] = Some f"
| "walk fr f (i # is) = (if present (fr f i) then walk fr (address (fr f i)) is else None)"

fun tables :: "idx set \<Rightarrow> (frame \<Rightarrow> page_table) \<Rightarrow> nat \<Rightarrow> frame \<Rightarrow> frame set" where
  "tables X fr 0 f = {f}"
| "tables X fr (Suc n) f = insert f (\<Union>i \<in> {i. i \<notin> X \<and> present (fr f i)}. tables {} fr n (address (fr f i)))"

text \<open>The tables above the last level, whose entries lead to tables.\<close>

fun above :: "idx set \<Rightarrow> (frame \<Rightarrow> page_table) \<Rightarrow> nat \<Rightarrow> frame \<Rightarrow> frame set" where
  "above X fr 0 f = {}"
| "above X fr (Suc n) f = insert f (\<Union>i \<in> {i. i \<notin> X \<and> present (fr f i)}. above {} fr n (address (fr f i)))"

fun tree :: "idx set \<Rightarrow> (frame \<Rightarrow> page_table) \<Rightarrow> nat \<Rightarrow> frame \<Rightarrow> bool" where
  "tree X fr 0 f \<longleftrightarrow> True"
| "tree X fr (Suc n) f \<longleftrightarrow>
     (\<forall>i. i \<notin> X \<longrightarrow> \<not> huge_page (fr f i))
     \<and> (\<forall>i. i \<notin> X \<longrightarrow> present (fr f i) \<longrightarrow> tree {} fr n (address (fr f i)) \<and> f \<notin> tables {} fr n (address (fr f i)))
     \<and> (\<forall>i j. i \<notin> X \<longrightarrow> j \<notin> X \<longrightarrow> i \<noteq> j \<longrightarrow> present (fr f i) \<longrightarrow> present (fr f j) \<longrightarrow>
          tables {} fr n (address (fr f i)) \<inter> tables {} fr n (address (fr f j)) = {})"

text \<open>What mapping does to the frames: along the path, entries get the flags, and a missing table is the next of \<open>new\<close>,
  cleared.\<close>

definition upd :: "(frame \<Rightarrow> page_table) \<Rightarrow> frame \<Rightarrow> idx \<Rightarrow> page \<Rightarrow> frame \<Rightarrow> page_table" where
  "upd fr f i p = fr(f := (fr f)(i := p))"

fun ins :: "u8 \<Rightarrow> frame \<Rightarrow> (frame \<Rightarrow> page_table) \<Rightarrow> frame \<Rightarrow> idx list \<Rightarrow> frame list \<Rightarrow> frame \<Rightarrow> page_table" where
  "ins fl t fr f [] new = fr"
| "ins fl t fr f [i] new = upd fr f i ((page_set_flags fl (fr f i))\<lparr>address := t\<rparr>)"
| "ins fl t fr f (i # j # is) new =
     (if present (fr f i) then ins fl t (upd fr f i (page_set_flags fl (fr f i))) (address (fr f i)) (j # is) new
      else ins fl t ((upd fr f i (page_set_flags fl ((fr f i)\<lparr>address := hd new\<rparr>)))(hd new := (\<lambda>_. zero_page)))
             (hd new) (j # is) (tl new))"

fun missing :: "(frame \<Rightarrow> page_table) \<Rightarrow> frame \<Rightarrow> idx list \<Rightarrow> nat" where
  "missing fr f [] = 0"
| "missing fr f [i] = 0"
| "missing fr f (i # j # is) = (if present (fr f i) then missing fr (address (fr f i)) (j # is) else Suc (length is))"

lemma root_in_tables [simp]: "f \<in> tables X fr n f"
  by (cases n) auto

lemma tables_cong:
  assumes "\<And>g. g \<in> tables X fr n f \<Longrightarrow> fr' g = fr g"
  shows "tables X fr' n f = tables X fr n f"
  using assms
proof (induction n arbitrary: X f)
  case (Suc n)
  have "fr' f = fr f" by (rule Suc.prems) simp
  moreover have "tables {} fr' n (address (fr f i)) = tables {} fr n (address (fr f i))" if "i \<notin> X" "present (fr f i)" for i
    by (rule Suc.IH) (use Suc.prems that in auto)
  ultimately show ?case by auto
qed simp

lemma above_subset: "above X fr n f \<subseteq> tables X fr n f"
  by (induction n arbitrary: X f) fastforce+

lemma above_cong:
  assumes "\<And>g. g \<in> tables X fr n f \<Longrightarrow> fr' g = fr g"
  shows "above X fr' n f = above X fr n f"
  using assms
proof (induction n arbitrary: X f)
  case (Suc n)
  have "fr' f = fr f" by (rule Suc.prems) simp
  moreover have "above {} fr' n (address (fr f i)) = above {} fr n (address (fr f i))" if "i \<notin> X" "present (fr f i)" for i
    by (rule Suc.IH) (use Suc.prems that in auto)
  ultimately show ?case by auto
qed simp

lemma tree_cong:
  assumes "\<And>g. g \<in> tables X fr n f \<Longrightarrow> fr' g = fr g"
  shows "tree X fr' n f = tree X fr n f"
  using assms
proof (induction n arbitrary: X f)
  case (Suc n)
  have f: "fr' f = fr f" by (rule Suc.prems) simp
  have sub: "g \<in> tables {} fr n (address (fr f i)) \<Longrightarrow> fr' g = fr g" if "i \<notin> X" "present (fr f i)" for i g
    using Suc.prems that by auto
  have t: "tables {} fr' n (address (fr f i)) = tables {} fr n (address (fr f i))" if "i \<notin> X" "present (fr f i)" for i
    by (rule tables_cong) (use sub that in blast)
  have r: "tree {} fr' n (address (fr f i)) = tree {} fr n (address (fr f i))" if "i \<notin> X" "present (fr f i)" for i
    by (rule Suc.IH) (use sub that in blast)
  show ?case using t r by (auto simp: f)
qed simp

lemma walk_cong:
  assumes "\<And>g. g \<in> tables X fr n f \<Longrightarrow> fr' g = fr g" and "length is = Suc n" and "hd is \<notin> X"
  shows "walk fr' f is = walk fr f is"
  using assms
proof (induction n arbitrary: X f "is")
  case 0
  then show ?case by (cases "is") auto
next
  case (Suc n)
  obtain i js where js: "is = i # js" "length js = Suc n" using Suc.prems(2) by (cases "is") auto
  have f: "fr' f = fr f" by (rule Suc.prems) simp
  have "walk fr' (address (fr f i)) js = walk fr (address (fr f i)) js" if "present (fr f i)"
    by (rule Suc.IH [of "{}"]) (use Suc.prems js that in auto)
  then show ?case by (simp add: js f)
qed

lemma missing_cong:
  assumes "\<And>g. g \<in> tables X fr n f \<Longrightarrow> fr' g = fr g" and "length is = Suc n" and "hd is \<notin> X"
  shows "missing fr' f is = missing fr f is"
  using assms
proof (induction n arbitrary: X f "is")
  case 0
  then show ?case by (cases "is") auto
next
  case (Suc n)
  obtain i j js where js: "is = i # j # js" "length (j # js) = Suc n"
    using Suc.prems(2) by (cases "is"; cases "tl is") auto
  have f: "fr' f = fr f" by (rule Suc.prems) simp
  have "missing fr' (address (fr f i)) (j # js) = missing fr (address (fr f i)) (j # js)" if "present (fr f i)"
    by (rule Suc.IH [of "{}"]) (use Suc.prems js that in auto)
  then show ?case by (simp add: js f)
qed

lemma set_flags_simps [simp]:
  "present (page_set_flags fl p)" "address (page_set_flags fl p) = address p" "huge_page (page_set_flags fl p) = huge_page p"
  by (simp_all add: page_set_flags_def)

lemma zero_page_simps [simp]: "present zero_page = False" "huge_page zero_page = False"
  by (simp_all add: zero_page_def)

text \<open>Replacing entry \<open>i\<close> of the table \<open>f\<close> by one that leads to a tree inside \<open>T\<close>.\<close>

lemma graft:
  assumes tr: "tree X fr (Suc n) f" and i: "i \<notin> X"
    and e: "fr' f = (fr f)(i := e)" "present e" "\<not> huge_page e"
    and sub: "tree {} fr' n (address e)" "tables {} fr' n (address e) \<subseteq> T"
    and T1: "f \<notin> T" and T2: "\<forall>j. j \<notin> X \<longrightarrow> j \<noteq> i \<longrightarrow> present (fr f j) \<longrightarrow> T \<inter> tables {} fr n (address (fr f j)) = {}"
    and same0: "\<forall>g. g \<notin> T \<longrightarrow> g \<noteq> f \<longrightarrow> fr' g = fr g"
    and wlk0: "\<forall>q. length q = Suc n \<longrightarrow> walk fr' (address e) q
        = (if q = js then Some t else if present (fr f i) then walk fr (address (fr f i)) q else None)"
  shows "tree X fr' (Suc n) f" and "tables X fr' (Suc n) f \<subseteq> tables X fr (Suc n) f \<union> T"
    and "above {} fr' n (address e) \<subseteq> above X fr (Suc n) f \<union> N \<Longrightarrow> above X fr' (Suc n) f \<subseteq> above X fr (Suc n) f \<union> N"
    and "length q = Suc (Suc n) \<Longrightarrow> hd q \<notin> X \<Longrightarrow> walk fr' f q = (if q = i # js then Some t else walk fr f q)"
proof -
  note T = T1 T2 [rule_format] and same = same0 [rule_format] and wlk = wlk0 [rule_format]
  have other: "fr' g = fr g" if "j \<notin> X" "j \<noteq> i" "present (fr f j)" "g \<in> tables {} fr n (address (fr f j))" for j g
    using same [of g] T(2) [OF that(1-3)] tr that by auto
  have tj: "tables {} fr' n (address (fr f j)) = tables {} fr n (address (fr f j))"
    and rj: "tree {} fr' n (address (fr f j)) = tree {} fr n (address (fr f j))"
    and aj: "above {} fr' n (address (fr f j)) = above {} fr n (address (fr f j))"
    if "j \<notin> X" "j \<noteq> i" "present (fr f j)" for j
    using tables_cong [of "{}" fr n "address (fr f j)" fr'] tree_cong [of "{}" fr n "address (fr f j)" fr']
      above_cong [of "{}" fr n "address (fr f j)" fr'] other [OF that] by blast+
  have "f \<notin> tables {} fr' n (address (fr' f j)) \<and> tree {} fr' n (address (fr' f j))" if "j \<notin> X" "present (fr' f j)" for j
    using that e sub T(1) tj rj tr by (cases "j = i") auto
  moreover have "tables {} fr' n (address (fr' f j)) \<inter> tables {} fr' n (address (fr' f k)) = {}"
    if "j \<notin> X" "k \<notin> X" "j \<noteq> k" "present (fr' f j)" "present (fr' f k)" for j k
    using that e sub(2) T(2) tj tr by (cases "j = i"; cases "k = i") (simp_all, blast+)
  moreover have "\<not> huge_page (fr' f j)" if "j \<notin> X" for j using that e tr by (cases "j = i") auto
  ultimately show "tree X fr' (Suc n) f" by simp
  show "tables X fr' (Suc n) f \<subseteq> tables X fr (Suc n) f \<union> T"
  proof
    fix g assume "g \<in> tables X fr' (Suc n) f"
    then consider "g = f" | j where "j \<notin> X" "present (fr' f j)" "g \<in> tables {} fr' n (address (fr' f j))" by auto
    then show "g \<in> tables X fr (Suc n) f \<union> T"
    proof cases
      case (2 j)
      then show ?thesis using e sub(2) tj by (cases "j = i") auto
    qed simp
  qed
  show "above X fr' (Suc n) f \<subseteq> above X fr (Suc n) f \<union> N" if N: "above {} fr' n (address e) \<subseteq> above X fr (Suc n) f \<union> N"
  proof
    fix g assume "g \<in> above X fr' (Suc n) f"
    then consider "g = f" | j where "j \<notin> X" "present (fr' f j)" "g \<in> above {} fr' n (address (fr' f j))" by auto
    then show "g \<in> above X fr (Suc n) f \<union> N"
    proof cases
      case (2 j)
      show ?thesis
      proof (cases "j = i")
        case True
        then show ?thesis using 2 e N by auto
      next
        case False
        then show ?thesis using 2 e aj [of j] by auto
      qed
    qed simp
  qed
  show "walk fr' f q = (if q = i # js then Some t else walk fr f q)" if q: "length q = Suc (Suc n)" "hd q \<notin> X"
  proof -
    obtain k qs where k: "q = k # qs" "length qs = Suc n" using q by (cases q) auto
    show ?thesis
    proof (cases "k = i")
      case True
      then show ?thesis using k e wlk [of qs] by simp
    next
      case False
      then have "walk fr' (address (fr f k)) qs = walk fr (address (fr f k)) qs" if "present (fr f k)"
        using walk_cong [of "{}" fr n "address (fr f k)" fr' qs] other [of k] that k q(2) by simp
      then show ?thesis using k e False by simp
    qed
  qed
qed

lemma above_zero: "fr f = (\<lambda>_. zero_page) \<Longrightarrow> above X fr n f \<subseteq> {f}"
  by (cases n) auto

lemma tables_zero: "fr f = (\<lambda>_. zero_page) \<Longrightarrow> tables X fr n f = {f}" "fr f = (\<lambda>_. zero_page) \<Longrightarrow> tree X fr n f"
  "fr f = (\<lambda>_. zero_page) \<Longrightarrow> missing fr f is = length is - 1" "fr f = (\<lambda>_. zero_page) \<Longrightarrow> q \<noteq> [] \<Longrightarrow> walk fr f q = None"
proof -
  assume z: "fr f = (\<lambda>_. zero_page)"
  show "tables X fr n f = {f}" "tree X fr n f" using z by (cases n; simp)+
  show "missing fr f is = length is - 1" using z by (cases "(fr, f, is)" rule: missing.cases) auto
  show "q \<noteq> [] \<Longrightarrow> walk fr f q = None" using z by (cases q) auto
qed

text \<open>Insertion changes only the tables of the tree and the new ones, keeps a tree, and changes the translation of the
  path alone.\<close>

lemma ins_correct:
  assumes "tree X fr n f" and "length is = Suc n" and "hd is \<notin> X" and "missing fr f is \<le> length new"
    and "distinct new" and "set new \<inter> tables X fr n f = {}"
  shows "(\<forall>g. g \<notin> tables X fr n f \<union> set new \<longrightarrow> ins fl t fr f is new g = fr g)
    \<and> tree X (ins fl t fr f is new) n f \<and> tables X (ins fl t fr f is new) n f \<subseteq> tables X fr n f \<union> set new
    \<and> above X (ins fl t fr f is new) n f \<subseteq> above X fr n f \<union> set new
    \<and> (\<forall>j. j \<noteq> hd is \<longrightarrow> ins fl t fr f is new f j = fr f j)
    \<and> (0 < n \<and> present (fr f (hd is)) \<longrightarrow> present (ins fl t fr f is new f (hd is)) \<and> address (ins fl t fr f is new f (hd is)) = address (fr f (hd is)))
    \<and> (\<forall>q. length q = Suc n \<longrightarrow> hd q \<notin> X \<longrightarrow> walk (ins fl t fr f is new) f q = (if q = is then Some t else walk fr f q))"
  using assms
proof (induction n arbitrary: X fr f "is" new)
  case 0
  then obtain i where i: "is = [i]" by (cases "is") auto
  have "walk (ins fl t fr f [i] new) f q = (if q = [i] then Some t else walk fr f q)" if "length q = Suc 0" for q
    using that by (cases q) (auto simp: upd_def)
  moreover have "upd fr f i p g = fr g" if "g \<noteq> f" for p g using that by (simp add: upd_def)
  moreover have "upd fr f i p f j = fr f j" if "j \<noteq> i" for p j using that by (simp add: upd_def)
  ultimately show ?case by (simp add: i)
next
  case (Suc n)
  obtain i j js where js: "is = i # j # js" "length (j # js) = Suc n"
    using Suc.prems(2) by (cases "is"; cases "tl is") auto
  have iX: "i \<notin> X" using Suc.prems(3) js by simp
  let ?js = "j # js" and ?fr' = "ins fl t fr f is new"
  have fnew: "f \<notin> set new" using Suc.prems(6) by auto
  show ?case
  proof (cases "present (fr f i)")
    case True
    let ?e = "page_set_flags fl (fr f i)" and ?A = "address (fr f i)"
    let ?fr = "upd fr f i ?e" and ?T = "tables {} fr n ?A \<union> set new"
    have fA: "f \<notin> tables {} fr n ?A" and trA: "tree {} fr n ?A" using Suc.prems(1) iX True by auto
    have c: "?fr g = fr g" if "g \<in> tables {} fr n ?A" for g using that fA by (auto simp: upd_def)
    have sub: "tables {} fr n ?A \<subseteq> tables X fr (Suc n) f" using iX True by auto
    have T: "tables {} ?fr n ?A = tables {} fr n ?A" by (rule tables_cong [OF c])
    have R: "tree {} ?fr n ?A = tree {} fr n ?A" by (rule tree_cong [OF c])
    have W: "walk ?fr ?A q = walk fr ?A q" if "length q = Suc n" for q by (rule walk_cong [OF c]) (use that in auto)
    have M: "missing ?fr ?A ?js = missing fr ?A ?js"
      by (rule missing_cong [OF c]) (use js in auto)
    have V: "above {} ?fr n ?A = above {} fr n ?A" by (rule above_cong [OF c])
    have IH: "(\<forall>g. g \<notin> ?T \<longrightarrow> ?fr' g = ?fr g) \<and> tree {} ?fr' n ?A \<and> tables {} ?fr' n ?A \<subseteq> ?T \<and> above {} ?fr' n ?A \<subseteq> above {} fr n ?A \<union> set new
      \<and> (\<forall>q. length q = Suc n \<longrightarrow> walk ?fr' ?A q = (if q = ?js then Some t else walk fr ?A q))"
    proof -
      have "(\<forall>g. g \<notin> tables {} ?fr n ?A \<union> set new \<longrightarrow> ins fl t ?fr ?A ?js new g = ?fr g)
        \<and> tree {} (ins fl t ?fr ?A ?js new) n ?A \<and> tables {} (ins fl t ?fr ?A ?js new) n ?A \<subseteq> tables {} ?fr n ?A \<union> set new
        \<and> above {} (ins fl t ?fr ?A ?js new) n ?A \<subseteq> above {} ?fr n ?A \<union> set new
        \<and> (\<forall>j. j \<noteq> hd ?js \<longrightarrow> ins fl t ?fr ?A ?js new ?A j = ?fr ?A j)
        \<and> (0 < n \<and> present (?fr ?A (hd ?js)) \<longrightarrow> present (ins fl t ?fr ?A ?js new ?A (hd ?js)) \<and> address (ins fl t ?fr ?A ?js new ?A (hd ?js)) = address (?fr ?A (hd ?js)))
        \<and> (\<forall>q. length q = Suc n \<longrightarrow> hd q \<notin> {} \<longrightarrow> walk (ins fl t ?fr ?A ?js new) ?A q = (if q = ?js then Some t else walk ?fr ?A q))"
      proof (rule Suc.IH)
        show "tree {} ?fr n ?A" using R trA by simp
        show "length ?js = Suc n" by (rule js(2))
        show "missing ?fr ?A ?js \<le> length new" using Suc.prems(4) True unfolding M js by simp
        show "set new \<inter> tables {} ?fr n ?A = {}" using Suc.prems(6) sub unfolding T by blast
      qed (use Suc.prems in auto)
      moreover have "?fr' = ins fl t ?fr ?A ?js new" using js True by simp
      ultimately show ?thesis using T W V by simp
    qed
    have f': "?fr' f = (fr f)(i := ?e)" using IH fA fnew by (simp add: upd_def)
    have same: "?fr' g = fr g" if "g \<notin> ?T" "g \<noteq> f" for g using IH that by (simp add: upd_def)
    have dis: "?T \<inter> tables {} fr n (address (fr f k)) = {}" if "k \<notin> X" "k \<noteq> i" "present (fr f k)" for k
    proof -
      have "tables {} fr n ?A \<inter> tables {} fr n (address (fr f k)) = {}" using Suc.prems(1) that True iX by simp
      moreover have "set new \<inter> tables {} fr n (address (fr f k)) = {}" using Suc.prems(6) that by auto
      ultimately show ?thesis by blast
    qed
    have hug: "\<not> huge_page ?e" using Suc.prems(1) iX by simp
    have fT: "f \<notin> ?T" using fA fnew by simp
    have sube: "tree {} ?fr' n (address ?e)" "tables {} ?fr' n (address ?e) \<subseteq> ?T"
      "\<forall>q. length q = Suc n \<longrightarrow> walk ?fr' (address ?e) q = (if q = ?js then Some t else if present (fr f i) then walk fr (address (fr f i)) q else None)"
      using IH True by auto
    note G0 = graft [OF Suc.prems(1) iX f' set_flags_simps(1) hug sube(1,2) fT, of ?js t]
    have dis': "\<forall>k. k \<notin> X \<longrightarrow> k \<noteq> i \<longrightarrow> present (fr f k) \<longrightarrow> ?T \<inter> tables {} fr n (address (fr f k)) = {}" using dis by blast
    have same': "\<forall>g. g \<notin> ?T \<longrightarrow> g \<noteq> f \<longrightarrow> ?fr' g = fr g" using same by blast
    note G = G0 [OF dis' same' sube(3)]
    have "?fr' g = fr g" if "g \<notin> tables X fr (Suc n) f \<union> set new" for g
      by (rule same) (use that sub root_in_tables in \<open>blast+\<close>)
    moreover have "tables X ?fr' (Suc n) f \<subseteq> tables X fr (Suc n) f \<union> set new" using G(2) sub by blast
    moreover have "above X ?fr' (Suc n) f \<subseteq> above X fr (Suc n) f \<union> set new"
      by (rule G(3)) (use IH iX True in auto)
    moreover have "?fr' f k = fr f k" if "k \<noteq> hd is" for k by (subst f') (use that js(1) in simp)
    moreover have "present (?fr' f (hd is)) \<and> address (?fr' f (hd is)) = address (fr f (hd is))" unfolding f' using js(1) by simp
    moreover have "walk ?fr' f q = (if q = is then Some t else walk fr f q)" if "length q = Suc (Suc n)" "hd q \<notin> X" for q
      using G(4) [OF that] unfolding js(1) .
    ultimately show ?thesis using G(1) by blast
  next
    case False
    let ?N = "hd new"
    let ?e = "page_set_flags fl ((fr f i)\<lparr>address := ?N\<rparr>)"
    let ?fr = "(upd fr f i ?e)(?N := (\<lambda>_. zero_page))" and ?T = "set new"
    have new: "new = ?N # tl new" using Suc.prems(4) js False by (cases new) auto
    have N: "?N \<in> set new" "?N \<notin> set (tl new)" "distinct (tl new)" "set (tl new) \<subseteq> set new" "?N \<noteq> f"
      using new Suc.prems(5) fnew by (metis list.set_intros(1) distinct.simps(2) set_subset_Cons)+
    have z: "?fr ?N = (\<lambda>_. zero_page)" by simp
    note Z = tables_zero [of ?fr ?N, OF z]
    have IH: "(\<forall>g. g \<notin> ?T \<longrightarrow> ?fr' g = ?fr g) \<and> tree {} ?fr' n ?N \<and> tables {} ?fr' n ?N \<subseteq> ?T
      \<and> (\<forall>q. length q = Suc n \<longrightarrow> walk ?fr' ?N q = (if q = ?js then Some t else None))"
    proof -
      have "(\<forall>g. g \<notin> tables {} ?fr n ?N \<union> set (tl new) \<longrightarrow> ins fl t ?fr ?N ?js (tl new) g = ?fr g)
        \<and> tree {} (ins fl t ?fr ?N ?js (tl new)) n ?N \<and> tables {} (ins fl t ?fr ?N ?js (tl new)) n ?N \<subseteq> tables {} ?fr n ?N \<union> set (tl new)
        \<and> above {} (ins fl t ?fr ?N ?js (tl new)) n ?N \<subseteq> above {} ?fr n ?N \<union> set (tl new)
        \<and> (\<forall>j. j \<noteq> hd ?js \<longrightarrow> ins fl t ?fr ?N ?js (tl new) ?N j = ?fr ?N j)
        \<and> (0 < n \<and> present (?fr ?N (hd ?js)) \<longrightarrow> present (ins fl t ?fr ?N ?js (tl new) ?N (hd ?js)) \<and> address (ins fl t ?fr ?N ?js (tl new) ?N (hd ?js)) = address (?fr ?N (hd ?js)))
        \<and> (\<forall>q. length q = Suc n \<longrightarrow> hd q \<notin> {} \<longrightarrow> walk (ins fl t ?fr ?N ?js (tl new)) ?N q = (if q = ?js then Some t else walk ?fr ?N q))"
      proof (rule Suc.IH)
        show "tree {} ?fr n ?N" by (rule Z(2))
        show "length ?js = Suc n" by (rule js(2))
        show "missing ?fr ?N ?js \<le> length (tl new)" unfolding Z(3) using Suc.prems(4) js False by simp
        show "set (tl new) \<inter> tables {} ?fr n ?N = {}" unfolding Z(1) using N by blast
      qed (use N in auto)
      moreover have "?fr' = ins fl t ?fr ?N ?js (tl new)" using js False by simp
      moreover have "walk ?fr ?N q = None" if "length q = Suc n" for q by (rule Z(4)) (use that in auto)
      moreover have "tables {} ?fr n ?N \<union> set (tl new) = ?T" unfolding Z(1) by (subst (3) new) simp
      ultimately show ?thesis by simp
    qed
    have f': "?fr' f = (fr f)(i := ?e)" using IH N fnew by (simp add: upd_def)
    have same: "?fr' g = fr g" if "g \<notin> ?T" "g \<noteq> f" for g using IH that N by (auto simp: upd_def)
    have dis: "?T \<inter> tables {} fr n (address (fr f k)) = {}" if "k \<notin> X" "k \<noteq> i" "present (fr f k)" for k
      using Suc.prems(6) that by auto
    have hug: "\<not> huge_page ?e" using Suc.prems(1) iX by simp
    have sube: "tree {} ?fr' n (address ?e)" "tables {} ?fr' n (address ?e) \<subseteq> ?T"
      "\<forall>q. length q = Suc n \<longrightarrow> walk ?fr' (address ?e) q = (if q = ?js then Some t else if present (fr f i) then walk fr (address (fr f i)) q else None)"
      using IH False by auto
    note G0 = graft [OF Suc.prems(1) iX f' set_flags_simps(1) hug sube(1,2) fnew, of ?js t]
    have dis': "\<forall>k. k \<notin> X \<longrightarrow> k \<noteq> i \<longrightarrow> present (fr f k) \<longrightarrow> ?T \<inter> tables {} fr n (address (fr f k)) = {}" using dis by blast
    have same': "\<forall>g. g \<notin> ?T \<longrightarrow> g \<noteq> f \<longrightarrow> ?fr' g = fr g" using same by blast
    note G = G0 [OF dis' same' sube(3)]
    have "?fr' g = fr g" if "g \<notin> tables X fr (Suc n) f \<union> set new" for g
      by (rule same) (use that root_in_tables in \<open>blast+\<close>)
    moreover have "tables X ?fr' (Suc n) f \<subseteq> tables X fr (Suc n) f \<union> set new" using G(2) by blast
    moreover have "above X ?fr' (Suc n) f \<subseteq> above X fr (Suc n) f \<union> set new"
      by (rule G(3)) (use IH above_subset [of "{}" ?fr' n ?N] in auto)
    moreover have "?fr' f k = fr f k" if "k \<noteq> hd is" for k by (subst f') (use that js(1) in simp)
    moreover have "\<not> present (fr f (hd is))" using False js(1) by simp
    moreover have "walk ?fr' f q = (if q = is then Some t else walk fr f q)" if "length q = Suc (Suc n)" "hd q \<notin> X" for q
      using G(4) [OF that] unfolding js(1) .
    ultimately show ?thesis using G(1) by blast
  qed
qed

section \<open>Page tables up to one entry\<close>

text \<open>What a translation reads of an entry, and tables that agree in it but for entry \<open>k\<close> of table \<open>T\<close>, the entry of the window.\<close>

definition core :: "page \<Rightarrow> bool \<times> bool \<times> frame" where
  "core p = (present p, huge_page p, address p)"

definition like :: "frame \<Rightarrow> idx \<Rightarrow> (frame \<Rightarrow> page_table) \<Rightarrow> (frame \<Rightarrow> page_table) \<Rightarrow> bool" where
  "like T k fr fr' \<longleftrightarrow> (\<forall>g j. g \<noteq> T \<or> j \<noteq> k \<longrightarrow> core (fr g j) = core (fr' g j))"

lemma upd_same [simp]: "upd fr f i (fr f i) = fr"
  by (simp add: upd_def)

lemma upd_upd [simp]: "upd (upd fr f i p) f i q = upd fr f i q"
  by (simp add: upd_def)

lemma upd_at [simp]: "upd fr f i p f i = p"
  by (simp add: upd_def)

lemma upd_other: "g \<noteq> f \<Longrightarrow> upd fr f i p g = fr g" "j \<noteq> i \<Longrightarrow> upd fr f i p f j = fr f j" "g \<noteq> f \<or> j \<noteq> i \<Longrightarrow> upd fr f i p g j = fr g j"
  by (auto simp: upd_def)

lemma core_flags: "core (page_set_flags fl p) = (True, huge_page p, address p)"
  by (simp add: core_def)

lemma like_refl [simp]: "like T k fr fr"
  by (simp add: like_def)

lemma like_trans: "like T k fr1 fr2 \<Longrightarrow> like T k fr2 fr3 \<Longrightarrow> like T k fr1 fr3"
  by (simp add: like_def)

lemma like_sym: "like T k fr1 fr2 \<Longrightarrow> like T k fr2 fr1"
  by (simp add: like_def)

lemma like_at:
  assumes "like T k fr fr'" and "g \<noteq> T \<or> j \<noteq> k"
  shows "present (fr g j) = present (fr' g j)" and "huge_page (fr g j) = huge_page (fr' g j)" and "address (fr g j) = address (fr' g j)"
proof -
  have "core (fr g j) = core (fr' g j)" using assms unfolding like_def by blast
  then show "present (fr g j) = present (fr' g j)" "huge_page (fr g j) = huge_page (fr' g j)" "address (fr g j) = address (fr' g j)"
    by (simp_all add: core_def)
qed

lemma like_upd: "like T k fr fr' \<Longrightarrow> (f \<noteq> T \<or> i \<noteq> k \<Longrightarrow> core p = core p') \<Longrightarrow> like T k (upd fr f i p) (upd fr' f i p')"
  by (auto simp: like_def upd_def)

lemma like_upd_same: "like T k fr fr' \<Longrightarrow> (f \<noteq> T \<or> i \<noteq> k \<Longrightarrow> core p = core (fr' f i)) \<Longrightarrow> like T k (upd fr f i p) fr'"
  using like_upd [of T k fr fr' f i p "fr' f i"] by simp

lemma like_table: "like T k fr fr' \<Longrightarrow> like T k (fr(N := z)) (fr'(N := z))"
  by (simp add: like_def)

text \<open>The tables of a space, that they form a tree, and the translation do not depend on more.\<close>

lemma tables_like:
  assumes "like T k fr' fr" and "T \<notin> above X fr n f"
  shows "tables X fr' n f = tables X fr n f" and "above X fr' n f = above X fr n f"
  using assms(2)
proof (induction n arbitrary: X f)
  case (Suc n)
  case 1
  have f: "present (fr' f i) = present (fr f i)" "address (fr' f i) = address (fr f i)" for i
    using like_at [OF assms(1)] 1 by auto
  have "tables {} fr' n (address (fr f i)) = tables {} fr n (address (fr f i))" if "i \<notin> X" "present (fr f i)" for i
    by (rule Suc.IH(1)) (use 1 that in auto)
  then show ?case by (auto simp: f)
next
  case (Suc n)
  case 2
  have f: "present (fr' f i) = present (fr f i)" "address (fr' f i) = address (fr f i)" for i
    using like_at [OF assms(1)] 2 by auto
  have "above {} fr' n (address (fr f i)) = above {} fr n (address (fr f i))" if "i \<notin> X" "present (fr f i)" for i
    by (rule Suc.IH(2)) (use 2 that in auto)
  then show ?case by (auto simp: f)
qed simp_all

lemma tree_like:
  assumes "like T k fr' fr" and "T \<notin> above X fr n f"
  shows "tree X fr' n f = tree X fr n f"
  using assms(2)
proof (induction n arbitrary: X f)
  case (Suc n)
  have f: "present (fr' f i) = present (fr f i)" "huge_page (fr' f i) = huge_page (fr f i)" "address (fr' f i) = address (fr f i)" for i
    using like_at [OF assms(1)] Suc.prems by auto
  have t: "tables {} fr' n (address (fr f i)) = tables {} fr n (address (fr f i))" if "i \<notin> X" "present (fr f i)" for i
    by (rule tables_like [OF assms(1)]) (use Suc.prems that in auto)
  have r: "tree {} fr' n (address (fr f i)) = tree {} fr n (address (fr f i))" if "i \<notin> X" "present (fr f i)" for i
    by (rule Suc.IH) (use Suc.prems that in auto)
  show ?case using t r by (auto simp: f)
qed simp

lemma walk_like:
  assumes "like T k fr' fr" and "T \<notin> above X fr n f" and "length is = Suc n" and "hd is \<notin> X"
    and "walk fr f (butlast is) = Some T \<Longrightarrow> last is \<noteq> k"
  shows "walk fr' f is = walk fr f is"
  using assms(2-)
proof (induction n arbitrary: X f "is")
  case 0
  then obtain i where i: "is = [i]" by (cases "is") auto
  have "f \<noteq> T \<or> i \<noteq> k" using 0(4) i by auto
  from like_at [OF assms(1) this] show ?case by (simp add: i)
next
  case (Suc n)
  obtain i js where js: "is = i # js" "length js = Suc n" using Suc.prems(2) by (cases "is") auto
  have f: "present (fr' f i) = present (fr f i)" "address (fr' f i) = address (fr f i)"
    using like_at [OF assms(1)] Suc.prems(1) by auto
  have "js \<noteq> []" using js(2) by auto
  then have "last js \<noteq> k" if "present (fr f i)" "walk fr (address (fr f i)) (butlast js) = Some T"
    using Suc.prems(4) js(1) that by simp
  then have "walk fr' (address (fr f i)) js = walk fr (address (fr f i)) js" if "present (fr f i)"
    by (intro Suc.IH [of "{}"]) (use Suc.prems(1,3) js that in auto)
  then show ?case by (simp add: js f)
qed

text \<open>A table of a tree is reached by one path.\<close>

lemma walk_in_tables: "walk fr f q = Some g \<Longrightarrow> length q \<le> n \<Longrightarrow> q = [] \<or> hd q \<notin> X \<Longrightarrow> g \<in> tables X fr n f"
proof (induction n arbitrary: X f q)
  case (Suc n)
  show ?case
  proof (cases q)
    case (Cons i js)
    then have q: "present (fr f i)" "walk fr (address (fr f i)) js = Some g" using Suc.prems(1) by (auto split: if_splits)
    have "g \<in> tables {} fr n (address (fr f i))" by (rule Suc.IH [OF q(2)]) (use Suc.prems(2) Cons in auto)
    then show ?thesis using Suc.prems(3) Cons q(1) by auto
  qed (use Suc.prems in simp)
qed simp

lemma walk_unique:
  assumes "tree X fr n f" and "length q \<le> n" and "length r \<le> n" and "q = [] \<or> hd q \<notin> X" and "r = [] \<or> hd r \<notin> X"
    and "walk fr f q = Some g" and "walk fr f r = Some g"
  shows "q = r"
  using assms
proof (induction n arbitrary: X f q r)
  case (Suc n)
  have below: "\<exists>i q'. q = i # q' \<and> i \<notin> X \<and> present (fr f i) \<and> length q' \<le> n \<and> walk fr (address (fr f i)) q' = Some g \<and> g \<in> tables {} fr n (address (fr f i))"
    if p: "q \<noteq> []" "length q \<le> Suc n" "q = [] \<or> hd q \<notin> X" "walk fr f q = Some g" for q
  proof -
    obtain i q' where q: "q = i # q'" using p(1) by (cases q) auto
    then have c: "q = i # q'" "i \<notin> X" "present (fr f i)" "length q' \<le> n" "walk fr (address (fr f i)) q' = Some g"
      using p by (auto split: if_splits)
    have "g \<in> tables {} fr n (address (fr f i))" by (rule walk_in_tables [OF c(5,4)]) simp
    with c show ?thesis by blast
  qed
  have root: "f \<notin> tables {} fr n (address (fr f i))" if "i \<notin> X" "present (fr f i)" for i using Suc.prems(1) that by simp
  show ?case
  proof (cases "q = [] \<or> r = []")
    case True
    have e: "p = []" if "length p \<le> Suc n" "p = [] \<or> hd p \<notin> X" "walk fr f p = Some g" "g = f" for p
      using below [OF _ that(1-3)] root that(4) by blast
    have "g = f" using True Suc.prems(6,7) by auto
    with e Suc.prems(2-7) show ?thesis by blast
  next
    case False
    obtain i q' j r' where c: "q = i # q'" "r = j # r'" "i \<notin> X" "j \<notin> X" "present (fr f i)" "present (fr f j)" "length q' \<le> n" "length r' \<le> n"
        "walk fr (address (fr f i)) q' = Some g" "walk fr (address (fr f j)) r' = Some g"
        "g \<in> tables {} fr n (address (fr f i))" "g \<in> tables {} fr n (address (fr f j))"
      using below [of q] below [of r] False Suc.prems by blast
    have "i \<noteq> j \<Longrightarrow> tables {} fr n (address (fr f i)) \<inter> tables {} fr n (address (fr f j)) = {}" using Suc.prems(1) c(3-6) by simp
    then have ij: "i = j" using c(11,12) by blast
    have "q' = r'" by (rule Suc.IH [of "{}" "address (fr f i)"]) (use Suc.prems(1) c ij in auto)
    then show ?thesis using c ij by simp
  qed
qed simp

section \<open>Mapping one page\<close>

text \<open>The indices of an address, and pages allocated in sequence.\<close>

definition path_of :: "addr_t \<Rightarrow> idx list" where
  "path_of v = [ucast (PML4_INDEX v), ucast (PDPT_INDEX v), ucast (PD_INDEX v), ucast (PT_INDEX v)]"

abbreviation i4 :: "addr_t \<Rightarrow> idx" where "i4 v \<equiv> ucast (PML4_INDEX v)"
abbreviation i3 :: "addr_t \<Rightarrow> idx" where "i3 v \<equiv> ucast (PDPT_INDEX v)"
abbreviation i2 :: "addr_t \<Rightarrow> idx" where "i2 v \<equiv> ucast (PD_INDEX v)"
abbreviation i1 :: "addr_t \<Rightarrow> idx" where "i1 v \<equiv> ucast (PT_INDEX v)"

primrec page_allocs :: "nat \<Rightarrow> kmem \<Rightarrow> physical \<Rightarrow> (frame list \<times> kmem \<times> physical) res" where
  "page_allocs 0 m P = Inr ([], m, P)"
| "page_allocs (Suc n) m P =
     bind_res (physical_alloc (m\<lparr>window_maps := []\<rparr>) P 0x1000 0) (\<lambda>(a, m1, P1).
     bind_res (page_allocs n m1 P1) (\<lambda>(fs, m2, P2). Inr (frame_of a # fs, m2, P2)))"

lemma page_allocs_length: "page_allocs n m P = Inr (fs, m', P') \<Longrightarrow> length fs = n"
  by (induction n arbitrary: m P fs) (auto simp: bind_res_Inr_iff)

lemma table_frame_walk: "hw_walk (frames s) (frame_of (vm_cr3 s)) p = Some f \<Longrightarrow> table_frame s p = Inr f"
  by (simp add: table_frame_def)

lemma set_page_upd: "set_page s f i g = s\<lparr>frames := upd (frames s) f i (g (frames s f i))\<rparr>"
  by (simp add: set_page_def upd_def)

text \<open>One level, against tables \<open>fr\<close> like those of the machine: the table pointer leads to \<open>f\<close> whatever entry \<open>i\<close> of it is, and the next pointer to
  where that entry leads.\<close>

lemma map_level_present:
  assumes K: "K = frame_of (vm_cr3 s)" and lk: "like T k (frames s) fr" and f: "f \<noteq> T"
    and t: "\<And>p fr'. like T k fr' (upd fr f (ucast i) p) \<Longrightarrow> hw_walk fr' K t = Some f"
    and pr: "present (fr f (ucast i))"
  shows "\<exists>fr'. map_level al s t i nxt fl = Inr (s\<lparr>frames := fr'\<rparr>) \<and> fr' T = frames s T
    \<and> like T k fr' (upd fr f (ucast i) (page_set_flags fl (fr f (ucast i))))"
proof -
  have r: "table_frame s t = Inr f" by (rule table_frame_walk) (use t [of "frames s" "fr f (ucast i)"] lk K in simp)
  let ?fr = "upd (frames s) f (ucast i) (page_set_flags fl (frames s f (ucast i)))"
  have "like T k ?fr (upd fr f (ucast i) (page_set_flags fl (fr f (ucast i))))"
    by (rule like_upd [OF lk]) (simp add: core_flags like_at(2,3) [OF lk])
  moreover have "map_level al s t i nxt fl = Inr (s\<lparr>frames := ?fr\<rparr>)"
    using r pr like_at(1) [OF lk, of f "ucast i"] f
    by (simp add: map_level_def virtual_set_address_def virtual_set_flags_def read_entry_def write_entry_def set_page_upd)
  ultimately show ?thesis using f by (intro exI [of _ ?fr]) (simp add: upd_def)
qed

lemma map_level_absent:
  assumes K: "K = frame_of (vm_cr3 s)" and lk: "like T k (frames s) fr" and f: "f \<noteq> T"
    and t: "\<And>p fr'. like T k fr' (upd fr f (ucast i) p) \<Longrightarrow> hw_walk fr' K t = Some f"
    and nxt: "\<And>p fr'. present p \<Longrightarrow> \<not> huge_page p \<Longrightarrow> like T k fr' (upd fr f (ucast i) p) \<Longrightarrow> hw_walk fr' K nxt = Some (address p)"
    and e: "\<not> present (fr f (ucast i))" "\<not> huge_page (fr f (ucast i))"
    and al: "al s = Inr (a, s1)" "like T k (frames s1) fr" "vm_cr3 s1 = vm_cr3 s"
  shows "\<exists>fr'. map_level al s t i nxt fl = Inr (s1\<lparr>frames := fr'\<rparr>) \<and> (frame_of a \<noteq> T \<longrightarrow> fr' T = frames s1 T)
    \<and> like T k fr' ((upd fr f (ucast i) (page_set_flags fl ((fr f (ucast i))\<lparr>address := frame_of a\<rparr>)))(frame_of a := (\<lambda>_. zero_page)))"
proof -
  have r0: "table_frame s t = Inr f" by (rule table_frame_walk) (use t [of "frames s" "fr f (ucast i)"] lk K in simp)
  have r1: "table_frame s1 t = Inr f" by (rule table_frame_walk) (use t [of "frames s1" "fr f (ucast i)"] al(2,3) K in simp)
  let ?p = "\<lambda>fr :: frame \<Rightarrow> page_table. (fr f (ucast i))\<lparr>address := frame_of a\<rparr>"
  let ?a = "\<lambda>fr. upd fr f (ucast i) (?p fr)" and ?b = "\<lambda>fr. upd fr f (ucast i) (page_set_flags fl (?p fr))"
  have c: "core (?p (frames s1)) = core (?p fr)" "core (page_set_flags fl (?p (frames s1))) = core (page_set_flags fl (?p fr))"
    using like_at [OF al(2), of f "ucast i"] f by (simp_all add: core_def)
  have la: "like T k (?a (frames s1)) (?a fr)" and lb: "like T k (?b (frames s1)) (?b fr)"
    using like_upd [OF al(2)] c by blast+
  have r2: "table_frame (s1\<lparr>frames := ?a (frames s1)\<rparr>) t = Inr f" by (rule table_frame_walk) (use t la al(3) K in simp)
  have "hw_walk (?b (frames s1)) K nxt = Some (address (page_set_flags fl (?p fr)))"
    by (rule nxt [OF _ _ lb]) (use e in simp_all)
  then have r3: "table_frame (s1\<lparr>frames := ?b (frames s1)\<rparr>) nxt = Inr (frame_of a)" using al(3) K by (simp add: table_frame_def)
  let ?fr = "(?b (frames s1))(frame_of a := (\<lambda>_. zero_page))"
  have "map_level al s t i nxt fl = Inr (s1\<lparr>frames := ?fr\<rparr>)"
    using r0 r1 r2 r3 e(1) like_at(1) [OF lk, of f "ucast i"] f al(1)
    by (simp add: map_level_def virtual_set_address_def virtual_set_flags_def read_entry_def write_entry_def set_page_upd zero_table_def)
  moreover have "like T k ?fr ((?b fr)(frame_of a := (\<lambda>_. zero_page)))" by (rule like_table [OF lb])
  ultimately show ?thesis using f by (intro exI [of _ ?fr]) (simp add: upd_def)
qed

text \<open>Where the four table pointers lead while the recursive entry of \<open>K\<close> names the top-level table \<open>C\<close>.\<close>

definition recursive :: "(frame \<Rightarrow> page_table) \<Rightarrow> frame \<Rightarrow> frame \<Rightarrow> bool" where
  "recursive fr K C \<longleftrightarrow> present (fr K 510) \<and> address (fr K 510) = C
     \<and> present (fr C 510) \<and> address (fr C 510) = C \<and> \<not> huge_page (fr C 510)"

lemma hw_ptr:
  assumes "recursive fr K C"
  shows "hw_walk fr K ptr_pml4 = Some C"
    and "present (fr C (i4 v)) \<Longrightarrow> hw_walk fr K (ptr_pdpt v) = Some (address (fr C (i4 v)))"
    and "present (fr C (i4 v)) \<Longrightarrow> \<not> huge_page (fr C (i4 v)) \<Longrightarrow> address (fr C (i4 v)) = A1 \<Longrightarrow> present (fr A1 (i3 v))
      \<Longrightarrow> hw_walk fr K (ptr_pd v) = Some (address (fr A1 (i3 v)))"
    and "present (fr C (i4 v)) \<Longrightarrow> \<not> huge_page (fr C (i4 v)) \<Longrightarrow> address (fr C (i4 v)) = A1
      \<Longrightarrow> present (fr A1 (i3 v)) \<Longrightarrow> \<not> huge_page (fr A1 (i3 v)) \<Longrightarrow> address (fr A1 (i3 v)) = A2 \<Longrightarrow> present (fr A2 (i2 v))
      \<Longrightarrow> hw_walk fr K (ptr_pt v) = Some (address (fr A2 (i2 v)))"
  using assms
  by (auto simp: hw_walk_def recursive_def ptr_pml4_def ptr_pdpt_def ptr_pd_def ptr_pt_def entry_indices RECURSIVE_ENTRY_def Let_def)

lemma recursive_cong:
  "recursive fr K C \<Longrightarrow> fr' K 510 = fr K 510 \<Longrightarrow> fr' C 510 = fr C 510 \<Longrightarrow> recursive fr' K C"
  by (simp add: recursive_def)

lemma recursive_like: "like T k fr' fr \<Longrightarrow> recursive fr K C \<Longrightarrow> T \<noteq> K \<Longrightarrow> T \<noteq> C \<Longrightarrow> recursive fr' K C"
  using like_at [of T k fr' fr K 510] like_at [of T k fr' fr C 510] by (simp add: recursive_def)

text \<open>An entry that leads to a table.\<close>

definition leads :: "page \<Rightarrow> frame \<Rightarrow> bool" where
  "leads e f \<longleftrightarrow> present e \<and> \<not> huge_page e \<and> address e = f"

lemma leads_core: "core e = core e' \<Longrightarrow> leads e f = leads e' f"
  by (simp add: core_def leads_def)

lemma hw_ptr_like:
  assumes lk: "like T k fr' fr" and rec: "recursive fr K C" and T: "T \<noteq> K" "T \<noteq> C"
  shows "hw_walk fr' K ptr_pml4 = Some C"
    and "present (fr C (i4 v)) \<Longrightarrow> hw_walk fr' K (ptr_pdpt v) = Some (address (fr C (i4 v)))"
    and "leads (fr C (i4 v)) A1 \<Longrightarrow> A1 \<noteq> T \<Longrightarrow> present (fr A1 (i3 v)) \<Longrightarrow> hw_walk fr' K (ptr_pd v) = Some (address (fr A1 (i3 v)))"
    and "leads (fr C (i4 v)) A1 \<Longrightarrow> A1 \<noteq> T \<Longrightarrow> leads (fr A1 (i3 v)) A2 \<Longrightarrow> A2 \<noteq> T \<Longrightarrow> present (fr A2 (i2 v))
      \<Longrightarrow> hw_walk fr' K (ptr_pt v) = Some (address (fr A2 (i2 v)))"
  using hw_ptr [OF recursive_like [OF lk rec T]] like_at [OF lk, of C "i4 v"] like_at [OF lk, of A1 "i3 v"] like_at [OF lk, of A2 "i2 v"] T
  by (simp_all add: leads_def)

text \<open>The tables the kernel's space reaches the window through: \<open>K\<close>, \<open>A\<close>, \<open>B\<close> and, in whose entry the window is, \<open>T\<close>.\<close>

definition window_path :: "(frame \<Rightarrow> page_table) \<Rightarrow> addr_t \<Rightarrow> frame \<Rightarrow> frame \<Rightarrow> frame \<Rightarrow> frame \<Rightarrow> bool" where
  "window_path fr W K A B T \<longleftrightarrow> i4 W \<noteq> 510 \<and> distinct [K, A, B, T] \<and> leads (fr K 510) (address (fr K 510))
     \<and> leads (fr K (i4 W)) A \<and> leads (fr A (i3 W)) B \<and> leads (fr B (i2 W)) T"

definition on_kernel :: "vm \<Rightarrow> frame \<Rightarrow> bool" where
  "on_kernel s K \<longleftrightarrow> frame_of (vm_cr3 s) = K \<and> current s = K \<and> frame_of (physical_base (kernel_context s)) = K"

definition window_shown :: "vm \<Rightarrow> frame \<Rightarrow> bool" where
  "window_shown s T \<longleftrightarrow> present (frames s T (i1 (phys_page_virt s)))
     \<and> address (frames s T (i1 (phys_page_virt s))) = frame_of (window (vm_kmem s))"

lemma window_path_like:
  assumes "like T k fr' fr" and "window_path fr W K A B T"
  shows "window_path fr' W K A B T"
  using assms(2) like_at [OF assms(1), of K 510] like_at [OF assms(1), of K "i4 W"] like_at [OF assms(1), of A "i3 W"] like_at [OF assms(1), of B "i2 W"]
  by (auto simp: window_path_def leads_def)

lemma window_path_cong:
  assumes "window_path fr W K A B T" and "\<And>g l h. leads (fr g l) h \<Longrightarrow> g \<in> {K, A, B} \<Longrightarrow> fr' g l = fr g l"
  shows "window_path fr' W K A B T"
proof -
  have e: "leads (fr K 510) (address (fr K 510))" "leads (fr K (i4 W)) A" "leads (fr A (i3 W)) B" "leads (fr B (i2 W)) T"
    using assms(1) by (simp_all add: window_path_def)
  have "fr' K 510 = fr K 510" "fr' K (i4 W) = fr K (i4 W)" "fr' A (i3 W) = fr A (i3 W)" "fr' B (i2 W) = fr B (i2 W)"
    using assms(2) e by blast+
  then show ?thesis using assms(1) by (simp add: window_path_def)
qed

text \<open>Moving the window succeeds when its tables are there, and changes no more than its entry.\<close>

lemma window_map_ok:
  assumes m: "on_kernel s K" and wp: "window_path (frames s) (phys_page_virt s) K A B T"
  shows "\<exists>fr'. window_map s p = Inr (s\<lparr>frames := fr'\<rparr>) \<and> like T (i1 (phys_page_virt s)) fr' (frames s)
    \<and> present (fr' T (i1 (phys_page_virt s))) \<and> address (fr' T (i1 (phys_page_virt s))) = frame_of p"
proof -
  let ?W = "phys_page_virt s" and ?fl = "PAGE_PRESENT OR PAGE_WRITABLE" and ?fr0 = "upd (frames s) K 510 ((frames s K 510)\<lparr>address := K\<rparr>)"
  let ?k = "i1 ?W" and ?s0 = "s\<lparr>frames := upd (frames s) K 510 ((frames s K 510)\<lparr>address := K\<rparr>)\<rparr>"
  have d: "i4 ?W \<noteq> 510" "K \<noteq> A" "K \<noteq> B" "K \<noteq> T" "A \<noteq> B" "A \<noteq> T" "B \<noteq> T" using wp by (auto simp: window_path_def)
  have e0: "leads (?fr0 K (i4 ?W)) A" "leads (?fr0 A (i3 ?W)) B" "leads (?fr0 B (i2 ?W)) T"
    using wp d by (auto simp: window_path_def upd_def)
  have rec0: "recursive ?fr0 K K" using wp by (auto simp: window_path_def recursive_def leads_def)
  have K0: "K = frame_of (vm_cr3 ?s0)" using m by (simp add: on_kernel_def)
  have R: "recursive (upd ?fr0 f i q) K K" if "f \<noteq> K \<or> i \<noteq> 510" for f i q
    by (rule recursive_cong [OF rec0]) (use that in \<open>auto simp: upd_def\<close>)
  have keep: "like T ?k fr' ?fr0" if "like T ?k fr' (upd ?fr0 f i (page_set_flags ?fl (?fr0 f i)))" "leads (?fr0 f i) g" for fr' f i g
    by (rule like_trans [OF that(1)], rule like_upd_same) (use that(2) in \<open>simp_all add: core_def leads_def\<close>)
  note P = hw_ptr_like [of T ?k _ _ K K]
  obtain f1 where 1: "map_level nested_alloc ?s0 ptr_pml4 (PML4_INDEX ?W) (ptr_pdpt ?W) ?fl = Inr (?s0\<lparr>frames := f1\<rparr>)" "like T ?k f1 ?fr0"
  proof -
    have "\<exists>fr'. map_level nested_alloc ?s0 ptr_pml4 (PML4_INDEX ?W) (ptr_pdpt ?W) ?fl = Inr (?s0\<lparr>frames := fr'\<rparr>) \<and> fr' T = frames ?s0 T
      \<and> like T ?k fr' (upd ?fr0 K (i4 ?W) (page_set_flags ?fl (?fr0 K (i4 ?W))))"
    proof (rule map_level_present [OF K0])
      show "hw_walk fr' K ptr_pml4 = Some K" if "like T ?k fr' (upd ?fr0 K (i4 ?W) q)" for q fr'
        by (rule P(1) [OF that R]) (use d in auto)
    qed (use d e0 in \<open>simp_all add: leads_def\<close>)
    then show ?thesis using that keep e0(1) by blast
  qed
  obtain f2 where 2: "map_level nested_alloc (?s0\<lparr>frames := f1\<rparr>) (ptr_pdpt ?W) (PDPT_INDEX ?W) (ptr_pd ?W) ?fl = Inr (?s0\<lparr>frames := f2\<rparr>)" "like T ?k f2 ?fr0"
  proof -
    have "\<exists>fr'. map_level nested_alloc (?s0\<lparr>frames := f1\<rparr>) (ptr_pdpt ?W) (PDPT_INDEX ?W) (ptr_pd ?W) ?fl = Inr (?s0\<lparr>frames := f1, frames := fr'\<rparr>) \<and> fr' T = frames (?s0\<lparr>frames := f1\<rparr>) T
      \<and> like T ?k fr' (upd ?fr0 A (i3 ?W) (page_set_flags ?fl (?fr0 A (i3 ?W))))"
    proof (rule map_level_present)
      show "hw_walk fr' K (ptr_pdpt ?W) = Some A" if "like T ?k fr' (upd ?fr0 A (i3 ?W) q)" for q fr'
        using P(2) [OF that R, of ?W] d e0(1) by (simp add: leads_def upd_other)
    qed (use d e0 1(2) K0 in \<open>simp_all add: leads_def\<close>)
    then show ?thesis using that keep e0(2) by auto
  qed
  obtain f3 where 3: "map_level nested_alloc (?s0\<lparr>frames := f2\<rparr>) (ptr_pd ?W) (PD_INDEX ?W) (ptr_pt ?W) ?fl = Inr (?s0\<lparr>frames := f3\<rparr>)" "like T ?k f3 ?fr0"
  proof -
    have "\<exists>fr'. map_level nested_alloc (?s0\<lparr>frames := f2\<rparr>) (ptr_pd ?W) (PD_INDEX ?W) (ptr_pt ?W) ?fl = Inr (?s0\<lparr>frames := f2, frames := fr'\<rparr>) \<and> fr' T = frames (?s0\<lparr>frames := f2\<rparr>) T
      \<and> like T ?k fr' (upd ?fr0 B (i2 ?W) (page_set_flags ?fl (?fr0 B (i2 ?W))))"
    proof (rule map_level_present)
      show "hw_walk fr' K (ptr_pd ?W) = Some B" if "like T ?k fr' (upd ?fr0 B (i2 ?W) q)" for q fr'
        using P(3) [OF that R, of ?W A] d e0(1,2) by (simp add: leads_def upd_other)
    qed (use d e0 2(2) K0 in \<open>simp_all add: leads_def\<close>)
    then show ?thesis using that keep e0(3) by auto
  qed
  have t: "table_frame (?s0\<lparr>frames := fr'\<rparr>) (ptr_pt ?W) = Inr T" if "like T ?k fr' ?fr0" for fr'
    by (rule table_frame_walk) (use P(4) [OF that rec0, of ?W A B] d e0 K0 in \<open>simp add: leads_def\<close>)
  have hole: "like T ?k (upd f3 T ?k q) ?fr0" for q by (rule like_upd_same [OF 3(2)]) simp
  let ?f4 = "upd f3 T ?k ((page_set_flags ?fl (f3 T ?k))\<lparr>address := frame_of p\<rparr>)"
  let ?f5 = "upd ?f4 K 510 ((?f4 K 510)\<lparr>address := address (frames s K 510)\<rparr>)"
  have s0: "set_fractal s RECURSIVE_ENTRY K = ?s0" using m by (simp add: set_fractal_def set_page_upd RECURSIVE_ENTRY_def on_kernel_def)
  have cu: "current (?s0\<lparr>frames := fr'\<rparr>) = K" for fr' using m by (simp add: on_kernel_def current_def)
  have "window_map s p = Inr (set_fractal (?s0\<lparr>frames := ?f4\<rparr>) RECURSIVE_ENTRY (get_fractal s RECURSIVE_ENTRY))"
    using m t [OF 3(2)] t [OF hole] s0 1(1) 2(1) 3(1)
    by (simp add: window_map_def map_page_def Let_def on_kernel_def virtual_set_flags_def write_entry_def set_page_upd)
  then have "window_map s p = Inr (s\<lparr>frames := ?f5\<rparr>)"
    using m cu by (simp add: set_fractal_def get_fractal_def set_page_upd RECURSIVE_ENTRY_def on_kernel_def)
  moreover have "like T ?k ?f5 (frames s)"
    unfolding like_def
  proof (intro allI impI)
    fix g j assume gj: "g \<noteq> T \<or> j \<noteq> ?k"
    have c: "core (?f4 g j) = core (?fr0 g j)" using hole gj unfolding like_def by blast
    show "core (?f5 g j) = core (frames s g j)"
    proof (cases "g = K \<and> j = 510")
      case True
      then show ?thesis using c by (simp add: core_def)
    next
      case False
      then show ?thesis using c by (simp add: upd_other)
    qed
  qed
  ultimately show ?thesis using d by (intro exI [of _ ?f5]) (simp add: upd_other)
qed

lemma show_pages_ok:
  assumes "on_kernel s K" and "window_path (frames s) (phys_page_virt s) K A B T"
  shows "\<exists>fr'. show_pages ps s = Inr (s\<lparr>frames := fr'\<rparr>) \<and> like T (i1 (phys_page_virt s)) fr' (frames s) \<and> (ps = [] \<longrightarrow> fr' = frames s)
    \<and> (ps \<noteq> [] \<longrightarrow> present (fr' T (i1 (phys_page_virt s))) \<and> address (fr' T (i1 (phys_page_virt s))) = frame_of (last ps))"
  using assms
proof (induction ps arbitrary: s)
  case Nil
  then show ?case by (intro exI [of _ "frames s"]) simp
next
  case (Cons p ps)
  obtain f1 where 1: "window_map s p = Inr (s\<lparr>frames := f1\<rparr>)" "like T (i1 (phys_page_virt s)) f1 (frames s)"
      "present (f1 T (i1 (phys_page_virt s)))" "address (f1 T (i1 (phys_page_virt s))) = frame_of p"
    using window_map_ok [OF Cons.prems] by blast
  have "on_kernel (s\<lparr>frames := f1\<rparr>) K" using Cons.prems(1) by (simp add: on_kernel_def current_def)
  moreover have "window_path (frames (s\<lparr>frames := f1\<rparr>)) (phys_page_virt (s\<lparr>frames := f1\<rparr>)) K A B T"
    using window_path_like [OF 1(2) Cons.prems(2)] by simp
  ultimately obtain f2 where 2: "show_pages ps (s\<lparr>frames := f1\<rparr>) = Inr (s\<lparr>frames := f2\<rparr>)" "like T (i1 (phys_page_virt s)) f2 f1" "ps = [] \<longrightarrow> f2 = f1"
      "ps \<noteq> [] \<longrightarrow> present (f2 T (i1 (phys_page_virt s))) \<and> address (f2 T (i1 (phys_page_virt s))) = frame_of (last ps)"
    using Cons.IH [of "s\<lparr>frames := f1\<rparr>"] by auto
  show ?case using 1 2 like_trans [OF 2(2) 1(2)] by (intro exI [of _ f2]) (cases "ps = []"; simp)
qed

lemma frame_of_page [simp]: "frame_of (page_of p) = frame_of p"
proof -
  have "unat (page_of p) div 4096 = unat p div 4096" by (simp add: page_of_def unat_ROUND_DOWN PAGE_SIZE_def)
  then have "unat (page_of p div 0x1000) = unat (p div 0x1000)" by (simp add: unat_div_distrib)
  then have "page_of p div 0x1000 = p div 0x1000" by (simp only: word_unat_eq_iff)
  then show ?thesis by (simp add: frame_of_def)
qed

text \<open>An allocation on the machine is the allocation from the free lists; the tables change in the entry of the window alone, which
  shows the page it was moved to last.\<close>

lemma vm_physical_alloc_ok:
  assumes k: "on_kernel s K" and wp: "window_path (frames s) (phys_page_virt s) K A B T" and sh: "window_shown s T"
    and al: "physical_alloc ((vm_kmem s)\<lparr>window_maps := []\<rparr>) (vm_phys s) sz fl = Inr (a, m, P)"
  shows "\<exists>fr'. vm_physical_alloc s sz fl = Inr (a, s\<lparr>frames := fr', vm_kmem := m, vm_phys := P\<rparr>) \<and> like T (i1 (phys_page_virt s)) fr' (frames s)
    \<and> window_shown (s\<lparr>frames := fr', vm_kmem := m, vm_phys := P\<rparr>) T"
proof -
  have "window_tracks (window (vm_kmem s)) ((vm_kmem s)\<lparr>window_maps := []\<rparr>)" by (simp add: window_tracks_def)
  from physical_alloc_tracks [OF al this] have w: "window m = last (window (vm_kmem s) # map page_of (window_maps m))" by (simp add: window_tracks_def)
  obtain fr' where F: "show_pages (window_maps m) s = Inr (s\<lparr>frames := fr'\<rparr>)" "like T (i1 (phys_page_virt s)) fr' (frames s)" "window_maps m = [] \<longrightarrow> fr' = frames s"
      "window_maps m \<noteq> [] \<longrightarrow> present (fr' T (i1 (phys_page_virt s))) \<and> address (fr' T (i1 (phys_page_virt s))) = frame_of (last (window_maps m))"
    using show_pages_ok [OF k wp] by blast
  have "frame_of (window m) = (if window_maps m = [] then frame_of (window (vm_kmem s)) else frame_of (last (window_maps m)))"
    unfolding w by (simp add: last_map)
  then have "window_shown (s\<lparr>frames := fr', vm_kmem := m, vm_phys := P\<rparr>) T"
    using F(3,4) sh by (auto simp: window_shown_def)
  moreover have "vm_physical_alloc s sz fl = Inr (a, s\<lparr>frames := fr', vm_kmem := m, vm_phys := P\<rparr>)" using al F(1) by (simp add: vm_physical_alloc_def)
  ultimately show ?thesis using F(2) by blast
qed

text \<open>What one level keeps: the frames \<open>U\<close> used above, a tree below the next table, and the way to the window.\<close>

definition windowed :: "vm \<Rightarrow> (frame \<Rightarrow> page_table) \<Rightarrow> frame \<Rightarrow> frame \<Rightarrow> frame \<Rightarrow> frame \<Rightarrow> bool" where
  "windowed s fr K A B T \<longleftrightarrow> on_kernel s K \<and> like T (i1 (phys_page_virt s)) (frames s) fr \<and> window_path fr (phys_page_virt s) K A B T \<and> window_shown s T"

lemma map_level_tree:
  assumes w: "windowed s fr K A B T" and tr: "tree X fr (Suc n) f" and i: "ucast i \<notin> X"
    and t: "\<And>p fr'. like T (i1 (phys_page_virt s)) fr' (upd fr f (ucast i) p) \<Longrightarrow> hw_walk fr' K t = Some f"
    and nxt: "\<And>p fr'. present p \<Longrightarrow> \<not> huge_page p \<Longrightarrow> like T (i1 (phys_page_virt s)) fr' (upd fr f (ucast i) p) \<Longrightarrow> hw_walk fr' K nxt = Some (address p)"
    and U: "U \<inter> tables X fr (Suc n) f = {}" and T: "T \<notin> above X fr (Suc n) f"
    and len: "length (j # js) = Suc n"
    and al: "page_allocs (missing fr f (ucast i # j # js)) (vm_kmem s) (vm_phys s) = Inr (new, m', P')"
    and new: "distinct new" "set new \<inter> (U \<union> tables X fr (Suc n) f) = {}" "set new \<inter> {K, A, B, T} = {}"
  shows "\<exists>s' fr' N new'. map_level page_alloc s t i nxt fl = Inr s' \<and> windowed s' fr' K A B T \<and> (\<forall>g \<in> U. fr' g = fr g)
    \<and> (\<forall>k. k \<noteq> ucast i \<longrightarrow> fr' f k = fr f k)
    \<and> leads (fr' f (ucast i)) N \<and> tree {} fr' n N \<and> insert f U \<inter> tables {} fr' n N = {} \<and> T \<notin> above {} fr' n N
    \<and> page_allocs (missing fr' N (j # js)) (vm_kmem s') (vm_phys s') = Inr (new', m', P')
    \<and> distinct new' \<and> set new' \<inter> (insert f U \<union> tables {} fr' n N) = {} \<and> set new' \<inter> {K, A, B, T} = {}
    \<and> ins fl tgt fr f (ucast i # j # js) new = ins fl tgt fr' N (j # js) new'
    \<and> vm_cr3 s' = vm_cr3 s \<and> kernel_context s' = kernel_context s \<and> phys_page_virt s' = phys_page_virt s"
proof -
  let ?k = "i1 (phys_page_virt s)"
  have hug: "\<not> huge_page (fr f (ucast i))" using tr i by simp
  have W: "on_kernel s K" "like T ?k (frames s) fr" "window_path fr (phys_page_virt s) K A B T" "window_shown s T" using w by (auto simp: windowed_def)
  have Kc: "K = frame_of (vm_cr3 s)" using W(1) by (simp add: on_kernel_def)
  have fT: "f \<noteq> T" using T by auto
  have fU: "f \<notin> U" using U by auto
  have fn: "f \<notin> set new" using new(2) by auto
  show ?thesis
  proof (cases "present (fr f (ucast i))")
    case True
    let ?fr' = "upd fr f (ucast i) (page_set_flags fl (fr f (ucast i)))" and ?N = "address (fr f (ucast i))"
    obtain r where r: "map_level page_alloc s t i nxt fl = Inr (s\<lparr>frames := r\<rparr>)" "r T = frames s T" "like T ?k r ?fr'"
    proof -
      have "\<exists>r. map_level page_alloc s t i nxt fl = Inr (s\<lparr>frames := r\<rparr>) \<and> r T = frames s T \<and> like T ?k r ?fr'"
        by (rule map_level_present [OF Kc W(2) fT _ True], erule t)
      then show ?thesis using that by blast
    qed
    have fA: "f \<notin> tables {} fr n ?N" and trA: "tree {} fr n ?N" using tr i True by auto
    have sub: "tables {} fr n ?N \<subseteq> tables X fr (Suc n) f" "above {} fr n ?N \<subseteq> above X fr (Suc n) f" using i True by auto
    have c: "?fr' g = fr g" if "g \<noteq> f" for g using that by (simp add: upd_def)
    have cA: "?fr' g = fr g" if "g \<in> tables {} fr n ?N" for g by (rule c) (use fA that in blast)
    have S: "tables {} ?fr' n ?N = tables {} fr n ?N" "tree {} ?fr' n ?N" "above {} ?fr' n ?N = above {} fr n ?N"
      using tables_cong [of "{}" fr n ?N ?fr', OF cA] tree_cong [of "{}" fr n ?N ?fr', OF cA] above_cong [of "{}" fr n ?N ?fr', OF cA] trA by simp_all
    have M: "missing ?fr' ?N (j # js) = missing fr ?N (j # js)" by (rule missing_cong [OF cA]) (use len in auto)
    have "insert f U \<inter> tables {} ?fr' n ?N = {}" using U fA sub S(1) by auto
    moreover have "set new \<inter> (insert f U \<union> tables {} ?fr' n ?N) = {}" using new(2) fn sub S(1) by auto
    moreover have "T \<notin> above {} ?fr' n ?N" using T sub(2) S(3) by blast
    moreover have "leads (?fr' f (ucast i)) ?N" using hug by (simp add: leads_def)
    moreover have "windowed (s\<lparr>frames := r\<rparr>) ?fr' K A B T"
    proof -
      have "like T ?k ?fr' fr" by (rule like_upd_same) (use True in \<open>simp_all add: core_def\<close>)
      from window_path_like [OF this W(3)] show ?thesis using W(1,4) r(2,3) by (simp add: windowed_def on_kernel_def window_shown_def current_def)
    qed
    ultimately show ?thesis
      using r(1) True S(2) M al new(1,3) fU c
      by (intro exI [of _ "s\<lparr>frames := r\<rparr>"] exI [of _ ?fr'] exI [of _ ?N] exI [of _ new]) (auto simp: upd_def)
  next
    case False
    have ms: "missing fr f (ucast i # j # js) = Suc n" using False len by simp
    obtain a m1 P1 fs where A: "physical_alloc ((vm_kmem s)\<lparr>window_maps := []\<rparr>) (vm_phys s) 0x1000 0 = Inr (a, m1, P1)"
      "page_allocs n m1 P1 = Inr (fs, m', P')" "new = frame_of a # fs"
      using al unfolding ms by (auto simp: bind_res_Inr_iff)
    let ?N = "frame_of a"
    have wp: "window_path (frames s) (phys_page_virt s) K A B T" by (rule window_path_like [OF W(2,3)])
    obtain r1 where V: "page_alloc s = Inr (a, s\<lparr>frames := r1, vm_kmem := m1, vm_phys := P1\<rparr>)" "like T ?k r1 (frames s)"
        "window_shown (s\<lparr>frames := r1, vm_kmem := m1, vm_phys := P1\<rparr>) T"
      using vm_physical_alloc_ok [OF W(1) wp W(4) A(1)] unfolding page_alloc_def by blast
    let ?fr' = "(upd fr f (ucast i) (page_set_flags fl ((fr f (ucast i))\<lparr>address := ?N\<rparr>)))(?N := (\<lambda>_. zero_page))"
    let ?s1 = "s\<lparr>frames := r1, vm_kmem := m1, vm_phys := P1\<rparr>"
    have l1: "like T ?k (frames ?s1) fr" using like_trans [OF V(2) W(2)] by simp
    have N: "?N \<noteq> f" "?N \<notin> U" "?N \<notin> set fs" "distinct fs" "?N \<noteq> K" "?N \<noteq> A" "?N \<noteq> B" "?N \<noteq> T" using new fn A(3) by auto
    obtain r where r: "map_level page_alloc s t i nxt fl = Inr (?s1\<lparr>frames := r\<rparr>)" "r T = r1 T" "like T ?k r ?fr'"
    proof -
      have "\<exists>r. map_level page_alloc s t i nxt fl = Inr (?s1\<lparr>frames := r\<rparr>) \<and> (?N \<noteq> T \<longrightarrow> r T = frames ?s1 T) \<and> like T ?k r ?fr'"
      proof (rule map_level_absent [where al = page_alloc])
        show "hw_walk fr' K t = Some f" if "like T ?k fr' (upd fr f (ucast i) p)" for p fr' by (rule t [OF that])
        show "hw_walk fr' K nxt = Some (address p)" if "present p" "\<not> huge_page p" "like T ?k fr' (upd fr f (ucast i) p)" for p fr'
          by (rule nxt [OF that])
      qed (rule Kc W(2) fT False hug V(1) l1 | simp)+
      then show ?thesis using that N(8) by auto
    qed
    note Z = tables_zero [of ?fr' ?N, OF fun_upd_same]
    have "missing ?fr' ?N (j # js) = n" unfolding Z(3) using len by simp
    moreover have "ins fl tgt fr f (ucast i # j # js) new = ins fl tgt ?fr' ?N (j # js) fs" using False A(3) by simp
    moreover have "?fr' f k = fr f k" if "k \<noteq> ucast i" for k using that N by (simp add: upd_def)
    moreover have "?fr' g = fr g" if "g \<in> U" for g using that N fU by (auto simp: upd_def)
    moreover have e: "leads (?fr' f (ucast i)) ?N" using N hug by (simp add: leads_def)
    moreover have "insert f U \<inter> {?N} = {}" "set fs \<inter> (insert f U \<union> {?N}) = {}" "set fs \<inter> {K, A, B, T} = {}" using N new(2,3) A(3) by auto
    moreover have "T \<notin> above {} ?fr' n ?N" using above_zero [of ?fr' ?N "{}" n, OF fun_upd_same] N(8) by blast
    moreover have "windowed (?s1\<lparr>frames := r\<rparr>) ?fr' K A B T"
    proof -
      have ne: "\<not> (f = g \<and> ucast i = l)" if "leads (fr g l) h" for g l h using that False by (auto simp: leads_def)
      have "?fr' g l = fr g l" if "leads (fr g l) h" "g \<in> {K, A, B}" for g l h
        using ne [OF that(1)] that(2) N(5-7) by (auto simp: upd_def)
      then have "window_path ?fr' (phys_page_virt s) K A B T" by (rule window_path_cong [OF W(3)])
      then show ?thesis using W(1) V(3) r(2,3) by (simp add: windowed_def on_kernel_def window_shown_def current_def)
    qed
    ultimately show ?thesis
      using r(1) Z(1,2) [of "{}" n] A(2) N(4)
      by (intro exI [of _ "?s1\<lparr>frames := r\<rparr>"] exI [of _ ?fr'] exI [of _ ?N] exI [of _ fs]) simp
  qed
qed

text \<open>All levels together, from a state whose recursive entry already names \<open>C\<close>.\<close>

lemma map_levels:
  assumes w: "windowed s fr K A B T" and rec: "recursive fr K C" and tr: "tree {510} fr 3 C" and up: "T \<notin> above {510} fr 3 C"
    and K: "K \<noteq> C \<longrightarrow> K \<notin> tables {510} fr 3 C" and v: "i4 v \<noteq> 510"
    and al: "page_allocs (missing fr C (path_of v)) (vm_kmem s) (vm_phys s) = Inr (new, m', P')"
    and new: "distinct new" "set new \<inter> ({K, A, B, T} \<union> tables {510} fr 3 C) = {}"
  shows "\<exists>s'. bind_res (map_level page_alloc s ptr_pml4 (PML4_INDEX v) (ptr_pdpt v) fl) (\<lambda>s.
         bind_res (map_level page_alloc s (ptr_pdpt v) (PDPT_INDEX v) (ptr_pd v) fl) (\<lambda>s.
         bind_res (map_level page_alloc s (ptr_pd v) (PD_INDEX v) (ptr_pt v) fl) (\<lambda>s.
         bind_res (virtual_set_flags s (ptr_pt v) (PT_INDEX v) fl) (\<lambda>s.
         write_entry s (ptr_pt v) (PT_INDEX v) (\<lambda>p. p\<lparr>address := t\<rparr>))))) = Inr s'
      \<and> like T (i1 (phys_page_virt s)) (frames s') (ins fl t fr C (path_of v) new)
      \<and> (\<exists>g N p. ins fl t fr C (path_of v) new = upd g N (i1 v) p \<and> walk (ins fl t fr C (path_of v) new) C [i4 v, i3 v, i2 v] = Some N \<and> N \<noteq> K
          \<and> window_path g (phys_page_virt s) K A B T \<and> (N \<noteq> T \<or> i1 v \<noteq> i1 (phys_page_virt s) \<longrightarrow> window_shown s' T))
      \<and> vm_cr3 s' = vm_cr3 s \<and> kernel_context s' = kernel_context s \<and> phys_page_virt s' = phys_page_virt s \<and> vm_kmem s' = m' \<and> vm_phys s' = P'"
proof -
  let ?U = "{K} - {C}" and ?k = "i1 (phys_page_virt s)"
  have three: "(3::nat) = Suc (Suc (Suc 0))" by simp
  have U: "?U \<inter> tables {510} fr (Suc (Suc (Suc 0))) C = {}" using K unfolding three by auto
  have new1: "set new \<inter> (?U \<union> tables {510} fr (Suc (Suc (Suc 0))) C) = {}" "set new \<inter> {K, A, B, T} = {}" using new(2) unfolding three by auto
  have KT: "T \<noteq> K" "T \<noteq> C" using w up by (auto simp: windowed_def window_path_def numeral_3_eq_3)
  have R1: "recursive (upd fr C (i4 v) p) K C" for p
    by (rule recursive_cong [OF rec]) (use v in \<open>auto simp: upd_def\<close>)
  have w1: "hw_walk fr' K ptr_pml4 = Some C" if "like T ?k fr' (upd fr C (i4 v) p)" for fr' p by (rule hw_ptr_like(1) [OF that R1 KT])
  have x1: "hw_walk fr' K (ptr_pdpt v) = Some (address p)" if "present p" "\<not> huge_page p" "like T ?k fr' (upd fr C (i4 v) p)" for fr' p
    using hw_ptr_like(2) [OF that(3) R1 KT] that(1) by simp
  obtain s1 f1 A1 new1 where L1: "map_level page_alloc s ptr_pml4 (PML4_INDEX v) (ptr_pdpt v) fl = Inr s1" "windowed s1 f1 K A B T"
      "\<forall>g \<in> ?U. f1 g = fr g" "\<forall>k. k \<noteq> i4 v \<longrightarrow> f1 C k = fr C k" "leads (f1 C (i4 v)) A1"
      "tree {} f1 (Suc (Suc 0)) A1" "insert C ?U \<inter> tables {} f1 (Suc (Suc 0)) A1 = {}" "T \<notin> above {} f1 (Suc (Suc 0)) A1"
      "page_allocs (missing f1 A1 [i3 v, i2 v, i1 v]) (vm_kmem s1) (vm_phys s1) = Inr (new1, m', P')"
      "distinct new1" "set new1 \<inter> (insert C ?U \<union> tables {} f1 (Suc (Suc 0)) A1) = {}" "set new1 \<inter> {K, A, B, T} = {}"
      "ins fl t fr C [i4 v, i3 v, i2 v, i1 v] new = ins fl t f1 A1 [i3 v, i2 v, i1 v] new1"
      "vm_cr3 s1 = vm_cr3 s" "kernel_context s1 = kernel_context s" "phys_page_virt s1 = phys_page_virt s"
  proof -
    have "\<exists>s' fr' N new'. map_level page_alloc s ptr_pml4 (PML4_INDEX v) (ptr_pdpt v) fl = Inr s' \<and> windowed s' fr' K A B T \<and> (\<forall>g \<in> ?U. fr' g = fr g)
      \<and> (\<forall>k. k \<noteq> i4 v \<longrightarrow> fr' C k = fr C k)
      \<and> leads (fr' C (i4 v)) N \<and> tree {} fr' (Suc (Suc 0)) N \<and> insert C ?U \<inter> tables {} fr' (Suc (Suc 0)) N = {} \<and> T \<notin> above {} fr' (Suc (Suc 0)) N
      \<and> page_allocs (missing fr' N (i3 v # [i2 v, i1 v])) (vm_kmem s') (vm_phys s') = Inr (new', m', P')
      \<and> distinct new' \<and> set new' \<inter> (insert C ?U \<union> tables {} fr' (Suc (Suc 0)) N) = {} \<and> set new' \<inter> {K, A, B, T} = {}
      \<and> ins fl t fr C (i4 v # i3 v # [i2 v, i1 v]) new = ins fl t fr' N (i3 v # [i2 v, i1 v]) new'
      \<and> vm_cr3 s' = vm_cr3 s \<and> kernel_context s' = kernel_context s \<and> phys_page_virt s' = phys_page_virt s"
    proof (rule map_level_tree [where X = "{510}" and n = "Suc (Suc 0)"])
      show "hw_walk fr' K ptr_pml4 = Some C" if "like T ?k fr' (upd fr C (i4 v) p)" for p fr' by (rule w1 [OF that])
      show "hw_walk fr' K (ptr_pdpt v) = Some (address p)" if "present p" "\<not> huge_page p" "like T ?k fr' (upd fr C (i4 v) p)" for p fr' by (rule x1 [OF that])
      show "page_allocs (missing fr C (i4 v # i3 v # [i2 v, i1 v])) (vm_kmem s) (vm_phys s) = Inr (new, m', P')" using al unfolding path_of_def .
      show "T \<notin> above {510} fr (Suc (Suc (Suc 0))) C" using up unfolding three .
      show "tree {510} fr (Suc (Suc (Suc 0))) C" using tr unfolding three .
      show "i4 v \<notin> {510}" using v by simp
    qed (rule w U new(1) new1 | simp; fail)+
    then show ?thesis by (elim exE conjE) (rule that; assumption)
  qed
  have CU: "insert C ?U = {K, C}" by auto
  have rec1: "recursive f1 K C"
    by (rule recursive_cong [OF rec]) (use L1(3,4) v in \<open>cases "K = C"; auto\<close>)+
  have A1: "A1 \<noteq> K" "A1 \<noteq> C" "A1 \<noteq> T" using L1(7,8) unfolding CU by auto
  note e4 = L1(5)
  have R2: "recursive (upd f1 A1 i p) K C" for i p
    by (rule recursive_cong [OF rec1]) (use A1 in \<open>auto simp: upd_def\<close>)
  have C2: "upd f1 A1 i p C = f1 C" for i p using A1 by (simp add: upd_def)
  have w2: "hw_walk fr' K (ptr_pdpt v) = Some A1" if "like T (i1 (phys_page_virt s1)) fr' (upd f1 A1 (i3 v) p)" for fr' p
    using hw_ptr_like(2) [OF that R2 KT] e4 by (simp add: C2 leads_def)
  have x2: "hw_walk fr' K (ptr_pd v) = Some (address p)" if "present p" "\<not> huge_page p" "like T (i1 (phys_page_virt s1)) fr' (upd f1 A1 (i3 v) p)" for fr' p
    using hw_ptr_like(3) [OF that(3) R2 KT, of v A1] e4 that(1) A1 by (simp add: C2)
  obtain s2 f2 A2 new2 where L2: "map_level page_alloc s1 (ptr_pdpt v) (PDPT_INDEX v) (ptr_pd v) fl = Inr s2" "windowed s2 f2 K A B T"
      "\<forall>g \<in> {K, C}. f2 g = f1 g" "leads (f2 A1 (i3 v)) A2"
      "tree {} f2 (Suc 0) A2" "insert A1 {K, C} \<inter> tables {} f2 (Suc 0) A2 = {}" "T \<notin> above {} f2 (Suc 0) A2"
      "page_allocs (missing f2 A2 [i2 v, i1 v]) (vm_kmem s2) (vm_phys s2) = Inr (new2, m', P')"
      "distinct new2" "set new2 \<inter> (insert A1 {K, C} \<union> tables {} f2 (Suc 0) A2) = {}" "set new2 \<inter> {K, A, B, T} = {}"
      "ins fl t f1 A1 [i3 v, i2 v, i1 v] new1 = ins fl t f2 A2 [i2 v, i1 v] new2"
      "vm_cr3 s2 = vm_cr3 s1" "kernel_context s2 = kernel_context s1" "phys_page_virt s2 = phys_page_virt s1"
  proof -
    have "\<exists>s' fr' N new'. map_level page_alloc s1 (ptr_pdpt v) (PDPT_INDEX v) (ptr_pd v) fl = Inr s' \<and> windowed s' fr' K A B T \<and> (\<forall>g \<in> {K, C}. fr' g = f1 g)
      \<and> (\<forall>k. k \<noteq> i3 v \<longrightarrow> fr' A1 k = f1 A1 k)
      \<and> leads (fr' A1 (i3 v)) N \<and> tree {} fr' (Suc 0) N \<and> insert A1 {K, C} \<inter> tables {} fr' (Suc 0) N = {} \<and> T \<notin> above {} fr' (Suc 0) N
      \<and> page_allocs (missing fr' N (i2 v # [i1 v])) (vm_kmem s') (vm_phys s') = Inr (new', m', P')
      \<and> distinct new' \<and> set new' \<inter> (insert A1 {K, C} \<union> tables {} fr' (Suc 0) N) = {} \<and> set new' \<inter> {K, A, B, T} = {}
      \<and> ins fl t f1 A1 (i3 v # i2 v # [i1 v]) new1 = ins fl t fr' N (i2 v # [i1 v]) new'
      \<and> vm_cr3 s' = vm_cr3 s1 \<and> kernel_context s' = kernel_context s1 \<and> phys_page_virt s' = phys_page_virt s1"
    proof (rule map_level_tree [where X = "{}" and n = "Suc 0"])
      show "hw_walk fr' K (ptr_pdpt v) = Some A1" if "like T (i1 (phys_page_virt s1)) fr' (upd f1 A1 (i3 v) p)" for p fr' by (rule w2 [OF that])
      show "hw_walk fr' K (ptr_pd v) = Some (address p)" if "present p" "\<not> huge_page p" "like T (i1 (phys_page_virt s1)) fr' (upd f1 A1 (i3 v) p)" for p fr' by (rule x2 [OF that])
    qed (rule L1 L1(7,11) [unfolded CU] | simp; fail)+
    then show ?thesis by (elim exE conjE) (rule that; assumption)
  qed
  have rec2: "recursive f2 K C" by (rule recursive_cong [OF rec1]) (use L2(3) in auto)
  have A2: "A2 \<noteq> K" "A2 \<noteq> C" "A2 \<noteq> A1" "A2 \<noteq> T" using L2(6,7) by auto
  have R3: "recursive (upd f2 A2 i p) K C" for i p
    by (rule recursive_cong [OF rec2]) (use A2 in \<open>auto simp: upd_def\<close>)
  have C3: "upd f2 A2 i p C = f1 C" "upd f2 A2 i p A1 = f2 A1" for i p
    using A2 L2(3) by (simp_all add: upd_def)
  have w3: "hw_walk fr' K (ptr_pd v) = Some A2" if "like T (i1 (phys_page_virt s2)) fr' (upd f2 A2 (i2 v) p)" for fr' p
    using hw_ptr_like(3) [OF that R3 KT, of v A1] e4 L2(4) A1 by (simp add: C3 leads_def)
  have x3: "hw_walk fr' K (ptr_pt v) = Some (address p)" if "present p" "\<not> huge_page p" "like T (i1 (phys_page_virt s2)) fr' (upd f2 A2 (i2 v) p)" for fr' p
    using hw_ptr_like(4) [OF that(3) R3 KT, of v A1 A2] e4 L2(4) A1 A2 that(1) by (simp add: C3)
  obtain s3 f3 A3 new3 where L3: "map_level page_alloc s2 (ptr_pd v) (PD_INDEX v) (ptr_pt v) fl = Inr s3" "windowed s3 f3 K A B T"
      "\<forall>g \<in> {A1, K, C}. f3 g = f2 g" "leads (f3 A2 (i2 v)) A3" "insert A2 {A1, K, C} \<inter> tables {} f3 0 A3 = {}"
      "page_allocs (missing f3 A3 [i1 v]) (vm_kmem s3) (vm_phys s3) = Inr (new3, m', P')"
      "ins fl t f2 A2 [i2 v, i1 v] new2 = ins fl t f3 A3 [i1 v] new3"
      "vm_cr3 s3 = vm_cr3 s2" "kernel_context s3 = kernel_context s2" "phys_page_virt s3 = phys_page_virt s2"
  proof -
    have "\<exists>s' fr' N new'. map_level page_alloc s2 (ptr_pd v) (PD_INDEX v) (ptr_pt v) fl = Inr s' \<and> windowed s' fr' K A B T \<and> (\<forall>g \<in> {A1, K, C}. fr' g = f2 g)
      \<and> (\<forall>k. k \<noteq> i2 v \<longrightarrow> fr' A2 k = f2 A2 k)
      \<and> leads (fr' A2 (i2 v)) N \<and> tree {} fr' 0 N \<and> insert A2 {A1, K, C} \<inter> tables {} fr' 0 N = {} \<and> T \<notin> above {} fr' 0 N
      \<and> page_allocs (missing fr' N (i1 v # [])) (vm_kmem s') (vm_phys s') = Inr (new', m', P')
      \<and> distinct new' \<and> set new' \<inter> (insert A2 {A1, K, C} \<union> tables {} fr' 0 N) = {} \<and> set new' \<inter> {K, A, B, T} = {}
      \<and> ins fl t f2 A2 (i2 v # i1 v # []) new2 = ins fl t fr' N (i1 v # []) new'
      \<and> vm_cr3 s' = vm_cr3 s2 \<and> kernel_context s' = kernel_context s2 \<and> phys_page_virt s' = phys_page_virt s2"
    proof (rule map_level_tree [where X = "{}" and n = 0])
      show "hw_walk fr' K (ptr_pd v) = Some A2" if "like T (i1 (phys_page_virt s2)) fr' (upd f2 A2 (i2 v) p)" for p fr' by (rule w3 [OF that])
      show "hw_walk fr' K (ptr_pt v) = Some (address p)" if "present p" "\<not> huge_page p" "like T (i1 (phys_page_virt s2)) fr' (upd f2 A2 (i2 v) p)" for p fr' by (rule x3 [OF that])
    qed (rule L2 | simp; fail)+
    then show ?thesis by (elim exE conjE) (rule that; assumption)
  qed
  have rec3: "recursive f3 K C" by (rule recursive_cong [OF rec2]) (use L3(3) in auto)
  have A3: "A3 \<noteq> K" "A3 \<noteq> C" "A3 \<noteq> A1" "A3 \<noteq> A2" using L3(5) by auto
  have e: "leads (upd f3 A3 i p C (i4 v)) A1" "leads (upd f3 A3 i p A1 (i3 v)) A2" "leads (upd f3 A3 i p A2 (i2 v)) A3" for i p
    using A3 L3(3,4) L2(3,4) e4 by (simp_all add: upd_other)
  have R4: "recursive (upd f3 A3 i p) K C" for i p
    by (rule recursive_cong [OF rec3]) (use A3 in \<open>auto simp: upd_def\<close>)
  have pv: "phys_page_virt s3 = phys_page_virt s" using L1(16) L2(15) L3(10) by simp
  have W3: "on_kernel s3 K" "like T ?k (frames s3) f3" "window_path f3 (phys_page_virt s) K A B T" "window_shown s3 T"
    using L3(2) by (simp_all add: windowed_def pv)
  have w4: "hw_walk fr' K (ptr_pt v) = Some A3" if "like T ?k fr' (upd f3 A3 (i1 v) p)" for fr' p
    using hw_ptr_like(4) [OF that R4 KT e(1) A1(3) e(2) A2(4)] e(3) by (simp add: leads_def)
  have t3: "table_frame (s3\<lparr>frames := fr'\<rparr>) (ptr_pt v) = Inr A3" if "like T ?k fr' (upd f3 A3 (i1 v) p)" for fr' p
    by (rule table_frame_walk) (use w4 [OF that] W3(1) in \<open>simp add: on_kernel_def\<close>)
  have t4: "table_frame s3 (ptr_pt v) = Inr A3" using t3 [of "frames s3" "f3 A3 (i1 v)"] W3(2) by simp
  have l: "like T ?k (upd (frames s3) A3 (i1 v) (page_set_flags fl (frames s3 A3 (i1 v)))) (upd f3 A3 (i1 v) (page_set_flags fl (f3 A3 (i1 v))))"
    by (rule like_upd [OF W3(2)]) (simp add: core_flags like_at(2,3) [OF W3(2)])
  let ?e = "(page_set_flags fl (frames s3 A3 (i1 v)))\<lparr>address := t\<rparr>" and ?g = "upd f3 A3 (i1 v) ((page_set_flags fl (f3 A3 (i1 v)))\<lparr>address := t\<rparr>)"
  let ?s = "s3\<lparr>frames := upd (frames s3) A3 (i1 v) ?e\<rparr>"
  have g: "?g = ins fl t fr C (path_of v) new" unfolding path_of_def L1(13) L2(12) L3(7) by simp
  have "bind_res (virtual_set_flags s3 (ptr_pt v) (PT_INDEX v) fl) (\<lambda>s.
         write_entry s (ptr_pt v) (PT_INDEX v) (\<lambda>p. p\<lparr>address := t\<rparr>)) = Inr ?s"
    using t4 t3 [OF l] by (simp add: virtual_set_flags_def write_entry_def set_page_upd)
  moreover have "like T ?k (frames ?s) ?g"
    using like_upd [OF W3(2), of A3 "i1 v" ?e "(page_set_flags fl (f3 A3 (i1 v)))\<lparr>address := t\<rparr>"] like_at(2) [OF W3(2), of A3 "i1 v"]
    by (auto simp: core_def)
  moreover have "\<exists>g N p. ?g = upd g N (i1 v) p \<and> walk ?g C [i4 v, i3 v, i2 v] = Some N \<and> N \<noteq> K
      \<and> window_path g (phys_page_virt s) K A B T \<and> (N \<noteq> T \<or> i1 v \<noteq> ?k \<longrightarrow> window_shown ?s T)"
  proof (intro exI conjI impI)
    show "walk ?g C [i4 v, i3 v, i2 v] = Some A3" using e by (simp add: leads_def)
    show "window_shown ?s T" if "A3 \<noteq> T \<or> i1 v \<noteq> ?k" using that W3(4) pv by (auto simp: window_shown_def upd_other)
  qed (rule refl A3(1) W3(3))+
  ultimately show ?thesis
    using L1(1,14-16) L2(1,13-15) L3(1,6,8-10) unfolding g [symmetric]
    by (intro exI [of _ ?s] conjI) (simp_all del: walk.simps)
qed

lemma hw_walk_tree:
  assumes "tree {510} fr 3 C" and "i4 w \<noteq> 510"
  shows "hw_walk fr C w = walk fr C (path_of w)"
proof -
  have "\<not> huge_page (fr C (i4 w))" using assms by (simp add: numeral_3_eq_3)
  moreover have "\<not> huge_page (fr (address (fr C (i4 w))) (i3 w))" if "present (fr C (i4 w))"
    using assms that by (simp add: numeral_3_eq_3)
  moreover have "\<not> huge_page (fr (address (fr (address (fr C (i4 w))) (i3 w))) (i2 w))"
    if "present (fr C (i4 w))" "present (fr (address (fr C (i4 w))) (i3 w))"
    using assms that by (simp add: numeral_3_eq_3)
  ultimately show ?thesis by (simp add: hw_walk_def path_of_def Let_def)
qed

text \<open>An address space the kernel can edit: the processor runs on the kernel's own top-level table, whose recursive entry
  is present; the tables of the space form a tree with its own recursive entry, and the kernel's table is not part
  of another space.\<close>

definition space :: "vm \<Rightarrow> frame \<Rightarrow> bool" where
  "space s C \<longleftrightarrow> frame_of (vm_cr3 s) = current s \<and> present (frames s (current s) 510)
     \<and> present (frames s C 510) \<and> address (frames s C 510) = C \<and> \<not> huge_page (frames s C 510)
     \<and> tree {510} (frames s) 3 C \<and> (current s \<noteq> C \<longrightarrow> current s \<notin> tables {510} (frames s) 3 C)"

text \<open>The window is ready: the kernel's space reaches it through \<open>A\<close>, \<open>B\<close> and \<open>T\<close>, its entry shows the page the stacks moved it to, and a space that
  shares one of these tables shares them from its top-level entry on, as the upper half of a clone does.\<close>

definition window_in :: "(frame \<Rightarrow> page_table) \<Rightarrow> frame \<Rightarrow> addr_t \<Rightarrow> frame \<Rightarrow> frame \<Rightarrow> frame \<Rightarrow> bool" where
  "window_in fr C W A B T \<longleftrightarrow> T \<notin> above {510} fr 3 C \<and> (tables {510} fr 3 C \<inter> {A, B, T} = {} \<or> leads (fr C (i4 W)) A)"

definition window_ready :: "vm \<Rightarrow> frame \<Rightarrow> frame \<Rightarrow> frame \<Rightarrow> frame \<Rightarrow> bool" where
  "window_ready s C A B T \<longleftrightarrow> frame_of (physical_base (kernel_context s)) = current s
     \<and> window_path (frames s) (phys_page_virt s) (current s) A B T \<and> window_in (frames s) C (phys_page_virt s) A B T \<and> window_shown s T"

lemma window_translation:
  assumes "window_path (frames s) (phys_page_virt s) K A B T" and "window_shown s T"
  shows "hw_walk (frames s) K (phys_page_virt s) = Some (frame_of (window (vm_kmem s)))"
  using assms by (simp add: window_path_def window_shown_def leads_def hw_walk_def Let_def)

lemma window_alone:
  assumes tr: "tree {510} fr 3 C" and wp: "window_path fr W K A B T" and wi: "window_in fr C W A B T"
    and w: "i4 w \<noteq> 510" "walk fr C (butlast (path_of w)) = Some T"
  shows "butlast (path_of w) = butlast (path_of W)"
proof (rule walk_unique [OF tr _ _ _ _ w(2)])
  have "T \<in> tables {510} fr 3 C" by (rule walk_in_tables [OF w(2)]) (use w(1) in \<open>simp_all add: path_of_def\<close>)
  then have "leads (fr C (i4 W)) A" using wi by (auto simp: window_in_def)
  then show "walk fr C (butlast (path_of W)) = Some T" using wp by (simp add: path_of_def window_path_def leads_def)
qed (use w(1) wp in \<open>simp_all add: path_of_def window_path_def\<close>)

text \<open>Nothing of this changes with the entry of the window, and no translation but the window's own.\<close>

lemma space_like:
  assumes sp: "space s C" and wp: "window_path (frames s) W (current s) A B T" and wi: "window_in (frames s) C W A B T"
    and lk: "like T (i1 W) (frames s') (frames s)" and same: "vm_cr3 s' = vm_cr3 s" "kernel_context s' = kernel_context s"
  shows "space s' C" and "window_path (frames s') W (current s) A B T" and "window_in (frames s') C W A B T"
    and "tables {510} (frames s') 3 C = tables {510} (frames s) 3 C"
    and "i4 w \<noteq> 510 \<Longrightarrow> path_of w \<noteq> path_of W \<Longrightarrow> hw_walk (frames s') C w = hw_walk (frames s) C w"
proof -
  have up: "T \<notin> above {510} (frames s) 3 C" using wi by (simp add: window_in_def)
  then have T: "T \<noteq> C" "T \<noteq> current s" using wp by (auto simp: numeral_3_eq_3 window_path_def)
  note t = tables_like [OF lk up] and r = tree_like [OF lk up]
  have e: "core (frames s' C j) = core (frames s C j)" "core (frames s' (current s) j) = core (frames s (current s) j)" for j
    using lk T by (auto simp: like_def)
  show t': "tables {510} (frames s') 3 C = tables {510} (frames s) 3 C" by (rule t)
  have cu: "current s' = current s" by (simp add: current_def same)
  show sp': "space s' C" using sp r t(1) e(1) [of 510] e(2) [of 510] unfolding space_def cu same(1) by (simp add: core_def)
  show "window_path (frames s') W (current s) A B T" by (rule window_path_like [OF lk wp])
  show "window_in (frames s') C W A B T" using wi t leads_core [OF e(1)] by (simp add: window_in_def)
  assume w: "i4 w \<noteq> 510" "path_of w \<noteq> path_of W"
  have "walk (frames s') C (path_of w) = walk (frames s) C (path_of w)"
  proof (rule walk_like [OF lk up])
    assume "walk (frames s) C (butlast (path_of w)) = Some T"
    from window_alone [OF _ wp wi w(1) this] show "last (path_of w) \<noteq> i1 W" using sp w(2) by (auto simp: space_def path_of_def)
  qed (use w in \<open>simp_all add: path_of_def\<close>)
  then show "hw_walk (frames s') C w = hw_walk (frames s) C w"
    using hw_walk_tree [of _ C w] sp sp' w(1) by (simp add: space_def)
qed

text \<open>An allocation on the machine moves the window and nothing else.\<close>

lemma window_moves:
  assumes sp: "space s C" and wr: "window_ready s C A B T"
    and al: "physical_alloc ((vm_kmem s)\<lparr>window_maps := []\<rparr>) (vm_phys s) sz fl = Inr (a, m, P)"
  shows "\<exists>fr'. vm_physical_alloc s sz fl = Inr (a, s\<lparr>frames := fr', vm_kmem := m, vm_phys := P\<rparr>)
    \<and> space (s\<lparr>frames := fr', vm_kmem := m, vm_phys := P\<rparr>) C \<and> window_ready (s\<lparr>frames := fr', vm_kmem := m, vm_phys := P\<rparr>) C A B T
    \<and> tables {510} fr' 3 C = tables {510} (frames s) 3 C
    \<and> (\<forall>w. i4 w \<noteq> 510 \<longrightarrow> path_of w \<noteq> path_of (phys_page_virt s) \<longrightarrow> hw_walk fr' C w = hw_walk (frames s) C w)"
proof -
  have k: "on_kernel s (current s)" "window_path (frames s) (phys_page_virt s) (current s) A B T" "window_in (frames s) C (phys_page_virt s) A B T" "window_shown s T"
    using sp wr by (simp_all add: on_kernel_def space_def window_ready_def)
  obtain fr' where V: "vm_physical_alloc s sz fl = Inr (a, s\<lparr>frames := fr', vm_kmem := m, vm_phys := P\<rparr>)" "like T (i1 (phys_page_virt s)) fr' (frames s)"
      "window_shown (s\<lparr>frames := fr', vm_kmem := m, vm_phys := P\<rparr>) T"
    using vm_physical_alloc_ok [OF k(1,2,4) al] by blast
  let ?s = "s\<lparr>frames := fr', vm_kmem := m, vm_phys := P\<rparr>"
  have lk: "like T (i1 (phys_page_virt s)) (frames ?s) (frames s)" using V(2) by simp
  note L = space_like [OF sp k(2,3) lk]
  have "current ?s = current s" by (simp add: current_def)
  then have "window_ready ?s C A B T" using wr V(3) L(2,3) by (simp add: window_ready_def)
  then show ?thesis using V(1) L(1,4,5) by (intro exI [of _ fr']) simp
qed

text \<open>Changing the recursive entry of the kernel's table does not touch a space.\<close>

lemma fractal_frames:
  assumes "K = C \<Longrightarrow> p = fr C 510" and "K \<noteq> C \<Longrightarrow> K \<notin> tables {510} fr 3 C"
  shows "tables {510} (upd fr K 510 p) 3 C = tables {510} fr 3 C" and "tree {510} (upd fr K 510 p) 3 C = tree {510} fr 3 C"
    and "i4 w \<noteq> 510 \<Longrightarrow> walk (upd fr K 510 p) C (path_of w) = walk fr C (path_of w)"
    and "missing (upd fr K 510 p) C (path_of w) = missing fr C (path_of w) \<or> i4 w = 510"
    and "above {510} (upd fr K 510 p) 3 C = above {510} fr 3 C"
proof -
  have c: "upd fr K 510 p g = fr g" if "g \<in> tables {510} fr 3 C" for g
    using assms that by (cases "K = C") (auto simp: upd_def)
  show "tables {510} (upd fr K 510 p) 3 C = tables {510} fr 3 C" by (rule tables_cong [OF c])
  show "tree {510} (upd fr K 510 p) 3 C = tree {510} fr 3 C" by (rule tree_cong [OF c])
  show "above {510} (upd fr K 510 p) 3 C = above {510} fr 3 C" by (rule above_cong [OF c])
  show "walk (upd fr K 510 p) C (path_of w) = walk fr C (path_of w)" if "i4 w \<noteq> 510"
    by (rule walk_cong [of "{510}" fr 3]) (use c that in \<open>auto simp: path_of_def\<close>)
  show "missing (upd fr K 510 p) C (path_of w) = missing fr C (path_of w) \<or> i4 w = 510"
  proof (cases "i4 w = 510")
    case False
    then have "missing (upd fr K 510 p) C (path_of w) = missing fr C (path_of w)"
      by (intro missing_cong [of "{510}" fr 3] c) (auto simp: path_of_def)
    then show ?thesis ..
  qed simp
qed

text \<open>The result of \<open>arch_virtual_map\<close>: the recursive entry of the kernel's table is borrowed, the path inserted, and the entry put back.\<close>

abbreviation borrowed :: "vm \<Rightarrow> frame \<Rightarrow> frame \<Rightarrow> page_table" where
  "borrowed s C \<equiv> upd (frames s) (current s) 510 ((frames s (current s) 510)\<lparr>address := C\<rparr>)"

lemma window_path_fractal:
  assumes "window_path fr W K A B T" and "present p" and "\<not> huge_page p"
  shows "window_path (upd fr K 510 p) W K A B T"
  using assms by (auto simp: window_path_def leads_def upd_def)

lemma borrowed_space:
  assumes "space s C"
  shows "tables {510} (borrowed s C) 3 C = tables {510} (frames s) 3 C" and "tree {510} (borrowed s C) 3 C" and "recursive (borrowed s C) (current s) C"
    and "i4 w \<noteq> 510 \<Longrightarrow> walk (borrowed s C) C (path_of w) = hw_walk (frames s) C w"
    and "i4 w \<noteq> 510 \<Longrightarrow> missing (borrowed s C) C (path_of w) = missing (frames s) C (path_of w)"
    and "above {510} (borrowed s C) 3 C = above {510} (frames s) 3 C"
proof -
  have KC: "(frames s (current s) 510)\<lparr>address := C\<rparr> = frames s C 510" if "current s = C" using assms that by (simp add: space_def)
  have KT: "current s \<notin> tables {510} (frames s) 3 C" if "current s \<noteq> C" using assms that unfolding space_def by blast
  note F = fractal_frames [OF KC KT]
  show "tables {510} (borrowed s C) 3 C = tables {510} (frames s) 3 C" by (rule F(1))
  show "above {510} (borrowed s C) 3 C = above {510} (frames s) 3 C" by (rule F(5))
  show "tree {510} (borrowed s C) 3 C" using F(2) assms by (simp add: space_def)
  show "recursive (borrowed s C) (current s) C" using assms KC by (auto simp: recursive_def space_def upd_def)
  show "walk (borrowed s C) C (path_of w) = hw_walk (frames s) C w" if "i4 w \<noteq> 510"
    using hw_walk_tree [of "frames s" C w] F(3) assms that by (simp add: space_def)
  show "missing (borrowed s C) C (path_of w) = missing (frames s) C (path_of w)" if "i4 w \<noteq> 510" using F(4) [of w] that by simp
qed

text \<open>What the insertion of a path does, and that it leaves the borrowed entry alone.\<close>

lemma inserted_space:
  fixes fl :: u8 and t :: frame
  assumes sp: "space s C" and v: "i4 v \<noteq> 510" and len: "length new = missing (frames s) C (path_of v)"
    and new: "distinct new" "set new \<inter> insert (current s) (tables {510} (frames s) 3 C) = {}"
  defines "fr \<equiv> ins fl t (borrowed s C) C (path_of v) new"
  shows "tree {510} fr 3 C" and "tables {510} fr 3 C \<subseteq> tables {510} (frames s) 3 C \<union> set new"
    and "\<And>j. j \<noteq> i4 v \<Longrightarrow> fr C j = borrowed s C C j" and "fr (current s) 510 = borrowed s C (current s) 510"
    and "\<And>w. i4 w \<noteq> 510 \<Longrightarrow> walk fr C (path_of w) = (if path_of w = path_of v then Some t else hw_walk (frames s) C w)"
    and "above {510} fr 3 C \<subseteq> above {510} (frames s) 3 C \<union> set new"
    and "\<And>j N. j \<noteq> 510 \<Longrightarrow> leads (frames s C j) N \<Longrightarrow> leads (fr C j) N"
proof -
  note B = borrowed_space [OF sp]
  have I: "\<forall>g. g \<notin> tables {510} (borrowed s C) 3 C \<union> set new \<longrightarrow> fr g = borrowed s C g"
      "tree {510} fr 3 C" "tables {510} fr 3 C \<subseteq> tables {510} (borrowed s C) 3 C \<union> set new" "above {510} fr 3 C \<subseteq> above {510} (borrowed s C) 3 C \<union> set new"
      "\<forall>j. j \<noteq> i4 v \<longrightarrow> fr C j = borrowed s C C j"
      "present (borrowed s C C (i4 v)) \<longrightarrow> present (fr C (i4 v)) \<and> address (fr C (i4 v)) = address (borrowed s C C (i4 v))"
      "\<forall>q. length q = Suc 3 \<longrightarrow> hd q \<notin> {510} \<longrightarrow> walk fr C q = (if q = path_of v then Some t else walk (borrowed s C) C q)"
    using ins_correct [OF B(2), of "path_of v" new fl t] v new B(1) B(5) [OF v] len by (simp_all add: path_of_def fr_def)
  show tr: "tree {510} fr 3 C" and "tables {510} fr 3 C \<subseteq> tables {510} (frames s) 3 C \<union> set new" "above {510} fr 3 C \<subseteq> above {510} (frames s) 3 C \<union> set new"
    using I(2,3,4) B(1,6) by auto
  show *: "fr C j = borrowed s C C j" if "j \<noteq> i4 v" for j using I(5) that by blast
  show "leads (fr C j) N" if "j \<noteq> 510" "leads (frames s C j) N" for j N
  proof -
    have b: "borrowed s C C j = frames s C j" using that(1) by (simp add: upd_other)
    have "\<not> huge_page (fr C j)" using tr that(1) by (simp add: numeral_3_eq_3)
    then show ?thesis using that(2) b I(6) * [of j] by (cases "j = i4 v") (auto simp: leads_def)
  qed
  show "fr (current s) 510 = borrowed s C (current s) 510"
  proof (cases "current s = C")
    case True
    then show ?thesis using * [of 510] v by simp
  next
    case False
    then have "current s \<notin> tables {510} (frames s) 3 C" using sp unfolding space_def by blast
    then have "fr (current s) = borrowed s C (current s)" using I(1) B(1) new(2) by auto
    then show ?thesis by simp
  qed
  show "walk fr C (path_of w) = (if path_of w = path_of v then Some t else hw_walk (frames s) C w)" if "i4 w \<noteq> 510" for w
  proof -
    have "length (path_of w) = Suc 3" "hd (path_of w) \<notin> {510}" using that by (simp_all add: path_of_def)
    then have "walk fr C (path_of w) = (if path_of w = path_of v then Some t else walk (borrowed s C) C (path_of w))" using I(7) by blast
    then show ?thesis using B(4) [OF that] by simp
  qed
qed

text \<open>Where the window is after a path was inserted: the table the last entry was written to is not one that leads to the window, and the entry is
  not the window's own, unless the page mapped is the window.\<close>

lemma inserted_window:
  assumes sp: "space s C" and wr: "window_ready s C A B T" and v: "i4 v \<noteq> 510"
    and len: "length new = missing (frames s) C (path_of v)" and new: "distinct new" "set new \<inter> ({current s, A, B, T} \<union> tables {510} (frames s) 3 C) = {}"
    and fr: "fr = ins fl t (borrowed s C) C (path_of v) new" "fr = upd g N (i1 v) p"
    and N: "walk fr C [i4 v, i3 v, i2 v] = Some N" "N \<noteq> current s" and wp: "window_path g (phys_page_virt s) (current s) A B T"
  shows "window_path fr (phys_page_virt s) (current s) A B T" and "window_in fr C (phys_page_virt s) A B T"
    and "path_of v \<noteq> path_of (phys_page_virt s) \<Longrightarrow> N \<noteq> T \<or> i1 v \<noteq> i1 (phys_page_virt s)"
proof -
  let ?W = "phys_page_virt s" and ?K = "current s"
  have fresh: "set new \<inter> insert (current s) (tables {510} (frames s) 3 C) = {}" using new(2) by blast
  note I = inserted_space [OF sp v len new(1) fresh, where fl = fl and t = t, folded fr(1)]
  have wi: "window_in (frames s) C ?W A B T" and W: "i4 ?W \<noteq> 510" using wr by (simp_all add: window_ready_def window_path_def)
  have "T \<notin> above {510} fr 3 C" using I(6) wi new(2) by (auto simp: window_in_def)
  moreover have "tables {510} fr 3 C \<inter> {A, B, T} = {} \<or> leads (fr C (i4 ?W)) A"
    using wi I(2) I(7) [OF W] new(2) unfolding window_in_def by blast
  ultimately show wi': "window_in fr C ?W A B T" by (simp add: window_in_def)
  have d: "distinct [?K, A, B, T]" "leads (g A (i3 ?W)) B" "leads (g B (i2 ?W)) T" using wp by (simp_all add: window_path_def)
  have keep: "fr h = g h" if "h \<noteq> N" for h using that fr(2) by (simp add: upd_other)
  have NT: "N \<in> tables {510} fr 3 C" by (rule walk_in_tables [OF N(1)]) (use v in simp_all)
  have AB: "N \<noteq> A \<and> N \<noteq> B"
  proof (cases "leads (fr C (i4 ?W)) A")
    case True
    have uniq: "[i4 v, i3 v, i2 v] = q" if "walk fr C q = Some N" "length q \<le> 3" "hd q = i4 ?W" "q \<noteq> []" for q
      by (rule walk_unique [OF I(1) _ that(2) _ _ N(1) that(1)]) (use v W that(3) in simp_all)
    have A: "walk fr C [i4 ?W] = Some A" using True by (simp add: leads_def)
    then have nA: "N \<noteq> A" using uniq [of "[i4 ?W]"] by auto
    then have "walk fr C [i4 ?W, i3 ?W] = Some B" using True d(2) keep [of A] nA by (simp add: leads_def)
    then have "N \<noteq> B" using uniq [of "[i4 ?W, i3 ?W]"] by auto
    with nA show ?thesis by blast
  next
    case False
    then show ?thesis using wi' NT by (auto simp: window_in_def)
  qed
  show wp': "window_path fr ?W ?K A B T" by (rule window_path_cong [OF wp]) (use keep AB N(2) in auto)
  show "N \<noteq> T \<or> i1 v \<noteq> i1 ?W" if ne: "path_of v \<noteq> path_of ?W"
  proof (rule ccontr)
    assume c: "\<not> (N \<noteq> T \<or> i1 v \<noteq> i1 ?W)"
    then have "walk fr C (butlast (path_of v)) = Some T" using N(1) by (simp add: path_of_def)
    from window_alone [OF I(1) wp' wi' v this] c ne show False by (simp add: path_of_def)
  qed
qed

lemma arch_virtual_map_step:
  assumes sp: "space s C" and wr: "window_ready s C A B T" and C: "C = frame_of (physical_base context)" and v: "i4 v \<noteq> 510"
    and vW: "path_of v \<noteq> path_of (phys_page_virt s)"
    and al: "page_allocs (missing (frames s) C (path_of v)) (vm_kmem s) (vm_phys s) = Inr (new, m', P')"
    and new: "distinct new" "set new \<inter> ({current s, A, B, T} \<union> tables {510} (frames s) 3 C) = {}"
  shows "\<exists>s'. arch_virtual_map s context v p fl = Inr s' \<and> space s' C \<and> window_ready s' C A B T
    \<and> (\<forall>w. i4 w \<noteq> 510 \<longrightarrow> path_of w \<noteq> path_of (phys_page_virt s) \<longrightarrow>
        hw_walk (frames s') C w = (if path_of w = path_of v then Some (frame_of p) else hw_walk (frames s) C w))
    \<and> get_fractal s' RECURSIVE_ENTRY = get_fractal s RECURSIVE_ENTRY \<and> kernel_context s' = kernel_context s \<and> phys_page_virt s' = phys_page_virt s
    \<and> vm_kmem s' = m' \<and> vm_phys s' = P' \<and> tables {510} (frames s') 3 C \<subseteq> tables {510} (frames s) 3 C \<union> set new"
proof -
  let ?K = "current s" and ?W = "phys_page_virt s" and ?sz = "s\<lparr>frames := borrowed s C\<rparr>"
  let ?fr1 = "ins fl (frame_of p) (borrowed s C) C (path_of v) new"
  note B = borrowed_space [OF sp]
  have R: "frame_of (physical_base (kernel_context s)) = ?K" "window_path (frames s) ?W ?K A B T" "window_in (frames s) C ?W A B T" "window_shown s T"
    using wr by (simp_all add: window_ready_def)
  have KT: "?K \<noteq> T" "T \<notin> above {510} (frames s) 3 C" using R(2,3) by (auto simp: window_path_def window_in_def)
  have w: "windowed ?sz (borrowed s C) ?K A B T"
  proof -
    have "on_kernel ?sz ?K" using sp R(1) by (simp add: on_kernel_def space_def current_def)
    moreover have "window_path (borrowed s C) ?W ?K A B T" by (rule window_path_fractal [OF R(2)]) (use R(2) in \<open>simp_all add: window_path_def leads_def\<close>)
    moreover have "window_shown ?sz T" using R(4) KT(1) by (simp add: window_shown_def upd_other)
    ultimately show ?thesis by (simp add: windowed_def)
  qed
  have s0: "set_fractal s RECURSIVE_ENTRY C = ?sz" by (simp add: set_fractal_def set_page_upd RECURSIVE_ENTRY_def)
  have KC: "?K \<noteq> C \<longrightarrow> ?K \<notin> tables {510} (borrowed s C) 3 C" using sp unfolding space_def B(1) by blast
  have len: "length new = missing (frames s) C (path_of v)" using page_allocs_length [OF al] .
  have fresh: "set new \<inter> insert ?K (tables {510} (frames s) 3 C) = {}" using new(2) by blast
  note I = inserted_space [OF sp v len new(1) fresh, where fl = fl and t = "frame_of p"]
  have e: "phys_page_virt ?sz = ?W" "vm_cr3 ?sz = vm_cr3 s" "kernel_context ?sz = kernel_context s" by simp_all
  have up': "T \<notin> above {510} (borrowed s C) 3 C" using KT(2) B(6) by simp
  have al': "page_allocs (missing (borrowed s C) C (path_of v)) (vm_kmem ?sz) (vm_phys ?sz) = Inr (new, m', P')" using al B(5) [OF v] by simp
  have new': "set new \<inter> ({?K, A, B, T} \<union> tables {510} (borrowed s C) 3 C) = {}" using new(2) unfolding B(1) .
  note levels = map_levels [OF w B(3,2) up' KC v al' new(1) new', where fl = fl and t = "frame_of p", unfolded e]
  obtain s1 g N q where M: "bind_res (map_level page_alloc ?sz ptr_pml4 (PML4_INDEX v) (ptr_pdpt v) fl) (\<lambda>s.
         bind_res (map_level page_alloc s (ptr_pdpt v) (PDPT_INDEX v) (ptr_pd v) fl) (\<lambda>s.
         bind_res (map_level page_alloc s (ptr_pd v) (PD_INDEX v) (ptr_pt v) fl) (\<lambda>s.
         bind_res (virtual_set_flags s (ptr_pt v) (PT_INDEX v) fl) (\<lambda>s.
         write_entry s (ptr_pt v) (PT_INDEX v) (\<lambda>q. q\<lparr>address := frame_of p\<rparr>))))) = Inr s1"
      and s1: "like T (i1 ?W) (frames s1) ?fr1" "?fr1 = upd g N (i1 v) q" "walk ?fr1 C [i4 v, i3 v, i2 v] = Some N" "N \<noteq> ?K" "window_path g ?W ?K A B T"
        "N \<noteq> T \<or> i1 v \<noteq> i1 ?W \<longrightarrow> window_shown s1 T"
        "vm_cr3 s1 = vm_cr3 s" "kernel_context s1 = kernel_context s" "phys_page_virt s1 = ?W" "vm_kmem s1 = m'" "vm_phys s1 = P'"
    using levels by (elim exE conjE) (rule that; assumption)
  note J = inserted_window [OF sp wr v len new refl s1(2-5)]
  let ?p = "frames s ?K 510" and ?F = "upd ?fr1 ?K 510 (frames s ?K 510)"
  let ?s' = "set_fractal s1 RECURSIVE_ENTRY (get_fractal s RECURSIVE_ENTRY)" and ?g = "s\<lparr>frames := ?F\<rparr>"
  have cu: "current s1 = ?K" "current ?s' = ?K" "current ?g = ?K" by (simp_all add: current_def s1(8) set_fractal_def set_page_def)
  have fr': "frames ?s' = upd (frames s1) ?K 510 ((frames s1 ?K 510)\<lparr>address := address ?p\<rparr>)"
    by (simp add: set_fractal_def get_fractal_def set_page_upd cu RECURSIVE_ENTRY_def)
  have "core ((frames s1 ?K 510)\<lparr>address := address ?p\<rparr>) = core ?p"
    using like_at(1,2) [OF s1(1), of ?K 510] KT(1) I(4) by (simp add: core_def)
  then have lk: "like T (i1 ?W) (frames ?s') (frames ?g)" unfolding fr' by (simp add: like_upd [OF s1(1)])
  have KC': "?p = ?fr1 C 510" if "?K = C" using I(4) sp that by (simp add: space_def)
  have KT': "?K \<notin> tables {510} ?fr1 3 C" if "?K \<noteq> C" using I(2) sp fresh that unfolding space_def by blast
  note F = fractal_frames [OF KC' KT']
  have C1: "?F C 510 = frames s C 510" using I(3) [of 510] v by (cases "?K = C") (simp_all add: upd_def)
  have W': "i4 ?W \<noteq> 510" using R(2) by (simp add: window_path_def)
  have gs: "space ?g C" "window_path (frames ?g) ?W (current ?g) A B T" "window_in (frames ?g) C ?W A B T"
  proof -
    show "space ?g C"
      unfolding space_def cu(3)
    proof (intro conjI impI)
      show "tree {510} (frames ?g) 3 C" using F(2) I(1) by simp
      show "?K \<notin> tables {510} (frames ?g) 3 C" if "?K \<noteq> C" using F(1) KT' [OF that] by simp
    qed (use sp C1 in \<open>simp_all add: space_def\<close>)
    show "window_path (frames ?g) ?W (current ?g) A B T" unfolding cu(3) using window_path_fractal [OF J(1)] R(2) sp by (simp add: window_path_def leads_def)
    show "window_in (frames ?g) C ?W A B T"
      using J(2) F(1,5) W' by (cases "?K = C") (auto simp: window_in_def upd_other)
  qed
  note L = space_like [OF gs lk]
  have same: "vm_cr3 ?s' = vm_cr3 ?g" "kernel_context ?s' = kernel_context ?g" "phys_page_virt ?s' = ?W" "vm_kmem ?s' = m'" "vm_phys ?s' = P'"
    by (simp_all add: set_fractal_def set_page_def s1)
  have "arch_virtual_map s context v p fl = Inr ?s'"
    using M unfolding arch_virtual_map_def map_page_def Let_def C [symmetric] s0 by (auto simp: bind_res_Inr_iff)
  moreover have "window_shown ?s' T"
    using s1(6) J(3) [OF vW] KT(1) same(3) s1(9) unfolding window_shown_def fr' by (simp add: upd_other set_fractal_def set_page_def)
  then have "window_ready ?s' C A B T" using R(1) L(2,3) [OF same(1,2)] cu same by (simp add: window_ready_def)
  moreover have "hw_walk (frames ?s') C w = (if path_of w = path_of v then Some (frame_of p) else hw_walk (frames s) C w)"
    if w: "i4 w \<noteq> 510" "path_of w \<noteq> path_of ?W" for w
  proof -
    have "hw_walk (frames ?s') C w = hw_walk ?F C w" using L(5) [OF same(1,2) w] by simp
    also have "\<dots> = walk ?fr1 C (path_of w)" using hw_walk_tree [of ?F C w] F(2,3) I(1) w(1) by simp
    finally show ?thesis using I(5) [OF w(1)] by simp
  qed
  moreover have "get_fractal ?s' RECURSIVE_ENTRY = get_fractal s RECURSIVE_ENTRY"
    using fr' cu by (simp add: get_fractal_def RECURSIVE_ENTRY_def)
  moreover have "tables {510} (frames ?s') 3 C \<subseteq> tables {510} (frames s) 3 C \<union> set new" using L(4) [OF same(1,2)] F(1) I(2) by simp
  ultimately show ?thesis using L(1) [OF same(1,2)] same by (intro exI [of _ ?s']) simp
qed

section \<open>Properties\<close>


text \<open>An example: the kernel's own space with nothing mapped but the recursive entry and the window, and three free pages.\<close>

definition demo_context :: memory_context where
  "demo_context = \<lparr>physical_base = 0x1000, virtual_base = VMA_BASE + 0x1000\<rparr>"

definition paging_buddy :: buddy where
  "paging_buddy = demo_buddy\<lparr>orders := (replicate 64 demo_order)[12 := demo_order\<lparr>order_free := \<lparr>stack_size = 3, stack_top = 0x3000\<rparr>\<rparr>]\<rparr>"

definition demo_entry :: "frame \<Rightarrow> page" where
  "demo_entry f = zero_page\<lparr>present := True, writable := True, address := f\<rparr>"

definition demo_frames :: "frame \<Rightarrow> page_table" where
  "demo_frames = (\<lambda>f i. if f = 1 \<and> i = 510 then demo_entry 1 else if f = 1 \<and> i = 511 then demo_entry 0x20
     else if f = 0x20 \<and> i = 510 then demo_entry 0x21 else if f = 0x21 \<and> i = 1 then demo_entry 0x22
     else if f = 0x22 \<and> i = 0 then demo_entry 0 else zero_page)"

definition demo_vm :: vm where
  "demo_vm = \<lparr>frames = demo_frames, vm_cr3 = 0x1000, kernel_context = demo_context,
     vm_kmem = \<lparr>page_words = (\<lambda>p. if p = 0x3000 then 0x4000 else if p = 0x4000 then 0x5000 else 0), window = 0, window_maps = []\<rparr>,
     vm_phys = \<lparr>phys_dma_region = \<lparr>region_base = 0, region_size = 0x2000, region_buddy = None\<rparr>,
       phys_normal_region = \<lparr>region_base = 0x2000, region_size = 0x1E000, region_buddy = Some paging_buddy\<rparr>\<rparr>,
     phys_page_virt = 0xFFFFFFFF80200000\<rparr>"

lemma demo_allocs: "\<exists>m P. page_allocs 3 (vm_kmem demo_vm) (vm_phys demo_vm) = Inr ([3, 4, 5], m, P) \<and> window m = 0x5000"
  unfolding numeral_3_eq_3
  by (simp add: physical_alloc_def buddy_eval demo_vm_def paging_buddy_def order_set_bit_def PHYS_DMA_def
      set_normal_buddy_def frame_of_def)

lemma demo_entry_simps [simp]: "present (demo_entry f)" "\<not> huge_page (demo_entry f)" "address (demo_entry f) = f"
  by (simp_all add: demo_entry_def zero_page_def)

lemma demo_window_indices:
  "i4 0xFFFFFFFF80200000 = 511" "i3 0xFFFFFFFF80200000 = 510" "i2 0xFFFFFFFF80200000 = 1" "i1 0xFFFFFFFF80200000 = 0"
  by (simp_all add: PML4_INDEX_def PDPT_INDEX_def PD_INDEX_def PT_INDEX_def)

lemma demo_table_sets:
  "{i. i \<noteq> 510 \<and> present (demo_frames 1 i)} = {511}" "{i. present (demo_frames 0x20 i)} = {510}"
  "{i. present (demo_frames 0x21 i)} = {1}" "\<not> huge_page (demo_frames f i)"
  "demo_frames 1 511 = demo_entry 0x20" "demo_frames 1 510 = demo_entry 1" "demo_frames 0x20 510 = demo_entry 0x21"
  "demo_frames 0x21 1 = demo_entry 0x22" "demo_frames 0x22 0 = demo_entry 0" "demo_frames 2 i = zero_page"
  "i \<noteq> 510 \<Longrightarrow> present (demo_frames 1 i) = (i = 511)" "present (demo_frames 0x20 i) = (i = 510)" "present (demo_frames 0x21 i) = (i = 1)"
  by (auto simp: demo_frames_def)

lemma demo_tables: "tables {510} (frames demo_vm) 3 1 = {1, 0x20, 0x21, 0x22}" and demo_above: "above {510} (frames demo_vm) 3 1 = {1, 0x20, 0x21}"
  and demo_tree: "tree {510} (frames demo_vm) 3 1"
  by (auto simp: demo_vm_def numeral_3_eq_3 demo_table_sets)

lemma demo_space: "space demo_vm 1" and demo_missing: "missing (frames demo_vm) 1 (path_of 0x400000) = 3" and demo_current: "current demo_vm = 1"
proof -
  show c: "current demo_vm = 1" by (simp add: current_def demo_vm_def demo_context_def frame_of_def)
  show "space demo_vm 1" using demo_tree unfolding space_def c by (simp add: demo_vm_def frame_of_def demo_frames_def)
  show "missing (frames demo_vm) 1 (path_of 0x400000) = 3"
    by (simp add: path_of_def demo_vm_def PML4_INDEX_def demo_table_sets)
qed

lemma demo_window: "window_ready demo_vm 1 0x20 0x21 0x22"
  using demo_tables demo_above demo_current
  by (simp add: window_ready_def window_path_def window_in_def window_shown_def leads_def demo_vm_def demo_context_def
      demo_window_indices demo_table_sets frame_of_def)

lemma demo_apart: "path_of 0x400000 \<noteq> path_of (phys_page_virt demo_vm)"
  by (simp add: path_of_def demo_vm_def PML4_INDEX_def)


text \<open>The pages of a range, one after the other, and the same page again and again.\<close>

definition page_count :: "size_t \<Rightarrow> nat" where
  "page_count sz = (unat sz + 4095) div 4096"

primrec map_pages :: "memory_context \<Rightarrow> u8 \<Rightarrow> nat \<Rightarrow> addr_t \<Rightarrow> addr_t \<Rightarrow> vm \<Rightarrow> vm res" where
  "map_pages c fl 0 v p s = Inr s"
| "map_pages c fl (Suc n) v p s = bind_res (arch_virtual_map s c v p fl) (map_pages c fl n (v + PAGE_SIZE) (p + PAGE_SIZE))"

primrec unmap_again :: "memory_context \<Rightarrow> nat \<Rightarrow> addr_t \<Rightarrow> vm \<Rightarrow> vm res" where
  "unmap_again c 0 v s = Inr s"
| "unmap_again c (Suc n) v s = bind_res (arch_virtual_unmap s c v) (unmap_again c n v)"

lemma page_step:
  assumes "unat sz \<le> 2 ^ 63" and "unat mapped = 4096 * k" and "k \<le> page_count sz"
  shows "mapped < sz \<longleftrightarrow> k < page_count sz" and "k < page_count sz \<Longrightarrow> unat (mapped + PAGE_SIZE) = 4096 * Suc k"
proof -
  have kk: "k < page_count sz \<longleftrightarrow> 4096 * k < unat sz" unfolding page_count_def by arith
  then show "mapped < sz \<longleftrightarrow> k < page_count sz" using assms(2) by (simp add: word_less_nat_iff)
  show "unat (mapped + PAGE_SIZE) = 4096 * Suc k" if "k < page_count sz"
    using that assms(1,2) kk by (subst unat_add_no_overflow) (simp_all add: PAGE_SIZE_def)
qed

lemma virtual_map_loop_pages:
  assumes "unat sz \<le> 2 ^ 63" and "unat mapped = 4096 * k" and "n = page_count sz - k" and "k \<le> page_count sz"
  shows "virtual_map_loop s c v p sz fl mapped = Some (map_pages c fl n (v + mapped) (p + mapped) s)"
  using assms
proof (induction n arbitrary: s mapped k)
  case 0
  then show ?case using page_step(1) [OF 0(1,2,4)] by (subst virtual_map_loop.simps) simp
next
  case (Suc n)
  then have k: "k < page_count sz" "mapped < sz" using page_step(1) [OF Suc.prems(1,2,4)] by simp_all
  have IH: "virtual_map_loop s' c v p sz fl (mapped + PAGE_SIZE)
      = Some (map_pages c fl n (v + (mapped + PAGE_SIZE)) (p + (mapped + PAGE_SIZE)) s')" for s'
    by (rule Suc.IH [of "mapped + PAGE_SIZE" "Suc k"]) (use Suc.prems k page_step(2) [OF Suc.prems(1,2,4)] in auto)
  show ?case using k IH by (subst virtual_map_loop.simps) (simp add: add.assoc split: sum.split)
qed

lemma virtual_unmap_loop_again:
  assumes "unat sz \<le> 2 ^ 63" and "unat mapped = 4096 * k" and "n = page_count sz - k" and "k \<le> page_count sz"
  shows "virtual_unmap_loop s c v sz mapped = Some (unmap_again c n v s)"
  using assms
proof (induction n arbitrary: s mapped k)
  case 0
  then show ?case using page_step(1) [OF 0(1,2,4)] by (subst virtual_unmap_loop.simps) simp
next
  case (Suc n)
  then have k: "k < page_count sz" "mapped < sz" using page_step(1) [OF Suc.prems(1,2,4)] by simp_all
  have IH: "virtual_unmap_loop s' c v sz (mapped + PAGE_SIZE) = Some (unmap_again c n v s')" for s'
    by (rule Suc.IH [of "mapped + PAGE_SIZE" "Suc k"]) (use Suc.prems k page_step(2) [OF Suc.prems(1,2,4)] in auto)
  show ?case using k IH by (subst virtual_unmap_loop.simps) (simp split: sum.split)
qed

text \<open>Both loops of \<open>mm/virtual.c\<close> end for sizes up to 8 EiB. \<open>virtual_map\<close> maps the pages of the range one after
  the other, the last partial page included; \<open>virtual_unmap\<close> passes the first address every time, so it unmaps one
  page however large the size is.\<close>

theorem virtual_map_unmap_pages:
  assumes "unat sz \<le> 2 ^ 63"
  shows "virtual_map s (Some c) v p sz fl = Some (map_pages c fl (page_count sz) v p s)
    \<and> virtual_unmap s (Some c) v sz = Some (unmap_again c (page_count sz) v s)"
  using virtual_map_loop_pages [OF assms, of 0 0 "page_count sz" s c v p fl]
    virtual_unmap_loop_again [OF assms, of 0 0 "page_count sz" s c v]
  by (simp add: virtual_map_def virtual_unmap_def page_count_def)

theorem virtual_map_unmap_pages_witness:
  "virtual_unmap demo_vm (Some demo_context) 0x400000 0x2000 = Some (unmap_again demo_context 2 0x400000 demo_vm)"
  using virtual_map_unmap_pages [of "0x2000" demo_vm demo_context "0x400000" 0 0] by (simp add: page_count_def)

text \<open>\<open>arch_virtual_unmap\<close> of an address whose top-level entry is not present returns early and leaves the
  kernel's recursive entry pointing at the other address space: the old value it saved is lost.\<close>

theorem unmap_absent_keeps_fractal:
  assumes sp: "space s C" and C: "C = frame_of (physical_base context)" and K: "current s \<noteq> C"
    and base: "frame_of (physical_base (kernel_context s)) = current s"
    and absent: "\<not> present (frames s C (i4 v))"
  shows "\<exists>s'. arch_virtual_unmap s context v = Inr s' \<and> get_fractal s' RECURSIVE_ENTRY = C"
proof -
  let ?sz = "(set_fractal s RECURSIVE_ENTRY C)\<lparr>vm_cr3 := physical_base (kernel_context s)\<rparr>"
  have fr: "frames ?sz = upd (frames s) (current s) 510 ((frames s (current s) 510)\<lparr>address := C\<rparr>)"
    by (simp add: set_fractal_def set_page_upd RECURSIVE_ENTRY_def)
  have kc: "kernel_context (set_fractal s RECURSIVE_ENTRY C) = kernel_context s" by (simp add: set_fractal_def set_page_def)
  have cu: "current ?sz = current s" by (simp add: current_def kc)
  have "recursive (frames ?sz) (current s) C" using sp K unfolding fr by (auto simp: recursive_def space_def upd_def)
  then have "table_frame ?sz ptr_pml4 = Inr C" using hw_ptr(1) base by (intro table_frame_walk) simp
  then have "read_entry ?sz ptr_pml4 (PML4_INDEX v) = Inr (frames s C (i4 v))"
    using K by (simp add: read_entry_def fr upd_def)
  then have "arch_virtual_unmap s context v = Inr ?sz" using absent by (simp add: arch_virtual_unmap_def C Let_def kc [unfolded C])
  moreover have "get_fractal ?sz RECURSIVE_ENTRY = C"
    unfolding get_fractal_def cu fr by (simp add: RECURSIVE_ENTRY_def)
  ultimately show ?thesis by blast
qed

text \<open>A second, empty address space in frame 2.\<close>

definition demo_vm2 :: vm where
  "demo_vm2 = demo_vm\<lparr>frames := (frames demo_vm)(2 := (\<lambda>_. zero_page)(510 := zero_page\<lparr>present := True, address := 2\<rparr>))\<rparr>"

theorem unmap_absent_keeps_fractal_witness:
  "\<exists>s'. arch_virtual_unmap demo_vm2 \<lparr>physical_base = 0x2000, virtual_base = 0\<rparr> 0x400000 = Inr s' \<and> get_fractal s' RECURSIVE_ENTRY = 2"
  by (rule unmap_absent_keeps_fractal)
    (auto simp: space_def current_def demo_vm2_def demo_vm_def demo_context_def frame_of_def numeral_3_eq_3 PML4_INDEX_def zero_page_def demo_table_sets)

section \<open>Mapping a range with tables from the physical memory manager\<close>

text \<open>Pages taken from a supply of free memory: different frames, each from the part of the supply that is gone afterwards.\<close>

lemma unat_frame_of: "unat a < 2 ^ 52 \<Longrightarrow> 2 ^ 12 dvd unat a \<Longrightarrow> 4096 * unat (frame_of a) = unat a"
proof -
  assume a: "unat a < 2 ^ 52" "2 ^ 12 dvd unat a"
  have "unat (a div 0x1000) = unat a div 4096" by (simp add: unat_div_distrib)
  moreover have "unat a div 4096 < 2 ^ 40" using a(1) by (simp add: less_mult_imp_div_less)
  ultimately show ?thesis using a(2) by (simp add: frame_of_def unsigned_ucast_eq take_bit_nat_eq_self)
qed

lemma page_allocs_supply:
  assumes "page_source fl1 H1 m P F" and "4096 * n \<le> card F"
  shows "\<exists>new m' P' F'. page_allocs n m P = Inr (new, m', P') \<and> page_source fl1 H1 m' P' F' \<and> F' \<subseteq> F \<and> card F = card F' + 4096 * n
    \<and> distinct new \<and> (\<forall>f \<in> set new. 4096 * unat f \<in> F - F') \<and> phys_dma_region P' = phys_dma_region P"
  using assms
proof (induction n arbitrary: m P F)
  case 0
  then show ?case by auto
next
  case (Suc n)
  have "F \<noteq> {}" using Suc.prems(2) by auto
  then obtain a m1 P1 where A: "physical_alloc (m\<lparr>window_maps := []\<rparr>) P 0x1000 0 = Inr (a, m1, P1)" "2 ^ 12 dvd unat a" "extent (12, a) \<subseteq> F" "page_source fl1 H1 m1 P1 (F - extent (12, a))"
      "phys_dma_region P1 = phys_dma_region P"
    using page_source_alloc [of fl1 H1 "m\<lparr>window_maps := []\<rparr>" P F] Suc.prems(1) by auto
  have c: "card (F - extent (12, a)) = card F - 4096" using A(3) by (subst card_Diff_subset) (auto simp: extent_def)
  then have "4096 * n \<le> card (F - extent (12, a))" using Suc.prems(2) by simp
  from Suc.IH [OF A(4) this] obtain new m' P' F' where R: "page_allocs n m1 P1 = Inr (new, m', P')" "page_source fl1 H1 m' P' F'" "F' \<subseteq> F - extent (12, a)"
      "card (F - extent (12, a)) = card F' + 4096 * n" "distinct new" "\<forall>f \<in> set new. 4096 * unat f \<in> F - extent (12, a) - F'"
      "phys_dma_region P' = phys_dma_region P1" by blast
  have a: "unat a \<in> extent (12, a)" by (simp add: extent_def)
  then have "unat a < 2 ^ 52" using A(3) Suc.prems(1) by (auto simp: page_source_def)
  then have fa: "4096 * unat (frame_of a) = unat a" using A(2) by (rule unat_frame_of)
  then have "frame_of a \<notin> set new" "4096 * unat (frame_of a) \<in> F - F'" using R(3,6) a A(3) by auto
  then show ?case using A(1,5) R c Suc.prems(2) by (intro exI [of _ "frame_of a # new"] exI [of _ m'] exI [of _ P'] exI [of _ F']) auto
qed

lemma missing_bound: "missing fr f q \<le> length q - 1"
  by (induction fr f q rule: missing.induct) auto

text \<open>An address space whose tables, and the tables of the window, are not free memory, next to a supply \<open>F\<close> of free pages; the DMA zone as in \<open>page_source\<close>.\<close>

definition supplied :: "(nat \<Rightarrow> addr_t list) \<Rightarrow> (nat \<times> addr_t) set \<Rightarrow> vm \<Rightarrow> frame \<Rightarrow> nat set \<Rightarrow> bool" where
  "supplied fl1 H1 s C F \<longleftrightarrow> space s C \<and> page_source fl1 H1 (vm_kmem s) (vm_phys s) F
     \<and> (\<exists>A B T. window_ready s C A B T \<and> (\<forall>f \<in> {A, B, T}. 4096 * unat f \<notin> F))
     \<and> (\<forall>f \<in> insert (current s) (tables {510} (frames s) 3 C). 4096 * unat f \<notin> F)"

lemma supplied_window:
  assumes "supplied fl1 H1 s C F"
  shows "hw_walk (frames s) (current s) (phys_page_virt s) = Some (frame_of (window (vm_kmem s)))"
  using assms window_translation by (auto simp: supplied_def window_ready_def)

lemma supplied_map:
  assumes s: "supplied fl1 H1 s C F" and C: "C = frame_of (physical_base context)" and v: "i4 v \<noteq> 510" "path_of v \<noteq> path_of (phys_page_virt s)" and F: "12288 \<le> card F"
  shows "\<exists>s' F'. arch_virtual_map s context v p fl = Inr s' \<and> supplied fl1 H1 s' C F' \<and> F' \<subseteq> F \<and> card F \<le> card F' + 12288 \<and> kernel_context s' = kernel_context s
    \<and> phys_page_virt s' = phys_page_virt s
    \<and> phys_dma_region (vm_phys s') = phys_dma_region (vm_phys s) \<and> tables {510} (frames s') 3 C \<subseteq> tables {510} (frames s) 3 C \<union> {f. 4096 * unat f \<in> F}
    \<and> (\<forall>w. i4 w \<noteq> 510 \<longrightarrow> path_of w \<noteq> path_of (phys_page_virt s) \<longrightarrow>
        hw_walk (frames s') C w = (if path_of w = path_of v then Some (frame_of p) else hw_walk (frames s) C w))"
proof -
  let ?n = "missing (frames s) C (path_of v)"
  have n: "?n \<le> 3" using missing_bound [of "frames s" C "path_of v"] by (simp add: path_of_def)
  obtain new m' P' F' where A: "page_allocs ?n (vm_kmem s) (vm_phys s) = Inr (new, m', P')" "page_source fl1 H1 m' P' F'" "F' \<subseteq> F" "card F = card F' + 4096 * ?n"
      "distinct new" "\<forall>f \<in> set new. 4096 * unat f \<in> F - F'" "phys_dma_region P' = phys_dma_region (vm_phys s)"
    using page_allocs_supply [of fl1 H1 "vm_kmem s" "vm_phys s" F ?n] s F n by (auto simp: supplied_def)
  obtain TA TB T where w: "window_ready s C TA TB T" "\<forall>f \<in> {TA, TB, T}. 4096 * unat f \<notin> F" using s by (auto simp: supplied_def)
  have out: "4096 * unat f \<notin> F" if "f \<in> {current s, TA, TB, T} \<union> tables {510} (frames s) 3 C" for f using that w(2) s by (auto simp: supplied_def)
  then have fresh: "set new \<inter> ({current s, TA, TB, T} \<union> tables {510} (frames s) 3 C) = {}" using A(6) by blast
  have sp: "space s C" using s by (simp add: supplied_def)
  obtain s' where M: "arch_virtual_map s context v p fl = Inr s'" "space s' C" "window_ready s' C TA TB T"
      "\<forall>w. i4 w \<noteq> 510 \<longrightarrow> path_of w \<noteq> path_of (phys_page_virt s) \<longrightarrow>
        hw_walk (frames s') C w = (if path_of w = path_of v then Some (frame_of p) else hw_walk (frames s) C w)"
      "kernel_context s' = kernel_context s" "phys_page_virt s' = phys_page_virt s" "vm_kmem s' = m'" "vm_phys s' = P'"
      "tables {510} (frames s') 3 C \<subseteq> tables {510} (frames s) 3 C \<union> set new"
    using arch_virtual_map_step [OF sp w(1) C v A(1,5) fresh] by blast
  have cu: "current s' = current s" by (simp add: current_def M(5))
  have "4096 * unat f \<notin> F'" if "f \<in> insert (current s') (tables {510} (frames s') 3 C)" for f
    using that out [of f] A(3,6) M(9) unfolding cu by blast
  moreover have "\<forall>f \<in> {TA, TB, T}. 4096 * unat f \<notin> F'" using w(2) A(3) by blast
  ultimately have "supplied fl1 H1 s' C F'" using M(2,3,7,8) A(2) unfolding supplied_def by blast
  moreover have "tables {510} (frames s') 3 C \<subseteq> tables {510} (frames s) 3 C \<union> {f. 4096 * unat f \<in> F}" using M(9) A(6) by blast
  ultimately show ?thesis using M(1,4-6,8) A(3,4,7) n by (intro exI [of _ s'] exI [of _ F']) auto
qed

text \<open>The four indices are the digits of the page number in base 512.\<close>

lemma unat_index:
  "unat (PT_INDEX x) = unat x div 4096 mod 512" "unat (PD_INDEX x) = unat x div 4096 div 512 mod 512"
  "unat (PDPT_INDEX x) = unat x div 4096 div 512 div 512 mod 512" "unat (PML4_INDEX x) = unat x div 4096 div 512 div 512 div 512 mod 512"
proof -
  have m: "0x1FF = (mask 9 :: u64)" by (simp add: mask_eq_exp_minus_1)
  have *: "unat (drop_bit k x AND 0x1FF) = unat x div 2 ^ k mod 512" for k
    unfolding m take_bit_eq_mask [symmetric] by (simp add: unat_take_bit_mod unat_drop_bit_div del: take_bit_eq_mask)
  show "unat (PT_INDEX x) = unat x div 4096 mod 512" "unat (PD_INDEX x) = unat x div 4096 div 512 mod 512"
    "unat (PDPT_INDEX x) = unat x div 4096 div 512 div 512 mod 512" "unat (PML4_INDEX x) = unat x div 4096 div 512 div 512 div 512 mod 512"
    unfolding PT_INDEX_def PD_INDEX_def PDPT_INDEX_def PML4_INDEX_def * by (simp_all add: div_mult2_eq [symmetric])
qed

lemma path_of_page: "path_of x = path_of y \<Longrightarrow> unat x div 4096 mod 2 ^ 36 = unat y div 4096 mod 2 ^ 36"
proof -
  assume eq: "path_of x = path_of y"
  have u: "a = b" if "(ucast a :: idx) = ucast b" "a < 512" "b < 512" for a b :: u64
  proof -
    have "unat (ucast a :: idx) = unat a" "unat (ucast b :: idx) = unat b"
      using that(2,3) by (simp_all add: unsigned_ucast_eq take_bit_nat_eq_self word_less_nat_alt)
    then show ?thesis using that(1) by (simp add: word_unat_eq_iff)
  qed
  have i: "PT_INDEX x = PT_INDEX y" "PD_INDEX x = PD_INDEX y" "PDPT_INDEX x = PDPT_INDEX y" "PML4_INDEX x = PML4_INDEX y"
    using eq by (auto simp: path_of_def intro: u)
  have digits: "n mod 2 ^ 36 = n mod 512 + 512 * (n div 512 mod 512 + 512 * (n div 512 div 512 mod 512 + 512 * (n div 512 div 512 div 512 mod 512)))" for n :: nat
    using mod_mult2_eq [of n 512 "512 * (512 * 512)"] mod_mult2_eq [of "n div 512" 512 "512 * 512"] mod_mult2_eq [of "n div 512 div 512" 512 512] by simp
  show ?thesis unfolding digits unat_index [symmetric] i ..
qed

lemma path_of_ahead:
  assumes "0 < k" and "k < 2 ^ 36"
  shows "path_of (v + of_nat k * PAGE_SIZE) \<noteq> path_of v"
proof
  assume "path_of (v + of_nat k * PAGE_SIZE) = path_of v"
  then have "unat (v + of_nat k * PAGE_SIZE) div 4096 mod 2 ^ 36 = unat v div 4096 mod 2 ^ 36" by (rule path_of_page)
  moreover have "unat (v + of_nat k * PAGE_SIZE) = (unat v + k * 4096) mod 2 ^ 64"
    using assms(2) by (simp add: unat_word_ariths PAGE_SIZE_def unat_of_nat take_bit_nat_eq_self)
  moreover have "n mod 2 ^ 64 div 4096 = n div 4096 mod 2 ^ 52" for n :: nat
    using mod_mult2_eq [of n 4096 "2 ^ 52"] by simp
  ultimately have "(unat v div 4096 + k) mod 2 ^ 52 mod 2 ^ 36 = unat v div 4096 mod 2 ^ 36" by (simp add: add.commute)
  moreover have "n mod 2 ^ 52 mod 2 ^ 36 = n mod 2 ^ 36" for n :: nat by (rule mod_mod_cancel) (simp add: le_imp_power_dvd)
  ultimately have "2 ^ 36 dvd (unat v div 4096 + k) - unat v div 4096" using mod_eq_dvd_iff_nat [of "unat v div 4096" "unat v div 4096 + k" "2 ^ 36"] by simp
  then show False using assms by (auto dest: dvd_imp_le)
qed

text \<open>The whole range, page by page.\<close>

lemma map_pages_supplied:
  assumes "supplied fl1 H1 s C F" and "C = frame_of (physical_base context)"
    and "\<forall>k < n. i4 (v + of_nat k * PAGE_SIZE) \<noteq> 510 \<and> path_of (v + of_nat k * PAGE_SIZE) \<noteq> path_of (phys_page_virt s)"
    and "12288 * n \<le> card F" and "n \<le> 2 ^ 36"
  shows "\<exists>s' F'. map_pages context fl n v p s = Inr s' \<and> supplied fl1 H1 s' C F' \<and> F' \<subseteq> F \<and> card F \<le> card F' + 12288 * n \<and> kernel_context s' = kernel_context s
    \<and> phys_page_virt s' = phys_page_virt s
    \<and> phys_dma_region (vm_phys s') = phys_dma_region (vm_phys s) \<and> tables {510} (frames s') 3 C \<subseteq> tables {510} (frames s) 3 C \<union> {f. 4096 * unat f \<in> F}
    \<and> (\<forall>k < n. hw_walk (frames s') C (v + of_nat k * PAGE_SIZE) = Some (frame_of (p + of_nat k * PAGE_SIZE)))
    \<and> (\<forall>w. i4 w \<noteq> 510 \<longrightarrow> path_of w \<noteq> path_of (phys_page_virt s) \<longrightarrow> (\<forall>k < n. path_of w \<noteq> path_of (v + of_nat k * PAGE_SIZE)) \<longrightarrow>
        hw_walk (frames s') C w = hw_walk (frames s) C w)"
  using assms
proof (induction n arbitrary: s F v p)
  case 0
  then show ?case by auto
next
  case (Suc n)
  let ?W = "path_of (phys_page_virt s)"
  have v: "i4 v \<noteq> 510" "path_of v \<noteq> ?W" using Suc.prems(3) [rule_format, of 0] by simp_all
  have F: "12288 \<le> card F" using Suc.prems(4) by simp
  obtain s1 F1 where 1: "arch_virtual_map s context v p fl = Inr s1" "supplied fl1 H1 s1 C F1" "F1 \<subseteq> F" "card F \<le> card F1 + 12288" "kernel_context s1 = kernel_context s"
      "phys_page_virt s1 = phys_page_virt s"
      "phys_dma_region (vm_phys s1) = phys_dma_region (vm_phys s)" "tables {510} (frames s1) 3 C \<subseteq> tables {510} (frames s) 3 C \<union> {f. 4096 * unat f \<in> F}"
      "\<forall>w. i4 w \<noteq> 510 \<longrightarrow> path_of w \<noteq> ?W \<longrightarrow> hw_walk (frames s1) C w = (if path_of w = path_of v then Some (frame_of p) else hw_walk (frames s) C w)"
    using supplied_map [OF Suc.prems(1,2) v F] by blast
  have sh: "v + PAGE_SIZE + of_nat k * PAGE_SIZE = v + of_nat (Suc k) * PAGE_SIZE" for k v by (simp add: algebra_simps)
  have pre: "\<forall>k < n. i4 (v + PAGE_SIZE + of_nat k * PAGE_SIZE) \<noteq> 510 \<and> path_of (v + PAGE_SIZE + of_nat k * PAGE_SIZE) \<noteq> path_of (phys_page_virt s1)"
      "12288 * n \<le> card F1" "n \<le> 2 ^ 36"
    using Suc.prems(3-5) 1(4) unfolding sh 1(6) by auto
  obtain s2 F2 where 2: "map_pages context fl n (v + PAGE_SIZE) (p + PAGE_SIZE) s1 = Inr s2" "supplied fl1 H1 s2 C F2" "F2 \<subseteq> F1" "card F1 \<le> card F2 + 12288 * n"
      "kernel_context s2 = kernel_context s1" "phys_page_virt s2 = phys_page_virt s1" "phys_dma_region (vm_phys s2) = phys_dma_region (vm_phys s1)"
      "tables {510} (frames s2) 3 C \<subseteq> tables {510} (frames s1) 3 C \<union> {f. 4096 * unat f \<in> F1}"
      "\<forall>k < n. hw_walk (frames s2) C (v + of_nat (Suc k) * PAGE_SIZE) = Some (frame_of (p + of_nat (Suc k) * PAGE_SIZE))"
      "\<forall>w. i4 w \<noteq> 510 \<longrightarrow> path_of w \<noteq> ?W \<longrightarrow> (\<forall>k < n. path_of w \<noteq> path_of (v + of_nat (Suc k) * PAGE_SIZE)) \<longrightarrow> hw_walk (frames s2) C w = hw_walk (frames s1) C w"
    using Suc.IH [OF 1(2) Suc.prems(2) pre, of "p + PAGE_SIZE"] unfolding sh 1(6) by blast
  have "path_of v \<noteq> path_of (v + of_nat (Suc k) * PAGE_SIZE)" if "k < n" for k
    using path_of_ahead [of "Suc k" v] that Suc.prems(5) by (metis Suc_le_lessD le_less_trans order.strict_trans2 zero_less_Suc less_Suc_eq_le not_less_eq)
  then have "hw_walk (frames s2) C v = Some (frame_of p)" using 2(10) 1(9) v by auto
  then have "hw_walk (frames s2) C (v + of_nat k * PAGE_SIZE) = Some (frame_of (p + of_nat k * PAGE_SIZE))" if "k < Suc n" for k
    using 2(9) that by (cases k) auto
  moreover have "hw_walk (frames s2) C w = hw_walk (frames s) C w"
    if "i4 w \<noteq> 510" "path_of w \<noteq> ?W" "\<forall>k < Suc n. path_of w \<noteq> path_of (v + of_nat k * PAGE_SIZE)" for w
  proof -
    have "path_of w \<noteq> path_of v" using that(3) [rule_format, of 0] by simp
    moreover have "\<forall>k < n. path_of w \<noteq> path_of (v + of_nat (Suc k) * PAGE_SIZE)" using that(3) by blast
    ultimately show ?thesis using 2(10) [rule_format, OF that(1,2)] 1(9) that(1,2) by simp
  qed
  moreover have "tables {510} (frames s2) 3 C \<subseteq> tables {510} (frames s) 3 C \<union> {f. 4096 * unat f \<in> F}" using 1(3,8) 2(8) by blast
  ultimately show ?case using 1(1,3-7) 2(1-7) by (intro exI [of _ s2] exI [of _ F2]) auto
qed

lemma virtual_map_supplied:
  assumes "supplied fl1 H1 s C F" and "C = frame_of (physical_base context)"
    and "\<forall>k < page_count sz. i4 (v + of_nat k * PAGE_SIZE) \<noteq> 510 \<and> path_of (v + of_nat k * PAGE_SIZE) \<noteq> path_of (phys_page_virt s)"
    and "12288 * page_count sz \<le> card F" and "unat sz \<le> 2 ^ 48"
  shows "\<exists>s' F'. virtual_map s (Some context) v p sz fl = Some (Inr s') \<and> supplied fl1 H1 s' C F' \<and> F' \<subseteq> F \<and> kernel_context s' = kernel_context s
    \<and> phys_page_virt s' = phys_page_virt s
    \<and> phys_dma_region (vm_phys s') = phys_dma_region (vm_phys s) \<and> tables {510} (frames s') 3 C \<subseteq> tables {510} (frames s) 3 C \<union> {f. 4096 * unat f \<in> F}
    \<and> (\<forall>k < page_count sz. hw_walk (frames s') C (v + of_nat k * PAGE_SIZE) = Some (frame_of (p + of_nat k * PAGE_SIZE)))
    \<and> (\<forall>w. i4 w \<noteq> 510 \<longrightarrow> path_of w \<noteq> path_of (phys_page_virt s) \<longrightarrow> (\<forall>k < page_count sz. path_of w \<noteq> path_of (v + of_nat k * PAGE_SIZE)) \<longrightarrow>
        hw_walk (frames s') C w = hw_walk (frames s) C w)"
proof -
  have n: "page_count sz \<le> 2 ^ 36" using assms(5) by (simp add: page_count_def)
  have "virtual_map s (Some context) v p sz fl = Some (map_pages context fl (page_count sz) v p s)"
    using virtual_map_loop_pages [of sz 0 0 "page_count sz" s "context" v p fl] assms(5) by (simp add: virtual_map_def page_count_def)
  then show ?thesis using map_pages_supplied [OF assms(1-4) n, of fl p] by auto
qed


text \<open>The example with a free block of four pages.\<close>

definition demo_normal_buddy :: buddy where
  "demo_normal_buddy = demo_buddy\<lparr>max_order := 14, orders := (replicate 64 demo_order)[14 := demo_order\<lparr>order_free := \<lparr>stack_size = 1, stack_top = 0x4000\<rparr>\<rparr>]\<rparr>"

abbreviation demo_normal_free :: "nat \<Rightarrow> addr_t list" where
  "demo_normal_free \<equiv> (\<lambda>_. [])(14 := [0x4000])"

lemma demo_normal_inv: "buddy_inv demo_mem demo_normal_buddy demo_normal_free {}"
  and demo_normal_set: "free_set 12 14 demo_normal_free = {(14, 0x4000)}"
proof -
  show fs: "free_set 12 14 demo_normal_free = {(14, 0x4000)}" by (auto simp: free_set_def split: if_splits)
  have le: "12 \<le> k \<and> k \<le> 14 \<longleftrightarrow> k = 12 \<or> k = 13 \<or> k = 14" for k :: nat by auto
  have "page_of 0x4000 = 0x4000" by (rule page_of_aligned [of 12]) simp_all
  then show "buddy_inv demo_mem demo_normal_buddy demo_normal_free {}"
    unfolding buddy_inv_def orders_inv_def block_ok_def
    by (simp add: demo_buddy_def demo_normal_buddy_def fs le) (auto simp: demo_order_def stack_repr_def demo_mem_def)
qed

definition demo_phys :: "physical_region \<Rightarrow> physical" where
  "demo_phys R = \<lparr>phys_dma_region = R, phys_normal_region = \<lparr>region_base = 0x4000, region_size = 0x1C000, region_buddy = Some demo_normal_buddy\<rparr>\<rparr>"

definition demo_vm3 :: "physical_region \<Rightarrow> vm" where
  "demo_vm3 R = demo_vm\<lparr>vm_kmem := demo_mem, vm_phys := demo_phys R\<rparr>"

lemma demo_supplied:
  assumes R: "zone R demo_mem fl1 H1 {..< unat (region_size R)}" and size: "region_size R = 0x4000"
  shows "supplied fl1 H1 (demo_vm3 R) 1 {0x4000 ..< 0x8000}"
proof -
  have "page_source fl1 H1 demo_mem (demo_phys R) {0x4000 ..< 0x8000}"
    unfolding page_source_def
  proof (intro conjI exI)
    show "physical_inv demo_mem (demo_phys R) fl1 H1 demo_normal_free {}"
      using R size demo_normal_inv demo_normal_set
      by (simp add: physical_inv_def demo_phys_def zone_def [of "\<lparr>region_base = _, region_size = _, region_buddy = _\<rparr>"] demo_normal_buddy_def demo_buddy_def covered_def extent_def) auto
    show "region_buddy (phys_normal_region (demo_phys R)) = Some demo_normal_buddy" "min_order demo_normal_buddy = 12"
      by (simp_all add: demo_phys_def demo_normal_buddy_def demo_buddy_def)
    show "{0x4000 ..< 0x8000} = free_area 12 (unat (max_order demo_normal_buddy)) demo_normal_free"
      using demo_normal_set by (simp add: free_area_def extent_def demo_normal_buddy_def)
    show "{0x4000 ..< 0x8000} \<subseteq> {..< (2 :: nat) ^ 52}" by auto
  qed
  moreover have "space (demo_vm3 R) 1" "current (demo_vm3 R) = 1" "frames (demo_vm3 R) = frames demo_vm"
    using demo_space demo_current by (simp_all add: space_def current_def demo_vm3_def)
  moreover have "window_ready (demo_vm3 R) 1 0x20 0x21 0x22"
    using demo_window by (simp add: window_ready_def window_shown_def current_def demo_vm3_def demo_vm_def demo_mem_def)
  then have "\<exists>A B T. window_ready (demo_vm3 R) 1 A B T \<and> (\<forall>f \<in> {A, B, T}. 4096 * unat f \<notin> {0x4000 ..< 0x8000})"
    by (intro exI conjI) auto
  ultimately show ?thesis using demo_tables by (simp add: supplied_def) (simp add: demo_vm3_def)
qed

definition demo_dma_region :: physical_region where
  "demo_dma_region = \<lparr>region_base = 0, region_size = 0x4000, region_buddy = Some demo_buddy\<rparr>"

lemma demo_dma_zone: "zone demo_dma_region demo_mem (\<lambda>_. []) {} {..< unat (region_size demo_dma_region)}"
  by (simp add: zone_def demo_dma_region_def buddy_inv_def orders_inv_def demo_buddy_def demo_order_def stack_repr_def free_set_def covered_def)


end
