(* ===== verification/KList.thy ===== *)
theory KList
  imports Prelude
begin

text \<open>
  \<open>include/lib/list.h\<close>: the intrusive circular doubly linked list. An element is known by its
  address; the heap gives the two links at each address, and an access through the null pointer is
  a fault. The locale \<open>sequence\<close> states the contract the clients (processes, threads, interrupt
  chips, clock sources, dentries) rely on: a list head stands for a sequence of addresses, and each
  operation has the effect of the list operation it is named after.
\<close>

section \<open>Definitions\<close>

record list_heap =
  lnext :: "addr_t \<Rightarrow> addr_t"
  lprev :: "addr_t \<Rightarrow> addr_t"

definition set_next :: "list_heap \<Rightarrow> addr_t \<Rightarrow> addr_t \<Rightarrow> list_heap res" where
  "set_next h p v = (if p = NULL then Inl NullDeref else Inr (h\<lparr>lnext := (lnext h)(p := v)\<rparr>))"

definition set_prev :: "list_heap \<Rightarrow> addr_t \<Rightarrow> addr_t \<Rightarrow> list_heap res" where
  "set_prev h p v = (if p = NULL then Inl NullDeref else Inr (h\<lparr>lprev := (lprev h)(p := v)\<rparr>))"

definition get_next :: "list_heap \<Rightarrow> addr_t \<Rightarrow> addr_t res" where
  "get_next h p = (if p = NULL then Inl NullDeref else Inr (lnext h p))"

definition get_prev :: "list_heap \<Rightarrow> addr_t \<Rightarrow> addr_t res" where
  "get_prev h p = (if p = NULL then Inl NullDeref else Inr (lprev h p))"

definition list_runtime_init :: "list_heap \<Rightarrow> addr_t \<Rightarrow> list_heap res" where
  "list_runtime_init h l = bind_res (set_next h l l) (\<lambda>h1. set_prev h1 l l)"

definition list_add :: "list_heap \<Rightarrow> addr_t \<Rightarrow> addr_t \<Rightarrow> list_heap res" where
  "list_add h l e =
     bind_res (get_next h l) (\<lambda>n.
     bind_res (set_next h e n) (\<lambda>h1.
     bind_res (set_prev h1 e l) (\<lambda>h2.
     bind_res (get_next h2 l) (\<lambda>n2.
     bind_res (set_prev h2 n2 e) (\<lambda>h3.
     set_next h3 l e)))))"

definition list_add_tail :: "list_heap \<Rightarrow> addr_t \<Rightarrow> addr_t \<Rightarrow> list_heap res" where
  "list_add_tail h l e =
     bind_res (set_next h e l) (\<lambda>h1.
     bind_res (get_prev h1 l) (\<lambda>p.
     bind_res (set_prev h1 e p) (\<lambda>h2.
     bind_res (get_prev h2 l) (\<lambda>p2.
     bind_res (set_next h2 p2 e) (\<lambda>h3.
     set_prev h3 l e)))))"

definition list_delete :: "list_heap \<Rightarrow> addr_t \<Rightarrow> list_heap res" where
  "list_delete h e =
     bind_res (get_next h e) (\<lambda>n.
     bind_res (get_prev h e) (\<lambda>p.
     bind_res (set_prev h n p) (\<lambda>h1.
     bind_res (get_prev h1 e) (\<lambda>p1.
     bind_res (get_next h1 e) (\<lambda>n1.
     bind_res (set_next h1 p1 n1) (\<lambda>h2.
     bind_res (set_next h2 e NULL) (\<lambda>h3.
     set_prev h3 e NULL)))))))"

definition list_empty :: "list_heap \<Rightarrow> addr_t \<Rightarrow> bool res" where
  "list_empty h l = bind_res (get_next h l) (\<lambda>n. Inr (n = l))"

definition list_first_entry :: "list_heap \<Rightarrow> addr_t \<Rightarrow> addr_t res" where
  "list_first_entry h l = get_next h l"

definition list_next_entry :: "list_heap \<Rightarrow> addr_t \<Rightarrow> addr_t res" where
  "list_next_entry h pos = get_next h pos"

text \<open>The elements a \<open>list_for_each\<close> visits when its body leaves the list alone; None when the walk
  never comes back to the head.\<close>

partial_function (option) for_each_from :: "list_heap \<Rightarrow> addr_t \<Rightarrow> addr_t \<Rightarrow> addr_t list res option" where
  "for_each_from h l pos =
     (if pos = l then Some (Inr [])
      else case get_next h pos of
             Inl e \<Rightarrow> Some (Inl e)
           | Inr n \<Rightarrow> Option.bind (for_each_from h l n) (\<lambda>r. Some (bind_res r (\<lambda>xs. Inr (pos # xs)))))"

definition list_for_each :: "list_heap \<Rightarrow> addr_t \<Rightarrow> addr_t list res option" where
  "list_for_each h l =
     (case get_next h l of Inl e \<Rightarrow> Some (Inl e) | Inr n \<Rightarrow> for_each_from h l n)"

section \<open>Representation\<close>

fun lseg :: "list_heap \<Rightarrow> addr_t \<Rightarrow> addr_t list \<Rightarrow> addr_t \<Rightarrow> bool" where
  "lseg h a [] b = (lnext h a = b \<and> lprev h b = a)"
| "lseg h a (x # xs) b = (lnext h a = x \<and> lprev h x = a \<and> lseg h x xs b)"

definition dll :: "list_heap \<Rightarrow> addr_t \<Rightarrow> addr_t list \<Rightarrow> bool" where
  "dll h l xs \<longleftrightarrow> distinct (l # xs) \<and> NULL \<notin> set (l # xs) \<and> lseg h l xs l"

lemma lseg_append: "lseg h a (xs @ x # ys) b \<longleftrightarrow> lseg h a xs x \<and> lseg h x ys b"
  by (induction xs arbitrary: a) auto

lemma lseg_frame:
  assumes "lseg h a xs b" and "\<And>p. p \<in> insert a (set xs) \<Longrightarrow> lnext h' p = lnext h p"
    and "\<And>p. p \<in> insert b (set xs) \<Longrightarrow> lprev h' p = lprev h p"
  shows "lseg h' a xs b"
  using assms by (induction xs arbitrary: a) auto

lemma lseg_last: "lseg h a xs b \<Longrightarrow> lprev h b = last (a # xs)"
  by (induction xs arbitrary: a) auto

lemma lseg_first: "lseg h a xs b \<Longrightarrow> lnext h a = hd (xs @ [b])"
  by (cases xs) auto

lemma lseg_nth: "lseg h a xs b \<Longrightarrow> i \<le> length xs \<Longrightarrow> lnext h ((a # xs) ! i) = (xs @ [b]) ! i"
proof (induction xs arbitrary: a i)
  case (Cons x xs)
  then show ?case by (cases i) auto
qed simp

lemma dll_next: "dll h l xs \<Longrightarrow> i < length xs \<Longrightarrow> lnext h (xs ! i) = (if Suc i < length xs then xs ! Suc i else l)"
  using lseg_nth [of h l xs l "Suc i"] by (auto simp: dll_def nth_append)

lemma dll_head: "dll h l xs \<Longrightarrow> xs \<noteq> [] \<Longrightarrow> lnext h l = hd xs"
  by (cases xs) (auto simp: dll_def)

lemmas list_ops = list_runtime_init_def list_add_def list_add_tail_def list_delete_def list_empty_def
  get_next_def get_prev_def set_next_def set_prev_def

section \<open>The contract\<close>

locale sequence =
  fixes init :: "'h \<Rightarrow> addr_t \<Rightarrow> 'h res"
    and add :: "'h \<Rightarrow> addr_t \<Rightarrow> addr_t \<Rightarrow> 'h res"
    and add_tail :: "'h \<Rightarrow> addr_t \<Rightarrow> addr_t \<Rightarrow> 'h res"
    and delete :: "'h \<Rightarrow> addr_t \<Rightarrow> 'h res"
    and is_empty :: "'h \<Rightarrow> addr_t \<Rightarrow> bool res"
    and visit :: "'h \<Rightarrow> addr_t \<Rightarrow> addr_t list res option"
    and repr :: "'h \<Rightarrow> addr_t \<Rightarrow> addr_t list \<Rightarrow> bool"
  assumes init_nil: "l \<noteq> NULL \<Longrightarrow> \<exists>h'. init h l = Inr h' \<and> repr h' l []"
    and add_cons: "repr h l xs \<Longrightarrow> e \<notin> insert NULL (insert l (set xs)) \<Longrightarrow>
        \<exists>h'. add h l e = Inr h' \<and> repr h' l (e # xs)"
    and add_tail_snoc: "repr h l xs \<Longrightarrow> e \<notin> insert NULL (insert l (set xs)) \<Longrightarrow>
        \<exists>h'. add_tail h l e = Inr h' \<and> repr h' l (xs @ [e])"
    and delete_remove1: "repr h l xs \<Longrightarrow> e \<in> set xs \<Longrightarrow>
        \<exists>h'. delete h e = Inr h' \<and> repr h' l (remove1 e xs)"
    and delete_again: "repr h l xs \<Longrightarrow> e \<in> set xs \<Longrightarrow> delete h e = Inr h' \<Longrightarrow> delete h' e = Inl NullDeref"
    and is_empty_nil: "repr h l xs \<Longrightarrow> is_empty h l = Inr (xs = [])"
    and visit_all: "repr h l xs \<Longrightarrow> visit h l = Some (Inr xs)"
    and repr_distinct: "repr h l xs \<Longrightarrow> distinct xs"
begin

lemma repr_unique: "repr h l xs \<Longrightarrow> repr h l ys \<Longrightarrow> xs = ys"
  using visit_all [of h l xs] visit_all [of h l ys] by simp

text \<open>Moving an element to the back, the rotation a run queue makes.\<close>

lemma rotate_element:
  assumes "repr h l (e # xs)" and "e \<noteq> NULL" and "e \<noteq> l"
  shows "\<exists>h1 h2. delete h e = Inr h1 \<and> add_tail h1 l e = Inr h2 \<and> visit h2 l = Some (Inr (xs @ [e]))"
proof -
  obtain h1 where h1: "delete h e = Inr h1" "repr h1 l xs"
    using delete_remove1 [OF assms(1), of e] by auto
  have "e \<notin> set xs" using repr_distinct [OF assms(1)] by simp
  then obtain h2 where "add_tail h1 l e = Inr h2" "repr h2 l (xs @ [e])"
    using add_tail_snoc [OF h1(2)] assms by auto
  with h1 show ?thesis using visit_all by blast
qed

text \<open>Insertion followed by deletion leaves the sequence as it was.\<close>

lemma add_delete:
  assumes "repr h l xs" and "e \<notin> insert NULL (insert l (set xs))"
  shows "\<exists>h1 h2. add h l e = Inr h1 \<and> delete h1 e = Inr h2 \<and> repr h2 l xs"
proof -
  obtain h1 where h1: "add h l e = Inr h1" "repr h1 l (e # xs)"
    using add_cons [OF assms] by blast
  then show ?thesis using delete_remove1 [OF h1(2), of e] by auto
qed

end

section \<open>The list of list.h satisfies the contract\<close>

lemma list_add_dll:
  assumes "dll h l xs" and "e \<notin> insert NULL (insert l (set xs))"
  shows "\<exists>h'. list_add h l e = Inr h' \<and> dll h' l (e # xs)"
proof (cases xs)
  case Nil
  then show ?thesis using assms by (auto simp: list_ops dll_def)
next
  case (Cons x ys)
  then show ?thesis using assms by (auto simp: list_ops dll_def elim!: lseg_frame)
qed

lemma list_add_tail_dll:
  assumes "dll h l xs" and "e \<notin> insert NULL (insert l (set xs))"
  shows "\<exists>h'. list_add_tail h l e = Inr h' \<and> dll h' l (xs @ [e])"
proof (cases xs rule: rev_cases)
  case Nil
  then show ?thesis using assms by (auto simp: list_ops dll_def)
next
  case (snoc ys y)
  then show ?thesis using assms by (auto simp: list_ops dll_def lseg_append elim!: lseg_frame)
qed

lemma list_delete_dll:
  assumes "dll h l xs" and "e \<in> set xs"
  shows "\<exists>h'. list_delete h e = Inr h' \<and> dll h' l (remove1 e xs) \<and> lnext h' e = NULL \<and> lprev h' e = NULL"
proof -
  obtain ys zs where xs: "xs = ys @ e # zs" and ny: "e \<notin> set ys"
    using assms(2) by (meson split_list_first)
  show ?thesis
  proof (cases ys rule: rev_cases)
    case Nil
    then show ?thesis using assms(1) ny by (cases zs) (auto simp: xs list_ops dll_def elim!: lseg_frame)
  next
    case (snoc us u)
    then show ?thesis using assms(1) ny by (cases zs) (auto simp: xs list_ops dll_def lseg_append remove1_append elim!: lseg_frame)
  qed
qed

lemma for_each_from_lseg:
  assumes "lseg h p xs l" and "distinct (p # xs)" and "l \<notin> set xs" and "NULL \<notin> set xs"
  shows "for_each_from h l (lnext h p) = Some (Inr xs)"
  using assms
proof (induction xs arbitrary: p)
  case Nil
  then show ?case by (simp add: for_each_from.simps)
next
  case (Cons x xs)
  then show ?case by (auto simp: for_each_from.simps [of h l x] get_next_def)
qed

interpretation klist: sequence list_runtime_init list_add list_add_tail list_delete list_empty list_for_each dll
proof (unfold_locales, goal_cases)
  case (1 l h)
  then show ?case by (auto simp: list_ops dll_def)
next
  case (2 h l xs e)
  then show ?case by (rule list_add_dll)
next
  case (3 h l xs e)
  then show ?case by (rule list_add_tail_dll)
next
  case (4 h l xs e)
  then show ?case using list_delete_dll by blast
next
  case (5 h l xs e h')
  then have "lnext h' e = NULL" "e \<noteq> NULL" using list_delete_dll [OF 5(1,2)] by (auto simp: dll_def)
  then show ?case by (simp add: list_ops)
next
  case (6 h l xs)
  then show ?case by (cases xs) (auto simp: list_ops dll_def)
next
  case (7 h l xs)
  then show ?case using for_each_from_lseg [of h l xs l] by (auto simp: list_for_each_def get_next_def dll_def)
next
  case (8 h l xs)
  then show ?case by (simp add: dll_def)
qed

section \<open>Properties\<close>

text \<open>Sequences of calls of the mutators on one list, and what they mean for the sequence the list stands for: None where a call is outside
  its contract (an element that is NULL, the head or already in the list is added, or one that is not in it is deleted).\<close>

datatype list_op = Add addr_t | Add_Tail addr_t | Delete addr_t

fun list_run :: "list_heap \<Rightarrow> addr_t \<Rightarrow> list_op list \<Rightarrow> list_heap res" where
  "list_run h l [] = Inr h"
| "list_run h l (Add e # ops) = bind_res (list_add h l e) (\<lambda>h. list_run h l ops)"
| "list_run h l (Add_Tail e # ops) = bind_res (list_add_tail h l e) (\<lambda>h. list_run h l ops)"
| "list_run h l (Delete e # ops) = bind_res (list_delete h e) (\<lambda>h. list_run h l ops)"

fun sequence_run :: "addr_t \<Rightarrow> addr_t list \<Rightarrow> list_op list \<Rightarrow> addr_t list option" where
  "sequence_run l xs [] = Some xs"
| "sequence_run l xs (Add e # ops) = (if e \<in> insert NULL (insert l (set xs)) then None else sequence_run l (e # xs) ops)"
| "sequence_run l xs (Add_Tail e # ops) = (if e \<in> insert NULL (insert l (set xs)) then None else sequence_run l (xs @ [e]) ops)"
| "sequence_run l xs (Delete e # ops) = (if e \<in> set xs then sequence_run l (remove1 e xs) ops else None)"

lemma list_run_dll:
  assumes "dll h l xs" and "sequence_run l xs ops = Some ys"
  shows "\<exists>h'. list_run h l ops = Inr h' \<and> dll h' l ys"
  using assms
proof (induction l xs ops arbitrary: h rule: sequence_run.induct)
  case (2 l xs e ops)
  then show ?case using klist.add_cons [of h l xs e] by (fastforce split: if_splits)
next
  case (3 l xs e ops)
  then show ?case using klist.add_tail_snoc [of h l xs e] by (fastforce split: if_splits)
next
  case (4 l xs e ops)
  then show ?case using klist.delete_remove1 [of h l xs e] by (fastforce split: if_splits)
qed auto

text \<open>C11: the intrusive list refines a sequence. From \<open>list_runtime_init\<close> on, whatever sequence of \<open>list_add\<close>, \<open>list_add_tail\<close> and
  \<open>list_delete\<close> is called inside the contract, no call faults, the list is well-formed and stands for the sequence that front
  insertion, back insertion and removal make of the empty one; \<open>list_for_each\<close> ends and visits exactly that sequence in order,
  and \<open>list_empty\<close> tells whether it is empty. The same holds from any well-formed list.\<close>

theorem list_refines_sequence:
  assumes "l \<noteq> NULL" and "sequence_run l [] ops = Some xs" and "dll g l ys" and "sequence_run l ys ops' = Some zs"
  shows "\<exists>h1 h2 g'. list_runtime_init h l = Inr h1 \<and> list_run h1 l ops = Inr h2 \<and> dll h2 l xs
     \<and> list_for_each h2 l = Some (Inr xs) \<and> list_empty h2 l = Inr (xs = [])
     \<and> list_run g l ops' = Inr g' \<and> dll g' l zs \<and> list_for_each g' l = Some (Inr zs) \<and> list_empty g' l = Inr (zs = [])"
proof -
  obtain h1 where "list_runtime_init h l = Inr h1" "dll h1 l []" using klist.init_nil [OF assms(1)] by blast
  moreover from this(2) obtain h2 where "list_run h1 l ops = Inr h2" "dll h2 l xs" using list_run_dll assms(2) by blast
  moreover obtain g' where "list_run g l ops' = Inr g'" "dll g' l zs" using list_run_dll assms(3,4) by blast
  ultimately show ?thesis using klist.visit_all klist.is_empty_nil by blast
qed

theorem list_refines_sequence_witness:
  "\<exists>h1 h2 g'. list_runtime_init \<lparr>lnext = (\<lambda>_. 0), lprev = (\<lambda>_. 0)\<rparr> 8 = Inr h1
    \<and> list_run h1 8 [Add_Tail 16, Add 32, Add_Tail 64, Delete 16] = Inr h2 \<and> list_for_each h2 8 = Some (Inr [32, 64])
    \<and> list_run \<lparr>lnext = (\<lambda>_. 0)(8 := 16, 16 := 8), lprev = (\<lambda>_. 0)(8 := 16, 16 := 8)\<rparr> 8 [Delete 16] = Inr g' \<and> list_empty g' 8 = Inr True"
proof -
  let ?g = "\<lparr>lnext = (\<lambda>_. 0)(8 := 16, 16 := 8), lprev = (\<lambda>_. 0)(8 := 16, 16 := 8)\<rparr>"
  have d: "dll ?g 8 [16]" by (simp add: dll_def)
  have "sequence_run 8 [] [Add_Tail 16, Add 32, Add_Tail 64, Delete 16] = Some [32, 64]" "sequence_run 8 [16] [Delete 16] = Some []" by simp_all
  from list_refines_sequence [OF _ this(1) d this(2), of "\<lparr>lnext = (\<lambda>_. 0), lprev = (\<lambda>_. 0)\<rparr>"] show ?thesis by auto
qed

text \<open>Deleting an element twice dereferences the null pointer the first deletion left in its links.\<close>

theorem list_delete_twice_faults:
  assumes "dll h l xs" and "e \<in> set xs" and "list_delete h e = Inr h'"
  shows "list_delete h' e = Inl NullDeref"
  using assms by (rule klist.delete_again)

theorem list_delete_twice_faults_witness:
  "\<exists>h h'. dll h 8 [16] \<and> list_delete h 16 = Inr h' \<and> list_delete h' 16 = Inl NullDeref"
proof -
  define h where "h = \<lparr>lnext = (\<lambda>_. 0)(8 := 16, 16 := 8), lprev = (\<lambda>_. 0)(8 := 16, 16 := 8)\<rparr>"
  have d: "dll h 8 [16]" by (simp add: dll_def h_def)
  then obtain h' where "list_delete h 16 = Inr h'" using list_delete_dll [OF d, of 16] by auto
  then show ?thesis using list_delete_twice_faults [OF d, of 16] d by auto
qed

end
