(* ===== verification/Sched.thy ===== *)
theory Sched
  imports KList Hashmap
begin

text \<open>
  \<open>tm/sched.c\<close>, \<open>tm/thread.c\<close>, \<open>tm/process.c\<close> and \<open>arch/x86_64/tm/thread.c\<close>: processes, threads, the run
  queue and the context switch. Threads and processes are known by their addresses; their
  \<open>list_element\<close> members live in the link heap of \<open>KList\<close> at the member's offset, so \<open>containerof\<close> is
  a subtraction. What \<open>kzalloc\<close> and \<open>kmalloc\<close> return is an argument of the operation that calls them
  (NULL when they fail).
\<close>

section \<open>Data\<close>

record registers =
  r15 :: u64
  r14 :: u64
  r13 :: u64
  r12 :: u64
  r11 :: u64
  r10 :: u64
  r9 :: u64
  r8 :: u64
  rsi :: u64
  rdi :: u64
  rbp :: u64
  rdx :: u64
  rcx :: u64
  rbx :: u64
  rax :: u64
  rip :: u64
  rsp :: u64

record interrupt_ctx =
  ctx_r15 :: u64
  ctx_r14 :: u64
  ctx_r13 :: u64
  ctx_r12 :: u64
  ctx_r11 :: u64
  ctx_r10 :: u64
  ctx_r9 :: u64
  ctx_r8 :: u64
  ctx_rsi :: u64
  ctx_rdi :: u64
  ctx_rbp :: u64
  ctx_rdx :: u64
  ctx_rcx :: u64
  ctx_rbx :: u64
  ctx_rax :: u64
  int_no :: u64
  err_code :: u64
  ctx_rip :: u64
  ctx_cs :: u64
  ctx_rflags :: u64
  ctx_rsp :: u64
  ctx_ss :: u64

record thread =
  tid :: tid_t
  thread_process :: addr_t
  thread_registers :: registers
  kernel_stack :: addr_t

record process =
  pid :: pid_t
  process_status :: u32
  process_flags :: u32
  physical_base :: addr_t

text \<open>The state of the task manager: \<open>rq\<close> with its list head at the address \<open>rq_runnable\<close>, the links of all
  lists, the structures, the words written to kernel stacks, and the two registers of the CPU that
  a switch writes.\<close>

record tm =
  links :: list_heap
  rq_current :: addr_t
  rq_idle :: addr_t
  rq_runnable :: addr_t
  num_threads :: size_t
  current_thread :: addr_t
  next_tid :: tid_t
  kernel_process :: addr_t
  process_hashmap :: hashmap
  thread_at :: "addr_t \<Rightarrow> thread"
  process_at :: "addr_t \<Rightarrow> process"
  stack_words :: "addr_t \<Rightarrow> u64"
  cr3 :: addr_t
  tss_rsp0 :: addr_t

text \<open>Offsets of the members: \<open>tid\<close> 0, \<open>process\<close> 8, \<open>registers\<close> 16, \<open>kernel_stack\<close> 152,
  \<open>runqueue_list\<close> 160, \<open>process_list\<close> 176; \<open>threads\<close> of a process.\<close>

definition runqueue_list :: "addr_t \<Rightarrow> addr_t" where "runqueue_list t = t + 160"
definition process_list :: "addr_t \<Rightarrow> addr_t" where "process_list t = t + 176"
definition process_threads :: "addr_t \<Rightarrow> addr_t" where "process_threads p = p + 80"

definition zero_registers :: registers where
  "zero_registers = \<lparr>r15 = 0, r14 = 0, r13 = 0, r12 = 0, r11 = 0, r10 = 0, r9 = 0, r8 = 0, rsi = 0, rdi = 0,
     rbp = 0, rdx = 0, rcx = 0, rbx = 0, rax = 0, rip = 0, rsp = 0\<rparr>"

definition zero_links :: "list_heap \<Rightarrow> addr_t \<Rightarrow> list_heap" where
  "zero_links h e = h\<lparr>lnext := (lnext h)(e := 0), lprev := (lprev h)(e := 0)\<rparr>"

section \<open>Run queue\<close>

definition runqueue_insert :: "tm \<Rightarrow> addr_t \<Rightarrow> tm res" where
  "runqueue_insert s t =
     (if t = NULL then Inl NullDeref
      else bind_res (list_add (links s) (rq_runnable s) (runqueue_list t))
        (\<lambda>h. Inr (s\<lparr>links := h, num_threads := num_threads s + 1\<rparr>)))"

definition runqueue_remove :: "tm \<Rightarrow> addr_t \<Rightarrow> tm res" where
  "runqueue_remove s t =
     (let s1 = (if t = rq_current s then s\<lparr>rq_current := NULL\<rparr> else s)
      in if t = NULL then Inl NullDeref
         else bind_res (list_delete (links s1) (runqueue_list t))
           (\<lambda>h. Inr (s1\<lparr>links := h, num_threads := num_threads s1 - 1\<rparr>)))"

text \<open>\<open>list_next_entry(pos, runqueue_list)\<close>\<close>

definition next_thread :: "tm \<Rightarrow> addr_t \<Rightarrow> addr_t res" where
  "next_thread s t = bind_res (list_next_entry (links s) (runqueue_list t)) (\<lambda>e. Inr (e - 160))"

definition runqueue_next :: "tm \<Rightarrow> (addr_t \<times> tm) res" where
  "runqueue_next s =
     bind_res (list_empty (links s) (rq_runnable s)) (\<lambda>none.
       if none then Inr (rq_idle s, s\<lparr>rq_current := rq_idle s\<rparr>)
       else if rq_current s \<noteq> NULL
         then bind_res (next_thread s (rq_current s)) (\<lambda>t.
                if runqueue_list t = rq_runnable s
                then bind_res (next_thread s t) (\<lambda>t2. Inr (t2, s\<lparr>rq_current := t2\<rparr>))
                else Inr (t, s\<lparr>rq_current := t\<rparr>))
         else bind_res (list_first_entry (links s) (rq_runnable s)) (\<lambda>e.
                Inr (e - 160, s\<lparr>rq_current := e - 160\<rparr>)))"

definition sched_add :: "tm \<Rightarrow> addr_t \<Rightarrow> tm res" where
  "sched_add s t = runqueue_insert s t"

definition sched_remove :: "tm \<Rightarrow> addr_t \<Rightarrow> tm res" where
  "sched_remove s t =
     runqueue_remove (if t = current_thread s then s\<lparr>current_thread := NULL\<rparr> else s) t"

section \<open>Processes\<close>

definition process_allocate :: "tm \<Rightarrow> addr_t \<Rightarrow> (addr_t \<times> tm) res" where
  "process_allocate s p =
     (if p = NULL then Inr (NULL, s)
      else let s1 = s\<lparr>process_at := (process_at s)(p := \<lparr>pid = 0, process_status = 0, process_flags = 0, physical_base = 0\<rparr>)\<rparr>
           in bind_res (list_runtime_init (links s1) (process_threads p)) (\<lambda>h. Inr (p, s1\<lparr>links := h\<rparr>)))"

text \<open>The key of a process is the four bytes of its pid.\<close>

definition pid_bytes :: "pid_t \<Rightarrow> u8 list" where
  "pid_bytes p = [ucast p, ucast (drop_bit 8 p), ucast (drop_bit 16 p), ucast (drop_bit 24 p)]"

definition process_add :: "(size_t \<Rightarrow> bool) \<Rightarrow> tm \<Rightarrow> addr_t \<Rightarrow> tm res" where
  "process_add kzalloc_ok s p =
     (if p = NULL then Inl NullDeref
      else bind_res (hashmap_set kzalloc_ok (process_hashmap s) (pid_bytes (pid (process_at s p))) p)
        (\<lambda>(index, hm). Inr (s\<lparr>process_hashmap := hm\<rparr>)))"

definition process_add_thread :: "tm \<Rightarrow> addr_t \<Rightarrow> addr_t \<Rightarrow> tm res" where
  "process_add_thread s p t =
     (if t = NULL then Inl NullDeref
      else let s1 = s\<lparr>thread_at := (thread_at s)(t := (thread_at s t)\<lparr>thread_process := p\<rparr>)\<rparr>
           in if p = NULL then Inl NullDeref
              else bind_res (list_add (links s1) (process_threads p) (process_list t)) (\<lambda>h. Inr (s1\<lparr>links := h\<rparr>)))"

definition process_remove_thread :: "tm \<Rightarrow> addr_t \<Rightarrow> tm res" where
  "process_remove_thread s t =
     (if t = NULL then Inl NullDeref
      else let s1 = s\<lparr>thread_at := (thread_at s)(t := (thread_at s t)\<lparr>thread_process := NULL\<rparr>)\<rparr>
           in bind_res (list_delete (links s1) (process_list t)) (\<lambda>h. Inr (s1\<lparr>links := h\<rparr>)))"

text \<open>\<open>kp\<close> is the memory for the kernel process, \<open>base\<close> the page table of the kernel context.\<close>

definition process_init :: "(size_t \<Rightarrow> bool) \<Rightarrow> addr_t \<Rightarrow> addr_t \<Rightarrow> tm \<Rightarrow> tm res" where
  "process_init kzalloc_ok kp base s =
     bind_res (hashmap_create kzalloc_ok 1000) (\<lambda>hm.
     bind_res (process_allocate (s\<lparr>process_hashmap := hm\<rparr>) kp) (\<lambda>(p, s1).
       if p = NULL then Inl NullDeref
       else let s2 = s1\<lparr>kernel_process := p, process_at := (process_at s1)(p := (process_at s1 p)\<lparr>physical_base := base\<rparr>)\<rparr>
            in process_add kzalloc_ok s2 p))"

section \<open>Threads and the context switch\<close>

definition thread_get_available_tid :: "tm \<Rightarrow> tid_t \<times> tm" where
  "thread_get_available_tid s = (next_tid s, s\<lparr>next_tid := next_tid s + 1\<rparr>)"

definition thread_allocate :: "tm \<Rightarrow> addr_t \<Rightarrow> addr_t \<times> tm" where
  "thread_allocate s t =
     (if t = NULL then (NULL, s)
      else let (i, s1) = thread_get_available_tid s
           in (t, s1\<lparr>thread_at := (thread_at s1)(t := \<lparr>tid = i, thread_process = 0, thread_registers = zero_registers, kernel_stack = 0\<rparr>),
                     links := zero_links (zero_links (links s1) (runqueue_list t)) (process_list t)\<rparr>))"

definition arch_save_context :: "interrupt_ctx \<Rightarrow> registers \<Rightarrow> registers" where
  "arch_save_context c r = r\<lparr>rax := ctx_rax c, rbx := ctx_rbx c, rcx := ctx_rcx c, rdx := ctx_rdx c,
     rdi := ctx_rdi c, rsi := ctx_rsi c, rsp := ctx_rsp c, rbp := ctx_rbp c, r8 := ctx_r8 c, r9 := ctx_r9 c,
     r10 := ctx_r10 c, r11 := ctx_r11 c, r12 := ctx_r12 c, r13 := ctx_r13 c, rip := ctx_rip c\<rparr>"

definition arch_load_context :: "interrupt_ctx \<Rightarrow> registers \<Rightarrow> interrupt_ctx" where
  "arch_load_context c r = c\<lparr>ctx_rax := rax r, ctx_rbx := rbx r, ctx_rcx := rcx r, ctx_rdx := rdx r,
     ctx_rdi := rdi r, ctx_rsi := rsi r, ctx_rsp := rsp r, ctx_rbp := rbp r, ctx_r8 := r8 r, ctx_r9 := r9 r,
     ctx_r10 := r10 r, ctx_r11 := r11 r, ctx_r12 := r12 r, ctx_r13 := r13 r, ctx_rip := rip r\<rparr>"

definition arch_thread_switch :: "tm \<Rightarrow> interrupt_ctx \<Rightarrow> addr_t \<Rightarrow> addr_t \<Rightarrow> (interrupt_ctx \<times> tm) res" where
  "arch_thread_switch s c cur nxt =
     (let s1 = (if cur \<noteq> NULL
                then s\<lparr>thread_at := (thread_at s)(cur := (thread_at s cur)\<lparr>thread_registers :=
                        arch_save_context c (thread_registers (thread_at s cur))\<rparr>)\<rparr>
                else s)
      in if nxt = NULL \<or> thread_process (thread_at s1 nxt) = NULL then Inl NullDeref
         else let pml4 = physical_base (process_at s1 (thread_process (thread_at s1 nxt)))
              in if pml4 = 0 then Inr (c, s1)
                 else Inr (arch_load_context c (thread_registers (thread_at s1 nxt)), s1\<lparr>cr3 := pml4\<rparr>))"

definition arch_thread_set_stack :: "tm \<Rightarrow> addr_t \<Rightarrow> tm" where
  "arch_thread_set_stack s stk = s\<lparr>tss_rsp0 := stk\<rparr>"

definition thread_set_stack :: "tm \<Rightarrow> addr_t \<Rightarrow> tm" where
  "thread_set_stack s stk = arch_thread_set_stack s stk"

definition thread_switch :: "tm \<Rightarrow> interrupt_ctx \<Rightarrow> addr_t \<Rightarrow> addr_t \<Rightarrow> (interrupt_ctx \<times> tm) res" where
  "thread_switch s c cur nxt =
     (let s1 = s\<lparr>current_thread := nxt\<rparr>
      in if nxt = NULL then Inl NullDeref
         else arch_thread_switch (thread_set_stack s1 (kernel_stack (thread_at s1 nxt))) c cur nxt)"

definition sched_tick :: "tm \<Rightarrow> interrupt_ctx \<Rightarrow> (interrupt_ctx \<times> tm) res" where
  "sched_tick s c =
     bind_res (runqueue_next s) (\<lambda>(nxt, s1). thread_switch s1 c (current_thread s1) nxt)"

text \<open>\<open>kthread_exit\<close> up to its final idle loop.\<close>

definition kthread_exit :: "tm \<Rightarrow> tm res" where
  "kthread_exit s =
     (let kthread = current_thread s
      in bind_res (sched_remove s kthread) (\<lambda>s1. process_remove_thread s1 kthread))"

text \<open>\<open>(addr_t*)stack + stack_size\<close> scales by the size of a word. \<open>exit_fn\<close> is the address of
  \<open>kthread_exit\<close>.\<close>

definition arch_kthread_setup_registers :: "addr_t \<Rightarrow> tm \<Rightarrow> addr_t \<Rightarrow> addr_t \<Rightarrow> addr_t \<Rightarrow> size_t \<Rightarrow> tm res" where
  "arch_kthread_setup_registers exit_fn s kthread fn stk stk_size =
     (if kthread = NULL then Inl NullDeref
      else let stack_array = stk + 8 * stk_size;
               regs = (thread_registers (thread_at s kthread))\<lparr>rip := fn, rsp := stack_array - 8\<rparr>
           in Inr (s\<lparr>stack_words := (stack_words s)(stack_array - 8 := exit_fn),
                     thread_at := (thread_at s)(kthread := (thread_at s kthread)\<lparr>thread_registers := regs, kernel_stack := stk + stk_size\<rparr>)\<rparr>))"

definition kthread_create :: "addr_t \<Rightarrow> tm \<Rightarrow> addr_t \<Rightarrow> addr_t \<Rightarrow> addr_t \<Rightarrow> (addr_t \<times> tm) res" where
  "kthread_create exit_fn s t stk fn =
     (let (kthread, s1) = thread_allocate s t
      in bind_res (process_add_thread s1 (kernel_process s1) kthread) (\<lambda>s2.
         bind_res (arch_kthread_setup_registers exit_fn s2 kthread fn stk 0x1000) (\<lambda>s3. Inr (kthread, s3))))"

definition sched_init ::
  "(size_t \<Rightarrow> bool) \<Rightarrow> addr_t \<Rightarrow> addr_t \<Rightarrow> addr_t \<Rightarrow> addr_t \<Rightarrow> addr_t \<Rightarrow> addr_t \<Rightarrow> addr_t \<Rightarrow> tm \<Rightarrow> tm res" where
  "sched_init kzalloc_ok kp base kinit kidlet stk exit_fn kidle s =
     bind_res (process_init kzalloc_ok kp base s) (\<lambda>s1.
     let s2 = s1\<lparr>rq_current := 0, rq_idle := 0, num_threads := 0, links := zero_links (links s1) (rq_runnable s1)\<rparr> in
     bind_res (list_runtime_init (links s2) (rq_runnable s2)) (\<lambda>h.
     let (t, s3) = thread_allocate (s2\<lparr>links := h\<rparr>) kinit in
     bind_res (process_add_thread s3 (kernel_process s3) t) (\<lambda>s4.
     bind_res (sched_add s4 t) (\<lambda>s5.
     bind_res (kthread_create exit_fn (s5\<lparr>current_thread := t\<rparr>) kidlet stk kidle) (\<lambda>(k, s6).
       Inr (s6\<lparr>rq_idle := k\<rparr>))))))"

section \<open>The run queue as a sequence of threads\<close>

definition rq_inv :: "tm \<Rightarrow> addr_t list \<Rightarrow> bool" where
  "rq_inv s xs \<longleftrightarrow> dll (links s) (rq_runnable s) (map runqueue_list xs) \<and> NULL \<notin> set xs
     \<and> num_threads s = of_nat (length xs)"

lemma runqueue_list_eq_iff [simp]: "runqueue_list a = runqueue_list b \<longleftrightarrow> a = b"
  by (simp add: runqueue_list_def)

lemma runqueue_list_minus [simp]: "runqueue_list t - 160 = t"
  by (simp add: runqueue_list_def)

lemma rq_invD:
  assumes "rq_inv s xs"
  shows "dll (links s) (rq_runnable s) (map runqueue_list xs)" and "NULL \<notin> set xs"
    and "rq_runnable s \<noteq> NULL" and "NULL \<notin> runqueue_list ` set xs" and "rq_runnable s \<notin> runqueue_list ` set xs"
    and "distinct xs"
  using assms by (auto simp: rq_inv_def dll_def distinct_map)

lemma rq_inv_current [simp]: "rq_inv (s\<lparr>rq_current := t\<rparr>) xs = rq_inv s xs"
  by (simp add: rq_inv_def)

lemma runqueue_insert_inv:
  assumes "rq_inv s xs" and "t \<notin> insert NULL (set xs)" and "runqueue_list t \<noteq> NULL" and "runqueue_list t \<noteq> rq_runnable s"
  shows "\<exists>s'. runqueue_insert s t = Inr s' \<and> rq_inv s' (t # xs) \<and> rq_current s' = rq_current s"
proof -
  have "runqueue_list t \<notin> insert NULL (insert (rq_runnable s) (set (map runqueue_list xs)))"
    using assms by (auto simp: image_iff)
  then obtain h where "list_add (links s) (rq_runnable s) (runqueue_list t) = Inr h"
      "dll h (rq_runnable s) (runqueue_list t # map runqueue_list xs)"
    using klist.add_cons [OF rq_invD(1) [OF assms(1)]] by blast
  then show ?thesis using assms by (auto simp: runqueue_insert_def rq_inv_def)
qed

lemma runqueue_remove_inv:
  assumes "rq_inv s xs" and "t \<in> set xs"
  shows "\<exists>s'. runqueue_remove s t = Inr s' \<and> rq_inv s' (remove1 t xs)
    \<and> rq_current s' = (if t = rq_current s then NULL else rq_current s)"
proof -
  obtain h where "list_delete (links s) (runqueue_list t) = Inr h"
      "dll h (rq_runnable s) (remove1 (runqueue_list t) (map runqueue_list xs))"
    using klist.delete_remove1 [OF rq_invD(1) [OF assms(1)], of "runqueue_list t"] assms(2) by auto
  moreover have "remove1 (runqueue_list t) (map runqueue_list ys) = map runqueue_list (remove1 t ys)" for ys
    by (induction ys) auto
  moreover have "num_threads s - 1 = of_nat (length (remove1 t xs))"
  proof -
    have "num_threads s = of_nat (length xs)" "0 < length xs" using assms by (auto simp: rq_inv_def)
    moreover from this obtain n where "length xs = Suc n" by (cases "length xs") auto
    ultimately show ?thesis using assms(2) by (simp add: length_remove1)
  qed
  ultimately show ?thesis using assms
    by (auto simp: runqueue_remove_def rq_inv_def dest: notin_set_remove1)
qed

lemma next_thread_nth:
  assumes "rq_inv s xs" and "i < length xs"
  shows "next_thread s (xs ! i) = Inr (if Suc i < length xs then xs ! Suc i else rq_runnable s - 160)"
proof -
  have "runqueue_list (xs ! i) \<noteq> NULL" using rq_invD(4) [OF assms(1)] assms(2) by auto
  then show ?thesis
    using dll_next [OF rq_invD(1) [OF assms(1)], of i] assms(2)
    by (simp add: next_thread_def list_next_entry_def get_next_def)
qed

lemma runqueue_next_round:
  assumes inv: "rq_inv s xs" and i: "i < length xs" and cur: "rq_current s = xs ! i"
  shows "runqueue_next s = Inr (xs ! (Suc i mod length xs), s\<lparr>rq_current := xs ! (Suc i mod length xs)\<rparr>)"
proof -
  note D = rq_invD [OF inv]
  have ne: "list_empty (links s) (rq_runnable s) = Inr False" using klist.is_empty_nil [OF D(1)] i by auto
  have nn: "xs ! i \<noteq> NULL" using D(2) i by (metis nth_mem)
  show ?thesis
  proof (cases "Suc i < length xs")
    case True
    then have "runqueue_list (xs ! Suc i) \<noteq> rq_runnable s" using D(5) by (metis image_eqI nth_mem)
    then show ?thesis using True ne nn cur next_thread_nth [OF inv i] by (simp add: runqueue_next_def)
  next
    case False
    then have last: "Suc i = length xs" using i by simp
    have "next_thread s (rq_runnable s - 160) = Inr (xs ! 0)"
      using D(3) dll_head [OF D(1)] i less_imp_neq [OF le_less_trans [OF le0 i]]
      by (auto simp: next_thread_def list_next_entry_def get_next_def runqueue_list_def hd_map hd_conv_nth)
    then show ?thesis
      using ne nn cur next_thread_nth [OF inv i] last
      by (simp add: runqueue_next_def runqueue_list_def)
  qed
qed

lemma runqueue_next_first:
  assumes "rq_inv s (x # xs)" and "rq_current s = NULL"
  shows "runqueue_next s = Inr (x, s\<lparr>rq_current := x\<rparr>)"
proof -
  note D = rq_invD [OF assms(1)]
  have "list_empty (links s) (rq_runnable s) = Inr False" using klist.is_empty_nil [OF D(1)] by simp
  then show ?thesis using assms(2) dll_head [OF D(1)] D(3)
    by (simp add: runqueue_next_def list_first_entry_def get_next_def)
qed

text \<open>The choices of \<open>k\<close> successive ticks.\<close>

fun runqueue_nexts :: "nat \<Rightarrow> tm \<Rightarrow> (addr_t list \<times> tm) res" where
  "runqueue_nexts 0 s = Inr ([], s)"
| "runqueue_nexts (Suc k) s =
     bind_res (runqueue_next s) (\<lambda>(t, s1). bind_res (runqueue_nexts k s1) (\<lambda>(ts, s2). Inr (t # ts, s2)))"

lemma runqueue_nexts_eq:
  assumes "rq_inv s xs" and "i < length xs" and "rq_current s = xs ! i"
  shows "runqueue_nexts k s = Inr (map (\<lambda>j. xs ! ((Suc i + j) mod length xs)) [0 ..< k],
      s\<lparr>rq_current := xs ! ((i + k) mod length xs)\<rparr>)"
  using assms
proof (induction k arbitrary: s i)
  case 0
  then show ?case by simp
next
  case (Suc k)
  let ?i = "Suc i mod length xs" and ?s = "s\<lparr>rq_current := xs ! (Suc i mod length xs)\<rparr>"
  have "runqueue_nexts k ?s = Inr (map (\<lambda>j. xs ! ((Suc ?i + j) mod length xs)) [0 ..< k],
      ?s\<lparr>rq_current := xs ! ((?i + k) mod length xs)\<rparr>)"
    using Suc.prems by (intro Suc.IH) (auto intro: mod_less_divisor)
  moreover have "(Suc ?i + j) mod length xs = (Suc i + Suc j) mod length xs" "(?i + k) mod length xs = (i + Suc k) mod length xs" for j
    by (metis add_Suc_shift mod_add_left_eq, metis add_Suc_shift mod_add_left_eq)
  moreover have "[0 ..< Suc k] = 0 # map Suc [0 ..< k]" by (simp add: map_Suc_upt upt_conv_Cons)
  ultimately show ?case
    using runqueue_next_round [OF Suc.prems] by (simp add: comp_def del: upt_Suc)
qed

section \<open>Properties\<close>

text \<open>C9: scheduling is round robin: from a current thread in the queue, as many ticks as there are runnable
  threads choose every thread exactly once, in queue order starting behind the current one, and end
  at the current one; no tick faults.\<close>

theorem runqueue_round_robin:
  assumes "rq_inv s xs" and "i < length xs" and "rq_current s = xs ! i"
  shows "runqueue_nexts (length xs) s = Inr (rotate (Suc i) xs, s) \<and> set (rotate (Suc i) xs) = set xs"
proof -
  have "map (\<lambda>j. xs ! ((Suc i + j) mod length xs)) [0 ..< length xs] = rotate (Suc i) xs"
    by (rule nth_equalityI) (auto simp: nth_rotate simp del: rotate_Suc)
  moreover have "s\<lparr>rq_current := xs ! ((i + length xs) mod length xs)\<rparr> = s" using assms by simp
  ultimately show ?thesis using runqueue_nexts_eq [OF assms, of "length xs"] by (simp del: rotate_Suc)
qed

definition demo_links :: list_heap where
  "demo_links = \<lparr>lnext = (\<lambda>_. 0)(8 := 0x10A0, 0x10A0 := 0x20A0, 0x20A0 := 8),
     lprev = (\<lambda>_. 0)(8 := 0x20A0, 0x10A0 := 8, 0x20A0 := 0x10A0)\<rparr>"

definition demo_tm :: tm where
  "demo_tm = \<lparr>links = demo_links, rq_current = 0x1000, rq_idle = 0x3000, rq_runnable = 8, num_threads = 2,
     current_thread = 0x1000, next_tid = 3, kernel_process = 0x4000,
     process_hashmap = \<lparr>hashmap_size = 1, hashmap_buckets = [[]]\<rparr>,
     thread_at = (\<lambda>t. \<lparr>tid = 0, thread_process = 0x4000, thread_registers = zero_registers\<lparr>rip := t\<rparr>, kernel_stack = 0\<rparr>),
     process_at = (\<lambda>_. \<lparr>pid = 0, process_status = 0, process_flags = 0, physical_base = 0x9000\<rparr>),
     stack_words = (\<lambda>_. 0), cr3 = 0, tss_rsp0 = 0\<rparr>"

lemma demo_tm_inv: "rq_inv demo_tm [0x1000, 0x2000]"
  by (simp add: rq_inv_def demo_tm_def demo_links_def dll_def runqueue_list_def)

lemma demo_tm_current: "rq_current demo_tm = 0x1000"
  by (simp add: demo_tm_def)

theorem runqueue_round_robin_witness:
  "rq_inv demo_tm [0x1000, 0x2000] \<and> runqueue_nexts 2 demo_tm = Inr ([0x2000, 0x1000], demo_tm)"
proof -
  have "runqueue_nexts 2 demo_tm = Inr ([0x2000, 0x1000], demo_tm)"
    using runqueue_round_robin [OF demo_tm_inv, of 0] demo_tm_current by (simp add: numeral_2_eq_2)
  then show ?thesis using demo_tm_inv by blast
qed

text \<open>Adding and removing a thread keeps the queue well-formed and its count exact, and a removed thread is
  never left as the current one, so the next tick starts again at the front of the queue.\<close>

theorem runqueue_insert_remove:
  assumes "rq_inv s xs" and "t \<notin> insert NULL (set xs)" and "runqueue_list t \<noteq> NULL" and "runqueue_list t \<noteq> rq_runnable s"
  shows "\<exists>s1 s2. sched_add s t = Inr s1 \<and> rq_inv s1 (t # xs) \<and> num_threads s1 = num_threads s + 1
    \<and> runqueue_remove (s1\<lparr>rq_current := t\<rparr>) t = Inr s2 \<and> rq_inv s2 xs
    \<and> (\<forall>y ys. xs = y # ys \<longrightarrow> (\<exists>s3. runqueue_next s2 = Inr (y, s3)))"
proof -
  obtain s1 where s1: "runqueue_insert s t = Inr s1" "rq_inv s1 (t # xs)"
    using runqueue_insert_inv [OF assms] by blast
  then have n: "num_threads s1 = num_threads s + 1" using assms(1) by (simp add: rq_inv_def)
  obtain s2 where s2: "runqueue_remove (s1\<lparr>rq_current := t\<rparr>) t = Inr s2" "rq_inv s2 xs" "rq_current s2 = NULL"
    using runqueue_remove_inv [of "s1\<lparr>rq_current := t\<rparr>" "t # xs" t] s1(2) by auto
  have "\<exists>s3. runqueue_next s2 = Inr (y, s3)" if "xs = y # ys" for y ys
    using runqueue_next_first s2 that by blast
  then show ?thesis using s1 s2 n by (auto simp: sched_add_def)
qed

theorem runqueue_insert_remove_witness:
  "\<exists>s1. sched_add demo_tm 0x5000 = Inr s1 \<and> rq_inv s1 [0x5000, 0x1000, 0x2000]"
  using runqueue_insert_remove [OF demo_tm_inv, of "0x5000"] by (auto simp: demo_tm_def runqueue_list_def)

text \<open>After a tick with an empty queue the idle thread is the current entry although it is not in the list. When
  a thread becomes runnable then, the next tick follows the null link of the idle thread and hands the
  wild pointer \<open>NULL - 160\<close> to the context switch, instead of the runnable thread.\<close>

theorem runqueue_next_after_idle:
  assumes inv: "rq_inv s []" and idle: "rq_idle s \<noteq> NULL" "runqueue_list (rq_idle s) \<noteq> NULL"
    and link: "lnext (links s) (runqueue_list (rq_idle s)) = NULL"
    and t: "t \<notin> {NULL, rq_idle s}" "runqueue_list t \<noteq> NULL" "runqueue_list t \<noteq> rq_runnable s"
    and apart: "runqueue_list (rq_idle s) \<noteq> rq_runnable s"
  shows "\<exists>s1 s2 s3. runqueue_next s = Inr (rq_idle s, s1) \<and> sched_add s1 t = Inr s2
    \<and> runqueue_next s2 = Inr (0 - 160, s3) \<and> 0 - 160 \<noteq> t"
proof -
  let ?s1 = "s\<lparr>rq_current := rq_idle s\<rparr>"
  note D = rq_invD [OF inv]
  have n1: "runqueue_next s = Inr (rq_idle s, ?s1)"
    using klist.is_empty_nil [OF D(1)] by (simp add: runqueue_next_def)
  have inv1: "rq_inv ?s1 []" using inv by simp
  obtain s2 where s2: "runqueue_insert ?s1 t = Inr s2" "rq_inv s2 [t]" "rq_current s2 = rq_idle s"
    using runqueue_insert_inv [OF inv1, of t] t by auto
  have run: "rq_runnable s2 = rq_runnable s"
    using s2(1) by (auto simp: runqueue_insert_def bind_res_Inr_iff split: if_splits)
  have lk: "lnext (links s2) (runqueue_list (rq_idle s)) = NULL"
    using s2(1) link t apart idle D(1)
    by (auto simp: runqueue_insert_def bind_res_Inr_iff list_add_def get_next_def set_next_def set_prev_def split: if_splits)
  have "list_empty (links s2) (rq_runnable s2) = Inr False"
    using klist.is_empty_nil [OF rq_invD(1) [OF s2(2)]] by simp
  moreover have "runqueue_list (0 - 160) \<noteq> rq_runnable s2" using D(3) run by (simp add: runqueue_list_def)
  ultimately have "runqueue_next s2 = Inr (0 - 160, s2\<lparr>rq_current := 0 - 160\<rparr>)"
    using s2(3) idle lk by (simp add: runqueue_next_def next_thread_def list_next_entry_def get_next_def)
  moreover have "0 - 160 \<noteq> t" using t(2) by (auto simp: runqueue_list_def)
  ultimately show ?thesis using n1 s2(1) by (auto simp: sched_add_def)
qed

theorem runqueue_next_after_idle_witness:
  "\<exists>s s2 s3. rq_inv s [] \<and> sched_add (s\<lparr>rq_current := 0x3000\<rparr>) 0x1000 = Inr s2 \<and> runqueue_next s2 = Inr (0 - 160, s3)"
proof -
  define s where "s = demo_tm\<lparr>num_threads := 0, rq_current := 0,
    links := \<lparr>lnext = (\<lambda>_. 0)(8 := 8), lprev = (\<lambda>_. 0)(8 := 8)\<rparr>\<rparr>"
  have inv: "rq_inv s []" by (simp add: rq_inv_def s_def demo_tm_def dll_def)
  have n: "runqueue_next s = Inr (0x3000, s\<lparr>rq_current := 0x3000\<rparr>)"
    by (simp add: runqueue_next_def s_def demo_tm_def list_empty_def get_next_def)
  show ?thesis
    using runqueue_next_after_idle [OF inv, of "0x1000"] inv n
    by (auto simp: s_def demo_tm_def runqueue_list_def)
qed

text \<open>C35: switching from a thread to another and back restores the interrupted context of the first in every
  register the switch saves. The registers r14 and r15 and the flags are not saved: they come back with
  the values the other thread had.\<close>

theorem thread_switch_round_trip:
  assumes "A \<noteq> B" and "A \<noteq> NULL" and "B \<noteq> NULL"
    and "thread_process (thread_at s A) \<noteq> NULL" and "physical_base (process_at s (thread_process (thread_at s A))) \<noteq> 0"
    and "thread_process (thread_at s B) \<noteq> NULL" and "physical_base (process_at s (thread_process (thread_at s B))) \<noteq> 0"
  shows "\<exists>c1 s1 c2 s2. thread_switch s c A B = Inr (c1, s1) \<and> current_thread s1 = B
    \<and> thread_switch s1 d B A = Inr (c2, s2) \<and> current_thread s2 = A
    \<and> cr3 s2 = physical_base (process_at s (thread_process (thread_at s A)))
    \<and> c2 = c\<lparr>ctx_r15 := ctx_r15 d, ctx_r14 := ctx_r14 d, ctx_rflags := ctx_rflags d,
             int_no := int_no d, err_code := err_code d, ctx_cs := ctx_cs d, ctx_ss := ctx_ss d\<rparr>"
  using assms
  by (simp add: thread_switch_def arch_thread_switch_def thread_set_stack_def arch_thread_set_stack_def
      arch_load_context_def arch_save_context_def Let_def)

theorem thread_switch_round_trip_witness:
  "\<forall>c d. \<exists>c1 s1 c2 s2. thread_switch demo_tm c 0x1000 0x2000 = Inr (c1, s1) \<and> thread_switch s1 d 0x2000 0x1000 = Inr (c2, s2)
    \<and> ctx_rip c2 = ctx_rip c \<and> ctx_r14 c2 = ctx_r14 d"
proof (intro allI)
  fix c d :: interrupt_ctx
  have "\<exists>c1 s1 c2 s2. thread_switch demo_tm c 0x1000 0x2000 = Inr (c1, s1) \<and> current_thread s1 = 0x2000
    \<and> thread_switch s1 d 0x2000 0x1000 = Inr (c2, s2) \<and> current_thread s2 = 0x1000
    \<and> cr3 s2 = physical_base (process_at demo_tm (thread_process (thread_at demo_tm 0x1000)))
    \<and> c2 = c\<lparr>ctx_r15 := ctx_r15 d, ctx_r14 := ctx_r14 d, ctx_rflags := ctx_rflags d,
             int_no := int_no d, err_code := err_code d, ctx_cs := ctx_cs d, ctx_ss := ctx_ss d\<rparr>"
    by (rule thread_switch_round_trip) (simp_all add: demo_tm_def)
  then obtain c1 s1 c2 s2 where "thread_switch demo_tm c 0x1000 0x2000 = Inr (c1, s1)" "thread_switch s1 d 0x2000 0x1000 = Inr (c2, s2)"
    and "c2 = c\<lparr>ctx_r15 := ctx_r15 d, ctx_r14 := ctx_r14 d, ctx_rflags := ctx_rflags d,
             int_no := int_no d, err_code := err_code d, ctx_cs := ctx_cs d, ctx_ss := ctx_ss d\<rparr>" by blast
  then show "\<exists>c1 s1 c2 s2. thread_switch demo_tm c 0x1000 0x2000 = Inr (c1, s1) \<and> thread_switch s1 d 0x2000 0x1000 = Inr (c2, s2)
    \<and> ctx_rip c2 = ctx_rip c \<and> ctx_r14 c2 = ctx_r14 d" by auto
qed

text \<open>A kernel thread starts with its stack pointer outside its stack: the pointer arithmetic scales the size by
  eight, so the return address is written, and the thread starts, 28 KiB above the page that was
  allocated for the stack.\<close>

theorem kthread_stack_outside:
  assumes "kthread \<noteq> NULL" and "unat stk + 0x8000 < 2 ^ 64"
  shows "\<exists>s'. arch_kthread_setup_registers exit_fn s kthread fn stk 0x1000 = Inr s'
    \<and> stack_words s' (stk + 0x7FF8) = exit_fn
    \<and> unat (rsp (thread_registers (thread_at s' kthread))) = unat stk + 0x7FF8
    \<and> unat (rsp (thread_registers (thread_at s' kthread))) \<ge> unat (kernel_stack (thread_at s' kthread)) + 0x6FF8"
proof -
  have "unat (stk + 0x7FF8) = unat stk + 0x7FF8" "unat (stk + 0x1000) = unat stk + 0x1000"
    using assms(2) by (simp_all add: unat_add_no_overflow)
  moreover have "stk + 8 * 0x1000 - 8 = stk + 0x7FF8" by simp
  ultimately show ?thesis using assms(1) by (simp add: arch_kthread_setup_registers_def Let_def add.commute)
qed

theorem kthread_stack_outside_witness:
  "\<exists>s'. arch_kthread_setup_registers 7 demo_tm 0x1000 9 0x10000 0x1000 = Inr s' \<and> stack_words s' 0x17FF8 = 7"
  using kthread_stack_outside [of "0x1000" "0x10000" 7 demo_tm 9] by auto

end
