(* ===== verification/Interrupt.thy ===== *)
theory Interrupt
  imports Sched
begin

text \<open>
  Interrupts: \<open>cpu/interrupt.c\<close>, \<open>cpu/exception.c\<close>, \<open>arch/x86_64/cpu/interrupt.c\<close>, the interrupt controller layer
  \<open>drivers/irqchip/irqchip.c\<close> with its one driver \<open>drivers/irqchip/intel-8259.c\<close>, and the processor tables
  \<open>arch/x86_64/cpu/idt.c\<close> and \<open>arch/x86_64/cpu/gdt.c\<close> with \<open>arch/include/x86_64/cpu/tables.h\<close>. A handler is known by
  the address of its structure; the ring of handlers of a vector lives in a link heap. Calling a handler is an
  event in a log, as are the port accesses of the chip driver, so that ordering is visible.
\<close>

section \<open>Handlers\<close>

definition INTERRUPTS_MAX :: nat where "INTERRUPTS_MAX = 256"
definition EXCEPTIONS_MAX :: nat where "EXCEPTIONS_MAX = 64"

text \<open>The members of \<open>struct interrupt_handler\<close> (and of the identical \<open>struct exception_handler\<close>) besides the links.\<close>

record interrupt_handler =
  handler :: addr_t
  dev_name :: string
  dev_id :: addr_t

text \<open>The macros work on a head pointer and the links; the result is the new head and the new links.\<close>

definition LIST_APPEND :: "addr_t \<Rightarrow> addr_t \<Rightarrow> list_heap \<Rightarrow> (addr_t \<times> list_heap) res" where
  "LIST_APPEND head element h =
     (if head = NULL
      then bind_res (set_next h element element) (\<lambda>h.
           bind_res (set_prev h element element) (\<lambda>h. Inr (element, h)))
      else bind_res (set_next h element head) (\<lambda>h.
           bind_res (get_prev h head) (\<lambda>p.
           bind_res (set_prev h element p) (\<lambda>h.
           bind_res (get_prev h head) (\<lambda>p.
           bind_res (set_next h p element) (\<lambda>h.
           bind_res (set_prev h head element) (\<lambda>h. Inr (head, h))))))))"

definition LIST_PREPEND :: "addr_t \<Rightarrow> addr_t \<Rightarrow> list_heap \<Rightarrow> (addr_t \<times> list_heap) res" where
  "LIST_PREPEND head element h = bind_res (LIST_APPEND head element h) (\<lambda>(_, h). Inr (element, h))"

definition LIST_REMOVE :: "addr_t \<Rightarrow> addr_t \<Rightarrow> list_heap \<Rightarrow> (addr_t \<times> list_heap) res" where
  "LIST_REMOVE head element h =
     bind_res (if head = element then bind_res (get_next h element) (\<lambda>n. Inr (n = element)) else Inr False) (\<lambda>single.
     if single then Inr (NULL, h)
     else bind_res (get_next h element) (\<lambda>n.
          bind_res (get_prev h element) (\<lambda>p.
          bind_res (set_prev h n p) (\<lambda>h.
          bind_res (get_prev h element) (\<lambda>p.
          bind_res (get_next h element) (\<lambda>n.
          bind_res (set_next h p n) (\<lambda>h.
          bind_res (set_next h element element) (\<lambda>h.
          bind_res (set_prev h element element) (\<lambda>h. Inr (head, h))))))))))"

text \<open>The elements \<open>LIST_FOR_EACH\<close> visits; None when the walk does not come back to the head.\<close>

partial_function (option) ring_from :: "list_heap \<Rightarrow> addr_t \<Rightarrow> addr_t \<Rightarrow> addr_t list option" where
  "ring_from h head element =
     (if element = NULL then Some []
      else Option.bind (ring_from h head (if lnext h element = head then NULL else lnext h element))
             (\<lambda>es. Some (element # es)))"

definition LIST_FOR_EACH :: "addr_t \<Rightarrow> list_heap \<Rightarrow> addr_t list option" where
  "LIST_FOR_EACH head h = ring_from h head head"

section \<open>The interrupt controllers\<close>

definition IC_NONE :: u32 where "IC_NONE = 0"
definition IC_INTEL_8259 :: u32 where "IC_INTEL_8259 = 1"
definition IC_STATUS_UNINITIALIZED :: u32 where "IC_STATUS_UNINITIALIZED = 0"
definition IC_STATUS_DISABLED :: u32 where "IC_STATUS_DISABLED = 1"
definition IC_STATUS_ENABLED :: u32 where "IC_STATUS_ENABLED = 2"

text \<open>The port writes so far, the latest first. What a port reads depends on them and on the device: \<open>inb\<close> is a
  parameter.\<close>

type_synonym io = "(u16 \<times> u8) list"
type_synonym inb = "io \<Rightarrow> u16 \<Rightarrow> u8"

definition outb :: "u16 \<Rightarrow> u8 \<Rightarrow> io \<Rightarrow> io" where
  "outb port v s = (port, v) # s"

record interrupt_controller =
  ic_name :: string
  ic_identifier :: u32
  ic_status :: u32
  ic_init :: "(io \<Rightarrow> io) option"
  ic_enable :: "(io \<Rightarrow> io) option"
  ic_disable :: "(io \<Rightarrow> io) option"
  ic_mask :: "(u32 \<Rightarrow> io \<Rightarrow> io) option"
  ic_unmask :: "(u32 \<Rightarrow> io \<Rightarrow> io) option"
  ic_ack :: "(u32 \<Rightarrow> io \<Rightarrow> io) option"

text \<open>The state of the interrupt code: the handler tables, the nesting depth, the processor's interrupt flag, the
  controllers (by address) with the links and the head of their list, the current one and the software mask, the ports, and the calls of
  handlers made so far (handler, device, vector), the latest last.\<close>

record intr =
  interrupt_handlers :: "nat \<Rightarrow> addr_t"
  exception_handlers :: "nat \<Rightarrow> addr_t"
  handler_links :: list_heap
  handler_at :: "addr_t \<Rightarrow> interrupt_handler"
  interrupt_depth :: u32
  if_flag :: bool
  controller_at :: "addr_t \<Rightarrow> interrupt_controller"
  controllers_head :: addr_t
  controller_links :: list_heap
  the_controller :: addr_t
  irq_mask :: u32
  ports :: io
  handler_calls :: "(addr_t \<times> addr_t \<times> u64) list"

subsection \<open>cpu/interrupt.c, first part\<close>

definition arch_interrupt_disable :: "intr \<Rightarrow> intr" where
  "arch_interrupt_disable s = s\<lparr>if_flag := False\<rparr>"

definition arch_interrupt_enable :: "intr \<Rightarrow> intr" where
  "arch_interrupt_enable s = s\<lparr>if_flag := True\<rparr>"

definition interrupt_disable :: "intr \<Rightarrow> intr" where
  "interrupt_disable s =
     (let old = interrupt_depth s; s = s\<lparr>interrupt_depth := old + 1\<rparr>
      in if old = 0 then arch_interrupt_disable s else s)"

definition interrupt_enable :: "intr \<Rightarrow> intr" where
  "interrupt_enable s =
     (let old = interrupt_depth s; s = s\<lparr>interrupt_depth := old - 1\<rparr>
      in if old = 1 then arch_interrupt_enable s else s)"

subsection \<open>irqchip.c\<close>

definition opt_call :: "(io \<Rightarrow> io) option \<Rightarrow> intr \<Rightarrow> intr" where
  "opt_call f s = (case f of None \<Rightarrow> s | Some g \<Rightarrow> s\<lparr>ports := g (ports s)\<rparr>)"

definition set_status :: "intr \<Rightarrow> u32 \<Rightarrow> intr" where
  "set_status s st = s\<lparr>controller_at := (controller_at s)(the_controller s := (controller_at s (the_controller s))\<lparr>ic_status := st\<rparr>)\<rparr>"

abbreviation ctl :: "intr \<Rightarrow> interrupt_controller" where
  "ctl s \<equiv> controller_at s (the_controller s)"

text \<open>None where the walk over the list never comes back to the head.\<close>

partial_function (option) find_from :: "intr \<Rightarrow> u32 \<Rightarrow> addr_t \<Rightarrow> addr_t res option" where
  "find_from s c node =
     (if node = controllers_head s then Some (Inr NULL)
      else if ic_identifier (controller_at s node) = c then Some (Inr node)
      else case list_next_entry (controller_links s) node of Inl e \<Rightarrow> Some (Inl e) | Inr n \<Rightarrow> find_from s c n)"

definition find_interrupt_controller :: "intr \<Rightarrow> u32 \<Rightarrow> addr_t res option" where
  "find_interrupt_controller s c =
     (case list_first_entry (controller_links s) (controllers_head s) of Inl e \<Rightarrow> Some (Inl e) | Inr n \<Rightarrow> find_from s c n)"

definition interrupt_controller_register :: "intr \<Rightarrow> addr_t \<Rightarrow> (u32 \<times> intr) res" where
  "interrupt_controller_register s c =
     bind_res (list_add (controller_links s) (controllers_head s) c) (\<lambda>h. Inr (0, s\<lparr>controller_links := h\<rparr>))"

text \<open>The source adds the element to the list once more.\<close>

definition interrupt_controller_unregister :: "intr \<Rightarrow> addr_t \<Rightarrow> (u32 \<times> intr) res" where
  "interrupt_controller_unregister s c =
     (let s = (if the_controller s = c then s\<lparr>the_controller := NULL\<rparr> else s)
      in bind_res (list_add (controller_links s) (controllers_head s) c) (\<lambda>h. Inr (0, s\<lparr>controller_links := h\<rparr>)))"

definition interrupt_controller_mask :: "intr \<Rightarrow> u32 \<Rightarrow> u32 \<times> intr" where
  "interrupt_controller_mask s irq =
     (if the_controller s = NULL then (1, s)
      else if irq_mask s AND push_bit (unat irq) 1 = 0
      then let s = (if ic_status (ctl s) = IC_STATUS_ENABLED then opt_call (map_option (\<lambda>f. f irq) (ic_mask (ctl s))) s else s)
           in (0, s\<lparr>irq_mask := irq_mask s OR push_bit (unat irq) 1\<rparr>)
      else (0, s))"

definition interrupt_controller_unmask :: "intr \<Rightarrow> u32 \<Rightarrow> u32 \<times> intr" where
  "interrupt_controller_unmask s irq =
     (if the_controller s = NULL then (1, s)
      else if irq_mask s AND push_bit (unat irq) 1 \<noteq> 0
      then let s = (if ic_status (ctl s) = IC_STATUS_ENABLED then opt_call (map_option (\<lambda>f. f irq) (ic_unmask (ctl s))) s else s)
           in (0, s\<lparr>irq_mask := irq_mask s AND NOT (push_bit (unat irq) 1)\<rparr>)
      else (0, s))"

definition restore_masks :: "intr \<Rightarrow> intr" where
  "restore_masks s = fold (\<lambda>i s. if irq_mask s AND push_bit i 1 \<noteq> 0 then snd (interrupt_controller_mask s (of_nat i))
     else snd (interrupt_controller_unmask s (of_nat i))) [0 ..< 32] s"

definition interrupt_controller_enable :: "intr \<Rightarrow> u32 \<times> intr" where
  "interrupt_controller_enable s =
     (if the_controller s = NULL then (1, s)
      else if ic_status (ctl s) = IC_STATUS_DISABLED
      then (0, set_status (restore_masks (opt_call (ic_enable (ctl s)) s)) IC_STATUS_ENABLED)
      else (1, s))"

definition interrupt_controller_disable :: "intr \<Rightarrow> u32 \<times> intr" where
  "interrupt_controller_disable s =
     (if the_controller s = NULL then (1, s)
      else if ic_status (ctl s) = IC_STATUS_ENABLED
      then (0, set_status (opt_call (ic_enable (ctl s)) s) IC_STATUS_DISABLED)
      else (1, s))"

definition interrupt_controller_ack :: "intr \<Rightarrow> u32 \<Rightarrow> u32 \<times> intr" where
  "interrupt_controller_ack s n =
     (if the_controller s = NULL then (1, s)
      else if ic_status (ctl s) = IC_STATUS_ENABLED \<and> ic_ack (ctl s) \<noteq> None
      then (0, opt_call (map_option (\<lambda>f. f n) (ic_ack (ctl s))) s)
      else (1, s))"

definition interrupt_controller_set :: "intr \<Rightarrow> u32 \<Rightarrow> (u32 \<times> intr) res option" where
  "interrupt_controller_set s c =
     (let s = interrupt_disable s;
          s = snd (interrupt_controller_disable s)
      in map_option (\<lambda>r. bind_res r (\<lambda>p.
         let s = s\<lparr>the_controller := p\<rparr> in
         if p = NULL then Inr (1, s)
         else let s = (if ic_status (ctl s) = IC_STATUS_UNINITIALIZED
                       then set_status (opt_call (ic_init (ctl s)) s) IC_STATUS_DISABLED else s);
                  s = snd (interrupt_controller_enable s)
              in Inr (0, interrupt_enable s))) (find_interrupt_controller s c))"

subsection \<open>cpu/interrupt.c and cpu/exception.c, handlers\<close>

text \<open>Indices outside the tables are faults. The registered vector is an \<open>int\<close>.\<close>

definition interrupt_handler_register :: "intr \<Rightarrow> nat \<Rightarrow> addr_t \<Rightarrow> intr res" where
  "interrupt_handler_register s n hp =
     (if n < INTERRUPTS_MAX
      then bind_res (LIST_APPEND (interrupt_handlers s n) hp (handler_links s)) (\<lambda>(head, h).
             Inr (s\<lparr>interrupt_handlers := (interrupt_handlers s)(n := head), handler_links := h\<rparr>))
      else Inl OutOfBounds)"

definition interrupt_handler_unregister :: "intr \<Rightarrow> nat \<Rightarrow> addr_t \<Rightarrow> intr res" where
  "interrupt_handler_unregister s n hp =
     (if n < INTERRUPTS_MAX
      then bind_res (LIST_REMOVE (interrupt_handlers s n) hp (handler_links s)) (\<lambda>(head, h).
             Inr (s\<lparr>interrupt_handlers := (interrupt_handlers s)(n := head), handler_links := h\<rparr>))
      else Inl OutOfBounds)"

definition exception_handler_register :: "intr \<Rightarrow> nat \<Rightarrow> addr_t \<Rightarrow> intr res" where
  "exception_handler_register s n hp =
     (if n < EXCEPTIONS_MAX
      then bind_res (LIST_APPEND (exception_handlers s n) hp (handler_links s)) (\<lambda>(head, h).
             Inr (s\<lparr>exception_handlers := (exception_handlers s)(n := head), handler_links := h\<rparr>))
      else Inl OutOfBounds)"

definition exception_handler_unregister :: "intr \<Rightarrow> nat \<Rightarrow> addr_t \<Rightarrow> intr res" where
  "exception_handler_unregister s n hp =
     (if n < EXCEPTIONS_MAX
      then bind_res (LIST_REMOVE (exception_handlers s n) hp (handler_links s)) (\<lambda>(head, h).
             Inr (s\<lparr>exception_handlers := (exception_handlers s)(n := head), handler_links := h\<rparr>))
      else Inl OutOfBounds)"

text \<open>\<open>if (handler->handler) handler->handler(regs, handler->dev_id)\<close>.\<close>

definition call_handler :: "u64 \<Rightarrow> addr_t \<Rightarrow> intr \<Rightarrow> intr" where
  "call_handler n p s =
     (let hp = handler_at s p in if handler hp = NULL then s
      else s\<lparr>handler_calls := handler_calls s @ [(handler hp, dev_id hp, n)]\<rparr>)"

text \<open>None where the walk over the handlers never ends.\<close>

definition interrupt_dispatch :: "intr \<Rightarrow> interrupt_ctx \<Rightarrow> intr res option" where
  "interrupt_dispatch s regs =
     (if \<not> unat (int_no regs) < INTERRUPTS_MAX then Some (Inl OutOfBounds)
      else let n = unat (int_no regs);
               walked = (if interrupt_handlers s n = NULL then Some s
                  else map_option (\<lambda>ps. fold (call_handler (int_no regs)) ps s) (LIST_FOR_EACH (interrupt_handlers s n) (handler_links s)))
           in map_option (\<lambda>s. Inr (snd (interrupt_controller_ack s (ucast (int_no regs))))) walked)"

text \<open>An exception without a handler prints a message, disables interrupts and halts: the fault \<open>Panic\<close>.\<close>

definition exception_dispatch :: "intr \<Rightarrow> interrupt_ctx \<Rightarrow> intr res option" where
  "exception_dispatch s regs =
     (if \<not> unat (int_no regs) < EXCEPTIONS_MAX then Some (Inl OutOfBounds)
      else let n = unat (int_no regs) in
        if exception_handlers s n = NULL then Some (Inl Panic)
        else map_option (\<lambda>ps. Inr (fold (call_handler (int_no regs)) ps s)) (LIST_FOR_EACH (exception_handlers s n) (handler_links s)))"

subsection \<open>arch/x86_64/cpu/interrupt.c\<close>

definition exception_messages :: "string list" where
  "exception_messages =
    [''Division By Zero'', ''Debug'', ''Non Maskable Interrupt'', ''Breakpoint'', ''Into Detected Overflow'', ''Out of Bounds'',
     ''Invalid Opcode'', ''No Coprocessor'', ''Double Fault'', ''Coprocessor Segment Overrun'', ''Bad TSS'', ''Segment Not Present'',
     ''Stack Fault'', ''General Protection Fault'', ''Page Fault'', ''Unknown Interrupt'', ''Coprocessor Fault'', ''Alignment Check?'',
     ''Machine Check!'', ''Reserved'', ''Reserved'', ''Reserved'', ''Reserved'', ''Reserved'', ''Reserved'', ''Reserved'', ''Reserved'',
     ''Reserved'', ''Reserved'', ''Reserved'', ''Reserved'', ''Reserved'', ''Unknown'']"

definition arch_exception_translate :: "u32 \<Rightarrow> string res" where
  "arch_exception_translate n =
     (if 31 <s n then Inr (exception_messages ! 32)
      else if n <s 0 then Inl OutOfBounds else Inr (exception_messages ! unat n))"

definition x86_64_exception_handler :: "intr \<Rightarrow> interrupt_ctx \<Rightarrow> intr res option" where
  "x86_64_exception_handler s regs = exception_dispatch s regs"

definition x86_64_interrupt_handler :: "intr \<Rightarrow> interrupt_ctx \<Rightarrow> intr res option" where
  "x86_64_interrupt_handler s regs = interrupt_dispatch s (regs\<lparr>int_no := int_no regs - 32\<rparr>)"

section \<open>The Intel 8259\<close>

definition PIC1 :: u16 where "PIC1 = 0x20"
definition PIC2 :: u16 where "PIC2 = 0xA0"
definition PIC1_COMMAND :: u16 where "PIC1_COMMAND = PIC1"
definition PIC1_DATA :: u16 where "PIC1_DATA = PIC1 + 1"
definition PIC2_COMMAND :: u16 where "PIC2_COMMAND = PIC2"
definition PIC2_DATA :: u16 where "PIC2_DATA = PIC2 + 1"

definition init_intel_8259 :: "io \<Rightarrow> io" where
  "init_intel_8259 s =
     (outb PIC2_DATA 0x01 (outb PIC1_DATA 0x01 (outb PIC2_DATA 0x02 (outb PIC1_DATA 0x04
       (outb PIC2_DATA 0x28 (outb PIC1_DATA 0x20 (outb PIC2_COMMAND 0x11 (outb PIC1_COMMAND 0x11 s))))))))"

definition enable_intel_8259 :: "io \<Rightarrow> io" where
  "enable_intel_8259 s = init_intel_8259 s"

definition disable_intel_8259 :: "io \<Rightarrow> io" where
  "disable_intel_8259 s = outb PIC2_DATA 0xFF (outb PIC1_DATA 0xFF s)"

text \<open>\<open>irq\<close> is a non-negative \<open>int\<close>; the shift is of an \<open>int\<close> and is cut to the \<open>uint8_t\<close> value.\<close>

definition mask_intel_8259 :: "inb \<Rightarrow> u32 \<Rightarrow> io \<Rightarrow> io" where
  "mask_intel_8259 inb irq s =
     (let (port, irq) = (if irq < 8 then (PIC1_DATA, irq) else (PIC2_DATA, irq - 8));
          v = inb s port OR ucast (push_bit (unat irq) (1 :: u32))
      in outb port v s)"

definition unmask_intel_8259 :: "inb \<Rightarrow> u32 \<Rightarrow> io \<Rightarrow> io" where
  "unmask_intel_8259 inb irq s =
     (let (port, irq) = (if irq < 8 then (PIC1_DATA, irq) else (PIC2_DATA, irq - 8));
          v = inb s port AND ucast (NOT (push_bit (unat irq) (1 :: u32)))
      in outb port v s)"

definition ack_intel_8259 :: "u32 \<Rightarrow> io \<Rightarrow> io" where
  "ack_intel_8259 n s = outb PIC1_COMMAND 0x20 (if 7 <s n then outb PIC2_COMMAND 0x20 s else s)"

definition pic_info :: "inb \<Rightarrow> interrupt_controller" where
  "pic_info inb = \<lparr>ic_name = ''Intel 8259'', ic_identifier = IC_INTEL_8259, ic_status = IC_STATUS_UNINITIALIZED,
     ic_init = Some init_intel_8259, ic_enable = Some enable_intel_8259, ic_disable = Some disable_intel_8259,
     ic_mask = Some (mask_intel_8259 inb), ic_unmask = Some (unmask_intel_8259 inb), ic_ack = Some ack_intel_8259\<rparr>"

definition register_intel_8259 :: "intr \<Rightarrow> addr_t \<Rightarrow> (u32 \<times> intr) res" where
  "register_intel_8259 s pic_info_address = bind_res (interrupt_controller_register s pic_info_address) (\<lambda>(_, s). Inr (0, s))"

definition setup_arch :: "intr \<Rightarrow> addr_t \<Rightarrow> intr res option" where
  "setup_arch s pic_info_address =
     (case register_intel_8259 s pic_info_address of Inl e \<Rightarrow> Some (Inl e)
      | Inr (_, s) \<Rightarrow> map_option (\<lambda>r. bind_res r (\<lambda>(_, s). Inr s)) (interrupt_controller_set s IC_INTEL_8259))"

section \<open>Processor tables\<close>

record gdt_entry =
  limit_low :: u16
  base_low :: u16
  base_middle :: u8
  gdt_access :: u8
  limit_high :: "4 word"
  gdt_flags :: "4 word"
  base_high :: u8

record descriptor =
  desc_limit :: u16
  desc_offset :: u64

record idt_entry =
  offset_low :: u16
  selector :: u16
  zero_one :: u8
  attributes :: u8
  offset_middle :: u16
  offset_high :: u32
  zero_two :: u32

record tss_entry =
  prev_tss :: u32
  esp0 :: u64
  ss0 :: u32
  esp1 :: u64
  ss1 :: u32
  esp2 :: u64
  ss2 :: u32
  tss_cr3 :: u64
  tss_rip :: u64
  tss_rflags :: u64
  tss_rax :: u64
  tss_rcx :: u64
  tss_rdx :: u64
  tss_rbx :: u64
  tss_rsp :: u64
  tss_rbp :: u64
  tss_rsi :: u64
  tss_rdi :: u64
  tss_es :: u32
  tss_cs :: u32
  tss_ss :: u32
  tss_ds :: u32
  tss_fs :: u32
  tss_gs :: u32
  tss_ldt :: u32
  tss_trap :: u16
  tss_iomap_base :: u16

definition zero_tss :: tss_entry where
  "zero_tss = \<lparr>prev_tss = 0, esp0 = 0, ss0 = 0, esp1 = 0, ss1 = 0, esp2 = 0, ss2 = 0, tss_cr3 = 0, tss_rip = 0, tss_rflags = 0,
     tss_rax = 0, tss_rcx = 0, tss_rdx = 0, tss_rbx = 0, tss_rsp = 0, tss_rbp = 0, tss_rsi = 0, tss_rdi = 0, tss_es = 0, tss_cs = 0,
     tss_ss = 0, tss_ds = 0, tss_fs = 0, tss_gs = 0, tss_ldt = 0, tss_trap = 0, tss_iomap_base = 0\<rparr>"

text \<open>The packed structure takes 160 bytes.\<close>

definition sizeof_tss :: u32 where "sizeof_tss = 160"

definition gdt_set_entry :: "u32 \<Rightarrow> u32 \<Rightarrow> u8 \<Rightarrow> u8 \<Rightarrow> gdt_entry" where
  "gdt_set_entry base limit access fl =
     \<lparr>limit_low = ucast (limit AND 0xFFFF), base_low = ucast (base AND 0xFFFF), base_middle = ucast (drop_bit 16 base AND 0xFF),
      gdt_access = access, limit_high = ucast (drop_bit 16 limit AND 0xF), gdt_flags = ucast (fl AND 0xF),
      base_high = ucast (drop_bit 24 base AND 0xFF)\<rparr>"

text \<open>The two descriptors and the task state segment at address \<open>tss\<close>.\<close>

definition tss_write :: "addr_t \<Rightarrow> u16 \<Rightarrow> addr_t \<Rightarrow> gdt_entry \<times> gdt_entry \<times> tss_entry" where
  "tss_write tss ss0v esp0v =
     (gdt_set_entry (ucast tss) sizeof_tss 0xE9 0,
      gdt_set_entry (ucast (drop_bit 48 tss AND 0xFFFF)) (ucast (drop_bit 32 tss AND 0xFFFF)) 0 0,
      zero_tss\<lparr>ss0 := ucast ss0v, esp0 := esp0v, tss_cs := 0x0B, tss_ss := 0x13, tss_ds := 0x13, tss_es := 0x13, tss_fs := 0x13,
        tss_gs := 0x13\<rparr>)"

definition tss_set_stack :: "tss_entry \<Rightarrow> addr_t \<Rightarrow> tss_entry" where
  "tss_set_stack t stk = t\<lparr>esp0 := stk\<rparr>"

text \<open>The table, the segment and the descriptor given to \<open>gdt_load\<close>, for a table at \<open>gdt\<close> and a segment at \<open>tss\<close>.\<close>

definition gdt_init :: "addr_t \<Rightarrow> addr_t \<Rightarrow> gdt_entry list \<times> tss_entry \<times> descriptor" where
  "gdt_init gdt tss =
     (let (d1, d2, t) = tss_write tss 0x10 0x0
      in ([gdt_set_entry 0 0 0 0, gdt_set_entry 0 0xFFFFF 0x9A 0x0A, gdt_set_entry 0 0xFFFFF 0x92 0x0A,
           gdt_set_entry 0 0xFFFFF 0xFA 0x0A, gdt_set_entry 0 0xFFFFF 0xF2 0x0A, d1, d2],
          t, \<lparr>desc_limit = 8 * 7 - 1, desc_offset = gdt\<rparr>))"

definition zero_idt_entry :: idt_entry where
  "zero_idt_entry = \<lparr>offset_low = 0, selector = 0, zero_one = 0, attributes = 0, offset_middle = 0, offset_high = 0, zero_two = 0\<rparr>"

definition idt_set_entry :: "u64 \<Rightarrow> u16 \<Rightarrow> u8 \<Rightarrow> idt_entry" where
  "idt_set_entry offset sel attrs =
     \<lparr>offset_low = ucast (offset AND 0xFFFF), selector = sel, zero_one = 0, attributes = attrs,
      offset_middle = ucast (drop_bit 16 offset AND 0xFFFF), offset_high = ucast (drop_bit 32 offset AND 0xFFFFFFFF), zero_two = 0\<rparr>"

text \<open>The table for the stubs \<open>isr0\<close> to \<open>isr31\<close> and \<open>irq0\<close> to \<open>irq15\<close>, whose addresses the assembly part gives.\<close>

definition idt_init :: "(nat \<Rightarrow> u64) \<Rightarrow> (nat \<Rightarrow> u64) \<Rightarrow> addr_t \<Rightarrow> idt_entry list \<times> descriptor" where
  "idt_init isr irq idt =
     (map (\<lambda>i. idt_set_entry (isr i) 0x08 0x8E) [0 ..< 32] @ map (\<lambda>i. idt_set_entry (irq i) 0x08 0x8E) [0 ..< 16]
        @ replicate 208 zero_idt_entry,
      \<lparr>desc_limit = 16 * 256 - 1, desc_offset = idt\<rparr>)"

section \<open>Rings of handlers\<close>

text \<open>A head pointer that stands for a sequence of handlers: the ring is the circular list of \<open>KList\<close> with its first
  element in the place of the list head.\<close>

fun ring :: "list_heap \<Rightarrow> addr_t \<Rightarrow> addr_t list \<Rightarrow> bool" where
  "ring h head [] \<longleftrightarrow> head = NULL"
| "ring h head (p # ps) \<longleftrightarrow> head = p \<and> dll h p ps"

lemma LIST_APPEND_tail: "head \<noteq> NULL \<Longrightarrow> LIST_APPEND head e h = bind_res (list_add_tail h head e) (\<lambda>h. Inr (head, h))"
  by (auto simp: LIST_APPEND_def list_ops)

lemma LIST_APPEND_ring:
  assumes r: "ring h head ps" and e: "e \<notin> insert NULL (set ps)"
  shows "\<exists>head' h'. LIST_APPEND head e h = Inr (head', h') \<and> ring h' head' (ps @ [e])"
proof (cases ps)
  case Nil
  then show ?thesis using r e by (auto simp: LIST_APPEND_def set_next_def set_prev_def dll_def)
next
  case (Cons p qs)
  then have d: "dll h p qs" "head = p" "p \<noteq> NULL" using r by (auto simp: dll_def)
  obtain h' where "list_add_tail h p e = Inr h'" "dll h' p (qs @ [e])"
    using klist.add_tail_snoc [OF d(1), of e] e Cons by auto
  then show ?thesis using Cons d LIST_APPEND_tail [of p e h] by auto
qed

lemma ring_from_lseg:
  assumes "lseg h p ps head" and "distinct (p # ps)" and "head \<notin> set ps" and "NULL \<notin> set (p # ps)"
  shows "ring_from h head p = Some (p # ps)"
  using assms
proof (induction ps arbitrary: p)
  case Nil
  then show ?case by (simp add: ring_from.simps [of h head p] ring_from.simps [of h head NULL])
next
  case (Cons q qs)
  then have "ring_from h head q = Some (q # qs)" by simp
  moreover have "lnext h p = q" "q \<noteq> head" "p \<noteq> NULL" using Cons.prems by auto
  ultimately show ?case by (simp add: ring_from.simps [of h head p])
qed

lemma LIST_FOR_EACH_ring: "ring h head ps \<Longrightarrow> LIST_FOR_EACH head h = Some ps"
proof (cases ps)
  case Nil
  then show "ring h head ps \<Longrightarrow> ?thesis" by (simp add: LIST_FOR_EACH_def ring_from.simps)
next
  case (Cons p qs)
  then show "ring h head ps \<Longrightarrow> ?thesis" using ring_from_lseg [of h p qs p] by (auto simp: LIST_FOR_EACH_def dll_def)
qed

text \<open>The calls a sequence of handlers makes.\<close>

definition calls_of :: "intr \<Rightarrow> u64 \<Rightarrow> addr_t list \<Rightarrow> (addr_t \<times> addr_t \<times> u64) list" where
  "calls_of s n ps = map (\<lambda>p. (handler (handler_at s p), dev_id (handler_at s p), n)) (filter (\<lambda>p. handler (handler_at s p) \<noteq> NULL) ps)"

lemma fold_call_handler:
  "handler_calls (fold (call_handler n) ps s) = handler_calls s @ calls_of s n ps"
  "the_controller (fold (call_handler n) ps s) = the_controller s"
  "controller_at (fold (call_handler n) ps s) = controller_at s"
  "ports (fold (call_handler n) ps s) = ports s"
proof -
  have at: "handler_at (call_handler n p s) = handler_at s" for p s by (simp add: call_handler_def Let_def)
  show "handler_calls (fold (call_handler n) ps s) = handler_calls s @ calls_of s n ps"
    by (induction ps arbitrary: s) (auto simp: calls_of_def at, auto simp: call_handler_def Let_def)
  show "the_controller (fold (call_handler n) ps s) = the_controller s" "controller_at (fold (call_handler n) ps s) = controller_at s"
    "ports (fold (call_handler n) ps s) = ports s"
    by (induction ps arbitrary: s) (auto simp: call_handler_def Let_def)
qed

lemma ack_calls [simp]: "handler_calls (snd (interrupt_controller_ack s n)) = handler_calls s"
  by (auto simp: interrupt_controller_ack_def opt_call_def split: option.splits)

text \<open>The ports after the current controller has acknowledged a vector; without a controller, or with one that is not enabled or has no such function,
  nothing is written.\<close>

definition acknowledged :: "intr \<Rightarrow> u32 \<Rightarrow> io" where
  "acknowledged s n =
     (if the_controller s = NULL \<or> ic_status (ctl s) \<noteq> IC_STATUS_ENABLED then ports s
      else case ic_ack (ctl s) of None \<Rightarrow> ports s | Some f \<Rightarrow> f n (ports s))"

lemma ack_ports [simp]: "ports (snd (interrupt_controller_ack s n)) = acknowledged s n"
  by (auto simp: interrupt_controller_ack_def opt_call_def acknowledged_def split: option.splits)

lemma acknowledged_cong:
  "the_controller s' = the_controller s \<Longrightarrow> controller_at s' = controller_at s \<Longrightarrow> ports s' = ports s \<Longrightarrow> acknowledged s' n = acknowledged s n"
  by (simp add: acknowledged_def split: option.split)

lemma interrupt_dispatch_ring:
  assumes r: "ring (handler_links s) (interrupt_handlers s (unat (int_no regs))) ps" and n: "unat (int_no regs) < INTERRUPTS_MAX"
  shows "\<exists>s'. interrupt_dispatch s regs = Some (Inr s') \<and> handler_calls s' = handler_calls s @ calls_of s (int_no regs) ps
    \<and> ports s' = acknowledged s (ucast (int_no regs))"
proof (cases "interrupt_handlers s (unat (int_no regs)) = NULL")
  case True
  then have "ps = []" using r by (cases ps) (auto simp: dll_def)
  then show ?thesis using True n by (simp add: interrupt_dispatch_def calls_of_def)
next
  case False
  then show ?thesis using LIST_FOR_EACH_ring [OF r] n acknowledged_cong [of "fold (call_handler (int_no regs)) ps s" s] fold_call_handler
    by (simp add: interrupt_dispatch_def)
qed

fun register_all :: "intr \<Rightarrow> nat \<Rightarrow> addr_t list \<Rightarrow> intr res" where
  "register_all s n [] = Inr s"
| "register_all s n (p # ps) = bind_res (interrupt_handler_register s n p) (\<lambda>s. register_all s n ps)"

lemma register_all_ring:
  assumes "ring (handler_links s) (interrupt_handlers s n) ps" and "distinct (ps @ qs)" and "NULL \<notin> set qs" and "n < INTERRUPTS_MAX"
  shows "\<exists>s'. register_all s n qs = Inr s' \<and> ring (handler_links s') (interrupt_handlers s' n) (ps @ qs)
    \<and> handler_at s' = handler_at s \<and> handler_calls s' = handler_calls s
    \<and> the_controller s' = the_controller s \<and> controller_at s' = controller_at s \<and> ports s' = ports s"
  using assms
proof (induction qs arbitrary: s ps)
  case (Cons q qs)
  obtain head' h' where A: "LIST_APPEND (interrupt_handlers s n) q (handler_links s) = Inr (head', h')" "ring h' head' (ps @ [q])"
    using LIST_APPEND_ring [OF Cons.prems(1), of q] Cons.prems by auto
  let ?s = "s\<lparr>interrupt_handlers := (interrupt_handlers s)(n := head'), handler_links := h'\<rparr>"
  have "interrupt_handler_register s n q = Inr ?s" using A(1) Cons.prems(4) by (simp add: interrupt_handler_register_def)
  moreover have "\<exists>s'. register_all ?s n qs = Inr s' \<and> ring (handler_links s') (interrupt_handlers s' n) ((ps @ [q]) @ qs)
    \<and> handler_at s' = handler_at ?s \<and> handler_calls s' = handler_calls ?s
    \<and> the_controller s' = the_controller ?s \<and> controller_at s' = controller_at ?s \<and> ports s' = ports ?s"
    by (rule Cons.IH) (use A Cons.prems in auto)
  ultimately show ?case by auto
qed auto

section \<open>Properties\<close>

text \<open>C10: handlers of a vector are called in the order of their registration, each exactly once. Whatever distinct handlers
  are registered for a free vector, the dispatch of that vector ends, calls exactly them in order (those whose
  function pointer is not NULL), and the ports are what the acknowledge function of the current controller makes of them
  for that vector, once, if the controller is enabled and has one, and as they were otherwise.\<close>

theorem interrupt_dispatch_order:
  assumes "interrupt_handlers s (unat (int_no regs)) = NULL" and "unat (int_no regs) < INTERRUPTS_MAX"
    and "distinct ps" and "NULL \<notin> set ps"
  shows "\<exists>s1 s2. register_all s (unat (int_no regs)) ps = Inr s1 \<and> interrupt_dispatch s1 regs = Some (Inr s2)
    \<and> handler_calls s2 = handler_calls s @ map (\<lambda>p. (handler (handler_at s p), dev_id (handler_at s p), int_no regs))
         (filter (\<lambda>p. handler (handler_at s p) \<noteq> NULL) ps)
    \<and> ports s2 = (if the_controller s = NULL \<or> ic_status (ctl s) \<noteq> IC_STATUS_ENABLED then ports s
        else case ic_ack (ctl s) of None \<Rightarrow> ports s | Some f \<Rightarrow> f (ucast (int_no regs)) (ports s))"
proof -
  have "ring (handler_links s) (interrupt_handlers s (unat (int_no regs))) []" using assms(1) by simp
  then obtain s1 where 1: "register_all s (unat (int_no regs)) ps = Inr s1"
      "ring (handler_links s1) (interrupt_handlers s1 (unat (int_no regs))) ps" "handler_at s1 = handler_at s" "handler_calls s1 = handler_calls s"
      "the_controller s1 = the_controller s" "controller_at s1 = controller_at s" "ports s1 = ports s"
    using register_all_ring [of s "unat (int_no regs)" "[]" ps] assms by auto
  obtain s2 where 2: "interrupt_dispatch s1 regs = Some (Inr s2)" "handler_calls s2 = handler_calls s1 @ calls_of s1 (int_no regs) ps"
      "ports s2 = acknowledged s1 (ucast (int_no regs))"
    using interrupt_dispatch_ring [OF 1(2) assms(2)] by blast
  have "acknowledged s1 (ucast (int_no regs)) = acknowledged s (ucast (int_no regs))" by (rule acknowledged_cong) (rule 1)+
  with 2(3) show ?thesis
    by (intro exI [of _ s1] exI [of _ s2] conjI 1(1) 2(1)) (simp_all only: acknowledged_def 2(2) 1(3,4) calls_of_def)
qed

text \<open>An idle machine with a timer context, and handlers whose function is their own address.\<close>

definition demo_intr :: intr where
  "demo_intr = \<lparr>interrupt_handlers = (\<lambda>_. 0), exception_handlers = (\<lambda>_. 0), handler_links = \<lparr>lnext = (\<lambda>_. 0), lprev = (\<lambda>_. 0)\<rparr>,
     handler_at = (\<lambda>p. \<lparr>handler = p, dev_name = [], dev_id = 0\<rparr>), interrupt_depth = 0, if_flag = True,
     controller_at = (\<lambda>_. pic_info (\<lambda>_ _. 0)), controllers_head = 0x10, controller_links = \<lparr>lnext = (\<lambda>_. 0x20), lprev = (\<lambda>_. 0x20)\<rparr>\<lparr>lnext := (\<lambda>p. if p = 0x10 then 0x20 else 0x10)\<rparr>,
     the_controller = 0, irq_mask = 0, ports = [], handler_calls = []\<rparr>"

definition demo_regs :: interrupt_ctx where
  "demo_regs = \<lparr>ctx_r15 = 0, ctx_r14 = 0, ctx_r13 = 0, ctx_r12 = 0, ctx_r11 = 0, ctx_r10 = 0, ctx_r9 = 0, ctx_r8 = 0, ctx_rsi = 0,
     ctx_rdi = 0, ctx_rbp = 0, ctx_rdx = 0, ctx_rcx = 0, ctx_rbx = 0, ctx_rax = 0, int_no = 5, err_code = 0, ctx_rip = 0, ctx_cs = 0,
     ctx_rflags = 0, ctx_rsp = 0, ctx_ss = 0\<rparr>"

text \<open>The same machine with the 8259 in use and enabled: vector 5 is acknowledged with the end-of-interrupt command at port \<open>0x20\<close>.\<close>

definition demo_intr_pic :: intr where
  "demo_intr_pic = demo_intr\<lparr>the_controller := 0x20, controller_at := (\<lambda>_. (pic_info (\<lambda>_ _. 0))\<lparr>ic_status := IC_STATUS_ENABLED\<rparr>)\<rparr>"

theorem interrupt_dispatch_order_witness:
  "\<exists>s1 s2. register_all demo_intr_pic 5 [0x100, 0x200] = Inr s1 \<and> interrupt_dispatch s1 demo_regs = Some (Inr s2)
    \<and> handler_calls s2 = [(0x100, 0, 5), (0x200, 0, 5)] \<and> ports s2 = [(0x20, 0x20)]"
  using interrupt_dispatch_order [of demo_intr_pic demo_regs "[0x100, 0x200]"]
  by (simp add: demo_intr_pic_def demo_intr_def demo_regs_def INTERRUPTS_MAX_def pic_info_def ack_intel_8259_def PIC1_COMMAND_def PIC1_def outb_def del: register_all.simps)

text \<open>Removing the first of several handlers does not remove it. \<open>LIST_REMOVE\<close> leaves the head pointer where it was and
  links the removed handler to itself, so afterwards it is the only one the vector still calls: all the others are lost.\<close>

theorem unregister_first_keeps_it:
  assumes r: "ring (handler_links s) (interrupt_handlers s (unat (int_no regs))) (p # q # ps)" and n: "unat (int_no regs) < INTERRUPTS_MAX"
  shows "\<exists>s1 s2. interrupt_handler_unregister s (unat (int_no regs)) p = Inr s1 \<and> interrupt_dispatch s1 regs = Some (Inr s2)
    \<and> handler_calls s2 = handler_calls s @ calls_of s (int_no regs) [p]"
proof -
  let ?n = "unat (int_no regs)" and ?h = "handler_links s"
  have d: "dll ?h p (q # ps)" and hd: "interrupt_handlers s ?n = p" using r by auto
  have nz: "p \<noteq> NULL" "q \<noteq> NULL" "p \<noteq> q" "lnext ?h p = q" using d by (auto simp: dll_def)
  have pz: "lprev ?h p \<noteq> NULL" "lprev ?h p \<noteq> p"
  proof -
    obtain ys y where y: "q # ps = ys @ [y]" by (metis list.distinct(1) rev_exhaust)
    then have "lseg ?h p (ys @ y # []) p" using d by (simp add: dll_def)
    then have "lprev ?h p = y" by (simp add: lseg_append)
    moreover have "y \<in> set (q # ps)" by (simp only: y) simp
    ultimately show "lprev ?h p \<noteq> NULL" "lprev ?h p \<noteq> p" using d by (auto simp: dll_def)
  qed
  obtain h' where R: "LIST_REMOVE p p ?h = Inr (p, h')" "lnext h' p = p" "lprev h' p = p"
    using nz pz by (auto simp: LIST_REMOVE_def get_next_def get_prev_def set_next_def set_prev_def)
  let ?s = "s\<lparr>interrupt_handlers := (interrupt_handlers s)(?n := p), handler_links := h'\<rparr>"
  have "interrupt_handler_unregister s ?n p = Inr ?s" using R(1) n hd by (simp add: interrupt_handler_unregister_def)
  moreover have "ring (handler_links ?s) (interrupt_handlers ?s ?n) [p]" using R nz by (simp add: dll_def)
  ultimately show ?thesis using interrupt_dispatch_ring [of ?s regs "[p]"] n by (auto simp: calls_of_def)
qed

theorem unregister_first_keeps_it_witness:
  "\<exists>s s1 s2. ring (handler_links s) (interrupt_handlers s 5) [0x100, 0x200]
    \<and> interrupt_handler_unregister s 5 0x100 = Inr s1 \<and> interrupt_dispatch s1 demo_regs = Some (Inr s2)
    \<and> handler_calls s2 = handler_calls s @ calls_of s 5 [0x100]"
proof -
  have "\<exists>s'. register_all demo_intr 5 [0x100, 0x200] = Inr s' \<and> ring (handler_links s') (interrupt_handlers s' 5) ([] @ [0x100, 0x200])
    \<and> handler_at s' = handler_at demo_intr \<and> handler_calls s' = handler_calls demo_intr
    \<and> the_controller s' = the_controller demo_intr \<and> controller_at s' = controller_at demo_intr \<and> ports s' = ports demo_intr"
    by (rule register_all_ring) (simp_all add: demo_intr_def INTERRUPTS_MAX_def)
  then obtain s :: intr where r: "ring (handler_links s) (interrupt_handlers s 5) [0x100, 0x200]" unfolding append_Nil by blast
  have i: "int_no demo_regs = 5" by (simp add: demo_regs_def)
  show ?thesis using r unregister_first_keeps_it [of s demo_regs "0x100" "0x200" "[]"] by (auto simp: i INTERRUPTS_MAX_def)
qed

text \<open>A run of nested critical sections from a state with interrupts on: disable goes one level deeper, enable one level up.\<close>

inductive nested :: "intr \<Rightarrow> nat \<Rightarrow> intr \<Rightarrow> bool" for s0 where
  nested_start: "nested s0 0 s0"
| nested_disable: "nested s0 d s \<Longrightarrow> Suc d < 2 ^ 32 \<Longrightarrow> nested s0 (Suc d) (interrupt_disable s)"
| nested_enable: "nested s0 (Suc d) s \<Longrightarrow> nested s0 d (interrupt_enable s)"

inductive_cases nested_sucE: "nested s0 (Suc d) s"

text \<open>C27: the nesting counter is sound: in any properly nested sequence of \<open>interrupt_disable\<close> and \<open>interrupt_enable\<close> from
  a state with interrupts on, the counter is the depth, and interrupts are on exactly at depth zero, so an inner
  pair never switches them on inside an outer section.\<close>

theorem interrupts_off_while_nested:
  assumes "nested s0 d s" and "interrupt_depth s0 = 0" and "if_flag s0"
  shows "unat (interrupt_depth s) = d \<and> (if_flag s \<longleftrightarrow> d = 0)"
  using assms
proof (induction rule: nested.induct)
  case (nested_disable d s)
  then have i: "unat (interrupt_depth s) = d" "if_flag s \<longleftrightarrow> d = 0" by auto
  then have "unat (interrupt_depth s + 1) = Suc d" using nested_disable.hyps(2) by (subst unat_add_no_overflow) auto
  moreover have "interrupt_depth s = 0 \<longleftrightarrow> d = 0" using i(1) by (simp add: word_eq_zero_iff_unat)
  ultimately show ?case using i(2) by (auto simp: interrupt_disable_def arch_interrupt_disable_def Let_def)
next
  case (nested_enable d s)
  then have i: "unat (interrupt_depth s) = Suc d" "\<not> if_flag s" by auto
  have "1 \<le> interrupt_depth s" using i(1) by (simp add: word_le_nat_alt)
  then have "unat (interrupt_depth s - 1) = d" using i(1) by (simp add: unat_sub_no_underflow)
  moreover have "interrupt_depth s = 1 \<longleftrightarrow> d = 0" using i(1) by (auto simp: word_unat_eq_iff)
  ultimately show ?case using i(2) by (auto simp: interrupt_enable_def arch_interrupt_enable_def Let_def)
qed simp

theorem interrupts_off_while_nested_witness:
  "\<not> if_flag (interrupt_enable (interrupt_disable (interrupt_disable demo_intr)))
    \<and> if_flag (interrupt_enable (interrupt_enable (interrupt_disable (interrupt_disable demo_intr))))"
proof -
  have 2: "nested demo_intr (Suc (Suc 0)) (interrupt_disable (interrupt_disable demo_intr))"
    by (intro nested_disable nested_start) simp_all
  have z: "interrupt_depth demo_intr = 0" "if_flag demo_intr" by (simp_all add: demo_intr_def)
  show ?thesis
    using interrupts_off_while_nested [OF nested_enable [OF 2] z]
      interrupts_off_while_nested [OF nested_enable [OF nested_enable [OF 2]] z] by simp
qed

text \<open>The loop of \<open>interrupt_controller_enable\<close> calls mask for interrupts the software mask already has, and unmask for
  those it has not: both calls return at once.\<close>

lemma restore_masks_idle: "restore_masks s = s"
proof -
  have "(if irq_mask s AND push_bit i 1 \<noteq> 0 then snd (interrupt_controller_mask s (of_nat i))
     else snd (interrupt_controller_unmask s (of_nat i))) = s" if "i < 32" for i
  proof -
    have "unat (of_nat i :: u32) = i" using that by (simp add: unat_of_nat take_bit_nat_eq_self)
    then show ?thesis by (simp add: interrupt_controller_mask_def interrupt_controller_unmask_def)
  qed
  then have "fold (\<lambda>i s. if irq_mask s AND push_bit i 1 \<noteq> 0 then snd (interrupt_controller_mask s (of_nat i))
     else snd (interrupt_controller_unmask s (of_nat i))) is s = s" if "set is \<subseteq> {..<32}" for "is"
    using that by (induction "is") auto
  then show ?thesis unfolding restore_masks_def by (simp add: atLeastLessThan_upt [symmetric] lessThan_atLeast0 del: upt.simps)
qed

text \<open>Switching a controller on or off never brings the interrupt mask to the hardware: both directions call the
  driver's \<open>enable\<close>, and the loop that should restore the mask changes nothing. For the 8259 each of them sends exactly
  the eight initialisation words, whatever is masked, and turning it off does not mask it.\<close>

theorem controller_masks_not_restored:
  assumes c: "the_controller s \<noteq> NULL" and e: "ic_enable (ctl s) = Some enable_intel_8259"
  shows "(ic_status (ctl s) = IC_STATUS_DISABLED \<longrightarrow>
      ports (snd (interrupt_controller_enable s)) = init_intel_8259 (ports s) \<and> irq_mask (snd (interrupt_controller_enable s)) = irq_mask s)
    \<and> (ic_status (ctl s) = IC_STATUS_ENABLED \<longrightarrow> ports (snd (interrupt_controller_disable s)) = init_intel_8259 (ports s))"
  using c e by (simp_all add: interrupt_controller_enable_def interrupt_controller_disable_def restore_masks_idle set_status_def opt_call_def
      enable_intel_8259_def)

theorem controller_masks_not_restored_witness:
  "ports (snd (interrupt_controller_enable (demo_intr\<lparr>the_controller := 0x20, irq_mask := 0xFFFF,
     controller_at := (\<lambda>_. (pic_info (\<lambda>_ _. 0))\<lparr>ic_status := IC_STATUS_DISABLED\<rparr>)\<rparr>))) = init_intel_8259 []"
  using controller_masks_not_restored [of "demo_intr\<lparr>the_controller := 0x20, irq_mask := 0xFFFF,
     controller_at := (\<lambda>_. (pic_info (\<lambda>_ _. 0))\<lparr>ic_status := IC_STATUS_DISABLED\<rparr>)\<rparr>"]
  by (simp add: pic_info_def demo_intr_def)

text \<open>A search that has arrived at a controller linked to itself never ends.\<close>

lemma find_from_self_loop:
  assumes "lnext (controller_links s) p = p" and "p \<noteq> controllers_head s" and "p \<noteq> NULL" and "ic_identifier (controller_at s p) \<noteq> c"
  shows "find_from s c p = None"
proof -
  have "\<not> (s' = s \<and> c' = c \<and> node = p)" if "find_from s' c' node = Some r" for s' c' node r
    using that
  proof (induction rule: find_from.raw_induct [rotated, consumes 1, case_names step])
    case (step f s' c' node r)
    then show ?case using assms by (auto simp: list_next_entry_def get_next_def split: if_splits)
  qed
  then show ?thesis by (cases "find_from s c p") auto
qed

text \<open>Unregistering the most recent interrupt controller hangs the next search. The source links the element into the
  list a second time, which makes it its own successor: a later \<open>interrupt_controller_set\<close> for any other
  controller never returns.\<close>

theorem controller_unregister_hangs:
  assumes h: "controllers_head s \<noteq> NULL" and l: "lnext (controller_links s) (controllers_head s) = p" and p: "p \<noteq> NULL" "p \<noteq> controllers_head s"
    and c: "ic_identifier (controller_at s p) \<noteq> c"
  shows "\<exists>s'. interrupt_controller_unregister s p = Inr (0, s') \<and> find_interrupt_controller s' c = None"
proof -
  let ?t = "if the_controller s = p then s\<lparr>the_controller := NULL\<rparr> else s"
  obtain h' where a: "list_add (controller_links s) (controllers_head s) p = Inr h'"
      "lnext h' (controllers_head s) = p" "lnext h' p = p"
    using h l p by (auto simp: list_ops)
  let ?s = "?t\<lparr>controller_links := h'\<rparr>"
  have "interrupt_controller_unregister s p = Inr (0, ?s)" using a(1) by (auto simp: interrupt_controller_unregister_def)
  moreover have "find_from ?s c p = None" by (rule find_from_self_loop) (use a p c in auto)
  ultimately show ?thesis using a h by (intro exI [of _ ?s]) (auto simp: find_interrupt_controller_def list_first_entry_def get_next_def)
qed

theorem controller_unregister_hangs_witness:
  "\<exists>s'. interrupt_controller_unregister demo_intr 0x20 = Inr (0, s') \<and> find_interrupt_controller s' 7 = None"
  by (rule controller_unregister_hangs) (simp_all add: demo_intr_def pic_info_def IC_INTEL_8259_def)

text \<open>The gates decode to the stubs they were made for.\<close>

lemma idt_entry_offset:
  "(ucast (offset_low (idt_set_entry v sel a)) :: u64) OR push_bit 16 (ucast (offset_middle (idt_set_entry v sel a)))
     OR push_bit 32 (ucast (offset_high (idt_set_entry v sel a))) = v"
proof (rule bit_word_eqI)
  fix n assume "n < LENGTH(64)"
  then have n: "n < 64" by simp
  have m16: "(0xFFFF :: u64) = mask 16" and m32: "(0xFFFFFFFF :: u64) = mask 32" by (simp_all add: mask_eq_exp_minus_1)
  consider "n < 16" | "16 \<le> n" "n < 32" | "32 \<le> n" by linarith
  then show "bit ((ucast (offset_low (idt_set_entry v sel a)) :: u64) OR push_bit 16 (ucast (offset_middle (idt_set_entry v sel a)))
     OR push_bit 32 (ucast (offset_high (idt_set_entry v sel a)))) n = bit v n"
    unfolding idt_set_entry_def idt_entry.simps m16 m32 bit_or_iff bit_push_bit_iff
    using n by cases (auto simp: bit_ucast_iff bit_and_iff bit_mask_iff bit_drop_bit_eq)
qed

end
