(* ===== verification/MemInit.thy ===== *)
theory MemInit
  imports Paging Heap Interrupt
begin

text \<open>
  \<open>mm/valloc.c\<close>, \<open>mm/dma.c\<close>, \<open>arch/x86_64/mm/init.c\<close> and \<open>mm/mm.c\<close>: ranges of virtual addresses handed out
  from a watermark, memory for devices, and the start of the memory manager from the regions the boot
  loader reported. The list of regions is a list; the frames of a page that is cleared are those of the
  page-table model. The boundaries of the kernel image and what \<open>kmalloc\<close> returns are arguments.
\<close>

section \<open>Definitions\<close>

definition PCI_START :: u64 where "PCI_START = 0xFFFFFFF000000000"
definition PCI_END :: u64 where "PCI_END = 0xFFFFFFF000100000"
definition DMA_START :: u64 where "DMA_START = 0xFFFFFFF000200000"
definition DMA_END :: u64 where "DMA_END = 0xFFFFFFF000300000"

subsection \<open>valloc.c\<close>

record valloc_region =
  va_base :: addr_t
  va_extent :: size_t
  va_current :: addr_t

text \<open>\<open>ok\<close> tells whether \<open>kmalloc\<close> has memory for the structure.\<close>

definition valloc_create :: "bool \<Rightarrow> addr_t \<Rightarrow> size_t \<Rightarrow> valloc_region option" where
  "valloc_create ok base ext = (if \<not> ok then None else Some \<lparr>va_base = base, va_extent = ext, va_current = base\<rparr>)"

definition valloc_alloc :: "valloc_region option \<Rightarrow> size_t \<Rightarrow> (addr_t \<times> valloc_region option) res" where
  "valloc_alloc region sz =
     (case region of None \<Rightarrow> Inl NullDeref
      | Some r \<Rightarrow> if va_current r + sz > va_base r + va_extent r then Inr (0, region)
          else Inr (va_current r, Some (r\<lparr>va_current := va_current r + sz\<rparr>)))"

definition valloc_free :: "valloc_region option \<Rightarrow> addr_t \<Rightarrow> valloc_region option" where
  "valloc_free region a = region"

subsection \<open>dma.c\<close>

record dma_block =
  dma_physical_base :: addr_t
  dma_virtual_base :: addr_t
  dma_extent :: size_t

record dma =
  dma_vm :: vm
  dma_region :: "valloc_region option"

text \<open>\<open>memset\<close> of whole pages, page by page.\<close>

fun zero_pages :: "nat \<Rightarrow> addr_t \<Rightarrow> vm \<Rightarrow> vm res" where
  "zero_pages 0 a s = Inr s"
| "zero_pages (Suc n) a s = bind_res (zero_table s a) (zero_pages n (a + PAGE_SIZE))"

definition dma_alloc :: "bool \<Rightarrow> dma \<Rightarrow> size_t \<Rightarrow> (dma_block \<times> dma) res option" where
  "dma_alloc ok s sz0 =
     (let sz = ROUND_UP sz0 0x1000 in
      case vm_physical_alloc (dma_vm s) sz PHYS_DMA of Inl e \<Rightarrow> Some (Inl e)
      | Inr (physical, v) \<Rightarrow> (case valloc_alloc (dma_region s) sz of Inl e \<Rightarrow> Some (Inl e)
        | Inr (virtual, r) \<Rightarrow>
            map_option (\<lambda>x. bind_res x (\<lambda>v.
                 bind_res (zero_pages (unat sz div 4096) virtual v) (\<lambda>v.
                 if \<not> ok then Inl NullDeref
                 else Inr (\<lparr>dma_physical_base = physical, dma_virtual_base = virtual, dma_extent = sz\<rparr>, \<lparr>dma_vm = v, dma_region = r\<rparr>))))
                 (virtual_map v (Some (kernel_context v)) virtual physical sz (PAGE_PRESENT OR PAGE_WRITABLE))))"

definition dma_init :: "bool \<Rightarrow> dma \<Rightarrow> dma" where
  "dma_init ok s = s\<lparr>dma_region := valloc_create ok DMA_START (DMA_END - DMA_START)\<rparr>"

subsection \<open>arch/x86_64/mm/init.c\<close>

definition MEMORY_TYPE_AVAILABLE :: u8 where "MEMORY_TYPE_AVAILABLE = 1"
definition MEMORY_TYPE_RESERVED :: u8 where "MEMORY_TYPE_RESERVED = 2"
definition MEMORY_TYPE_ACPI :: u8 where "MEMORY_TYPE_ACPI = 3"
definition MEMORY_TYPE_BAD :: u8 where "MEMORY_TYPE_BAD = 5"

record mint_memory_region =
  mr_addr :: addr_t
  mr_size :: size_t
  mr_type :: u8

record mint_bootinfo =
  cmdline :: addr_t
  total_mem :: size_t
  highest_mem :: addr_t
  num_memregions :: u8
  memregions :: "mint_memory_region list"

text \<open>Tables are reached through the mapping of physical memory at \<open>VMA_BASE\<close>.\<close>

definition x86_64_patch_pml4 :: "vm \<Rightarrow> vm" where
  "x86_64_patch_pml4 s =
     (let pml4 = vm_cr3 s + VMA_BASE; f = frame_of (vm_cr3 s);
          s = set_page s f (ucast RECURSIVE_ENTRY) (\<lambda>p. p\<lparr>present := True, writable := True, address := frame_of (pml4 - VMA_BASE)\<rparr>);
          s = set_page s f 0 (\<lambda>p. p\<lparr>address := 0, present := False\<rparr>)
      in s\<lparr>kernel_context := memory_context.make (pml4 - VMA_BASE) pml4\<rparr>)"

text \<open>\<open>final_pml4\<close> is the address of the table in the kernel image.\<close>

definition x86_64_finalize_paging :: "addr_t \<Rightarrow> vm \<Rightarrow> vm res option" where
  "x86_64_finalize_paging final_pml4 s =
     (let f = frame_of (final_pml4 - VMA_BASE);
          s = s\<lparr>frames := (frames s)(f := (\<lambda>_. zero_page))\<rparr>;
          new_context = memory_context.make (final_pml4 - VMA_BASE) final_pml4;
          s = set_page s f (ucast RECURSIVE_ENTRY) (\<lambda>p. p\<lparr>address := frame_of (memory_context.physical_base new_context), present := True, writable := True\<rparr>)
      in Option.bind (virtual_map s (Some new_context) KERNEL_START KERNEL_PHYS (KERNEL_END - KERNEL_START) (PAGE_PRESENT OR PAGE_WRITABLE)) (\<lambda>r1.
         case r1 of Inl e \<Rightarrow> Some (Inl e)
         | Inr s \<Rightarrow> map_option (\<lambda>r2. bind_res r2 (\<lambda>s. Inr (s\<lparr>kernel_context := new_context, vm_cr3 := memory_context.physical_base new_context\<rparr>)))
             (virtual_map s (Some new_context) VGA_START VGA_PHYS (VGA_END - VGA_START) (PAGE_PRESENT OR PAGE_WRITABLE))))"

definition update_region :: "addr_t \<Rightarrow> mint_memory_region \<Rightarrow> mint_memory_region" where
  "update_region he r =
     (if mr_addr r < he \<and> mr_addr r + mr_size r > he \<and> mr_type r = MEMORY_TYPE_AVAILABLE
      then let overlap = he - mr_addr r in r\<lparr>mr_addr := he, mr_size := mr_size r - overlap\<rparr> else r)"

text \<open>\<open>mark\<close> is what \<open>kmalloc(0)\<close> returns.\<close>

definition x86_64_update_map :: "addr_t \<Rightarrow> mint_bootinfo \<Rightarrow> mint_bootinfo" where
  "x86_64_update_map mark b = b\<lparr>memregions := map (update_region (ROUND_UP mark 0x1000 - VMA_BASE)) (memregions b)\<rparr>"

definition x86_64_install_handler :: "addr_t \<Rightarrow> addr_t \<Rightarrow> intr \<Rightarrow> intr res" where
  "x86_64_install_handler hp fn i =
     exception_handler_register (i\<lparr>handler_at := (handler_at i)(hp := \<lparr>handler = fn, dev_name = ''page fault'', dev_id = fn\<rparr>)\<rparr>) 14 hp"

definition round_region :: "mint_memory_region \<Rightarrow> mint_memory_region" where
  "round_region r = r\<lparr>mr_addr := ROUND_UP (mr_addr r) 0x1000, mr_size := ROUND_DOWN (mr_size r) 0x1000\<rparr>"

text \<open>\<open>physical_free_region\<close> on the machine, where every block that is pushed moves the window.\<close>

definition vm_free_region :: "vm \<Rightarrow> addr_t \<Rightarrow> size_t \<Rightarrow> vm res option" where
  "vm_free_region s start sz =
     map_option (\<lambda>x. bind_res x (\<lambda>(m, P). bind_res (show_pages (window_maps m) s) (\<lambda>s. Inr (s\<lparr>vm_kmem := m, vm_phys := P\<rparr>))))
       (physical_free_region ((vm_kmem s)\<lparr>window_maps := []\<rparr>) (vm_phys s) start sz)"

fun free_regions :: "mint_memory_region list \<Rightarrow> vm \<Rightarrow> (mint_memory_region list \<times> vm) res option" where
  "free_regions [] s = Some (Inr ([], s))"
| "free_regions (r # rs) s =
     (let r = round_region r in
      Option.bind (if mr_type r = MEMORY_TYPE_AVAILABLE then vm_free_region s (mr_addr r) (mr_size r) else Some (Inr s)) (\<lambda>x. case x of Inl e \<Rightarrow> Some (Inl e)
        | Inr s \<Rightarrow> map_option (\<lambda>y. bind_res y (\<lambda>(rs, s). Inr (r # rs, s))) (free_regions rs s)))"

text \<open>\<open>kmalloc_ok\<close>, \<open>raw1\<close>, \<open>raw2\<close> are what the heap gives \<open>physical_init\<close>; \<open>hp\<close> and \<open>fn\<close> the handler structure and
  function.\<close>

definition arch_mm_init ::
  "(size_t \<Rightarrow> bool) \<Rightarrow> buddy_order list \<Rightarrow> buddy_order list \<Rightarrow> addr_t \<Rightarrow> addr_t \<Rightarrow> addr_t \<Rightarrow> addr_t \<Rightarrow> mint_bootinfo \<Rightarrow> intr \<Rightarrow> vm
   \<Rightarrow> (mint_bootinfo \<times> intr \<times> vm) res option" where
  "arch_mm_init kmalloc_ok raw1 raw2 hp fn mark final_pml4 b i s =
     (case x86_64_install_handler hp fn i of Inl e \<Rightarrow> Some (Inl e)
      | Inr i \<Rightarrow> let s = x86_64_patch_pml4 s in
         (case physical_init kmalloc_ok raw1 raw2 (highest_mem b) DMA_MAX of Inl e \<Rightarrow> Some (Inl e)
          | Inr P \<Rightarrow> let s = s\<lparr>vm_phys := P\<rparr>; b = x86_64_update_map mark b in
             Option.bind (free_regions (memregions b) s) (\<lambda>x. case x of Inl e \<Rightarrow> Some (Inl e)
             | Inr (rs, s) \<Rightarrow> map_option (\<lambda>y. bind_res y (\<lambda>s. Inr (b\<lparr>memregions := rs\<rparr>, i, s))) (x86_64_finalize_paging final_pml4 s))))"

subsection \<open>mm.c\<close>

text \<open>\<open>h\<close> is the heap after the allocations of \<open>physical_init\<close>, \<open>mark\<close> its watermark.\<close>

definition mm_init ::
  "(size_t \<Rightarrow> bool) \<Rightarrow> buddy_order list \<Rightarrow> buddy_order list \<Rightarrow> addr_t \<Rightarrow> addr_t \<Rightarrow> addr_t \<Rightarrow> addr_t \<Rightarrow> bool \<Rightarrow> mint_bootinfo \<Rightarrow> intr \<Rightarrow> heap \<Rightarrow> vm
   \<Rightarrow> (mint_bootinfo \<times> intr \<times> heap \<times> dma) res option" where
  "mm_init kmalloc_ok raw1 raw2 hp fn mark final_pml4 ok b i h s =
     map_option (\<lambda>y. bind_res y (\<lambda>(b, i, s).
         Inr (b, i, kmalloc_init h, dma_init ok \<lparr>dma_vm = s, dma_region = None\<rparr>)))
       (arch_mm_init kmalloc_ok raw1 raw2 hp fn mark final_pml4 b i s)"

section \<open>Address ranges\<close>

text \<open>A region is an allocator with a watermark.\<close>

definition valloc_mark :: "valloc_region option \<Rightarrow> addr_t" where
  "valloc_mark ro = (case ro of None \<Rightarrow> NULL | Some r \<Rightarrow> va_current r)"

definition valloc_limit :: "valloc_region option \<Rightarrow> nat" where
  "valloc_limit ro = (case ro of None \<Rightarrow> 0 | Some r \<Rightarrow> unat (va_base r) + unat (va_extent r))"

definition valloc_ready :: "valloc_region option \<Rightarrow> bool" where
  "valloc_ready ro \<longleftrightarrow> valloc_mark ro \<noteq> NULL \<and> unat (valloc_mark ro) \<le> valloc_limit ro \<and> valloc_limit ro < 2 ^ 64"

lemmas valloc_defs = valloc_mark_def valloc_limit_def valloc_ready_def

interpretation va: watermark valloc_alloc valloc_mark valloc_limit valloc_ready
proof (unfold_locales, goal_cases)
  case (1 s)
  then show ?case by (simp add: valloc_ready_def)
next
  case (2 s sz)
  then obtain r where s: "s = Some r" by (cases s) (auto simp: valloc_defs)
  have c: "unat (va_current r + sz) = unat (va_current r) + unat sz" "unat (va_base r + va_extent r) = unat (va_base r) + unat (va_extent r)"
    using 2 by (simp_all add: s valloc_defs unat_add_no_overflow)
  have "va_current r + sz \<noteq> 0" using 2 c(1) by (auto simp: s valloc_defs word_eq_zero_iff_unat)
  then show ?case using 2 c by (simp add: s valloc_defs valloc_alloc_def word_less_nat_alt)
next
  case (3 s sz)
  then obtain r where s: "s = Some r" by (cases s) (auto simp: valloc_defs)
  have c: "unat (va_current r + sz) = unat (va_current r) + unat sz" "unat (va_base r + va_extent r) = unat (va_base r) + unat (va_extent r)"
    using 3 by (simp_all add: s valloc_defs unat_add_no_overflow)
  then show ?case using 3 by (simp add: s valloc_defs valloc_alloc_def word_less_nat_alt)
qed

section \<open>Properties\<close>

text \<open>C34: the ranges a region hands out do not overlap. From a region that ends below \<open>2\<^sup>64\<close>, with sizes that do not carry its
  end past that, every allocation returns, and the ranges of those that returned an address lie in the region and are
  pairwise disjoint.\<close>

theorem valloc_disjoint:
  assumes "unat base + unat ext < 2 ^ 64" and "0 < base" and "\<forall>sz \<in> set szs. unat base + unat ext + unat sz < 2 ^ 64"
  shows "\<exists>as r'. reserve_all valloc_alloc (valloc_create True base ext) szs = Inr (as, r') \<and> length as = length szs
    \<and> (\<forall>i < length as. as ! i \<noteq> 0 \<longrightarrow> range_of (as ! i) (szs ! i) \<subseteq> range_of base ext)
    \<and> (\<forall>i < length as. \<forall>j < i. as ! i \<noteq> 0 \<and> as ! j \<noteq> 0 \<longrightarrow> range_of (as ! i) (szs ! i) \<inter> range_of (as ! j) (szs ! j) = {})"
proof -
  have "valloc_ready (valloc_create True base ext)" "valloc_limit (valloc_create True base ext) = unat base + unat ext"
      "valloc_mark (valloc_create True base ext) = base"
    using assms(1,2) by (auto simp: valloc_create_def valloc_defs)
  then show ?thesis using va.reserve_all_ranges [of "valloc_create True base ext" szs] assms(3) by (auto simp: range_of_def [of base])
qed

theorem valloc_disjoint_witness:
  "\<exists>as r'. reserve_all valloc_alloc (valloc_create True DMA_START 0x100000) [0x1000, 0x2000] = Inr (as, r') \<and> length as = 2
    \<and> (as ! 1 \<noteq> 0 \<and> as ! 0 \<noteq> 0 \<longrightarrow> range_of (as ! 1) 0x2000 \<inter> range_of (as ! 0) 0x1000 = {})"
proof -
  obtain as r' where as: "reserve_all valloc_alloc (valloc_create True DMA_START 0x100000) [0x1000, 0x2000] = Inr (as, r')" "length as = 2"
      "\<forall>i < length as. \<forall>j < i. as ! i \<noteq> 0 \<and> as ! j \<noteq> 0 \<longrightarrow> range_of (as ! i) ([0x1000, 0x2000] ! i) \<inter> range_of (as ! j) ([0x1000, 0x2000] ! j) = {}"
    using valloc_disjoint [of DMA_START "0x100000" "[0x1000, 0x2000]"] by (auto simp: DMA_START_def simp del: reserve_all.simps)
  from as(3) [rule_format, of 1 0] as(1,2) show ?thesis by simp
qed

text \<open>The check is not safe against overflow: a size that carries the sum past \<open>2\<^sup>64\<close> moves the watermark back.\<close>

lemma valloc_wraps:
  "valloc_alloc (Some \<lparr>va_base = DMA_START, va_extent = 0x100000, va_current = DMA_START + 0x1000\<rparr>) (- 0x1000)
    = Inr (DMA_START + 0x1000, Some \<lparr>va_base = DMA_START, va_extent = 0x100000, va_current = DMA_START\<rparr>)"
  by (simp add: valloc_alloc_def DMA_START_def)

text \<open>Which pages of a memory region are given to the physical memory manager. The start is rounded up and the size down,
  independently. For a region that starts on a page boundary that is exactly its whole pages; for one that
  does not and has a size of whole pages, the range given away ends past the region, by less than a page.\<close>

theorem round_region_pages:
  assumes "unat (mr_addr r) + unat (mr_size r) + 0x2000 < 2 ^ 64"
  shows "(4096 dvd unat (mr_addr r) \<longrightarrow> mr_addr (round_region r) = mr_addr r \<and> unat (mr_size (round_region r)) \<le> unat (mr_size r)
      \<and> unat (mr_size r) < unat (mr_size (round_region r)) + 4096)
    \<and> (\<not> 4096 dvd unat (mr_addr r) \<and> 4096 dvd unat (mr_size r) \<longrightarrow>
      unat (mr_addr r) + unat (mr_size r) < unat (mr_addr (round_region r)) + unat (mr_size (round_region r))
      \<and> unat (mr_addr (round_region r)) + unat (mr_size (round_region r)) < unat (mr_addr r) + unat (mr_size r) + 4096)"
proof -
  let ?a = "unat (mr_addr r)" and ?s = "unat (mr_size r)"
  have a: "unat (ROUND_UP (mr_addr r) 0x1000) = (?a + 4095) div 4096 * 4096" using assms by (subst unat_ROUND_UP) simp_all
  have s: "unat (ROUND_DOWN (mr_size r) 0x1000) = ?s div 4096 * 4096" by (simp add: unat_ROUND_DOWN)
  have al: "(?a + 4095) div 4096 * 4096 = ?a" if "4096 dvd ?a" using that by (auto elim!: dvdE)
  have "mr_addr (round_region r) = mr_addr r" if "4096 dvd ?a" using a al [OF that] by (simp add: round_region_def word_unat_eq_iff)
  moreover have "?s div 4096 * 4096 \<le> ?s" "?s < ?s div 4096 * 4096 + 4096" "4096 dvd ?s \<Longrightarrow> ?s div 4096 * 4096 = ?s"
    using dividend_less_div_times [of 4096 ?s] by (simp_all add: add.commute)
  moreover have u: "?a \<le> (?a + 4095) div 4096 * 4096" "(?a + 4095) div 4096 * 4096 < ?a + 4096"
    using nat_round_up_bounds [of 4096 ?a] by simp_all
  moreover have "?a < (?a + 4095) div 4096 * 4096" if "\<not> 4096 dvd ?a"
  proof -
    have "?a \<noteq> (?a + 4095) div 4096 * 4096" using that by (metis dvd_triv_right)
    then show ?thesis using u(1) by simp
  qed
  ultimately show ?thesis using a s by (simp add: round_region_def)
qed

theorem round_region_pages_witness:
  "0x1100 < unat (mr_addr (round_region \<lparr>mr_addr = 0x100, mr_size = 0x1000, mr_type = 1\<rparr>))
     + unat (mr_size (round_region \<lparr>mr_addr = 0x100, mr_size = 0x1000, mr_type = 1\<rparr>))"
  using round_region_pages [of "\<lparr>mr_addr = 0x100, mr_size = 0x1000, mr_type = 1\<rparr>"] by simp

text \<open>An available region that holds the end of the early heap keeps only what lies above it.\<close>

lemma update_region_above:
  assumes "mr_type r = MEMORY_TYPE_AVAILABLE" and "unat (mr_addr r) + unat (mr_size r) < 2 ^ 64"
    and "unat (mr_addr r) \<le> unat he" and "unat he < unat (mr_addr r) + unat (mr_size r)"
  shows "mr_addr (update_region he r) = he"
    and "unat he + unat (mr_size (update_region he r)) = unat (mr_addr r) + unat (mr_size r)"
proof -
  have "unat (mr_addr r + mr_size r) = unat (mr_addr r) + unat (mr_size r)" using assms(2) by (subst unat_add_no_overflow) simp_all
  moreover have o: "unat (he - mr_addr r) = unat he - unat (mr_addr r)" using assms(3) by (subst unat_sub_no_underflow) (simp_all add: word_le_nat_alt)
  moreover have "unat (mr_size r - (he - mr_addr r)) = unat (mr_size r) - (unat he - unat (mr_addr r))"
    using assms(3,4) o by (subst unat_sub_no_underflow) (simp_all add: word_le_nat_alt)
  ultimately show "mr_addr (update_region he r) = he" "unat he + unat (mr_size (update_region he r)) = unat (mr_addr r) + unat (mr_size r)"
    using assms by (auto simp: update_region_def Let_def word_less_nat_alt word_unat_eq_iff)
qed

text \<open>A request that the DMA zone cannot satisfy is not noticed: \<open>dma_alloc\<close> maps physical address zero.\<close>

lemma dma_alloc_exhausted:
  assumes "vm_physical_alloc (dma_vm s) (ROUND_UP sz 0x1000) PHYS_DMA = Inr (NULL, v)"
    and "dma_alloc True s sz = Some (Inr (b, s'))"
  shows "dma_physical_base b = NULL"
  using assms by (auto simp: dma_alloc_def bind_res_Inr_iff Let_def split: sum.splits)

end
