(* ===== verification/Printf.thy ===== *)
theory Printf
  imports Prelude
begin

text \<open>
  \<open>lib/printf.c\<close>: formatted output. The three unsigned conversions are the same code at three widths and one definition
  polymorphic in the width here; its loops are partial functions, None where they do not end. A format is its characters, the arguments are
  the values \<open>va_arg\<close> finds (64-bit registers, or strings), and what lies on the stack behind the digits of a field
  width, which the source reads, is the parameter \<open>junk\<close>. A width of six digits is written past that array, and one above
  the largest \<open>int\<close> makes a negative padding whose loop counts below the smallest \<open>int\<close>; both are \<open>OutOfBounds\<close>.
\<close>

section \<open>Definitions\<close>

subsection \<open>Numbers\<close>

partial_function (option) find_divisor :: "'n::len word \<Rightarrow> 'n word \<Rightarrow> 'n word \<Rightarrow> 'n word option" where
  "find_divisor num base d = (if num div d \<ge> base then find_divisor num base (d * base) else Some d)"

definition digit_char :: "bool \<Rightarrow> nat \<Rightarrow> char" where
  "digit_char uppercase dgt = char_of (dgt + (if dgt < 10 then 48 else (if uppercase then 65 else 97) - 10))"

partial_function (option) emit_digits :: "bool \<Rightarrow> 'n::len word \<Rightarrow> 'n word \<Rightarrow> 'n word \<Rightarrow> bool \<Rightarrow> string option" where
  "emit_digits uppercase base num d n =
     (if d = 0 then Some []
      else let dgt = num div d; num = num mod d; d = d div base
           in Option.bind (emit_digits uppercase base num d (n \<or> dgt > 0 \<or> d = 0))
                (\<lambda>r. Some (if n \<or> dgt > 0 \<or> d = 0 then digit_char uppercase (unat dgt) # r else r)))"

text \<open>The string \<open>ull2a\<close>, \<open>ul2a\<close> and \<open>ui2a\<close> leave in the buffer.\<close>

definition unsigned2a :: "'n::len word \<Rightarrow> 'n word \<Rightarrow> bool \<Rightarrow> bool \<Rightarrow> string option" where
  "unsigned2a num base uppercase is_negative =
     Option.bind (find_divisor num base 1) (\<lambda>d.
     Option.bind (emit_digits uppercase base num d False) (\<lambda>s.
       Some (if is_negative then CHR ''-'' # s else s)))"

definition ui2a :: "u32 \<Rightarrow> u32 \<Rightarrow> bool \<Rightarrow> bool \<Rightarrow> string option" where
  "ui2a = unsigned2a"

definition ul2a :: "u64 \<Rightarrow> u64 \<Rightarrow> bool \<Rightarrow> bool \<Rightarrow> string option" where
  "ul2a = unsigned2a"

definition ull2a :: "u64 \<Rightarrow> u64 \<Rightarrow> bool \<Rightarrow> bool \<Rightarrow> string option" where
  "ull2a = unsigned2a"

text \<open>The parameter of all three signed conversions is an \<open>int\<close>; the wider ones then widen the value with its sign.\<close>

definition i2a :: "u32 \<Rightarrow> string option" where
  "i2a num = (if num <s 0 then ui2a (- num) 10 False True else ui2a num 10 False False)"

definition l2a :: "u32 \<Rightarrow> string option" where
  "l2a num = (if num <s 0 then ul2a (scast (- num)) 10 False True else ul2a (scast num) 10 False False)"

definition ll2a :: "u32 \<Rightarrow> string option" where
  "ll2a num = (if num <s 0 then ull2a (scast (- num)) 10 False True else ull2a (scast num) 10 False False)"

text \<open>\<open>a2u\<close> stops at a character below \<open>'0'\<close> or above \<open>':'\<close>; the end of the list stands for such a character.\<close>

fun a2u_loop :: "u32 \<Rightarrow> string \<Rightarrow> u32" where
  "a2u_loop num [] = num"
| "a2u_loop num (c # cs) =
     (if of_char c < (48 :: nat) \<or> of_char c > (58 :: nat) then num else a2u_loop (num * 10 + of_nat (of_char c - 48)) cs)"

definition a2u :: "string \<Rightarrow> u32" where
  "a2u src = a2u_loop 0 src"

subsection \<open>Formats\<close>

datatype parg = Num u64 | Str string

record parameters =
  uppercase :: bool
  padding :: nat
  zero_pad :: bool

text \<open>\<open>puts\<close>: what it sends to the output for a message.\<close>

definition puts :: "parameters \<Rightarrow> string \<Rightarrow> string" where
  "puts params message = replicate (padding params - length message) (if zero_pad params then CHR ''0'' else CHR '' '') @ message"

definition num_arg :: "parg list \<Rightarrow> (u64 \<times> parg list) res" where
  "num_arg args = (case args of Num v # as \<Rightarrow> Inr (v, as) | _ \<Rightarrow> Inl Uninitialised)"

text \<open>A conversion that takes a number: the text it makes of it, padded.\<close>

definition conv_num :: "parameters \<Rightarrow> (u64 \<Rightarrow> string option) \<Rightarrow> parg list \<Rightarrow> (string \<times> parg list) res option" where
  "conv_num params f args =
     (case num_arg args of Inl e \<Rightarrow> Some (Inl e)
      | Inr (v, as) \<Rightarrow> map_option (\<lambda>s. Inr (puts params s, as)) (f v))"

definition hex_by_length :: "nat \<Rightarrow> bool \<Rightarrow> u64 \<Rightarrow> string option" where
  "hex_by_length lng up v = (if lng = 0 then ui2a (ucast v) 16 up False else if lng = 1 then ul2a v 16 up False else ull2a v 16 up False)"

text \<open>The switch: the output of one conversion and the arguments left. An unknown letter prints nothing.\<close>

definition convert :: "parameters \<Rightarrow> nat \<Rightarrow> char \<Rightarrow> parg list \<Rightarrow> (string \<times> parg list) res option" where
  "convert params lng c args =
     (if c = CHR ''c'' then (case num_arg args of Inl e \<Rightarrow> Some (Inl e) | Inr (v, as) \<Rightarrow> Some (Inr ([char_of (unat v)], as)))
      else if c = CHR ''d'' \<or> c = CHR ''i'' then
        conv_num params (\<lambda>v. if lng = 0 then i2a (ucast v) else if lng = 1 then l2a (ucast v) else ll2a (ucast v)) args
      else if c = CHR ''u'' then
        conv_num params (\<lambda>v. if lng = 0 then ui2a (ucast v) 10 False False else if lng = 1 then ul2a v 10 False False else ull2a v 10 False False) args
      else if c = CHR ''o'' then conv_num params (\<lambda>v. ui2a (ucast v) 8 False False) args
      else if c = CHR ''s'' then (case args of Str s # as \<Rightarrow> Some (Inr (puts params s, as)) | _ \<Rightarrow> Some (Inl Uninitialised))
      else if c = CHR ''p'' then
        map_option (\<lambda>r. bind_res r (\<lambda>(s, as). Inr (puts params ''0x'' @ s, as)))
          (conv_num (params\<lparr>zero_pad := True, padding := 16\<rparr>) (hex_by_length 1 True) args)
      else if c = CHR ''X'' then conv_num params (hex_by_length lng True) args
      else if c = CHR ''x'' then conv_num params (hex_by_length lng False) args
      else if c = CHR ''%'' then Some (Inr (''%'', args))
      else Some (Inr ([], args)))"

definition is_digit :: "char \<Rightarrow> bool" where
  "is_digit c \<longleftrightarrow> (48 :: nat) \<le> of_char c \<and> of_char c \<le> (57 :: nat)"

text \<open>The part of a conversion between the percent sign and the letter: zero flag, width (five bytes of stack hold its
  digits), length, and the rest of the format.\<close>

definition parse_spec :: "string \<Rightarrow> string \<Rightarrow> (parameters \<times> nat \<times> string) res" where
  "parse_spec junk pos =
     (let zero = (pos \<noteq> [] \<and> hd pos = CHR ''0'');
          pos = (if zero then tl pos else pos);
          digits = takeWhile is_digit pos;
          pos = dropWhile is_digit pos;
          width = (if digits = [] then 0 else unat (a2u (digits @ drop (length digits) junk)));
          lng = length (takeWhile (\<lambda>c. c = CHR ''l'') (take 2 pos));
          pos = drop lng pos
      in if length digits > 5 \<or> width \<ge> 2 ^ 31 then Inl OutOfBounds
         else Inr (\<lparr>uppercase = False, padding = width, zero_pad = zero\<rparr>, lng, pos))"

lemma parse_spec_shorter: "parse_spec junk pos = Inr (params, lng, rest) \<Longrightarrow> length rest \<le> length pos"
  by (auto simp: parse_spec_def Let_def split: if_splits)
    (metis diff_le_self le_trans length_dropWhile_le length_tl)+

text \<open>The format loop: the output so far comes back extended. The terminator of the format right behind a percent sign is
  skipped, and the loop runs on past the string.\<close>

function printf_format :: "string \<Rightarrow> string \<Rightarrow> parg list \<Rightarrow> string res option" where
  "printf_format junk [] args = Some (Inr [])"
| "printf_format junk (c # pos) args =
     (if c = CHR ''%''
      then case parse_spec junk pos of Inl e \<Rightarrow> Some (Inl e)
        | Inr (params, lng, []) \<Rightarrow> Some (Inl OutOfBounds)
        | Inr (params, lng, conv # rest) \<Rightarrow>
            (case convert params lng conv args of None \<Rightarrow> None | Some (Inl e) \<Rightarrow> Some (Inl e)
             | Some (Inr (out, args')) \<Rightarrow> map_option (\<lambda>r. bind_res r (\<lambda>out'. Inr (out @ out'))) (printf_format junk rest args'))
      else map_option (\<lambda>r. bind_res r (\<lambda>out. Inr (c # out))) (printf_format junk pos args))"
  by pat_completeness auto
termination
  by (relation "measure (\<lambda>(junk, fmt, args). length fmt)") (auto dest: parse_spec_shorter)

text \<open>\<open>snprintf_putcf\<close> drops what does not fit, \<open>sprintf_putcf\<close> drops nothing. The result is what is in the buffer and the
  returned count. The terminator goes to \<open>s[used]\<close>.\<close>

definition snprintf_putcf :: "size_t \<Rightarrow> string \<Rightarrow> char \<Rightarrow> string" where
  "snprintf_putcf mx out c = (if length out < unat mx then out @ [c] else out)"

definition sprintf_putcf :: "string \<Rightarrow> char \<Rightarrow> string" where
  "sprintf_putcf out c = out @ [c]"

definition vsprintf :: "string \<Rightarrow> string \<Rightarrow> parg list \<Rightarrow> (string \<times> u32) res option" where
  "vsprintf junk format args =
     map_option (\<lambda>r. bind_res r (\<lambda>cs. let out = foldl sprintf_putcf [] cs in Inr (out @ [char_of (0::nat)], of_nat (length out))))
       (printf_format junk format args)"

definition vsnprintf :: "string \<Rightarrow> size_t \<Rightarrow> string \<Rightarrow> parg list \<Rightarrow> (string \<times> u32) res option" where
  "vsnprintf junk sz format args =
     map_option (\<lambda>r. bind_res r (\<lambda>cs. let out = foldl (snprintf_putcf sz) [] cs in
        if length out < unat sz then Inr (out @ [char_of (0::nat)], of_nat (length out)) else Inl OutOfBounds))
       (printf_format junk format args)"

definition sprintf :: "string \<Rightarrow> string \<Rightarrow> parg list \<Rightarrow> (string \<times> u32) res option" where
  "sprintf junk format args = vsprintf junk format args"

definition snprintf :: "string \<Rightarrow> size_t \<Rightarrow> string \<Rightarrow> parg list \<Rightarrow> (string \<times> u32) res option" where
  "snprintf junk sz format args = vsnprintf junk sz format args"

section \<open>Digits\<close>

text \<open>The reference: the digits of a number, without leading zeros.\<close>

function digits_of :: "nat \<Rightarrow> nat \<Rightarrow> nat list" where
  "digits_of b n = (if n < b \<or> b \<le> 1 then [n] else digits_of b (n div b) @ [n mod b])"
  by pat_completeness auto
termination
proof (relation "measure (\<lambda>(b, n). n)")
  fix b n :: nat assume "\<not> (n < b \<or> b \<le> 1)"
  then show "((b, n div b), b, n) \<in> measure (\<lambda>(b, n). n)" using div_less_dividend [of b n] by simp
qed simp

declare digits_of.simps [simp del]

primrec fixed_digits :: "nat \<Rightarrow> nat \<Rightarrow> nat \<Rightarrow> nat list" where
  "fixed_digits b 0 n = []"
| "fixed_digits b (Suc m) n = n div b ^ m # fixed_digits b m (n mod b ^ m)"

lemma fixed_digits_snoc: "0 < b \<Longrightarrow> fixed_digits b (Suc m) n = fixed_digits b m (n div b) @ [n mod b]" if "n < b ^ Suc m"
  using that
proof (induction m arbitrary: n)
  case (Suc m)
  have "n mod b ^ Suc m < b ^ Suc m" using Suc.prems by simp
  then have IH: "fixed_digits b (Suc m) (n mod b ^ Suc m) = fixed_digits b m (n mod b ^ Suc m div b) @ [n mod b ^ Suc m mod b]"
    using Suc.IH [of "n mod b ^ Suc m"] Suc.prems(1) by blast
  have "n mod b ^ Suc m div b = n div b mod b ^ m" by (simp add: mod_mult2_eq Suc.prems(1))
  moreover have "n mod b ^ Suc m mod b = n mod b" by (rule mod_mod_cancel) simp
  moreover have "n div b ^ Suc m = n div b div b ^ m" by (simp add: div_mult2_eq)
  ultimately show ?case using IH by (subst fixed_digits.simps(2)) simp
qed simp

lemma fixed_digits_of:
  assumes "1 < b" and "n < b ^ Suc m" and "m = 0 \<or> b ^ m \<le> n"
  shows "fixed_digits b (Suc m) n = digits_of b n"
  using assms
proof (induction m arbitrary: n)
  case 0
  then show ?case by (simp add: digits_of.simps)
next
  case (Suc m)
  have n: "\<not> n < b" using Suc.prems by (metis One_nat_def Suc_leI le_trans linorder_not_less nat_less_le power_increasing power_one_right zero_less_Suc nat.distinct(1))
  have "n div b < b ^ Suc m" using Suc.prems(2) by (intro less_mult_imp_div_less) (simp add: mult.commute)
  moreover have "m = 0 \<or> b ^ m \<le> n div b" using Suc.prems(1,3) by (auto simp: less_eq_div_iff_mult_less_eq mult.commute)
  ultimately have "fixed_digits b (Suc m) (n div b) = digits_of b (n div b)" by (rule Suc.IH [OF Suc.prems(1)])
  then show ?case using fixed_digits_snoc [OF Suc.prems(2)] Suc.prems(1) n by (subst digits_of.simps) simp
qed

lemma unat_div_word: "unat (a div b) = unat a div unat b" for a b :: "'n::len word"
  by (rule unat_div_distrib)

lemma find_divisor_power:
  assumes b: "1 < unat base" and d: "unat d = unat base ^ k" and k: "k = 0 \<or> unat base ^ k \<le> unat num"
  shows "\<exists>d' m. find_divisor num base d = Some d' \<and> unat d' = unat base ^ m \<and> unat num < unat base ^ Suc m
    \<and> (m = 0 \<or> unat base ^ m \<le> unat num)"
  using d k
proof (induction "unat num - k" arbitrary: d k rule: less_induct)
  case less
  show ?case
  proof (cases "num div d \<ge> base")
    case True
    have "unat base * unat base ^ k \<le> unat num"
      using True less.prems(1) b by (simp add: word_le_nat_alt unat_div_word less_eq_div_iff_mult_less_eq)
    then have le: "unat base ^ Suc k \<le> unat num" by simp
    have "unat (d * base) = unat base ^ Suc k"
      using order.strict_trans1 [OF le unat_less_length_power] less.prems(1)
      by (subst unat_mult_no_overflow) (simp_all add: mult.commute)
    moreover have "Suc k < unat base ^ Suc k" using b by (intro power_gt_expt) simp
    ultimately have "\<exists>d' m. find_divisor num base (d * base) = Some d' \<and> unat d' = unat base ^ m \<and> unat num < unat base ^ Suc m
      \<and> (m = 0 \<or> unat base ^ m \<le> unat num)"
      using le by (intro less.hyps [of "Suc k"]) simp_all
    then show ?thesis using True by (simp add: find_divisor.simps [of num base d])
  next
    case False
    then have "unat num div (unat base ^ k) < unat base" using less.prems(1) by (simp add: word_le_nat_alt unat_div_word not_le)
    moreover have "0 < unat base ^ k" using b by simp
    ultimately have "unat num < unat base * unat base ^ k" using div_less_iff_less_mult by blast
    then have "unat num < unat base ^ Suc k" by simp
    then show ?thesis using False less.prems by (auto simp: find_divisor.simps [of num base d])
  qed
qed

lemma emit_digits_fixed:
  assumes b: "1 < unat base" and d: "unat d = unat base ^ m" and num: "unat num < unat base ^ Suc m"
    and n: "n \<or> m = 0 \<or> unat base ^ m \<le> unat num"
  shows "emit_digits u base num d n = Some (map (digit_char u) (fixed_digits (unat base) (Suc m) (unat num)))"
  using d num n
proof (induction m arbitrary: num d n)
  case 0
  then have d1: "d = 1" by (simp add: word_unat_eq_iff)
  have "(1 :: 'a word) div base = 0" using b by (simp add: word_unat_eq_iff unat_div_word)
  moreover have "emit_digits u base 0 0 True = Some []" by (subst emit_digits.simps) simp
  ultimately show ?case using d1 by (subst emit_digits.simps) (simp add: Let_def)
next
  case (Suc m)
  have pos: "0 < unat base ^ m" using b by simp
  have dz: "d \<noteq> 0" using Suc.prems(1) b by (auto simp: word_eq_zero_iff_unat)
  have d': "unat (d div base) = unat base ^ m" using Suc.prems(1) b by (simp add: unat_div_word)
  then have d'z: "d div base \<noteq> 0" using pos by (auto simp: word_eq_zero_iff_unat)
  have "unat (num mod d) = unat num mod unat base ^ Suc m" using Suc.prems(1) by (simp add: unat_mod_distrib)
  moreover have "unat num mod unat base ^ Suc m < unat base ^ Suc m" using b by (intro mod_less_divisor) simp
  ultimately have IH: "emit_digits u base (num mod d) (d div base) True
      = Some (map (digit_char u) (fixed_digits (unat base) (Suc m) (unat num mod unat base ^ Suc m)))"
    using Suc.IH [OF d', of "num mod d" True] by simp
  have dg: "unat (num div d) = unat num div unat base ^ Suc m" using Suc.prems(1) by (simp add: unat_div_word)
  have t: "n \<or> num div d > 0"
  proof (cases n)
    case False
    then have "unat base ^ Suc m \<le> unat num" using Suc.prems(3) by simp
    then have "unat (num div d) \<noteq> 0" unfolding dg using b by (simp add: div_greater_zero_iff)
    then show ?thesis by (simp add: word_less_nat_alt)
  qed simp
  have fd: "fixed_digits (unat base) (Suc (Suc m)) (unat num) = unat (num div d) # fixed_digits (unat base) (Suc m) (unat num mod unat base ^ Suc m)"
    by (simp only: fixed_digits.simps(2) [of _ "Suc m"] dg)
  show ?case unfolding fd using t dz IH d'z by (subst emit_digits.simps) (auto simp: Let_def simp del: fixed_digits.simps)
qed

lemma unsigned2a_digits:
  assumes "1 < unat base"
  shows "unsigned2a num base u neg = Some ((if neg then [CHR ''-''] else []) @ map (digit_char u) (digits_of (unat base) (unat num)))"
proof -
  obtain d m where D: "find_divisor num base 1 = Some d" "unat d = unat base ^ m" "unat num < unat base ^ Suc m"
      "m = 0 \<or> unat base ^ m \<le> unat num"
    using find_divisor_power [OF assms, of 1 0 num] by auto
  have "emit_digits u base num d False = Some (map (digit_char u) (digits_of (unat base) (unat num)))"
    using emit_digits_fixed [OF assms D(2,3), of False u] D(4) unfolding fixed_digits_of [OF assms D(3,4)] by blast
  then show ?thesis using D(1) by (simp add: unsigned2a_def)
qed

section \<open>Properties\<close>

text \<open>C29: the number conversions are exact. For every base above one the two loops end, and the text is the digits of the
  number in that base, most significant first and without leading zeros, at both widths.\<close>

theorem printf_digits_exact:
  assumes "1 < unat base" and "1 < unat base'"
  shows "ui2a v base up neg = Some ((if neg then [CHR ''-''] else []) @ map (digit_char up) (digits_of (unat base) (unat v)))
    \<and> ul2a w base' up neg = Some ((if neg then [CHR ''-''] else []) @ map (digit_char up) (digits_of (unat base') (unat w)))"
  unfolding ui2a_def ul2a_def unsigned2a_digits [OF assms(1)] unsigned2a_digits [OF assms(2)] by simp

theorem printf_digits_exact_witness: "ul2a 255 16 True False = Some ''FF''"
  using printf_digits_exact [of 16 16 0 True False 255] by (simp add: digits_of.simps digit_char_def char_of_def bit_nat_def)

text \<open>\<open>%ld\<close> and \<open>%lld\<close> print only the low 32 bits: the helpers take an \<open>int\<close>. Two values that agree there print the
  same, whatever their high halves are, with every padding.\<close>

theorem printf_ld_truncates:
  assumes "ucast v = (ucast w :: u32)" and "c = CHR ''d'' \<or> c = CHR ''i''"
  shows "convert params lng c (Num v # args) = convert params lng c (Num w # args)"
  using assms by (auto simp: convert_def conv_num_def num_arg_def)

theorem printf_ld_truncates_witness:
  "convert \<lparr>uppercase = False, padding = 0, zero_pad = False\<rparr> 1 CHR ''d'' [Num 0x100000007]
    = convert \<lparr>uppercase = False, padding = 0, zero_pad = False\<rparr> 1 CHR ''d'' [Num 7]"
  by (rule printf_ld_truncates) simp_all

end
