(* ===== verification/Time.thy ===== *)
theory Time
  imports Prelude
begin

text \<open>
  \<open>kernel/lock/spinlock.c\<close>, \<open>kernel/time/time.c\<close>, \<open>drivers/clock/jiffy.c\<close>: the spinlock, once as
  the sequential code its caller runs and once as the steps of several processors that contend for it, and the
  kernel time that is advanced from a clock. A clock is what its \<open>read\<close> function does: it returns the
  counter and may change the hardware, here the tick counter and the successive values \<open>rdtsc\<close> delivers.
\<close>

section \<open>Definitions\<close>

subsection \<open>Spinlocks\<close>

definition compare_and_swap :: "u32 \<Rightarrow> u32 \<Rightarrow> u32 \<Rightarrow> bool \<times> u32" where
  "compare_and_swap p old new = (if p = old then (True, new) else (False, p))"

text \<open>The condition of the loop, its one atomic access to the lock.\<close>

definition spinlock_turn :: "u32 \<Rightarrow> bool \<times> u32" where
  [simp]: "spinlock_turn p = compare_and_swap p 0 1"

text \<open>The loop, for a caller no other processor interferes with: the lock after the call, None when it spins for ever.\<close>

partial_function (option) spinlock_lock :: "u32 \<Rightarrow> u32 option" where
  "spinlock_lock p = (let (ok, p') = spinlock_turn p in if \<not> ok then spinlock_lock p' else Some p')"

definition spinlock_unlock :: "u32 \<Rightarrow> u32" where
  "spinlock_unlock p = 0"

subsection \<open>Clocks\<close>

definition HZ :: u64 where "HZ = 1000"
definition NSEC_PER_SEC :: u64 where "NSEC_PER_SEC = 1000000000"
definition NSEC_PER_MSEC :: u64 where "NSEC_PER_MSEC = 1000000"

record clock_hw =
  jiffy :: time_t
  tsc_values :: "nat \<Rightarrow> u64"
  tsc_reads :: nat

type_synonym clock_read = "clock_hw \<Rightarrow> time_t \<times> clock_hw"

definition jiffy_increase :: "clock_hw \<Rightarrow> clock_hw" where
  "jiffy_increase hw = hw\<lparr>jiffy := jiffy hw + 1\<rparr>"

record clocksource =
  cs_name :: string
  cs_read :: clock_read
  cs_enable :: addr_t
  cs_rating :: u32
  cs_frequency :: u32

record timesource =
  ts_clock :: addr_t
  ts_read :: clock_read
  ts_frequency :: u32
  ts_last :: time_t

record timespec =
  tv_sec :: time_t
  tv_nsec :: u64

record time =
  ts :: timesource
  raw_time :: timespec

text \<open>The state of \<open>time.c\<close> with the clock hardware and the clock structures by address.\<close>

record timekeeper =
  kernel_time :: time
  kernel_time_lock :: u32
  clock_state :: clock_hw
  clock_at :: "addr_t \<Rightarrow> clocksource"

definition jiffy_read :: clock_read where
  "jiffy_read hw = (jiffy hw, hw)"

definition jiffy_clocksource :: clocksource where
  "jiffy_clocksource = \<lparr>cs_name = ''jiffy'', cs_read = jiffy_read, cs_enable = 0, cs_rating = 1, cs_frequency = 1000\<rparr>"

subsection \<open>time.c\<close>

definition time_cycle_to_ns :: "u64 \<Rightarrow> u32 \<Rightarrow> time_t res" where
  "time_cycle_to_ns cycle frequency =
     (if frequency = 0 then Inl DivByZero else Inr (cycle * NSEC_PER_SEC div ucast frequency))"

text \<open>Nanoseconds are a signed \<open>long\<close>.\<close>

function coalesce :: "timespec \<Rightarrow> timespec" where
  "coalesce t = (if sint (tv_nsec t) \<ge> sint NSEC_PER_SEC
     then coalesce (t\<lparr>tv_nsec := tv_nsec t - NSEC_PER_SEC, tv_sec := tv_sec t + 1\<rparr>) else t)"
  by pat_completeness auto

lemma sint_small: "sint w = int (unat w)" if "unat w < 2 ^ 63" for w :: u64
proof -
  have "int (unat w) < int (2 ^ 63)" using that by (simp only: of_nat_less_iff)
  then have "uint w < 2 ^ 63" using uint_nat [of w] by (simp only: of_nat_power of_nat_numeral)
  moreover have "- (2 ^ 63) \<le> uint w" by (rule order_trans [OF _ uint_ge_0]) simp
  ultimately have "signed_take_bit 63 (uint w) = uint w" by (intro signed_take_bit_int_eq_self)
  moreover have "sint w = signed_take_bit 63 (uint w)" by (simp add: sint_uint)
  ultimately show ?thesis by simp
qed

lemma nsec_values [simp]: "sint NSEC_PER_SEC = 1000000000" "unat NSEC_PER_SEC = 1000000000"
  by (simp_all add: NSEC_PER_SEC_def)

lemma sint_minus_second: "sint (w - NSEC_PER_SEC) = sint w - 1000000000" if "sint NSEC_PER_SEC \<le> sint w"
  using that sint_less [of w] by (simp add: sint_word_diff signed_take_bit_int_eq_self)

termination coalesce
  by (relation "measure (\<lambda>t. nat (sint (tv_nsec t)))") (simp_all add: sint_minus_second)

declare coalesce.simps [simp del]

definition time_update :: "timekeeper \<Rightarrow> timekeeper res option" where
  "time_update s =
     Option.bind (spinlock_lock (kernel_time_lock s)) (\<lambda>l.
       let s = s\<lparr>kernel_time_lock := l\<rparr>; kt = kernel_time s in
       if ts_clock (ts kt) = NULL then Some (Inr (s\<lparr>kernel_time_lock := spinlock_unlock l\<rparr>))
       else let (now, hw) = ts_read (ts kt) (clock_state s);
                offset = now - ts_last (ts kt);
                kt = kt\<lparr>ts := (ts kt)\<lparr>ts_last := now\<rparr>\<rparr>
            in case time_cycle_to_ns offset (ts_frequency (ts kt)) of Inl e \<Rightarrow> Some (Inl e)
               | Inr nsec \<Rightarrow> let rt = coalesce ((raw_time kt)\<lparr>tv_nsec := tv_nsec (raw_time kt) + nsec\<rparr>)
                   in Some (Inr (s\<lparr>kernel_time := kt\<lparr>raw_time := rt\<rparr>, clock_state := hw, kernel_time_lock := spinlock_unlock l\<rparr>)))"

definition ktime_get :: "timekeeper \<Rightarrow> (time_t \<times> timekeeper) res option" where
  "ktime_get s = map_option (\<lambda>r. bind_res r (\<lambda>s. let rt = raw_time (kernel_time s) in
     Inr (tv_sec rt * NSEC_PER_SEC + tv_nsec rt, s))) (time_update s)"

definition time_update_clocksource :: "timekeeper \<Rightarrow> addr_t \<Rightarrow> timekeeper res" where
  "time_update_clocksource s cs =
     (if cs = NULL then Inl NullDeref
      else let c = clock_at s cs; (now, hw) = cs_read c (clock_state s)
           in Inr (s\<lparr>clock_state := hw, kernel_time := (kernel_time s)\<lparr>ts :=
                \<lparr>ts_clock = cs, ts_read = cs_read c, ts_frequency = cs_frequency c, ts_last = now\<rparr>\<rparr>\<rparr>))"

text \<open>\<open>default\<close> is the address of the clock that \<open>clocksource_get_default\<close> returns.\<close>

definition clocksource_get_default :: "timekeeper \<Rightarrow> addr_t \<Rightarrow> addr_t \<times> timekeeper" where
  "clocksource_get_default s dflt = (dflt, s\<lparr>clock_at := (clock_at s)(dflt := jiffy_clocksource)\<rparr>)"

definition time_init :: "timekeeper \<Rightarrow> addr_t \<Rightarrow> timekeeper res" where
  "time_init s dflt =
     (let (cs, s) = clocksource_get_default s dflt
      in bind_res (time_update_clocksource s cs) (\<lambda>s.
           Inr (s\<lparr>kernel_time := (kernel_time s)\<lparr>raw_time := \<lparr>tv_sec = 0, tv_nsec = 0\<rparr>\<rparr>\<rparr>)))"

section \<open>The spinlock among several processors\<close>

text \<open>Each processor is outside, spinning in \<open>spinlock_lock\<close>, or inside the critical section. A step of the system is a call, one turn of the
  loop of \<open>spinlock_lock\<close> by a spinning processor, or an unlock; between the turns of one processor the others may step.\<close>

datatype spin_pc = Outside | Spinning | Inside

record spin_state =
  the_lock :: u32
  pcs :: "nat \<Rightarrow> spin_pc"

inductive spin_step :: "spin_state \<Rightarrow> spin_state \<Rightarrow> bool" where
  call: "pcs s c = Outside \<Longrightarrow> spin_step s (s\<lparr>pcs := (pcs s)(c := Spinning)\<rparr>)"
| turn: "pcs s c = Spinning \<Longrightarrow> spinlock_turn (the_lock s) = (ok, l) \<Longrightarrow>
    spin_step s (s\<lparr>the_lock := l, pcs := (pcs s)(c := (if ok then Inside else Spinning))\<rparr>)"
| leave: "pcs s c = Inside \<Longrightarrow> spin_step s (s\<lparr>the_lock := spinlock_unlock (the_lock s), pcs := (pcs s)(c := Outside)\<rparr>)"

definition spin_start :: spin_state where
  "spin_start = \<lparr>the_lock = 0, pcs = (\<lambda>_. Outside)\<rparr>"

definition spin_inv :: "spin_state \<Rightarrow> bool" where
  "spin_inv s \<longleftrightarrow> (if the_lock s = 0 then \<forall>c. pcs s c \<noteq> Inside
     else \<exists>c. pcs s c = Inside \<and> (\<forall>d. pcs s d = Inside \<longrightarrow> d = c))"

lemma spin_inv_step: "spin_step s s' \<Longrightarrow> spin_inv s \<Longrightarrow> spin_inv s'"
proof (induction rule: spin_step.induct)
  case (call s c)
  have "((pcs s)(c := Spinning)) d = Inside \<longleftrightarrow> pcs s d = Inside" for d using call(1) by simp
  then show ?case using call(2) by (simp add: spin_inv_def)
next
  case (turn s c ok l)
  show ?case
  proof (cases "the_lock s = 0")
    case True
    then have "pcs s d \<noteq> Inside" for d using turn by (simp add: spin_inv_def)
    then show ?thesis using turn(2) True by (auto simp: spin_inv_def compare_and_swap_def)
  next
    case False
    then have "ok = False" "l = the_lock s" using turn(2) by (simp_all add: compare_and_swap_def)
    moreover have "((pcs s)(c := Spinning)) d = Inside \<longleftrightarrow> pcs s d = Inside" for d using turn(1) by simp
    ultimately show ?thesis using turn(3) by (simp add: spin_inv_def)
  qed
next
  case (leave s c)
  then have "pcs s d = Inside \<longleftrightarrow> d = c" for d by (auto simp: spin_inv_def split: if_splits)
  then show ?case by (simp add: spin_inv_def spinlock_unlock_def)
qed

lemma spin_inv_reachable: "spin_step\<^sup>*\<^sup>* spin_start s \<Longrightarrow> spin_inv s"
  by (induction rule: rtranclp_induct) (auto simp: spin_inv_step, simp add: spin_inv_def spin_start_def)

section \<open>Time\<close>

lemma spinlock_lock_free [simp]: "spinlock_lock 0 = Some 1"
  by (simp add: spinlock_lock.simps compare_and_swap_def)

lemma spinlock_lock_held: "p \<noteq> 0 \<Longrightarrow> spinlock_lock p = None"
proof -
  have "spinlock_lock q = Some r \<Longrightarrow> q = 0" for q r
    by (rule spinlock_lock.raw_induct [where P = "\<lambda>q r. q = 0"]) (auto simp: compare_and_swap_def split: if_splits)
  then show "p \<noteq> 0 \<Longrightarrow> spinlock_lock p = None" by (cases "spinlock_lock p") auto
qed

definition ns_of :: "timespec \<Rightarrow> nat" where
  "ns_of t = unat (tv_sec t) * 1000000000 + unat (tv_nsec t)"

lemma coalesce_ns:
  assumes "unat (tv_nsec t) < 2 ^ 63" and "ns_of t div 1000000000 < 2 ^ 64"
  shows "ns_of (coalesce t) = ns_of t \<and> unat (tv_nsec (coalesce t)) < 1000000000"
  using assms
proof (induction t rule: coalesce.induct)
  case (1 t)
  show ?case
  proof (cases "sint (tv_nsec t) \<ge> sint NSEC_PER_SEC")
    case True
    then have ge: "1000000000 \<le> unat (tv_nsec t)" using sint_small [OF 1(2)] by (simp only: nsec_values)
    let ?t = "t\<lparr>tv_nsec := tv_nsec t - NSEC_PER_SEC, tv_sec := tv_sec t + 1\<rparr>"
    have n: "unat (tv_nsec t - NSEC_PER_SEC) = unat (tv_nsec t) - 1000000000"
      using ge by (subst unat_sub_no_underflow) (simp_all add: word_le_nat_alt)
    have "ns_of t div 1000000000 = unat (tv_sec t) + unat (tv_nsec t) div 1000000000" by (simp add: ns_of_def)
    moreover have "1 \<le> unat (tv_nsec t) div 1000000000" using ge by simp
    ultimately have "unat (tv_sec t + 1) = unat (tv_sec t) + 1" using 1(3) by (subst unat_add_no_overflow) simp_all
    then have eq: "ns_of ?t = ns_of t" using n ge by (simp add: ns_of_def)
    moreover have "unat (tv_nsec ?t) < 2 ^ 63" using n 1(2) by simp
    ultimately have "ns_of (coalesce ?t) = ns_of ?t \<and> unat (tv_nsec (coalesce ?t)) < 1000000000"
      using 1 True by simp
    then show ?thesis unfolding coalesce.simps [of t] using True eq by simp
  next
    case False
    then have "unat (tv_nsec t) < 1000000000" using sint_small [OF 1(2)] by (simp only: nsec_values)
    then show ?thesis unfolding coalesce.simps [of t] using False by simp
  qed
qed

lemma time_update_free:
  assumes "kernel_time_lock s = 0" and "ts_clock (ts (kernel_time s)) \<noteq> NULL" and "ts_frequency (ts (kernel_time s)) \<noteq> 0"
    and "ts_read (ts (kernel_time s)) (clock_state s) = (now, hw)"
  shows "time_update s = Some (Inr (s\<lparr>kernel_time := \<lparr>ts = (ts (kernel_time s))\<lparr>ts_last := now\<rparr>,
      raw_time = coalesce ((raw_time (kernel_time s))\<lparr>tv_nsec := tv_nsec (raw_time (kernel_time s)) +
        (now - ts_last (ts (kernel_time s))) * NSEC_PER_SEC div ucast (ts_frequency (ts (kernel_time s)))\<rparr>)\<rparr>,
      clock_state := hw, kernel_time_lock := 0\<rparr>))"
  using assms by (simp add: time_update_def time_cycle_to_ns_def spinlock_unlock_def Let_def)

lemma cycles_to_ns_exact:
  assumes "unat c * 1000000000 < 2 ^ 64"
  shows "unat (c * NSEC_PER_SEC div ucast (f :: u32)) = unat c * 1000000000 div unat f"
proof -
  have "unat (c * NSEC_PER_SEC) = unat c * 1000000000" using assms by (subst unat_mult_no_overflow) simp_all
  moreover have "unat (ucast f :: u64) = unat f" by (simp add: unat_ucast_widen)
  ultimately show ?thesis by (simp add: unat_div_distrib)
qed

lemma time_update_ns:
  assumes lock: "kernel_time_lock s = 0" and clock: "ts_clock (ts (kernel_time s)) \<noteq> NULL" "ts_frequency (ts (kernel_time s)) \<noteq> 0"
    and read: "ts_read (ts (kernel_time s)) (clock_state s) = (now, hw)"
    and c: "c = unat (now - ts_last (ts (kernel_time s)))" and fits: "c * 1000000000 < 2 ^ 64"
    and ns: "d = c * 1000000000 div unat (ts_frequency (ts (kernel_time s)))" "unat (tv_nsec (raw_time (kernel_time s))) + d < 2 ^ 63"
    and total: "(ns_of (raw_time (kernel_time s)) + d) div 1000000000 < 2 ^ 64"
  shows "\<exists>rt. time_update s = Some (Inr (s\<lparr>kernel_time := \<lparr>ts = (ts (kernel_time s))\<lparr>ts_last := now\<rparr>, raw_time = rt\<rparr>,
      clock_state := hw, kernel_time_lock := 0\<rparr>)) \<and> ns_of rt = ns_of (raw_time (kernel_time s)) + d \<and> unat (tv_nsec rt) < 1000000000"
proof -
  let ?rt = "raw_time (kernel_time s)"
  let ?n = "(now - ts_last (ts (kernel_time s))) * NSEC_PER_SEC div ucast (ts_frequency (ts (kernel_time s)))"
  have "unat ?n = d" using cycles_to_ns_exact fits by (simp add: c ns(1))
  then have n: "unat (tv_nsec ?rt + ?n) = unat (tv_nsec ?rt) + d" using ns(2) by (subst unat_add_no_overflow) simp_all
  let ?t = "?rt\<lparr>tv_nsec := tv_nsec ?rt + ?n\<rparr>"
  have eq: "ns_of ?t = ns_of ?rt + d" using n by (simp add: ns_of_def)
  have "unat (tv_nsec ?t) < 2 ^ 63" using n ns(2) by simp
  then have "ns_of (coalesce ?t) = ns_of ?t \<and> unat (tv_nsec (coalesce ?t)) < 1000000000"
    by (rule coalesce_ns) (use total in \<open>simp only: eq\<close>)
  then show ?thesis using time_update_free [OF lock clock read] eq by (intro exI [of _ "coalesce ?t"]) simp
qed

section \<open>Properties\<close>

text \<open>C16: the spinlock excludes. However any number of processors interleave their calls of \<open>spinlock_lock\<close>, its compare-and-swaps and
  their unlocks, at most one is inside. In every state reached, \<open>spinlock_lock\<close> run to its end by a spinning processor while the
  others stand still returns exactly when no processor is inside, and then leaves the lock taken and that processor inside; a
  processor that is inside and unlocks lets such a call return.\<close>

theorem spinlock_mutual_exclusion:
  assumes "spin_step\<^sup>*\<^sup>* spin_start s"
  shows "(pcs s c = Inside \<and> pcs s d = Inside \<longrightarrow> c = d)
    \<and> spinlock_lock (the_lock s) = (if \<exists>e. pcs s e = Inside then None else Some 1)
    \<and> (pcs s c = Spinning \<longrightarrow> spinlock_lock (the_lock s) = Some l \<longrightarrow> spin_step s (s\<lparr>the_lock := l, pcs := (pcs s)(c := Inside)\<rparr>))
    \<and> (pcs s c = Inside \<longrightarrow> spinlock_lock (spinlock_unlock (the_lock s)) = Some 1)"
proof (intro conjI impI)
  have inv: "spin_inv s" using assms by (rule spin_inv_reachable)
  show "c = d" if "pcs s c = Inside \<and> pcs s d = Inside" using inv that by (auto simp: spin_inv_def split: if_splits)
  show "spinlock_lock (the_lock s) = (if \<exists>e. pcs s e = Inside then None else Some 1)"
    using inv spinlock_lock_held by (auto simp: spin_inv_def split: if_splits)
  show "spinlock_lock (spinlock_unlock (the_lock s)) = Some 1" by (simp add: spinlock_unlock_def)
  assume a: "pcs s c = Spinning" "spinlock_lock (the_lock s) = Some l"
  then have "the_lock s = 0" using spinlock_lock_held by fastforce
  then have "spinlock_turn (the_lock s) = (True, l)" using a(2) by (simp add: compare_and_swap_def)
  from spin_step.turn [OF a(1) this] show "spin_step s (s\<lparr>the_lock := l, pcs := (pcs s)(c := Inside)\<rparr>)" by simp
qed

theorem spinlock_mutual_exclusion_witness:
  "\<exists>s. spin_step\<^sup>*\<^sup>* spin_start s \<and> pcs s 0 = Inside \<and> pcs s 1 = Spinning \<and> spinlock_lock (the_lock s) = None
    \<and> spinlock_lock (spinlock_unlock (the_lock s)) = Some 1"
proof -
  let ?s1 = "spin_start\<lparr>pcs := (pcs spin_start)(0 := Spinning)\<rparr>"
  let ?s2 = "?s1\<lparr>pcs := (pcs ?s1)(1 := Spinning)\<rparr>"
  let ?s3 = "?s2\<lparr>the_lock := 1, pcs := (pcs ?s2)(0 := Inside)\<rparr>"
  have "spin_step spin_start ?s1" by (rule spin_step.call) (simp add: spin_start_def)
  moreover have r1: "spin_step ?s1 ?s2" by (rule spin_step.call) (simp add: spin_start_def)
  ultimately have r2: "spin_step\<^sup>*\<^sup>* spin_start ?s2" by (meson converse_rtranclp_into_rtranclp rtranclp.rtrancl_refl)
  have "spin_step ?s2 ?s3"
    using spinlock_mutual_exclusion [OF r2, of 0 0 1] by (simp add: spin_start_def)
  with r2 have r: "spin_step\<^sup>*\<^sup>* spin_start ?s3" by (rule rtranclp.rtrancl_into_rtrancl)
  have i: "pcs ?s3 0 = Inside" "pcs ?s3 1 = Spinning" by simp_all
  then have "spinlock_lock (the_lock ?s3) = None" "spinlock_lock (spinlock_unlock (the_lock ?s3)) = Some 1"
    using spinlock_mutual_exclusion [OF r, of 0 0 1] by (metis, blast)
  with r i show ?thesis by blast
qed

text \<open>C23: kernel time advances by exactly the nanoseconds of the elapsed cycles. With the lock free, a clock with a
  frequency, and an interval whose nanoseconds fit 64 bits before the division, \<open>time_update\<close> returns, the total time grows
  by \<open>cycles * 10\<^sup>9 / frequency\<close>, the nanosecond part stays below a second, and the lock is free again.\<close>

theorem time_update_exact:
  assumes lock: "kernel_time_lock s = 0" and clock: "ts_clock (ts (kernel_time s)) \<noteq> NULL" "ts_frequency (ts (kernel_time s)) \<noteq> 0"
    and read: "ts_read (ts (kernel_time s)) (clock_state s) = (now, hw)"
    and c: "c = unat (now - ts_last (ts (kernel_time s)))" and fits: "c * 1000000000 < 2 ^ 64"
    and ns: "d = c * 1000000000 div unat (ts_frequency (ts (kernel_time s)))" "unat (tv_nsec (raw_time (kernel_time s))) + d < 2 ^ 63"
    and total: "(ns_of (raw_time (kernel_time s)) + d) div 1000000000 < 2 ^ 64"
  shows "\<exists>s'. time_update s = Some (Inr s') \<and> ns_of (raw_time (kernel_time s')) = ns_of (raw_time (kernel_time s)) + d
    \<and> unat (tv_nsec (raw_time (kernel_time s'))) < 1000000000 \<and> ts_last (ts (kernel_time s')) = now \<and> kernel_time_lock s' = 0"
  using time_update_ns [OF assms] by auto

definition demo_time :: timekeeper where
  "demo_time = \<lparr>kernel_time = \<lparr>ts = \<lparr>ts_clock = 64, ts_read = jiffy_read, ts_frequency = 1000, ts_last = 0\<rparr>,
     raw_time = \<lparr>tv_sec = 0, tv_nsec = 0\<rparr>\<rparr>, kernel_time_lock = 0,
     clock_state = \<lparr>jiffy = 2500, tsc_values = (\<lambda>_. 0), tsc_reads = 0\<rparr>, clock_at = (\<lambda>_. jiffy_clocksource)\<rparr>"

theorem time_update_exact_witness:
  "\<exists>s'. time_update demo_time = Some (Inr s') \<and> ns_of (raw_time (kernel_time s')) = 2500000000"
  using time_update_exact [of demo_time 2500 "clock_state demo_time" 2500 2500000000]
  by (auto simp: demo_time_def jiffy_read_def ns_of_def)

text \<open>The product of cycles and \<open>10\<^sup>9\<close> is formed in 64 bits: an interval of \<open>2\<^sup>55\<close> cycles does not advance the
  time at all, whatever the frequency.\<close>

lemma time_update_wraps:
  assumes "kernel_time_lock s = 0" and "ts_clock (ts (kernel_time s)) \<noteq> NULL" and "ts_frequency (ts (kernel_time s)) \<noteq> 0"
    and "ts_read (ts (kernel_time s)) (clock_state s) = (ts_last (ts (kernel_time s)) + 2 ^ 55, hw)"
    and "unat (tv_nsec (raw_time (kernel_time s))) < 1000000000"
  shows "\<exists>s'. time_update s = Some (Inr s') \<and> raw_time (kernel_time s') = raw_time (kernel_time s)"
proof -
  let ?rt = "raw_time (kernel_time s)"
  have "sint (tv_nsec ?rt) = int (unat (tv_nsec ?rt))" using assms(5) by (intro sint_small) simp
  then have "\<not> sint NSEC_PER_SEC \<le> sint (tv_nsec ?rt)" using assms(5) by (simp only: nsec_values)
  then have "coalesce ?rt = ?rt" by (subst coalesce.simps) simp
  moreover have "(2 ^ 55 :: u64) * NSEC_PER_SEC = 0" by (simp add: NSEC_PER_SEC_def)
  ultimately show ?thesis using time_update_free [OF assms(1-4)] by (simp)
qed

text \<open>The time lock is not safe against interrupts. \<open>time_update\<close> called while the lock is held on the same
  processor, as the tick handler does when it interrupts another \<open>time_update\<close>, spins for ever; so does every reader.\<close>

theorem time_update_held_hangs:
  assumes "kernel_time_lock s \<noteq> 0"
  shows "time_update s = None \<and> ktime_get s = None"
  using spinlock_lock_held [OF assms] by (simp add: time_update_def ktime_get_def)

theorem time_update_held_hangs_witness:
  "time_update (demo_time\<lparr>kernel_time_lock := 1\<rparr>) = None"
  using time_update_held_hangs [of "demo_time\<lparr>kernel_time_lock := 1\<rparr>"] by simp

end
