(* ===== verification/Console.thy ===== *)
theory Console
  imports Interrupt Printf Time
begin

text \<open>
  \<open>kernel/console.c\<close>, \<open>arch/x86_64/kernel/early_console.c\<close> and \<open>kernel/printk.c\<close>: the list of
  consoles, the VGA text screen and the serial port, and the kernel's log on top of them. A console is what its
  \<open>write\<close> function does to the two devices; what a call of \<open>printk\<close> does is compose the time, the
  formatter and the consoles.
\<close>

section \<open>Definitions\<close>

subsection \<open>early_console.c\<close>

definition VGA_WIDTH :: u32 where "VGA_WIDTH = 80"
definition VGA_HEIGHT :: u32 where "VGA_HEIGHT = 25"
definition SERIAL_PORT :: u16 where "SERIAL_PORT = 0x3F8"

text \<open>The screen is its cells, row by row; an access outside them is a fault.\<close>

record vga =
  vga_x :: c_int
  vga_y :: c_int
  vga_color :: c_int
  video :: "u16 list"

record devices =
  screen :: vga
  con_ports :: io

definition vga_update_cursor :: "c_int \<Rightarrow> c_int \<Rightarrow> io \<Rightarrow> io" where
  "vga_update_cursor col row s =
     (let position = ucast (row * VGA_WIDTH + col) :: u16
      in outb 0x3D5 (ucast (drop_bit 8 position AND 0xFF)) (outb 0x3D4 0x0E
           (outb 0x3D5 (ucast (position AND 0xFF)) (outb 0x3D4 0x0F s))))"

definition escape_color :: "char \<Rightarrow> c_int" where
  "escape_color c = (if c = CHR ''1'' then 12 else if c = CHR ''2'' then 10 else if c = CHR ''3'' then 14
     else if c = CHR ''6'' then 11 else if c = CHR ''9'' then 15 else 15)"

text \<open>A character is signed; its bits above the seventh reach the colour.\<close>

definition vga_put :: "char \<Rightarrow> vga \<Rightarrow> vga res" where
  "vga_put c v =
     (let index = unat (scast (vga_y v * VGA_WIDTH + vga_x v) :: size_t)
      in if index < length (video v)
         then Inr (v\<lparr>vga_x := vga_x v + 1, video := (video v)[index := ucast ((scast (of_char c :: u8) :: u32) OR push_bit 8 (vga_color v))]\<rparr>)
         else Inl OutOfBounds)"

text \<open>Scrolling copies each row onto the one above and clears the last.\<close>

definition copy_row :: "nat \<Rightarrow> u16 list \<Rightarrow> u16 list" where
  "copy_row ny cells = take ((ny - 1) * 80) cells @ take 80 (drop (ny * 80) cells) @ drop (ny * 80) cells"

definition vga_scroll :: "u16 list \<Rightarrow> u16 list" where
  "vga_scroll cells = (let cells = fold copy_row [1 ..< 25] cells in take (24 * 80) cells @ replicate 80 0 @ drop (25 * 80) cells)"

definition vga_wrap :: "vga \<Rightarrow> vga" where
  "vga_wrap v =
     (let v = (if vga_x v = VGA_WIDTH then v\<lparr>vga_x := 0, vga_y := vga_y v + 1\<rparr> else v)
      in if vga_y v = VGA_HEIGHT then v\<lparr>video := vga_scroll (video v), vga_y := VGA_HEIGHT - 1\<rparr> else v)"

text \<open>The loop, on the characters that \<open>length\<close> still counts. An escape sequence takes five; with fewer left the
  length wraps below zero and the loop runs past the message.\<close>

fun vga_write_string :: "string \<Rightarrow> vga \<Rightarrow> vga res" where
  "vga_write_string [] v = Inr v"
| "vga_write_string (c # cs) v =
     (if c = CHR 0x0A then vga_write_string cs (vga_wrap (v\<lparr>vga_x := 0, vga_y := vga_y v + 1\<rparr>))
      else if c = CHR 0x1B
      then if length cs < 4 then Inl OutOfBounds
           else vga_write_string (drop 4 cs) (vga_wrap (v\<lparr>vga_color := escape_color (cs ! 2)\<rparr>))
      else bind_res (vga_put c v) (\<lambda>v. vga_write_string cs (vga_wrap v)))"

definition vga_write :: "string \<Rightarrow> size_t \<Rightarrow> devices \<Rightarrow> (u32 \<times> devices) res" where
  "vga_write message sz d =
     (if length message < unat sz then Inl OutOfBounds
      else bind_res (vga_write_string (take (unat sz) message) (screen d)) (\<lambda>v.
             Inr (ucast sz, d\<lparr>screen := v, con_ports := vga_update_cursor (vga_x v) (vga_y v) (con_ports d)\<rparr>)))"

definition serial_write :: "string \<Rightarrow> size_t \<Rightarrow> devices \<Rightarrow> (u32 \<times> devices) res" where
  "serial_write message sz d =
     (if length message < unat sz then Inl OutOfBounds
      else Inr (ucast sz, d\<lparr>con_ports := fold (\<lambda>c. outb SERIAL_PORT (of_char c)) (take (unat sz) message) (con_ports d)\<rparr>))"

subsection \<open>console.c\<close>

record console =
  con_name :: string
  con_write :: "(string \<Rightarrow> size_t \<Rightarrow> devices \<Rightarrow> (u32 \<times> devices) res) option"

record consoles =
  console_list :: addr_t
  console_links :: list_heap
  console_at :: "addr_t \<Rightarrow> console"
  devs :: devices

definition console_register :: "consoles \<Rightarrow> addr_t \<Rightarrow> consoles res" where
  "console_register s c = bind_res (list_add (console_links s) (console_list s) c) (\<lambda>h. Inr (s\<lparr>console_links := h\<rparr>))"

definition console_unregister :: "consoles \<Rightarrow> addr_t \<Rightarrow> consoles res" where
  "console_unregister s c = bind_res (list_delete (console_links s) c) (\<lambda>h. Inr (s\<lparr>console_links := h\<rparr>))"

fun write_each :: "(addr_t \<Rightarrow> console) \<Rightarrow> string \<Rightarrow> size_t \<Rightarrow> addr_t list \<Rightarrow> devices \<Rightarrow> devices res" where
  "write_each at message len [] d = Inr d"
| "write_each at message len (c # cs) d =
     (case con_write (at c) of None \<Rightarrow> write_each at message len cs d
      | Some w \<Rightarrow> bind_res (w message len d) (\<lambda>(n, d). write_each at message len cs d))"

definition console_write :: "consoles \<Rightarrow> string \<Rightarrow> size_t \<Rightarrow> consoles res option" where
  "console_write s message len =
     map_option (\<lambda>r. bind_res r (\<lambda>cs. bind_res (write_each (console_at s) message len cs (devs s)) (\<lambda>d. Inr (s\<lparr>devs := d\<rparr>))))
       (list_for_each (console_links s) (console_list s))"

definition x86_64_console_vga :: console where
  "x86_64_console_vga = \<lparr>con_name = ''x86_64 vga'', con_write = Some vga_write\<rparr>"

definition x86_64_console_serial :: console where
  "x86_64_console_serial = \<lparr>con_name = ''x86_64 serial'', con_write = Some serial_write\<rparr>"

text \<open>The two structures are at \<open>ser\<close> and \<open>vg\<close>.\<close>

definition x86_64_init_console :: "addr_t \<Rightarrow> addr_t \<Rightarrow> consoles \<Rightarrow> consoles res" where
  "x86_64_init_console ser vg s =
     (let s = s\<lparr>console_at := (console_at s)(ser := x86_64_console_serial, vg := x86_64_console_vga)\<rparr>
      in bind_res (console_register s ser) (\<lambda>s. console_register s vg))"

subsection \<open>printk.c\<close>

definition PRINTK_MAX :: size_t where "PRINTK_MAX = 1024"

definition DEBUG :: c_int where "DEBUG = 0"
definition INFO :: c_int where "INFO = 1"
definition WARNING :: c_int where "WARNING = 2"
definition ERROR :: c_int where "ERROR = 3"
definition CONTINUE :: c_int where "CONTINUE = 4"

definition colors :: "string list" where
  "colors = map (\<lambda>s. CHR 0x1B # s) [''[36m'', ''[32m'', ''[33m'', ''[31m'']"

record klog =
  log_time :: timekeeper
  log_consoles :: consoles

text \<open>\<open>console_write(printk_buffer, r)\<close> for what the formatter left in the cleared buffer.\<close>

definition write_formatted :: "(string \<times> u32) res option \<Rightarrow> klog \<Rightarrow> (u32 \<times> klog) res option" where
  "write_formatted f k =
     Option.bind f (\<lambda>fr. case fr of Inl e \<Rightarrow> Some (Inl e)
       | Inr (buf, r) \<Rightarrow> map_option (\<lambda>cr. bind_res cr (\<lambda>c. Inr (r, k\<lparr>log_consoles := c\<rparr>)))
           (console_write (log_consoles k) (buf @ replicate (unat PRINTK_MAX - length buf) (CHR 0x00)) (scast r)))"

definition printk_header :: "string \<Rightarrow> c_int \<Rightarrow> time_t \<Rightarrow> (string \<times> u32) res option" where
  "printk_header junk level t =
     (if level <s 0 then Some (Inl OutOfBounds)
      else snprintf junk PRINTK_MAX ''%s[%05lu.%09lu]%s ''
        [Str (colors ! unat level), Num (t div NSEC_PER_SEC), Num (t mod NSEC_PER_SEC), Str (CHR 0x1B # ''[39m'')])"

definition printk :: "string \<Rightarrow> klog \<Rightarrow> c_int \<Rightarrow> string \<Rightarrow> parg list \<Rightarrow> (u32 \<times> klog) res option" where
  "printk junk k level format args =
     (let body = (\<lambda>k. write_formatted (vsnprintf junk PRINTK_MAX format args) k)
      in if level <s CONTINUE
         then Option.bind (ktime_get (log_time k)) (\<lambda>tr. case tr of Inl e \<Rightarrow> Some (Inl e)
           | Inr (t, tk) \<Rightarrow> Option.bind (write_formatted (printk_header junk level t) (k\<lparr>log_time := tk\<rparr>)) (\<lambda>hr.
               case hr of Inl e \<Rightarrow> Some (Inl e) | Inr (r, k) \<Rightarrow> body k))
         else body k)"

section \<open>The screen\<close>

lemma vga_dims [simp]: "unat VGA_WIDTH = 80" "unat VGA_HEIGHT = 25"
  by (simp_all add: VGA_WIDTH_def VGA_HEIGHT_def)

lemma copy_rows:
  assumes "length cells = 2000" and "k \<le> 24"
  shows "fold copy_row [1 ..< Suc k] cells = take (k * 80) (drop 80 cells) @ drop (k * 80) cells"
  using assms(2)
proof (induction k)
  case (Suc k)
  let ?c = "take (k * 80) (drop 80 cells) @ drop (k * 80) cells"
  have fold: "fold copy_row [1 ..< Suc (Suc k)] cells = copy_row (Suc k) ?c" using Suc by simp
  have len: "length (take (k * 80) (drop 80 cells)) = k * 80" using Suc.prems assms(1) by simp
  have "take (k * 80) ?c = take (k * 80) (drop 80 cells)" using len by simp
  moreover have d: "drop (Suc k * 80) ?c = drop (Suc k * 80) cells" using len by (simp add: add.commute)
  moreover have "take (k * 80) (drop 80 cells) @ take 80 (drop (Suc k * 80) cells) = take (Suc k * 80) (drop 80 cells)"
    using take_add [of "k * 80" 80 "drop 80 cells"] by (simp add: add.commute)
  ultimately have "copy_row (Suc k) ?c = take (Suc k * 80) (drop 80 cells) @ drop (Suc k * 80) cells"
    unfolding copy_row_def by (simp only: append_assoc [symmetric] diff_Suc_1)
  then show ?case unfolding fold .
qed simp

lemma vga_scroll_shift: "length cells = 2000 \<Longrightarrow> vga_scroll cells = drop 80 cells @ replicate 80 0"
  using copy_rows [of cells 24] by (simp add: vga_scroll_def)

definition vga_ok :: "vga \<Rightarrow> bool" where
  "vga_ok v \<longleftrightarrow> unat (vga_x v) < 80 \<and> unat (vga_y v) < 25 \<and> length (video v) = 2000"

lemma vga_wrap_ok:
  assumes "unat (vga_x v) \<le> 80" and "unat (vga_y v) \<le> 25" and "unat (vga_x v) = 80 \<Longrightarrow> unat (vga_y v) < 25" and "length (video v) = 2000"
  shows "vga_ok (vga_wrap v)"
proof -
  have "unat (vga_y v + 1) = unat (vga_y v) + 1" using assms(2) by (subst unat_add_no_overflow) simp_all
  then show ?thesis using assms by (auto simp: vga_ok_def vga_wrap_def Let_def word_unat_eq_iff vga_scroll_shift VGA_HEIGHT_def)
qed

lemma sint_int_small: "sint w = uint w" if "unat w < 2000" for w :: u32
proof -
  have "uint w < 2000" using that by (metis of_nat_less_iff of_nat_numeral uint_nat)
  then show ?thesis unfolding sint_uint by (intro signed_take_bit_int_eq_self) (simp_all add: order_trans [OF _ uint_ge_0])
qed

lemma unat_scast_small: "unat (scast w :: size_t) = unat w" if "unat w < 2000" for w :: u32
proof -
  have "scast w = (ucast w :: size_t)" using sint_int_small [OF that] by (simp add: scast_eq)
  then show ?thesis by (simp add: unat_ucast_widen)
qed

lemma vga_index:
  assumes "vga_ok v"
  shows "unat (scast (vga_y v * VGA_WIDTH + vga_x v) :: size_t) = unat (vga_y v) * 80 + unat (vga_x v)"
proof -
  have m: "unat (vga_y v * VGA_WIDTH) = unat (vga_y v) * 80"
    using assms by (subst unat_mult_no_overflow) (simp_all add: vga_ok_def)
  then have "unat (vga_y v * VGA_WIDTH + vga_x v) = unat (vga_y v) * 80 + unat (vga_x v)"
    using assms by (subst unat_add_no_overflow) (simp_all add: vga_ok_def)
  then show ?thesis using assms by (simp add: unat_scast_small vga_ok_def)
qed

lemma vga_put_ok:
  assumes "vga_ok v"
  shows "\<exists>v'. vga_put c v = Inr v' \<and> vga_ok (vga_wrap v')"
proof -
  have i: "unat (vga_y v) * 80 + unat (vga_x v) < 2000" using assms by (simp add: vga_ok_def)
  have x: "unat (vga_x v + 1) = unat (vga_x v) + 1" using assms by (subst unat_add_no_overflow) (simp_all add: vga_ok_def)
  have "vga_ok (vga_wrap (v\<lparr>vga_x := vga_x v + 1, video := (video v)[j := w]\<rparr>))" for j w
    using assms x by (intro vga_wrap_ok) (simp_all add: vga_ok_def)
  then show ?thesis unfolding vga_put_def Let_def vga_index [OF assms] using i assms by (simp add: vga_ok_def)
qed

text \<open>Escape sequences are complete.\<close>

function escapes_ok :: "string \<Rightarrow> bool" where
  "escapes_ok [] = True"
| "escapes_ok (c # cs) = (if c = CHR 0x1B then 4 \<le> length cs \<and> escapes_ok (drop 4 cs) else escapes_ok cs)"
  by pat_completeness auto
termination by (relation "measure length") auto

lemma vga_write_string_ok:
  assumes "vga_ok v"
  shows "if escapes_ok s then \<exists>v'. vga_write_string s v = Inr v' \<and> vga_ok v' else vga_write_string s v = Inl OutOfBounds"
  using assms
proof (induction s v rule: vga_write_string.induct)
  case (2 c cs v)
  have nl: "vga_ok (vga_wrap (v\<lparr>vga_x := 0, vga_y := vga_y v + 1\<rparr>))"
    using 2(4) by (intro vga_wrap_ok) (simp_all add: vga_ok_def unat_add_no_overflow)
  have col: "vga_ok (vga_wrap (v\<lparr>vga_color := k\<rparr>))" for k
    using 2(4) by (intro vga_wrap_ok) (simp_all add: vga_ok_def)
  obtain v' where "vga_put c v = Inr v'" "vga_ok (vga_wrap v')" using vga_put_ok [OF 2(4)] by blast
  then show ?case using 2(1) [OF _ nl] 2(2) [OF _ _ _ col] 2(3) by (cases "length cs < 4") (auto simp del: vga_write_string.simps simp: vga_write_string.simps(2))
qed simp

section \<open>The log\<close>

text \<open>What the serial port has been sent, oldest first.\<close>

definition serial_text :: "io \<Rightarrow> string" where
  "serial_text ps = map (\<lambda>(p, b). char_of (unat b)) (filter (\<lambda>(p, b). p = SERIAL_PORT) (rev ps))"

lemma serial_text_outb: "serial_text (outb p b ps) = serial_text ps @ (if p = SERIAL_PORT then [char_of (unat b)] else [])"
  by (simp add: serial_text_def outb_def)

lemma serial_text_cursor [simp]: "serial_text (vga_update_cursor x y ps) = serial_text ps"
  by (simp add: vga_update_cursor_def Let_def serial_text_outb SERIAL_PORT_def)

lemma serial_text_write: "serial_text (fold (\<lambda>c. outb SERIAL_PORT (of_char c)) cs ps) = serial_text ps @ cs"
proof (induction cs arbitrary: ps)
  case (Cons c cs)
  have "(of_char c :: u8) = of_nat (of_char c)" by (simp add: of_nat_of_char)
  then have "char_of (unat (of_char c :: u8)) = c" by (simp only: unat_of_nat) (simp add: char_of_take_bit_eq)
  then show ?case using Cons by (simp add: serial_text_outb)
qed simp

text \<open>Both consoles are registered and the screen is well-formed.\<close>

definition con_inv :: "addr_t \<Rightarrow> addr_t \<Rightarrow> consoles \<Rightarrow> bool" where
  "con_inv ser vg c \<longleftrightarrow> dll (console_links c) (console_list c) [vg, ser] \<and> console_at c vg = x86_64_console_vga
     \<and> console_at c ser = x86_64_console_serial \<and> vga_ok (screen (devs c))"

abbreviation log_text :: "consoles \<Rightarrow> string" where
  "log_text c \<equiv> serial_text (con_ports (devs c))"

lemma x86_64_init_console_inv:
  assumes "dll (console_links c) (console_list c) []" and "vga_ok (screen (devs c))"
    and "distinct [ser, vg, console_list c]" and "ser \<noteq> NULL" and "vg \<noteq> NULL"
  shows "\<exists>c'. x86_64_init_console ser vg c = Inr c' \<and> con_inv ser vg c' \<and> devs c' = devs c"
proof -
  obtain h where h: "list_add (console_links c) (console_list c) ser = Inr h" "dll h (console_list c) [ser]"
    using klist.add_cons [OF assms(1), of ser] assms(3,4) by auto
  obtain h2 where h2: "list_add h (console_list c) vg = Inr h2" "dll h2 (console_list c) [vg, ser]"
    using klist.add_cons [OF h(2), of vg] assms(3,5) by auto
  show ?thesis using h h2 assms by (simp add: x86_64_init_console_def console_register_def con_inv_def)
qed

lemma console_write_both:
  assumes inv: "con_inv ser vg c" and n: "unat n \<le> length buf" and e: "escapes_ok (take (unat n) buf)"
  shows "\<exists>c'. console_write c buf n = Some (Inr c') \<and> con_inv ser vg c' \<and> log_text c' = log_text c @ take (unat n) buf"
proof -
  have each: "list_for_each (console_links c) (console_list c) = Some (Inr [vg, ser])"
    using inv klist.visit_all by (simp add: con_inv_def)
  obtain v where v: "vga_write_string (take (unat n) buf) (screen (devs c)) = Inr v" "vga_ok v"
    using vga_write_string_ok [of "screen (devs c)" "take (unat n) buf"] inv e by (auto simp: con_inv_def)
  show ?thesis using each v n inv
    by (simp add: console_write_def con_inv_def x86_64_console_vga_def x86_64_console_serial_def vga_write_def serial_write_def serial_text_write)
qed

lemma snprintf_putcf_take: "foldl (snprintf_putcf mx) out cs = out @ take (unat mx - length out) cs" if "length out \<le> unat mx"
  using that
proof (induction cs arbitrary: out)
  case (Cons c cs)
  then show ?case by (cases "length out < unat mx") (auto simp: snprintf_putcf_def Suc_diff_Suc [symmetric] take_Cons')
qed simp

lemma vsnprintf_fits:
  assumes "printf_format junk format args = Some (Inr cs)" and "length cs < unat sz"
  shows "vsnprintf junk sz format args = Some (Inr (cs @ [CHR 0x00], of_nat (length cs)))"
  using assms by (simp add: vsnprintf_def snprintf_putcf_take Let_def char_of_def)

text \<open>An output that fills the buffer puts the terminator behind it.\<close>

lemma vsnprintf_overflows:
  assumes "printf_format junk format args = Some (Inr cs)" and "unat sz \<le> length cs"
  shows "vsnprintf junk sz format args = Some (Inl OutOfBounds)"
  using assms by (simp add: vsnprintf_def snprintf_putcf_take Let_def)

lemma write_formatted_fits:
  assumes "con_inv ser vg (log_consoles k)" and "f = Some (Inr (cs @ [CHR 0x00], of_nat (length cs)))"
    and "length cs < 1024" and "escapes_ok cs"
  shows "\<exists>c'. write_formatted f k = Some (Inr (of_nat (length cs), k\<lparr>log_consoles := c'\<rparr>)) \<and> con_inv ser vg c'
    \<and> log_text c' = log_text (log_consoles k) @ cs"
proof -
  let ?buf = "(cs @ [CHR 0x00]) @ replicate (unat PRINTK_MAX - length (cs @ [CHR 0x00])) (CHR 0x00)"
  have n: "unat (scast (of_nat (length cs) :: u32) :: size_t) = length cs"
    using assms(3) by (subst unat_scast_small) (simp_all add: unat_of_nat take_bit_nat_eq_self)
  obtain c' where c': "console_write (log_consoles k) ?buf (scast (of_nat (length cs) :: u32)) = Some (Inr c')" "con_inv ser vg c'"
      "log_text c' = log_text (log_consoles k) @ cs"
    using console_write_both [OF assms(1), of "scast (of_nat (length cs) :: u32)" ?buf] assms(4) unfolding n by auto
  then show ?thesis unfolding write_formatted_def assms(2) by (intro exI [of _ c']) simp
qed

text \<open>The text in front of a message.\<close>

definition decimal :: "u64 \<Rightarrow> string" where
  "decimal n = map (digit_char False) (digits_of 10 (unat n))"

definition log_prefix :: "c_int \<Rightarrow> time_t \<Rightarrow> string" where
  "log_prefix level t = (let pad = (\<lambda>w s. replicate (w - length s) (CHR ''0'') @ s) in
     colors ! unat level @ ''['' @ pad 5 (decimal (t div NSEC_PER_SEC)) @ ''.'' @ pad 9 (decimal (t mod NSEC_PER_SEC))
       @ '']'' @ CHR 0x1B # ''[39m '')"

text \<open>What lies on the stack behind a width of one digit does not continue it.\<close>

definition width_ends :: "string \<Rightarrow> bool" where
  "width_ends junk \<longleftrightarrow> (case drop 1 junk of [] \<Rightarrow> True | c # cs \<Rightarrow> of_char c < (48 :: nat) \<or> of_char c > (58 :: nat))"

lemma digits_of_less: "1 < b \<Longrightarrow> d \<in> set (digits_of b n) \<Longrightarrow> d < b"
  by (induction b n rule: digits_of.induct) (subst (asm) (2) digits_of.simps, auto split: if_splits)

lemma digits_of_length: "1 < b \<Longrightarrow> n < b ^ k \<Longrightarrow> 0 < k \<Longrightarrow> length (digits_of b n) \<le> k"
proof (induction k arbitrary: n)
  case (Suc k)
  show ?case
  proof (cases "n < b")
    case True
    then show ?thesis by (simp add: digits_of.simps)
  next
    case False
    then have "0 < k" using Suc.prems by (cases k) auto
    moreover have "n div b < b ^ k" using Suc.prems by (intro less_mult_imp_div_less) (simp add: mult.commute)
    ultimately have "length (digits_of b (n div b)) \<le> k" using Suc by blast
    then show ?thesis using False Suc.prems by (subst digits_of.simps) simp
  qed
qed simp

lemma decimal_length: "length (decimal n) \<le> 20"
  unfolding decimal_def using digits_of_length [of 10 "unat n" 20] unat_less_length_power [of n] by simp

lemma of_char_digit: "d < 10 \<Longrightarrow> of_char (digit_char False d) = d + 48"
  by (simp add: digit_char_def of_char_of)

lemma decimal_no_escape: "CHR 0x1B \<notin> set (decimal n)"
proof
  assume "CHR 0x1B \<in> set (decimal n)"
  then obtain d where d: "d \<in> set (digits_of 10 (unat n))" "CHR 0x1B = digit_char False d" by (auto simp: decimal_def)
  then have "of_char (CHR 0x1B) = d + 48" using of_char_digit digits_of_less [of 10 d] by simp
  then show False by (simp add: of_char_def)
qed

lemma escapes_ok_plain: "CHR 0x1B \<notin> set xs \<Longrightarrow> escapes_ok (xs @ ys) = escapes_ok ys"
  by (induction xs) auto

lemma log_prefix_escapes: "unat level < 4 \<Longrightarrow> escapes_ok (log_prefix level t)"
proof -
  assume "unat level < 4"
  then have "unat level \<in> {0, 1, 2, 3}" by auto
  then have c: "escapes_ok (colors ! unat level @ r) = escapes_ok r" for r by (auto simp: colors_def)
  have p: "escapes_ok (replicate k (CHR ''0'') @ decimal n @ r) = escapes_ok r" for k n r
    by (simp add: escapes_ok_plain decimal_no_escape)
  show ?thesis by (simp add: log_prefix_def Let_def c p)
qed

lemma log_prefix_length: "unat level < 4 \<Longrightarrow> length (log_prefix level t) < 1024"
proof -
  assume "unat level < 4"
  then have "unat level \<in> {0, 1, 2, 3}" by auto
  then have "length (colors ! unat level) = 5" by (auto simp: colors_def)
  then show ?thesis using decimal_length [of "t div NSEC_PER_SEC"] decimal_length [of "t mod NSEC_PER_SEC"]
    by (simp add: log_prefix_def Let_def)
qed

lemma a2u_one_digit:
  assumes "width_ends junk" and "is_digit c"
  shows "unat (a2u (c # drop (Suc 0) junk)) = of_char c - 48"
proof -
  have r: "a2u_loop n (drop (Suc 0) junk) = n" for n using assms(1) by (cases "drop (Suc 0) junk") (auto simp: width_ends_def)
  have "of_char c - 48 \<le> (9 :: nat)" using assms(2) unfolding is_digit_def by arith
  then have "unat (of_nat (of_char c - 48) :: u32) = of_char c - 48" by (simp only: unat_of_nat) (simp add: take_bit_nat_eq_self)
  moreover have "a2u (c # drop (Suc 0) junk) = of_nat (of_char c - 48)" using assms(2) r by (simp add: a2u_def is_digit_def)
  ultimately show ?thesis by (simp only:)
qed

lemma printk_header_prefix:
  assumes "unat level < 4" and "width_ends junk"
  shows "printf_format junk ''%s[%05lu.%09lu]%s '' [Str (colors ! unat level), Num (t div NSEC_PER_SEC), Num (t mod NSEC_PER_SEC), Str (CHR 0x1B # ''[39m'')]
    = Some (Inr (log_prefix level t))"
proof -
  have ul: "ul2a n 10 False False = Some (decimal n)" for n
    by (simp add: ul2a_def unsigned2a_digits decimal_def)
  have w: "unat (a2u (CHR ''5'' # drop (Suc 0) junk)) = 5" "unat (a2u (CHR ''9'' # drop (Suc 0) junk)) = 9"
    using a2u_one_digit [OF assms(2)] by (simp_all add: is_digit_def of_char_def)
  show ?thesis
    by (simp add: parse_spec_def is_digit_def of_char_def convert_def conv_num_def num_arg_def puts_def ul w log_prefix_def Let_def)
qed

lemma printk_line':
  assumes "con_inv ser vg (log_consoles k)" and "unat level < 4" and "ktime_get (log_time k) = Some (Inr (t, tk))" and "width_ends junk"
    and "printf_format junk format args = Some (Inr cs)" and "length cs < 1024" and "escapes_ok cs"
  shows "\<exists>c'. printk junk k level format args = Some (Inr (of_nat (length cs), \<lparr>log_time = tk, log_consoles = c'\<rparr>))
    \<and> con_inv ser vg c' \<and> log_text c' = log_text (log_consoles k) @ log_prefix level t @ cs"
proof -
  have mx: "unat PRINTK_MAX = 1024" by (simp add: PRINTK_MAX_def)
  have s: "sint level = uint level" using assms(2) by (intro sint_int_small) simp
  moreover have "uint level < 4" using assms(2) by (metis of_nat_less_iff of_nat_numeral uint_nat)
  ultimately have lv: "level <s CONTINUE" "\<not> level <s 0" by (simp_all add: word_sless_alt CONTINUE_def)
  have "printk_header junk level t = Some (Inr (log_prefix level t @ [CHR 0x00], of_nat (length (log_prefix level t))))"
    using vsnprintf_fits [OF printk_header_prefix [OF assms(2,4)], of t PRINTK_MAX] log_prefix_length [OF assms(2)] lv
    by (simp add: printk_header_def snprintf_def mx)
  then obtain c1 where c1: "write_formatted (printk_header junk level t) (k\<lparr>log_time := tk\<rparr>)
      = Some (Inr (of_nat (length (log_prefix level t)), k\<lparr>log_time := tk, log_consoles := c1\<rparr>))" "con_inv ser vg c1"
      "log_text c1 = log_text (log_consoles k) @ log_prefix level t"
    using write_formatted_fits [of ser vg "k\<lparr>log_time := tk\<rparr>" _ "log_prefix level t"] assms(1) log_prefix_length [OF assms(2)]
      log_prefix_escapes [OF assms(2)] by auto
  obtain c2 where "write_formatted (vsnprintf junk PRINTK_MAX format args) (k\<lparr>log_time := tk, log_consoles := c1\<rparr>)
      = Some (Inr (of_nat (length cs), k\<lparr>log_time := tk, log_consoles := c2\<rparr>))" "con_inv ser vg c2" "log_text c2 = log_text c1 @ cs"
    using write_formatted_fits [of ser vg "k\<lparr>log_time := tk, log_consoles := c1\<rparr>" _ cs] c1(2) vsnprintf_fits [OF assms(5), of PRINTK_MAX] assms(6,7) mx by auto
  then show ?thesis using c1 assms(3) lv by (intro exI [of _ c2]) (simp add: printk_def)
qed

section \<open>Properties\<close>

text \<open>C36: the screen driver never leaves the screen. From a well-formed screen, a message whose escape sequences are
  complete is written, and the cursor stays on the screen, with scrolling; a message that ends inside an escape
  sequence is exactly what makes the driver run past its buffer.\<close>

theorem vga_stays_on_screen:
  assumes "vga_ok v"
  shows "(escapes_ok s \<longrightarrow> (\<exists>v'. vga_write_string s v = Inr v' \<and> vga_ok v'))
    \<and> (\<not> escapes_ok s \<longrightarrow> vga_write_string s v = Inl OutOfBounds)"
  using vga_write_string_ok [OF assms, of s] by (simp split: if_splits)

theorem vga_stays_on_screen_witness:
  "\<exists>v'. vga_write_string (''tick'' @ [CHR 0x0A]) \<lparr>vga_x = 70, vga_y = 24, vga_color = 15, video = replicate 2000 0\<rparr> = Inr v' \<and> vga_ok v'"
  using vga_stays_on_screen [of "\<lparr>vga_x = 70, vga_y = 24, vga_color = 15, video = replicate 2000 0\<rparr>" "''tick'' @ [CHR 0x0A]"]
  by (simp add: vga_ok_def del: vga_write_string.simps)

text \<open>C15: a log line arrives. With both consoles registered and the time readable, \<open>printk\<close> sends the serial port the
  colour, the time in seconds and nanoseconds with leading zeros, and then the formatted message, in that order and
  nothing else; the screen stays well-formed and the length of the message is returned.\<close>

theorem printk_line:
  assumes "con_inv ser vg (log_consoles k)" and "unat level < 4" and "ktime_get (log_time k) = Some (Inr (t, tk))" and "width_ends junk"
    and "printf_format junk format args = Some (Inr cs)" and "length cs < 1024" and "escapes_ok cs"
  shows "\<exists>c'. printk junk k level format args = Some (Inr (of_nat (length cs), \<lparr>log_time = tk, log_consoles = c'\<rparr>))
    \<and> con_inv ser vg c' \<and> log_text c' = log_text (log_consoles k) @ log_prefix level t @ cs"
  using assms by (rule printk_line')

definition demo_log :: klog where
  "demo_log = \<lparr>log_time = demo_time, log_consoles = \<lparr>console_list = 8,
     console_links = \<lparr>lnext = (\<lambda>_. 0)(8 := 32, 32 := 16, 16 := 8), lprev = (\<lambda>_. 0)(8 := 16, 16 := 32, 32 := 8)\<rparr>,
     console_at = (\<lambda>_. x86_64_console_serial)(32 := x86_64_console_vga),
     devs = \<lparr>screen = \<lparr>vga_x = 0, vga_y = 0, vga_color = 15, video = replicate 2000 0\<rparr>, con_ports = []\<rparr>\<rparr>\<rparr>"

theorem printk_line_witness:
  "\<exists>k'. printk [] demo_log INFO ''mint'' [] = Some (Inr (4, k')) \<and>
    log_text (log_consoles k') = CHR 0x1B # ''[32m[00002.500000000]'' @ CHR 0x1B # ''[39m mint''"
proof -
  have inv: "con_inv 16 32 (log_consoles demo_log)" by (simp add: con_inv_def demo_log_def dll_def vga_ok_def)
  have free: "time_update demo_time = Some (Inr (demo_time\<lparr>kernel_time := \<lparr>ts = \<lparr>ts_clock = 64, ts_read = jiffy_read, ts_frequency = 1000, ts_last = 2500\<rparr>,
      raw_time = \<lparr>tv_sec = 2, tv_nsec = 500000000\<rparr>\<rparr>\<rparr>))"
    by (subst time_update_free [of demo_time 2500 "clock_state demo_time"])
      (simp_all add: demo_time_def jiffy_read_def NSEC_PER_SEC_def coalesce.simps)
  then obtain tk where t: "ktime_get (log_time demo_log) = Some (Inr (2500000000, tk))"
    by (simp add: ktime_get_def demo_log_def NSEC_PER_SEC_def)
  have p: "log_prefix INFO 2500000000 = CHR 0x1B # ''[32m[00002.500000000]'' @ CHR 0x1B # ''[39m ''"
    by (simp add: log_prefix_def INFO_def colors_def decimal_def NSEC_PER_SEC_def digits_of.simps digit_char_def char_of_def bit_nat_def Let_def)
      (simp add: numeral_eq_Suc)
  have "log_text (log_consoles demo_log) = []" by (simp add: demo_log_def serial_text_def)
  then show ?thesis using printk_line [OF inv _ t, of INFO "[]" "''mint''" "[]" "''mint''"] p by (auto simp: INFO_def width_ends_def)
qed

end
