(* ===== verification/Clock.thy ===== *)
theory Clock
  imports Console
begin

text \<open>
  \<open>kernel/time/clocksource.c\<close>, \<open>kernel/time/tick.c\<close>, \<open>drivers/clock/tsc.c\<close> and
  \<open>drivers/clock/intel-8253.c\<close>: the registry that picks the best clock, the calibration of the time stamp counter
  and the periodic tick. Registering a clock writes to the log, which reads the time; that is part of the model. What
  \<open>inb(0x61)\<close> delivers is the sequence \<open>pit_gate\<close>.
\<close>

section \<open>Definitions\<close>

subsection \<open>clocksource.c\<close>

record kclock =
  clk_log :: klog
  clocksource_list :: addr_t
  clocksource_links :: list_heap
  current_clocksource :: addr_t
  pit_gate :: "nat \<Rightarrow> u8"
  pit_polls :: nat

abbreviation clk_time :: "kclock \<Rightarrow> timekeeper" where
  "clk_time s \<equiv> log_time (clk_log s)"

abbreviation source :: "kclock \<Rightarrow> addr_t \<Rightarrow> clocksource" where
  "source s c \<equiv> clock_at (clk_time s) c"

definition select_step :: "(addr_t \<Rightarrow> u32) \<Rightarrow> addr_t \<Rightarrow> addr_t \<times> bool \<Rightarrow> addr_t \<times> bool" where
  "select_step rating cs st = (case st of (cur, changed) \<Rightarrow>
     if cur \<noteq> NULL then (if rating cs > rating cur then cs else cur, True) else (cs, True))"

text \<open>A call of \<open>printk\<close> in the state of the clocks, followed by the rest.\<close>

definition clk_printk :: "string \<Rightarrow> c_int \<Rightarrow> string \<Rightarrow> parg list \<Rightarrow> (kclock \<Rightarrow> 'a res option) \<Rightarrow> kclock \<Rightarrow> 'a res option" where
  "clk_printk junk level format args rest s =
     Option.bind (printk junk (clk_log s) level format args) (\<lambda>r. case r of Inl e \<Rightarrow> Some (Inl e) | Inr (n, k) \<Rightarrow> rest (s\<lparr>clk_log := k\<rparr>))"

definition use_clocksource :: "kclock \<Rightarrow> kclock res" where
  "use_clocksource s = bind_res (time_update_clocksource (clk_time s) (current_clocksource s)) (\<lambda>tk.
     Inr (s\<lparr>clk_log := (clk_log s)\<lparr>log_time := tk\<rparr>\<rparr>))"

definition clocksource_select :: "string \<Rightarrow> kclock \<Rightarrow> kclock res option" where
  "clocksource_select junk s =
     Option.bind (list_for_each (clocksource_links s) (clocksource_list s)) (\<lambda>r. case r of Inl e \<Rightarrow> Some (Inl e)
     | Inr cs \<Rightarrow>
        let (cur, changed) = fold (select_step (\<lambda>c. cs_rating (source s c))) cs (current_clocksource s, False);
            s = s\<lparr>current_clocksource := cur\<rparr>
        in if changed
           then clk_printk junk INFO (''clocksource: Setting %s as current clocksource'' @ [CHR 0x0A]) [Str (cs_name (source s cur))]
                  (\<lambda>s. Some (use_clocksource s)) s
           else Some (Inr s))"

definition clocksource_register :: "string \<Rightarrow> kclock \<Rightarrow> addr_t \<Rightarrow> kclock res option" where
  "clocksource_register junk s cs =
     (case list_add (clocksource_links s) (clocksource_list s) cs of Inl e \<Rightarrow> Some (Inl e)
      | Inr h \<Rightarrow> clk_printk junk INFO (''clocksource: Registered clocksource %s with rating %d'' @ [CHR 0x0A])
          [Str (cs_name (source s cs)), Num (ucast (cs_rating (source s cs)))] (clocksource_select junk) (s\<lparr>clocksource_links := h\<rparr>))"

definition clocksource_get :: "kclock \<Rightarrow> addr_t" where
  "clocksource_get s = current_clocksource s"

subsection \<open>tsc.c\<close>

definition PIT_FREQ :: u64 where "PIT_FREQ = 1193182"
definition TSC_CALIBRATE_MS :: u64 where "TSC_CALIBRATE_MS = 10"
definition TSC_CALIBRATE_LATCH :: u64 where "TSC_CALIBRATE_LATCH = PIT_FREQ div (1000 div TSC_CALIBRATE_MS)"

definition tsc_read :: clock_read where
  "tsc_read hw =
     (let v = tsc_values hw (tsc_reads hw); low = ucast v :: u32; high = ucast (drop_bit 32 v) :: u32
      in (push_bit 32 (ucast high) OR ucast low, hw\<lparr>tsc_reads := tsc_reads hw + 1\<rparr>))"

definition tsc_clocksource :: clocksource where
  "tsc_clocksource = \<lparr>cs_name = ''tsc'', cs_read = tsc_read, cs_enable = 0, cs_rating = 350, cs_frequency = 0\<rparr>"

text \<open>The wait for the timer: the number of polls made when it ends.\<close>

partial_function (option) pit_wait :: "(nat \<Rightarrow> u8) \<Rightarrow> nat \<Rightarrow> nat option" where
  "pit_wait gate n = (if gate n AND 0x20 = 0 then pit_wait gate (n + 1) else Some (n + 1))"

definition clk_outb :: "u16 \<Rightarrow> u8 \<Rightarrow> kclock \<Rightarrow> kclock" where
  "clk_outb p v s = (let k = clk_log s; c = log_consoles k; d = devs c
     in s\<lparr>clk_log := k\<lparr>log_consoles := c\<lparr>devs := d\<lparr>con_ports := outb p v (con_ports d)\<rparr>\<rparr>\<rparr>\<rparr>)"

definition clk_tsc :: "kclock \<Rightarrow> time_t \<times> kclock" where
  "clk_tsc s = (let (v, hw) = tsc_read (clock_state (clk_time s))
     in (v, s\<lparr>clk_log := (clk_log s)\<lparr>log_time := (clk_time s)\<lparr>clock_state := hw\<rparr>\<rparr>\<rparr>))"

definition tsc_calibrate :: "u64 \<Rightarrow> kclock \<Rightarrow> (time_t \<times> kclock) res option" where
  "tsc_calibrate ms s =
     (let s = clk_outb 0x42 (ucast (drop_bit 8 TSC_CALIBRATE_LATCH)) (clk_outb 0x42 (ucast (TSC_CALIBRATE_LATCH AND 0xFF)) (clk_outb 0x43 0xB0 s));
          (t1, s) = clk_tsc s
      in Option.bind (pit_wait (pit_gate s) (pit_polls s)) (\<lambda>n.
           let s = s\<lparr>pit_polls := n\<rparr>; (t2, s) = clk_tsc s
           in Some (if ms = 0 then Inl DivByZero else Inr ((t2 - t1) div ms, s))))"

text \<open>The calibrations still to make, the last result and the lowest.\<close>

fun calibrations :: "nat \<Rightarrow> time_t \<Rightarrow> time_t \<Rightarrow> kclock \<Rightarrow> (time_t \<times> time_t \<times> kclock) res option" where
  "calibrations 0 khz lowest s = Some (Inr (khz, lowest, s))"
| "calibrations (Suc i) khz lowest s =
     Option.bind (tsc_calibrate TSC_CALIBRATE_MS s) (\<lambda>r. case r of Inl e \<Rightarrow> Some (Inl e)
     | Inr (khz, s) \<Rightarrow> calibrations i khz (if khz < lowest then khz else lowest) s)"

text \<open>\<open>tsc\<close> is the address of the clock structure.\<close>

definition tsc_init :: "string \<Rightarrow> addr_t \<Rightarrow> kclock \<Rightarrow> (u32 \<times> kclock) res option" where
  "tsc_init junk tsc s =
     Option.bind (calibrations 5 0 (- 1) s) (\<lambda>r. case r of Inl e \<Rightarrow> Some (Inl e)
     | Inr (khz, lowest, s) \<Rightarrow>
         clk_printk junk INFO (''tsc: Calibrated to %lluKHz'' @ [CHR 0x0A]) [Num lowest] (\<lambda>s.
           let tk = clk_time s;
               tk = tk\<lparr>clock_at := (clock_at tk)(tsc := (clock_at tk tsc)\<lparr>cs_frequency := ucast (khz * 1000)\<rparr>)\<rparr>
           in map_option (\<lambda>r. bind_res r (\<lambda>s. Inr (0, s))) (clocksource_register junk (s\<lparr>clk_log := (clk_log s)\<lparr>log_time := tk\<rparr>\<rparr>) tsc)) s)"

subsection \<open>tick.c and intel-8253.c\<close>

definition tick_handler :: "kclock \<Rightarrow> tm \<Rightarrow> interrupt_ctx \<Rightarrow> (interrupt_ctx \<times> kclock \<times> tm) res option" where
  "tick_handler s m ctx =
     (let tk = clk_time s; tk = tk\<lparr>clock_state := jiffy_increase (clock_state tk)\<rparr>
      in Option.bind (time_update tk) (\<lambda>r. case r of Inl e \<Rightarrow> Some (Inl e)
         | Inr tk \<Rightarrow> Some (bind_res (sched_tick m ctx) (\<lambda>(ctx, m). Inr (ctx, s\<lparr>clk_log := (clk_log s)\<lparr>log_time := tk\<rparr>\<rparr>, m)))))"

definition INTEL_8253_IRQ :: nat where "INTEL_8253_IRQ = 0"

definition intel_8253_handler :: "kclock \<Rightarrow> tm \<Rightarrow> interrupt_ctx \<Rightarrow> addr_t \<Rightarrow> (u32 \<times> interrupt_ctx \<times> kclock \<times> tm) res option" where
  "intel_8253_handler s m ctx dev = map_option (\<lambda>r. bind_res r (\<lambda>x. Inr (0, x))) (tick_handler s m ctx)"

text \<open>\<open>hp\<close> and \<open>fn\<close> are the addresses of the handler structure and of the handler function.\<close>

definition init_intel_8253 :: "addr_t \<Rightarrow> addr_t \<Rightarrow> intr \<Rightarrow> (u32 \<times> intr) res" where
  "init_intel_8253 hp fn s =
     (let s = s\<lparr>handler_at := (handler_at s)(hp := \<lparr>handler = fn, dev_name = ''Intel 8253'', dev_id = hp\<rparr>)\<rparr>
      in bind_res (interrupt_handler_register s INTEL_8253_IRQ hp) (\<lambda>s.
           let divisor = 1193180 div (ucast HZ :: u32)
           in Inr (0, s\<lparr>ports := outb 0x40 (ucast (drop_bit 8 divisor AND 0xFF)) (outb 0x40 (ucast (divisor AND 0xFF)) (outb 0x43 0x34 (ports s)))\<rparr>)))"

section \<open>Registering a clock\<close>

definition time_ok :: "timekeeper \<Rightarrow> bool" where
  "time_ok tk \<longleftrightarrow> kernel_time_lock tk = 0 \<and> (ts_clock (ts (kernel_time tk)) = NULL \<or> ts_frequency (ts (kernel_time tk)) \<noteq> 0)"

lemma time_update_total:
  assumes "time_ok tk"
  shows "\<exists>tk'. time_update tk = Some (Inr tk') \<and> time_ok tk' \<and> clock_at tk' = clock_at tk"
proof (cases "ts_clock (ts (kernel_time tk)) = NULL")
  case True
  then show ?thesis using assms by (simp add: time_ok_def time_update_def spinlock_unlock_def Let_def)
next
  case False
  obtain now hw where r: "ts_read (ts (kernel_time tk)) (clock_state tk) = (now, hw)" by fastforce
  show ?thesis using time_update_free [OF _ False _ r] assms False by (simp add: time_ok_def)
qed

lemma ktime_get_total:
  assumes "time_ok tk"
  shows "\<exists>t tk'. ktime_get tk = Some (Inr (t, tk')) \<and> time_ok tk' \<and> clock_at tk' = clock_at tk"
  using time_update_total [OF assms] by (auto simp: ktime_get_def Let_def)

text \<open>The log works.\<close>

definition log_ok :: "addr_t \<Rightarrow> addr_t \<Rightarrow> klog \<Rightarrow> bool" where
  "log_ok ser vg k \<longleftrightarrow> con_inv ser vg (log_consoles k) \<and> time_ok (log_time k)"

lemma printk_total:
  assumes "log_ok ser vg k" and "unat level < 4" and "width_ends junk" and "printf_format junk format args = Some (Inr cs)"
    and "length cs < 1024" and "escapes_ok cs"
  shows "\<exists>n k'. printk junk k level format args = Some (Inr (n, k')) \<and> log_ok ser vg k' \<and> clock_at (log_time k') = clock_at (log_time k)"
proof -
  obtain t tk where "ktime_get (log_time k) = Some (Inr (t, tk))" "time_ok tk" "clock_at tk = clock_at (log_time k)"
    using ktime_get_total assms(1) by (meson log_ok_def)
  then show ?thesis using printk_line' [of ser vg k level t tk junk format args cs] assms by (auto simp: log_ok_def)
qed

text \<open>A name that can be printed.\<close>

definition name_ok :: "string \<Rightarrow> bool" where
  "name_ok n \<longleftrightarrow> length n < 900 \<and> CHR 0x1B \<notin> set n"

lemma printf_name:
  "printf_format junk (''clocksource: Setting %s as current clocksource'' @ [CHR 0x0A]) [Str n]
    = Some (Inr (''clocksource: Setting '' @ n @ '' as current clocksource'' @ [CHR 0x0A]))"
  by (simp add: parse_spec_def is_digit_def of_char_def convert_def puts_def Let_def)

lemma i2a_total: "\<exists>d. i2a n = Some d \<and> length d \<le> 21 \<and> CHR 0x1B \<notin> set d"
proof -
  have d: "length (digits_of 10 (unat m)) \<le> 20" for m :: u32
    using digits_of_length [of 10 "unat m" 20] unat_less_length_power [of m] by simp
  have e: "CHR 0x1B \<notin> set (map (digit_char False) (digits_of 10 (unat m)))" for m :: u32
    using decimal_no_escape [of "ucast m"] by (simp add: decimal_def unat_ucast_widen)
  have "ui2a m 10 False g = Some ((if g then ''-'' else []) @ map (digit_char False) (digits_of 10 (unat m)))" for m g
    by (simp add: ui2a_def unsigned2a_digits)
  then show ?thesis using d [of n] d [of "- n"] e [of n] e [of "- n"] by (auto simp: i2a_def)
qed

lemma printf_registered:
  "\<exists>d. printf_format junk (''clocksource: Registered clocksource %s with rating %d'' @ [CHR 0x0A]) [Str n, Num v]
    = Some (Inr (''clocksource: Registered clocksource '' @ n @ '' with rating '' @ d @ [CHR 0x0A])) \<and> length d \<le> 21 \<and> CHR 0x1B \<notin> set d"
proof -
  obtain d where "i2a (ucast v) = Some d" "length d \<le> 21" "CHR 0x1B \<notin> set d" using i2a_total by blast
  then show ?thesis by (simp add: parse_spec_def is_digit_def of_char_def convert_def conv_num_def num_arg_def puts_def Let_def)
qed

lemma select_best:
  assumes "NULL \<notin> set cs" and "cs \<noteq> [] \<or> cur \<noteq> NULL"
  shows "\<exists>best ch. fold (select_step r) cs (cur, ch0) = (best, ch) \<and> best \<in> set cs \<union> ({cur} - {NULL}) \<and> (cs \<noteq> [] \<longrightarrow> ch)
    \<and> (\<forall>c \<in> set cs \<union> ({cur} - {NULL}). r c \<le> r best)"
  using assms
proof (induction cs arbitrary: cur ch0)
  case (Cons c cs)
  let ?n = "if cur = NULL then c else if r c > r cur then c else cur"
  have st: "select_step r c (cur, ch0) = (?n, True)" by (simp add: select_step_def)
  have "?n \<noteq> NULL" "NULL \<notin> set cs" using Cons.prems by auto
  from Cons.IH [OF this(2) disjI2 [OF this(1)], of True] obtain best ch where b:
      "fold (select_step r) cs (?n, True) = (best, ch)" "best \<in> set cs \<union> ({?n} - {NULL})"
      "cs \<noteq> [] \<longrightarrow> ch" "\<forall>c \<in> set cs \<union> ({?n} - {NULL}). r c \<le> r best" by blast
  have "cs = [] \<Longrightarrow> ch" using b(1) by simp
  then show ?case using b st \<open>?n \<noteq> NULL\<close> by (auto split: if_splits)
qed simp

lemma clk_printk_total:
  assumes "log_ok ser vg (clk_log s)" and "unat level < 4" and "width_ends junk" and "printf_format junk format args = Some (Inr cs)"
    and "length cs < 1024" and "escapes_ok cs"
  shows "\<exists>k. clk_printk junk level format args rest s = rest (s\<lparr>clk_log := k\<rparr>) \<and> log_ok ser vg k
    \<and> clock_at (log_time k) = clock_at (clk_time s)"
  using printk_total [OF assms] by (auto simp: clk_printk_def)

definition clocks_inv :: "addr_t \<Rightarrow> addr_t \<Rightarrow> kclock \<Rightarrow> addr_t list \<Rightarrow> bool" where
  "clocks_inv ser vg s xs \<longleftrightarrow> log_ok ser vg (clk_log s) \<and> dll (clocksource_links s) (clocksource_list s) xs
     \<and> (current_clocksource s = NULL \<or> current_clocksource s \<in> set xs) \<and> (\<forall>c \<in> set xs. name_ok (cs_name (source s c)))"

lemma escapes_ok_no_escape: "CHR 0x1B \<notin> set xs \<Longrightarrow> escapes_ok xs"
  using escapes_ok_plain [of xs "[]"] by simp

lemma clocksource_select_best:
  assumes "clocks_inv ser vg s xs" and "xs \<noteq> []" and "width_ends junk" and "\<forall>c \<in> set xs. cs_frequency (source s c) \<noteq> 0"
  shows "\<exists>s' cur. clocksource_select junk s = Some (Inr s') \<and> clocks_inv ser vg s' xs \<and> clock_at (clk_time s') = clock_at (clk_time s)
    \<and> current_clocksource s' = cur \<and> cur \<in> set xs \<and> (\<forall>c \<in> set xs. cs_rating (source s c) \<le> cs_rating (source s cur))
    \<and> ts_clock (ts (kernel_time (clk_time s'))) = cur \<and> ts_frequency (ts (kernel_time (clk_time s'))) = cs_frequency (source s cur)"
proof -
  let ?r = "\<lambda>c. cs_rating (source s c)"
  have xs: "list_for_each (clocksource_links s) (clocksource_list s) = Some (Inr xs)" "NULL \<notin> set xs"
    using assms(1) klist.visit_all by (auto simp: clocks_inv_def dll_def)
  obtain cur ch where c: "fold (select_step ?r) xs (current_clocksource s, False) = (cur, ch)"
      "cur \<in> set xs \<union> ({current_clocksource s} - {NULL})" "ch" "\<forall>c \<in> set xs \<union> ({current_clocksource s} - {NULL}). ?r c \<le> ?r cur"
    using select_best [OF xs(2), of "current_clocksource s" ?r False] assms(2) by blast
  have cur: "cur \<in> set xs" "cur \<noteq> NULL" using c(2) assms(1) xs(2) by (auto simp: clocks_inv_def)
  let ?s = "s\<lparr>current_clocksource := cur\<rparr>"
  let ?m = "''clocksource: Setting '' @ cs_name (source s cur) @ '' as current clocksource'' @ [CHR 0x0A]"
  have "name_ok (cs_name (source s cur))" using cur assms(1) by (simp add: clocks_inv_def)
  then have m: "length ?m < 1024" "escapes_ok ?m" by (auto simp: name_ok_def intro: escapes_ok_no_escape)
  have ok: "log_ok ser vg (clk_log ?s)" using assms(1) by (simp add: clocks_inv_def)
  obtain k where k: "clk_printk junk INFO (''clocksource: Setting %s as current clocksource'' @ [CHR 0x0A]) [Str (cs_name (source s cur))]
      (\<lambda>s. Some (use_clocksource s)) ?s = Some (use_clocksource (?s\<lparr>clk_log := k\<rparr>))" "log_ok ser vg k" "clock_at (log_time k) = clock_at (clk_time s)"
    using clk_printk_total [OF ok _ assms(3) printf_name m, of INFO "\<lambda>s. Some (use_clocksource s)"] by (auto simp: INFO_def)
  have sel: "clocksource_select junk s = Some (use_clocksource (?s\<lparr>clk_log := k\<rparr>))"
    using xs(1) c(1,3) k(1) by (simp add: clocksource_select_def)
  obtain now hw where rd: "cs_read (source s cur) (clock_state (log_time k)) = (now, hw)" by fastforce
  let ?tk = "(log_time k)\<lparr>clock_state := hw, kernel_time := (kernel_time (log_time k))\<lparr>ts := \<lparr>ts_clock = cur, ts_read = cs_read (source s cur),
      ts_frequency = cs_frequency (source s cur), ts_last = now\<rparr>\<rparr>\<rparr>"
  have u: "use_clocksource (?s\<lparr>clk_log := k\<rparr>) = Inr (?s\<lparr>clk_log := k\<lparr>log_time := ?tk\<rparr>\<rparr>)"
    using cur(2) rd k(3) by (simp add: use_clocksource_def time_update_clocksource_def Let_def)
  have "log_ok ser vg (k\<lparr>log_time := ?tk\<rparr>)" using k(2) assms(4) cur(1) by (simp add: log_ok_def time_ok_def)
  then show ?thesis unfolding sel u using assms(1) cur c(4) k(3) by (simp add: clocks_inv_def)
qed

section \<open>Properties\<close>

text \<open>C17: the best clock is in use. Registering a clock with a working log and named clocks of nonzero frequency returns, the clock is
  in the list, the current clock is one of the list with the highest rating, and the time is kept from it at its frequency.\<close>

theorem clocksource_register_best:
  assumes inv: "clocks_inv ser vg s xs" and new: "cs \<notin> insert NULL (insert (clocksource_list s) (set xs))" and "width_ends junk"
    and ok: "\<forall>c \<in> insert cs (set xs). cs_frequency (source s c) \<noteq> 0" and n: "name_ok (cs_name (source s cs))"
  shows "\<exists>s'. clocksource_register junk s cs = Some (Inr s') \<and> clocks_inv ser vg s' (cs # xs)
    \<and> clocksource_get s' \<in> insert cs (set xs)
    \<and> (\<forall>c \<in> insert cs (set xs). cs_rating (source s c) \<le> cs_rating (source s (clocksource_get s')))
    \<and> ts_clock (ts (kernel_time (clk_time s'))) = clocksource_get s'
    \<and> ts_frequency (ts (kernel_time (clk_time s'))) = cs_frequency (source s (clocksource_get s'))"
proof -
  obtain h where h: "list_add (clocksource_links s) (clocksource_list s) cs = Inr h" "dll h (clocksource_list s) (cs # xs)"
    using klist.add_cons [of "clocksource_links s" "clocksource_list s" xs cs] inv new by (auto simp: clocks_inv_def)
  let ?s = "s\<lparr>clocksource_links := h\<rparr>"
  let ?f = "''clocksource: Registered clocksource %s with rating %d'' @ [CHR 0x0A]"
  obtain d where d: "printf_format junk ?f [Str (cs_name (source s cs)), Num (ucast (cs_rating (source s cs)))]
      = Some (Inr (''clocksource: Registered clocksource '' @ cs_name (source s cs) @ '' with rating '' @ d @ [CHR 0x0A]))"
      "length d \<le> 21" "CHR 0x1B \<notin> set d" using printf_registered by blast
  have ok': "log_ok ser vg (clk_log ?s)" using inv by (simp add: clocks_inv_def)
  let ?m = "''clocksource: Registered clocksource '' @ cs_name (source s cs) @ '' with rating '' @ d @ [CHR 0x0A]"
  have m: "length ?m < 1024" "escapes_ok ?m" using d(2,3) n by (auto simp: name_ok_def intro: escapes_ok_no_escape)
  obtain k where k: "clk_printk junk INFO ?f [Str (cs_name (source s cs)), Num (ucast (cs_rating (source s cs)))] (clocksource_select junk) ?s
      = clocksource_select junk (?s\<lparr>clk_log := k\<rparr>)" "log_ok ser vg k" "clock_at (log_time k) = clock_at (clk_time s)"
    using clk_printk_total [OF ok' _ assms(3) d(1) m, of INFO "clocksource_select junk"] by (auto simp: INFO_def)
  have inv': "clocks_inv ser vg (?s\<lparr>clk_log := k\<rparr>) (cs # xs)" using inv h(2) k(2,3) n by (auto simp: clocks_inv_def)
  have src: "source (?s\<lparr>clk_log := k\<rparr>) = source s" using k(3) by simp
  have reg: "clocksource_register junk s cs = clocksource_select junk (?s\<lparr>clk_log := k\<rparr>)"
    using h(1) k(1) by (simp add: clocksource_register_def)
  have "\<forall>c \<in> set (cs # xs). cs_frequency (source (?s\<lparr>clk_log := k\<rparr>) c) \<noteq> 0" unfolding src using ok by simp
  from clocksource_select_best [OF inv' _ assms(3) this, unfolded src] show ?thesis
    unfolding reg clocksource_get_def list.set(2) by blast
qed

definition demo_clock :: kclock where
  "demo_clock = \<lparr>clk_log = demo_log\<lparr>log_time := demo_time\<lparr>clock_at := (\<lambda>_. jiffy_clocksource)(128 := tsc_clocksource\<lparr>cs_frequency := 3000000000\<rparr>)\<rparr>\<rparr>,
     clocksource_list = 96, clocksource_links = \<lparr>lnext = (\<lambda>_. 0)(96 := 64, 64 := 96), lprev = (\<lambda>_. 0)(96 := 64, 64 := 96)\<rparr>,
     current_clocksource = 64, pit_gate = (\<lambda>_. 0x20), pit_polls = 0\<rparr>"

lemma demo_clock_inv: "clocks_inv 16 32 demo_clock [64]"
  by (simp add: clocks_inv_def log_ok_def con_inv_def time_ok_def demo_clock_def demo_log_def demo_time_def dll_def vga_ok_def name_ok_def
      jiffy_clocksource_def)

theorem clocksource_register_best_witness:
  "\<exists>s'. clocksource_register [] demo_clock 128 = Some (Inr s') \<and> clocksource_get s' = 128"
proof -
  have "\<exists>s'. clocksource_register [] demo_clock 128 = Some (Inr s') \<and> clocksource_get s' \<in> insert 128 (set [64])
    \<and> (\<forall>c \<in> insert 128 (set [64]). cs_rating (source demo_clock c) \<le> cs_rating (source demo_clock (clocksource_get s')))"
    using clocksource_register_best [OF demo_clock_inv, of 128 "[]"]
    by (auto simp: demo_clock_def width_ends_def jiffy_clocksource_def tsc_clocksource_def name_ok_def)
  moreover have "cs_rating (source demo_clock 128) = 350" "cs_rating (source demo_clock 64) = 1"
    by (simp_all add: demo_clock_def tsc_clocksource_def jiffy_clocksource_def)
  moreover have "\<not> (350 :: u32) \<le> 1" by (simp add: word_le_nat_alt)
  ultimately show ?thesis by auto
qed

text \<open>The tick counter is the clock and the kernel time is in step with it.\<close>

definition ticking :: "timekeeper \<Rightarrow> bool" where
  "ticking tk \<longleftrightarrow> kernel_time_lock tk = 0 \<and> ts_clock (ts (kernel_time tk)) \<noteq> NULL \<and> ts_frequency (ts (kernel_time tk)) = 1000
     \<and> ts_read (ts (kernel_time tk)) = jiffy_read \<and> ts_last (ts (kernel_time tk)) = jiffy (clock_state tk)
     \<and> unat (tv_nsec (raw_time (kernel_time tk))) < 1000000000"

lemma tick_millisecond:
  assumes "ticking tk" and "unat (tv_sec (raw_time (kernel_time tk))) + 1 < 2 ^ 64"
  shows "\<exists>tk'. time_update (tk\<lparr>clock_state := jiffy_increase (clock_state tk)\<rparr>) = Some (Inr tk') \<and> ticking tk'
    \<and> ns_of (raw_time (kernel_time tk')) = ns_of (raw_time (kernel_time tk)) + 1000000 \<and> jiffy (clock_state tk') = jiffy (clock_state tk) + 1"
proof -
  let ?tk = "tk\<lparr>clock_state := jiffy_increase (clock_state tk)\<rparr>"
  have rd: "ts_read (ts (kernel_time ?tk)) (clock_state ?tk) = (jiffy (clock_state tk) + 1, clock_state ?tk)"
    using assms(1) by (simp add: ticking_def jiffy_read_def jiffy_increase_def)
  have n: "unat (tv_nsec (raw_time (kernel_time tk))) < 1000000000" using assms(1) by (simp add: ticking_def)
  have "ns_of (raw_time (kernel_time tk)) + 1000000 < (unat (tv_sec (raw_time (kernel_time tk))) + 2) * 1000000000"
    using n by (simp add: ns_of_def add_mult_distrib)
  then have "(ns_of (raw_time (kernel_time tk)) + 1000000) div 1000000000 < unat (tv_sec (raw_time (kernel_time tk))) + 2"
    by (rule less_mult_imp_div_less)
  then have tot: "(ns_of (raw_time (kernel_time ?tk)) + 1000000) div 1000000000 < 2 ^ 64" using assms(2) by simp
  have "\<exists>rt. time_update ?tk = Some (Inr (?tk\<lparr>kernel_time := \<lparr>ts = (ts (kernel_time ?tk))\<lparr>ts_last := jiffy (clock_state tk) + 1\<rparr>, raw_time = rt\<rparr>,
      clock_state := clock_state ?tk, kernel_time_lock := 0\<rparr>)) \<and> ns_of rt = ns_of (raw_time (kernel_time ?tk)) + 1000000 \<and> unat (tv_nsec rt) < 1000000000"
    by (rule time_update_ns [OF _ _ _ rd _ _ _ _ tot, where c = 1]) (use assms(1) n in \<open>simp_all add: ticking_def\<close>)
  then show ?thesis using assms(1) by (auto simp: ticking_def jiffy_increase_def)
qed



section \<open>Calibration\<close>

text \<open>\<open>rdtsc\<close> read in halves is the counter.\<close>

lemma tsc_read_value: "fst (tsc_read hw) = tsc_values hw (tsc_reads hw)"
proof -
  let ?v = "tsc_values hw (tsc_reads hw)"
  have "push_bit 32 (ucast (ucast (drop_bit 32 ?v) :: u32)) OR ucast (ucast ?v :: u32) = ?v"
    by (rule bit_word_eqI) (auto simp: bit_simps)
  then show ?thesis by (simp add: tsc_read_def Let_def)
qed

lemma tsc_calibrate_ready:
  assumes "\<forall>n. pit_gate s n AND 0x20 \<noteq> 0"
  shows "\<exists>s'. tsc_calibrate TSC_CALIBRATE_MS s = Some (Inr ((tsc_values (clock_state (clk_time s)) (tsc_reads (clock_state (clk_time s)) + 1)
      - tsc_values (clock_state (clk_time s)) (tsc_reads (clock_state (clk_time s)))) div 10, s'))
    \<and> pit_gate s' = pit_gate s \<and> tsc_values (clock_state (clk_time s')) = tsc_values (clock_state (clk_time s))
    \<and> tsc_reads (clock_state (clk_time s')) = tsc_reads (clock_state (clk_time s)) + 2"
proof -
  have w: "pit_wait (pit_gate s) n = Some (n + 1)" for n using assms by (simp add: pit_wait.simps)
  have tsc: "clk_tsc t = (tsc_values (clock_state (clk_time t)) (tsc_reads (clock_state (clk_time t))), t\<lparr>clk_log := (clk_log t)\<lparr>log_time := (clk_time t)\<lparr>clock_state :=
      (clock_state (clk_time t))\<lparr>tsc_reads := tsc_reads (clock_state (clk_time t)) + 1\<rparr>\<rparr>\<rparr>\<rparr>)" for t
    using tsc_read_value [of "clock_state (clk_time t)"] by (simp add: clk_tsc_def tsc_read_def Let_def)
  show ?thesis by (simp add: tsc_calibrate_def TSC_CALIBRATE_MS_def clk_outb_def tsc w Let_def)
qed

text \<open>The loop of \<open>tsc_init\<close> keeps the lowest of the measurements but leaves the last one in \<open>khz\<close>, from which the frequency is set.\<close>

lemma calibrations_last:
  assumes "\<forall>n. pit_gate s n AND 0x20 \<noteq> 0"
  shows "\<exists>lo s'. calibrations (Suc i) khz lowest s = Some (Inr ((tsc_values (clock_state (clk_time s)) (tsc_reads (clock_state (clk_time s)) + 2 * i + 1)
      - tsc_values (clock_state (clk_time s)) (tsc_reads (clock_state (clk_time s)) + 2 * i)) div 10, lo, s')) \<and> lo \<le> lowest"
  using assms
proof (induction i arbitrary: khz lowest s)
  case 0
  then show ?case using tsc_calibrate_ready [OF 0] by auto
next
  case (Suc i)
  let ?hw = "clock_state (clk_time s)"
  obtain k s1 where s1: "tsc_calibrate TSC_CALIBRATE_MS s = Some (Inr (k, s1))" "pit_gate s1 = pit_gate s"
      "tsc_values (clock_state (clk_time s1)) = tsc_values ?hw" "tsc_reads (clock_state (clk_time s1)) = tsc_reads ?hw + 2"
    using tsc_calibrate_ready [OF Suc.prems] by blast
  obtain lo s2 where "calibrations (Suc i) k (if k < lowest then k else lowest) s1 = Some (Inr ((tsc_values ?hw (tsc_reads ?hw + 2 + 2 * i + 1)
      - tsc_values ?hw (tsc_reads ?hw + 2 + 2 * i)) div 10, lo, s2))" "lo \<le> (if k < lowest then k else lowest)"
    using Suc.IH [of s1 k "if k < lowest then k else lowest"] Suc.prems s1(2-4) by auto
  then show ?case using s1(1) by (subst calibrations.simps(2)) (auto simp: add.commute add.left_commute simp del: calibrations.simps split: if_splits)
qed

end
