(* ===== verification/Debug.thy ===== *)
theory Debug
  imports Clock
begin

text \<open>
  \<open>kernel/symbol.c\<close>, \<open>arch/x86_64/kernel/stacktrace.c\<close>, \<open>kernel/stacktrace.c\<close>, \<open>kernel/panic.c\<close> and
  \<open>kernel/init.c\<close>: the table of kernel symbols, the walk over the saved frame pointers that prints them, the
  panic message, and the calls a boot level makes. The words the walk reads are the parameter \<open>mem\<close>; what
  \<open>kmalloc\<close> returns for a symbol is an argument of its registration.
\<close>

section \<open>Definitions\<close>

subsection \<open>symbol.c\<close>

record ksymbol =
  ks_address :: addr_t
  ks_name :: string

record symtab =
  ksymbol_list :: addr_t
  ksymbol_links :: list_heap
  ksymbol_at :: "addr_t \<Rightarrow> ksymbol"

text \<open>The string in the buffer after \<open>strncpy\<close> with \<open>name_size\<close> and the terminator at that index. The memory is not
  cleared: when the name is one character shorter than \<open>name_size\<close>, \<open>strncpy\<close> does not terminate it and the
  byte in between was never written.\<close>

definition copied_name :: "string \<Rightarrow> nat \<Rightarrow> string res" where
  "copied_name name n = (if n \<le> length name then Inr (take n name) else if length name + 1 = n then Inl Uninitialised else Inr name)"

definition ksymbol_register :: "symtab \<Rightarrow> addr_t \<Rightarrow> addr_t \<Rightarrow> string \<Rightarrow> size_t \<Rightarrow> symtab res" where
  "ksymbol_register s p address name name_size =
     (if p = NULL then Inl NullDeref
      else bind_res (copied_name name (unat name_size)) (\<lambda>nm.
           bind_res (list_add (ksymbol_links s) (ksymbol_list s) p) (\<lambda>h.
             Inr (s\<lparr>ksymbol_links := h, ksymbol_at := (ksymbol_at s)(p := \<lparr>ks_address = address, ks_name = nm\<rparr>)\<rparr>))))"

record ksymbol_resolved =
  r_address :: addr_t
  r_name :: string
  r_offset :: size_t

definition unknown :: string where "unknown = ''??????????????????''"

definition resolve_step :: "addr_t \<Rightarrow> ksymbol \<Rightarrow> ksymbol_resolved \<times> size_t \<Rightarrow> ksymbol_resolved \<times> size_t" where
  "resolve_step address ks st = (case st of (r, difference) \<Rightarrow>
     if ks_address ks \<le> address
     then let temp = address - ks_address ks
          in if temp < difference then (\<lparr>r_address = ks_address ks, r_name = ks_name ks, r_offset = temp\<rparr>, temp) else (r, difference)
     else (r, difference))"

definition ksymbol_resolve :: "symtab \<Rightarrow> addr_t \<Rightarrow> ksymbol_resolved res option" where
  "ksymbol_resolve s address =
     map_option (\<lambda>r. bind_res r (\<lambda>ps.
       Inr (fst (fold (\<lambda>p. resolve_step address (ksymbol_at s p)) ps (\<lparr>r_address = 0, r_name = unknown, r_offset = 0\<rparr>, - 1)))))
       (list_for_each (ksymbol_links s) (ksymbol_list s))"

subsection \<open>stacktrace.c\<close>

definition trace_format :: string where
  "trace_format = ''<%llX+%llX> %s'' @ [CHR 0x0A]"

partial_function (option) arch_stacktrace :: "string \<Rightarrow> (addr_t \<Rightarrow> u64) \<Rightarrow> symtab \<Rightarrow> addr_t \<Rightarrow> klog \<Rightarrow> klog res option" where
  "arch_stacktrace junk mem sy bp k =
     (if bp = NULL then Some (Inr k)
      else let ip = mem (bp + 8)
           in if ip = 0 then Some (Inr k)
              else let bp' = mem bp
                   in Option.bind (ksymbol_resolve sy ip) (\<lambda>rr. case rr of Inl e \<Rightarrow> Some (Inl e)
                      | Inr r \<Rightarrow> Option.bind (printk junk k INFO trace_format [Num (r_address r), Num (r_offset r), Str (r_name r)]) (\<lambda>pr.
                          case pr of Inl e \<Rightarrow> Some (Inl e) | Inr (n, k') \<Rightarrow> arch_stacktrace junk mem sy bp' k')))"

definition stacktrace :: "string \<Rightarrow> (addr_t \<Rightarrow> u64) \<Rightarrow> symtab \<Rightarrow> addr_t \<Rightarrow> intr \<Rightarrow> klog \<Rightarrow> (intr \<times> klog) res option" where
  "stacktrace junk mem sy bp i k =
     (let i = interrupt_disable i
      in map_option (\<lambda>r. bind_res r (\<lambda>k. Inr (interrupt_enable i, k))) (arch_stacktrace junk mem sy bp k))"

subsection \<open>panic.c\<close>

definition PANIC_BUFFER_SIZE :: size_t where "PANIC_BUFFER_SIZE = 1024"

definition panic_format :: string where
  "panic_format = ''Panic in file %s on line %d: ''"

text \<open>\<open>console_write(buffer, r)\<close> for a formatted text in the local buffer.\<close>

definition panic_write :: "(string \<times> u32) res option \<Rightarrow> klog \<Rightarrow> klog res option" where
  "panic_write f k =
     Option.bind f (\<lambda>fr. case fr of Inl e \<Rightarrow> Some (Inl e)
       | Inr (buf, r) \<Rightarrow> if length buf > unat PANIC_BUFFER_SIZE then Some (Inl OutOfBounds)
           else map_option (\<lambda>cr. bind_res cr (\<lambda>c. Inr (k\<lparr>log_consoles := c\<rparr>)))
             (console_write (log_consoles k) (buf @ replicate (unat PANIC_BUFFER_SIZE - length buf) (CHR 0x00)) (scast r)))"

text \<open>The state in which \<open>panic\<close> halts for ever.\<close>

definition panic :: "string \<Rightarrow> (addr_t \<Rightarrow> u64) \<Rightarrow> symtab \<Rightarrow> addr_t \<Rightarrow> string \<Rightarrow> u32 \<Rightarrow> string \<Rightarrow> parg list \<Rightarrow> intr \<Rightarrow> klog \<Rightarrow> (intr \<times> klog) res option" where
  "panic junk mem sy bp file_name line format args i k =
     (let i = interrupt_disable i
      in Option.bind (panic_write (sprintf junk panic_format [Str file_name, Num (ucast line)]) k) (\<lambda>r1. case r1 of Inl e \<Rightarrow> Some (Inl e)
         | Inr k \<Rightarrow> Option.bind (panic_write (vsnprintf junk PANIC_BUFFER_SIZE format args) k) (\<lambda>r2. case r2 of Inl e \<Rightarrow> Some (Inl e)
           | Inr k \<Rightarrow> stacktrace junk mem sy bp i k)))"

subsection \<open>init.c and kmain.c\<close>

text \<open>The section of initialisation functions, an array of pointers, and the positions in it of the nine boundaries the linker
  script defines. A level's calls are the functions called, in order.\<close>

record init_table =
  initcalls :: "addr_t list"
  initcall_levels :: "nat list"

definition do_initcall :: "init_table \<Rightarrow> nat \<Rightarrow> addr_t list res" where
  "do_initcall t level =
     (if level = 0 \<or> \<not> level < length (initcall_levels t) then Inl OutOfBounds
      else let first = initcall_levels t ! (level - 1); end = initcall_levels t ! level
           in if first < end \<and> length (initcalls t) < end then Inl OutOfBounds
              else Inr (map (\<lambda>i. initcalls t ! i) [first ..< end]))"

definition EARLY_INIT :: nat where "EARLY_INIT = 1"
definition CORE_INIT :: nat where "CORE_INIT = 2"
definition ARCH_INIT :: nat where "ARCH_INIT = 3"
definition SUBSYS_INIT :: nat where "SUBSYS_INIT = 4"
definition FS_INIT :: nat where "FS_INIT = 5"
definition DEVICE_INIT :: nat where "DEVICE_INIT = 6"
definition LATE_INIT :: nat where "LATE_INIT = 7"
definition TEST_INIT :: nat where "TEST_INIT = 8"

text \<open>What \<open>kmain\<close> calls before it idles, in order.\<close>

datatype kmain_call = MmInit | SetupArch | TimeInit | SchedInit | FilesystemInit | PciInit | InterruptEnable | RootfsInit | Initcall addr_t

definition level_calls :: "init_table \<Rightarrow> nat list \<Rightarrow> kmain_call list res" where
  "level_calls t ls = foldr (\<lambda>l r. bind_res (do_initcall t l) (\<lambda>fs. bind_res r (\<lambda>cs. Inr (map Initcall fs @ cs)))) ls (Inr [])"

definition kmain :: "init_table \<Rightarrow> kmain_call list res" where
  "kmain t =
     bind_res (level_calls t [EARLY_INIT, CORE_INIT, ARCH_INIT, SUBSYS_INIT, FS_INIT]) (\<lambda>before.
     bind_res (level_calls t [DEVICE_INIT, LATE_INIT, TEST_INIT]) (\<lambda>after.
       Inr ([MmInit, SetupArch, TimeInit, SchedInit, FilesystemInit, PciInit, InterruptEnable] @ before @ RootfsInit # after)))"

section \<open>Boot order\<close>

definition table_ok :: "init_table \<Rightarrow> bool" where
  "table_ok t \<longleftrightarrow> length (initcall_levels t) = 9 \<and> sorted (initcall_levels t) \<and> initcall_levels t ! 0 = 0
     \<and> initcall_levels t ! 8 = length (initcalls t)"

lemma do_initcall_slice:
  assumes "table_ok t" and "1 \<le> l" and "l \<le> 8"
  shows "do_initcall t l = Inr (take (initcall_levels t ! l - initcall_levels t ! (l - 1)) (drop (initcall_levels t ! (l - 1)) (initcalls t)))"
proof -
  let ?L = "initcall_levels t"
  have le: "?L ! l \<le> length (initcalls t)" using assms sorted_nth_mono [of ?L l 8] by (simp add: table_ok_def)
  have "map (\<lambda>i. initcalls t ! i) [?L ! (l - 1) ..< ?L ! l] = take (?L ! l - ?L ! (l - 1)) (drop (?L ! (l - 1)) (initcalls t))"
    using le by (intro nth_equalityI) (auto simp: min_def)
  then show ?thesis using assms le by (simp add: do_initcall_def table_ok_def Let_def)
qed

lemma level_calls_slice:
  assumes "table_ok t" and "1 \<le> a" and "a \<le> b" and "b \<le> 9"
  shows "level_calls t [a ..< b] = Inr (map Initcall (take (initcall_levels t ! (b - 1) - initcall_levels t ! (a - 1)) (drop (initcall_levels t ! (a - 1)) (initcalls t))))"
  using assms(2-4)
proof (induction "b - a" arbitrary: a)
  case 0
  then show ?case by (simp add: level_calls_def)
next
  case (Suc d)
  let ?L = "initcall_levels t" and ?c = "initcalls t"
  have ab: "a < b" "[a ..< b] = a # [Suc a ..< b]" using Suc by (simp_all add: upt_conv_Cons)
  have IH: "level_calls t [Suc a ..< b] = Inr (map Initcall (take (?L ! (b - 1) - ?L ! a) (drop (?L ! a) ?c)))"
    using Suc.hyps(1) [of "Suc a"] Suc.hyps(2) Suc.prems ab(1) by simp
  have m: "?L ! (a - 1) \<le> ?L ! a" "?L ! a \<le> ?L ! (b - 1)"
    using assms(1) Suc.prems ab(1) by (auto simp: table_ok_def intro!: sorted_nth_mono)
  have "take (?L ! a - ?L ! (a - 1)) (drop (?L ! (a - 1)) ?c) @ take (?L ! (b - 1) - ?L ! a) (drop (?L ! a) ?c)
      = take (?L ! (b - 1) - ?L ! (a - 1)) (drop (?L ! (a - 1)) ?c)"
    using m take_add [of "?L ! a - ?L ! (a - 1)" "?L ! (b - 1) - ?L ! a" "drop (?L ! (a - 1)) ?c"] by simp
  then show ?case using IH do_initcall_slice [OF assms(1) Suc.prems(1)] ab Suc.prems
    by (simp add: level_calls_def flip: map_append)
qed

section \<open>The nearest symbol\<close>

definition nearest :: "addr_t \<Rightarrow> ksymbol set \<Rightarrow> ksymbol_resolved \<times> size_t \<Rightarrow> bool" where
  "nearest a S st \<longleftrightarrow> (if \<exists>ks \<in> S. ks_address ks \<le> a \<and> a - ks_address ks \<noteq> - 1
     then (\<exists>ks \<in> S. ks_address ks \<le> a \<and> fst st = \<lparr>r_address = ks_address ks, r_name = ks_name ks, r_offset = a - ks_address ks\<rparr>
            \<and> snd st = a - ks_address ks) \<and> (\<forall>ks \<in> S. ks_address ks \<le> a \<longrightarrow> snd st \<le> a - ks_address ks)
     else st = (\<lparr>r_address = 0, r_name = unknown, r_offset = 0\<rparr>, - 1))"

lemma resolve_step_nearest:
  assumes "nearest a S st"
  shows "nearest a (insert ks S) (resolve_step a ks st)"
proof -
  obtain r d where st: "st = (r, d)" by fastforce
  show ?thesis
  proof (cases "ks_address ks \<le> a \<and> a - ks_address ks < d")
    case True
    then have "a - ks_address ks \<noteq> - 1" using word_order.extremum_strict [of "a - ks_address ks"] by auto
    moreover have "d \<le> a - ks_address k" if "k \<in> S" "ks_address k \<le> a" for k
      using assms that st by (auto simp: nearest_def split: if_splits)
    ultimately show ?thesis using True st by (auto simp: nearest_def resolve_step_def Let_def intro: less_imp_le order_trans)
  next
    case False
    then have "resolve_step a ks st = st" using st by (auto simp: resolve_step_def Let_def)
    moreover have "d \<le> a - ks_address ks" if "ks_address ks \<le> a" using False that by auto
    moreover have "d = - 1 \<Longrightarrow> ks_address ks \<le> a \<Longrightarrow> a - ks_address ks = - 1" using False word_order.not_eq_extremum by blast
    ultimately show ?thesis using assms st by (auto simp: nearest_def split: if_splits)
  qed
qed

lemma fold_nearest: "nearest a S st \<Longrightarrow> nearest a (S \<union> f ` set ps) (fold (\<lambda>p. resolve_step a (f p)) ps st)"
proof (induction ps arbitrary: S st)
  case (Cons p ps)
  show ?case using Cons.IH [OF resolve_step_nearest [OF Cons.prems, of "f p"]] by simp
qed simp

lemma ksymbol_resolve_fold:
  assumes "dll (ksymbol_links s) (ksymbol_list s) ps"
  shows "\<exists>st. ksymbol_resolve s a = Some (Inr (fst st)) \<and> nearest a (ksymbol_at s ` set ps) st"
proof -
  have "nearest a {} (\<lparr>r_address = 0, r_name = unknown, r_offset = 0\<rparr>, - 1)" by (simp add: nearest_def)
  from fold_nearest [OF this, of "ksymbol_at s" ps] show ?thesis
    using klist.visit_all [OF assms] unfolding ksymbol_resolve_def by (intro exI conjI) (simp, simp)
qed

section \<open>Traces\<close>

definition upper_hex :: "u64 \<Rightarrow> string" where
  "upper_hex n = map (digit_char True) (digits_of 16 (unat n))"

definition trace_line :: "ksymbol_resolved \<Rightarrow> string" where
  "trace_line r = ''<'' @ upper_hex (r_address r) @ ''+'' @ upper_hex (r_offset r) @ ''> '' @ r_name r @ [CHR 0x0A]"

lemma printf_trace:
  "printf_format junk trace_format [Num (r_address r), Num (r_offset r), Str (r_name r)] = Some (Inr (trace_line r))"
proof -
  have "ull2a n 16 True False = Some (upper_hex n)" for n by (simp add: ull2a_def unsigned2a_digits upper_hex_def)
  then show ?thesis
    by (simp add: trace_format_def trace_line_def parse_spec_def is_digit_def of_char_def convert_def conv_num_def num_arg_def
        hex_by_length_def puts_def Let_def numeral_2_eq_2)
qed

lemma upper_hex_ok: "length (upper_hex n) \<le> 16" "CHR 0x1B \<notin> set (upper_hex n)"
proof -
  show "length (upper_hex n) \<le> 16" unfolding upper_hex_def using digits_of_length [of 16 "unat n" 16] unat_less_length_power [of n] by simp
  have "digit_char True d \<noteq> CHR 0x1B" if "d < 16" for d
  proof
    assume "digit_char True d = CHR 0x1B"
    then have "of_char (digit_char True d) = (27 :: nat)" by (simp add: of_char_def)
    then show False using that by (auto simp: digit_char_def of_char_of split: if_splits)
  qed
  then show "CHR 0x1B \<notin> set (upper_hex n)" unfolding upper_hex_def using digits_of_less [of 16 _ "unat n"] by fastforce
qed

lemma trace_line_ok: "name_ok (r_name r) \<Longrightarrow> length (trace_line r) < 1024 \<and> escapes_ok (trace_line r)"
  using upper_hex_ok [of "r_address r"] upper_hex_ok [of "r_offset r"] by (auto simp: trace_line_def name_ok_def intro!: escapes_ok_no_escape)

text \<open>The return addresses of a chain of frames that ends with a null frame pointer or a null return address.\<close>

fun frame_chain :: "(addr_t \<Rightarrow> u64) \<Rightarrow> addr_t \<Rightarrow> addr_t list \<Rightarrow> bool" where
  "frame_chain mem bp [] \<longleftrightarrow> bp = NULL \<or> mem (bp + 8) = 0"
| "frame_chain mem bp (ip # ips) \<longleftrightarrow> bp \<noteq> NULL \<and> ip = mem (bp + 8) \<and> ip \<noteq> 0 \<and> frame_chain mem (mem bp) ips"

definition trace_text :: "(ksymbol_resolved \<times> time_t) list \<Rightarrow> string" where
  "trace_text = concat \<circ> map (\<lambda>(r, t). log_prefix INFO t @ trace_line r)"

definition symbols_ok :: "symtab \<Rightarrow> addr_t list \<Rightarrow> bool" where
  "symbols_ok sy ps \<longleftrightarrow> dll (ksymbol_links sy) (ksymbol_list sy) ps \<and> (\<forall>p \<in> set ps. name_ok (ks_name (ksymbol_at sy p)))"

lemma ksymbol_resolve_named:
  assumes "symbols_ok sy ps"
  shows "\<exists>r. ksymbol_resolve sy a = Some (Inr r) \<and> name_ok (r_name r)"
proof -
  obtain st where "ksymbol_resolve sy a = Some (Inr (fst st))" "nearest a (ksymbol_at sy ` set ps) st"
    using ksymbol_resolve_fold assms by (meson symbols_ok_def)
  moreover have "name_ok unknown" by (simp add: name_ok_def unknown_def)
  ultimately show ?thesis using assms by (fastforce simp: nearest_def symbols_ok_def split: if_splits)
qed

lemma printk_text:
  assumes "log_ok ser vg k" and "unat level < 4" and "width_ends junk" and "printf_format junk format args = Some (Inr cs)"
    and "length cs < 1024" and "escapes_ok cs"
  shows "\<exists>n k' t. printk junk k level format args = Some (Inr (n, k')) \<and> log_ok ser vg k'
    \<and> log_text (log_consoles k') = log_text (log_consoles k) @ log_prefix level t @ cs"
proof -
  obtain t tk where t: "ktime_get (log_time k) = Some (Inr (t, tk))" "time_ok tk"
    using ktime_get_total assms(1) by (meson log_ok_def)
  then show ?thesis using printk_line' [OF _ assms(2) t(1) assms(3-6), of ser vg] assms(1) by (auto simp: log_ok_def)
qed

lemma arch_stacktrace_text:
  assumes "symbols_ok sy ps" and "width_ends junk" and "frame_chain mem bp ips" and "log_ok ser vg k"
  shows "\<exists>k' rts. arch_stacktrace junk mem sy bp k = Some (Inr k') \<and> log_ok ser vg k'
    \<and> map (\<lambda>(r, t). Some (Inr r)) rts = map (ksymbol_resolve sy) ips
    \<and> log_text (log_consoles k') = log_text (log_consoles k) @ trace_text rts"
  using assms(3,4)
proof (induction ips arbitrary: bp k)
  case Nil
  then have "arch_stacktrace junk mem sy bp k = Some (Inr k)" by (auto simp: arch_stacktrace.simps Let_def)
  then show ?case using Nil by (intro exI [of _ k] exI [of _ "[]"]) (simp add: trace_text_def)
next
  case (Cons ip ips)
  then have c: "bp \<noteq> NULL" "mem (bp + 8) = ip" "ip \<noteq> 0" "frame_chain mem (mem bp) ips" by auto
  obtain r where r: "ksymbol_resolve sy ip = Some (Inr r)" "name_ok (r_name r)" using ksymbol_resolve_named [OF assms(1)] by blast
  obtain n k1 t where k1: "printk junk k INFO trace_format [Num (r_address r), Num (r_offset r), Str (r_name r)] = Some (Inr (n, k1))"
      "log_ok ser vg k1" "log_text (log_consoles k1) = log_text (log_consoles k) @ log_prefix INFO t @ trace_line r"
    using printk_text [OF Cons.prems(2) _ assms(2) printf_trace, of INFO r] trace_line_ok [OF r(2)] by (auto simp: INFO_def)
  obtain k' rts where k': "arch_stacktrace junk mem sy (mem bp) k1 = Some (Inr k')" "log_ok ser vg k'"
      "map (\<lambda>(r, t). Some (Inr r)) rts = map (ksymbol_resolve sy) ips" "log_text (log_consoles k') = log_text (log_consoles k1) @ trace_text rts"
    using Cons.IH [OF c(4) k1(2)] by blast
  have "arch_stacktrace junk mem sy bp k = Some (Inr k')" using c r(1) k1(1) k'(1) by (simp add: arch_stacktrace.simps [of junk mem sy bp k])
  then show ?case using k' k1(3) r(1) by (intro exI [of _ k'] exI [of _ "(r, t) # rts"]) (simp add: trace_text_def)
qed

lemma sprintf_putcf_append: "foldl sprintf_putcf out cs = out @ cs"
  by (induction cs arbitrary: out) (simp_all add: sprintf_putcf_def)

lemma sprintf_all:
  "printf_format junk format args = Some (Inr cs) \<Longrightarrow> sprintf junk format args = Some (Inr (cs @ [CHR 0x00], of_nat (length cs)))"
  by (simp add: sprintf_def vsprintf_def sprintf_putcf_append Let_def char_of_def)

lemma panic_write_fits:
  assumes "log_ok ser vg k" and "f = Some (Inr (cs @ [CHR 0x00], of_nat (length cs)))" and "length cs < 1024" and "escapes_ok cs"
  shows "\<exists>k'. panic_write f k = Some (Inr k') \<and> log_ok ser vg k' \<and> log_text (log_consoles k') = log_text (log_consoles k) @ cs"
proof -
  have "con_inv ser vg (log_consoles k)" using assms(1) by (simp add: log_ok_def)
  then obtain c where c: "write_formatted f k = Some (Inr (of_nat (length cs), k\<lparr>log_consoles := c\<rparr>))" "con_inv ser vg c"
      "log_text c = log_text (log_consoles k) @ cs" using write_formatted_fits assms(2-4) by meson
  then have "console_write (log_consoles k) ((cs @ [CHR 0x00]) @ replicate (1024 - length (cs @ [CHR 0x00])) (CHR 0x00)) (scast (of_nat (length cs) :: u32)) = Some (Inr c)"
    unfolding write_formatted_def assms(2) by (auto simp: PRINTK_MAX_def bind_res_Inr_iff dest!: arg_cong [where f = log_consoles])
  then have "panic_write f k = Some (Inr (k\<lparr>log_consoles := c\<rparr>))"
    unfolding panic_write_def assms(2) using assms(3) by (simp add: PANIC_BUFFER_SIZE_def)
  then show ?thesis using c(2,3) assms(1) by (auto simp: log_ok_def)
qed

lemma printf_panic:
  assumes "i2a line = Some d"
  shows "printf_format junk panic_format [Str f, Num (ucast line)] = Some (Inr (''Panic in file '' @ f @ '' on line '' @ d @ '': ''))"
proof -
  have "ucast (ucast line :: u64) = line" by (rule bit_word_eqI) (simp add: bit_simps)
  then have "i2a (ucast (ucast line :: u64)) = Some d" using assms by simp
  then show ?thesis by (simp add: panic_format_def parse_spec_def is_digit_def of_char_def convert_def conv_num_def num_arg_def puts_def Let_def)
qed

section \<open>Properties\<close>

text \<open>C28: an address resolves to the symbol before it. Whenever a registered symbol lies at or below the address (and not
  \<open>2\<^sup>64 - 1\<close> away), \<open>ksymbol_resolve\<close> returns a registered symbol with its name and the distance, and no
  registered symbol lies between it and the address.\<close>

theorem ksymbol_resolve_nearest:
  assumes "dll (ksymbol_links s) (ksymbol_list s) ps" and "p \<in> set ps" and "ks_address (ksymbol_at s p) \<le> a" and "a - ks_address (ksymbol_at s p) \<noteq> - 1"
  shows "\<exists>q \<in> set ps. let ks = ksymbol_at s q in
    ksymbol_resolve s a = Some (Inr \<lparr>r_address = ks_address ks, r_name = ks_name ks, r_offset = a - ks_address ks\<rparr>) \<and> ks_address ks \<le> a
    \<and> (\<forall>x \<in> set ps. ks_address (ksymbol_at s x) \<le> a \<longrightarrow> ks_address (ksymbol_at s x) \<le> ks_address ks)"
proof -
  obtain st where st: "ksymbol_resolve s a = Some (Inr (fst st))" "nearest a (ksymbol_at s ` set ps) st"
    using ksymbol_resolve_fold [OF assms(1)] by blast
  have "\<exists>ks \<in> ksymbol_at s ` set ps. ks_address ks \<le> a \<and> a - ks_address ks \<noteq> - 1" using assms(2-4) by auto
  then obtain q where q: "q \<in> set ps" "ks_address (ksymbol_at s q) \<le> a" "snd st = a - ks_address (ksymbol_at s q)"
      "fst st = \<lparr>r_address = ks_address (ksymbol_at s q), r_name = ks_name (ksymbol_at s q), r_offset = a - ks_address (ksymbol_at s q)\<rparr>"
      and le: "\<forall>x \<in> set ps. ks_address (ksymbol_at s x) \<le> a \<longrightarrow> a - ks_address (ksymbol_at s q) \<le> a - ks_address (ksymbol_at s x)"
    using st(2) unfolding nearest_def by auto
  have "y \<le> x" if "x \<le> a" "y \<le> a" "a - x \<le> a - y" for x y :: addr_t
    using that by (simp add: word_le_nat_alt unat_sub_no_underflow)
  then show ?thesis using q le st(1) by (auto simp: Let_def intro!: bexI [of _ q])
qed

theorem ksymbol_resolve_nearest_witness:
  "\<exists>s r. ksymbol_resolve s 0x105 = Some (Inr r) \<and> r_address r = 0x100 \<and> r_offset r = 5"
proof -
  define s where "s = \<lparr>ksymbol_list = 8, ksymbol_links = \<lparr>lnext = (\<lambda>_. 0)(8 := 16, 16 := 8), lprev = (\<lambda>_. 0)(8 := 16, 16 := 8)\<rparr>,
    ksymbol_at = (\<lambda>_. \<lparr>ks_address = 0x100, ks_name = ''kmain''\<rparr>)\<rparr>"
  have "dll (ksymbol_links s) (ksymbol_list s) [16]" by (simp add: s_def dll_def)
  from ksymbol_resolve_nearest [OF this, of 16 "0x105"]
  have "ksymbol_resolve s 0x105 = Some (Inr \<lparr>r_address = 0x100, r_name = ''kmain'', r_offset = 5\<rparr>)" by (simp add: s_def Let_def)
  then show ?thesis by (metis ksymbol_resolved.select_convs(1,3))
qed

text \<open>C25: a panic reports. With a working log, a format that fits the buffer and a chain of frames that ends, \<open>panic\<close>
  reaches its halt with interrupts off, having printed the file and line, the message, and one line per
  frame with the symbol its return address resolves to, in that order.\<close>

theorem panic_reports:
  assumes ok: "log_ok ser vg k" "symbols_ok sy ps" "width_ends junk" and chain: "frame_chain mem bp ips"
    and f: "name_ok f" "i2a line = Some d" and cs: "printf_format junk format args = Some (Inr cs)" "length cs < 1024" "escapes_ok cs"
    and depth: "unat (interrupt_depth i) + 2 < 2 ^ 32" and off: "interrupt_depth i \<noteq> 0 \<longrightarrow> \<not> if_flag i"
  shows "\<exists>i' k' rts. panic junk mem sy bp f line format args i k = Some (Inr (i', k')) \<and> \<not> if_flag i'
    \<and> map (\<lambda>(r, t). Some (Inr r)) rts = map (ksymbol_resolve sy) ips
    \<and> log_text (log_consoles k') = log_text (log_consoles k) @ ''Panic in file '' @ f @ '' on line '' @ d @ '': '' @ cs @ trace_text rts"
proof -
  let ?h = "''Panic in file '' @ f @ '' on line '' @ d @ '': ''"
  have d: "length d \<le> 21" "CHR 0x1B \<notin> set d" using i2a_total [of line] f(2) by auto
  then have h: "length ?h < 1024" "escapes_ok ?h" using f(1) by (auto simp: name_ok_def intro!: escapes_ok_no_escape)
  obtain k1 where k1: "panic_write (sprintf junk panic_format [Str f, Num (ucast line)]) k = Some (Inr k1)" "log_ok ser vg k1"
      "log_text (log_consoles k1) = log_text (log_consoles k) @ ?h"
    using panic_write_fits [OF ok(1) sprintf_all [OF printf_panic [OF f(2)]] h] by blast
  have "vsnprintf junk PANIC_BUFFER_SIZE format args = Some (Inr (cs @ [CHR 0x00], of_nat (length cs)))"
    using vsnprintf_fits [OF cs(1)] cs(2) by (simp add: PANIC_BUFFER_SIZE_def)
  then obtain k2 where k2: "panic_write (vsnprintf junk PANIC_BUFFER_SIZE format args) k1 = Some (Inr k2)" "log_ok ser vg k2"
      "log_text (log_consoles k2) = log_text (log_consoles k1) @ cs" using panic_write_fits [OF k1(2) _ cs(2,3)] by blast
  obtain k3 rts where k3: "arch_stacktrace junk mem sy bp k2 = Some (Inr k3)" "map (\<lambda>(r, t). Some (Inr r)) rts = map (ksymbol_resolve sy) ips"
      "log_text (log_consoles k3) = log_text (log_consoles k2) @ trace_text rts"
    using arch_stacktrace_text [OF ok(2,3) chain k2(2)] by blast
  have n: "interrupt_depth i + 2 \<noteq> 1" "interrupt_depth i + 1 \<noteq> 0"
    using depth unat_add_no_overflow [of "interrupt_depth i" 2] unat_add_no_overflow [of "interrupt_depth i" 1] by (auto simp: word_unat_eq_iff)
  have "\<not> if_flag (interrupt_enable (interrupt_disable (interrupt_disable i)))"
    using n off by (simp add: interrupt_enable_def interrupt_disable_def arch_interrupt_disable_def Let_def)
  then show ?thesis using k1(1,3) k2(1,3) k3 by (auto simp: panic_def stacktrace_def)
qed

theorem panic_reports_witness:
  "\<exists>i' k'. panic [] (\<lambda>_. 0) \<lparr>ksymbol_list = 8, ksymbol_links = \<lparr>lnext = (\<lambda>_. 0)(8 := 8), lprev = (\<lambda>_. 0)(8 := 8)\<rparr>, ksymbol_at = (\<lambda>_. \<lparr>ks_address = 0, ks_name = []\<rparr>)\<rparr>
      0 ''heap.c'' 7 ''out of memory'' [] demo_intr demo_log = Some (Inr (i', k'))
    \<and> log_text (log_consoles k') = ''Panic in file heap.c on line 7: out of memory''"
proof -
  let ?sy = "\<lparr>ksymbol_list = 8, ksymbol_links = \<lparr>lnext = (\<lambda>_. 0)(8 := 8), lprev = (\<lambda>_. 0)(8 := 8)\<rparr>, ksymbol_at = (\<lambda>_. \<lparr>ks_address = 0, ks_name = []\<rparr>)\<rparr>"
  have "i2a 7 = Some ''7''"
    by (simp add: i2a_def ui2a_def unsigned2a_digits digits_of.simps digit_char_def char_of_def bit_nat_def word_sless_alt)
  moreover have "log_ok 16 32 demo_log" using demo_clock_inv
    by (simp add: log_ok_def con_inv_def time_ok_def demo_log_def demo_time_def dll_def vga_ok_def)
  moreover have "symbols_ok ?sy []" by (simp add: symbols_ok_def dll_def)
  moreover have "log_text (log_consoles demo_log) = []" by (simp add: demo_log_def serial_text_def)
  ultimately show ?thesis
    using panic_reports [of 16 32 demo_log ?sy "[]" "[]" "\<lambda>_. 0" 0 "[]" "''heap.c''" 7 "''7''" "''out of memory''" "[]" "''out of memory''" demo_intr]
    by (auto simp: width_ends_def name_ok_def demo_intr_def trace_text_def)
qed

text \<open>Every initialisation function runs once, in the order of the sections, and the root file system is mounted after the
  file systems and before the devices.\<close>

theorem kmain_order:
  assumes "table_ok t"
  shows "kmain t = Inr ([MmInit, SetupArch, TimeInit, SchedInit, FilesystemInit, PciInit, InterruptEnable]
    @ map Initcall (take (initcall_levels t ! FS_INIT) (initcalls t)) @ RootfsInit # map Initcall (drop (initcall_levels t ! FS_INIT) (initcalls t)))"
proof -
  have e: "[EARLY_INIT, CORE_INIT, ARCH_INIT, SUBSYS_INIT, FS_INIT] = [1 ..< 6]" "[DEVICE_INIT, LATE_INIT, TEST_INIT] = [6 ..< 9]"
    by (simp_all add: EARLY_INIT_def CORE_INIT_def ARCH_INIT_def SUBSYS_INIT_def FS_INIT_def DEVICE_INIT_def LATE_INIT_def TEST_INIT_def upt_rec)
  have "level_calls t [1 ..< 6] = Inr (map Initcall (take (initcall_levels t ! 5) (initcalls t)))"
    "level_calls t [6 ..< 9] = Inr (map Initcall (drop (initcall_levels t ! 5) (initcalls t)))"
    using level_calls_slice [OF assms, of 1 6] level_calls_slice [OF assms, of 6 9] assms by (simp_all add: table_ok_def)
  then show ?thesis unfolding kmain_def e by (simp add: FS_INIT_def)
qed

theorem kmain_order_witness:
  "kmain \<lparr>initcalls = [10, 20, 30], initcall_levels = [0, 1, 1, 1, 1, 2, 3, 3, 3]\<rparr>
    = Inr [MmInit, SetupArch, TimeInit, SchedInit, FilesystemInit, PciInit, InterruptEnable, Initcall 10, Initcall 20, RootfsInit, Initcall 30]"
  using kmain_order [of "\<lparr>initcalls = [10, 20, 30], initcall_levels = [0, 1, 1, 1, 1, 2, 3, 3, 3]\<rparr>"]
  by (simp add: table_ok_def FS_INIT_def numeral_eq_Suc)

end
