(* ===== verification/Cpu.thy ===== *)
theory Cpu
  imports Console
begin

text \<open>
  \<open>arch/x86_64/cpu/cpu.c\<close> and \<open>cpu.h\<close>: what the kernel records of its processor, and the report of it on the
  log. The instruction \<open>cpuid\<close> is a parameter, a function of the two registers it reads.
\<close>

section \<open>Definitions\<close>

record regs =
  eax :: u32
  ebx :: u32
  ecx :: u32
  edx :: u32

record cpuinfo =
  stepping :: u8
  cpu_type :: u8
  family :: u8
  model :: u8
  invariant_tsc :: u8
  features :: "u32 list"
  highest_function :: u32
  signature :: string
  processor_name :: string

text \<open>A register stored as four characters, the lowest byte first.\<close>

definition reg_chars :: "u32 \<Rightarrow> string" where
  "reg_chars w = map (\<lambda>i. char_of (unat (drop_bit (8 * i) w AND 0xFF))) [0 ..< 4]"

definition regs_chars :: "regs \<Rightarrow> string" where
  "regs_chars r = reg_chars (eax r) @ reg_chars (ebx r) @ reg_chars (ecx r) @ reg_chars (edx r)"

definition leaf_0 :: "regs \<Rightarrow> cpuinfo \<Rightarrow> cpuinfo" where
  "leaf_0 r b = b\<lparr>signature := reg_chars (ebx r) @ reg_chars (edx r) @ reg_chars (ecx r) @ [CHR 0x00]\<rparr>"

definition leaf_1 :: "regs \<Rightarrow> cpuinfo \<Rightarrow> cpuinfo" where
  "leaf_1 r b =
     b\<lparr>stepping := ucast (eax r AND 0xF), cpu_type := ucast (eax r AND 0x3000),
       family := ucast ((eax r AND 0xF00) + (eax r AND 0xFF00000)),
       model := ucast (push_bit 4 (eax r AND 0xF0000) + (eax r AND 0xF0)),
       features := (features b)[0 := edx r, 1 := ecx r]\<rparr>"

definition name_part :: "nat \<Rightarrow> regs \<Rightarrow> cpuinfo \<Rightarrow> cpuinfo" where
  "name_part at r b = b\<lparr>processor_name := take at (processor_name b) @ regs_chars r @ drop (at + 16) (processor_name b)\<rparr>"

text \<open>\<open>c\<close> is what the structure \<open>regs\<close> holds for \<open>ecx\<close> before; each later call reads what the call before left there.\<close>

definition cpu_initialize_information :: "(u32 \<Rightarrow> u32 \<Rightarrow> regs) \<Rightarrow> u32 \<Rightarrow> cpuinfo \<Rightarrow> cpuinfo" where
  "cpu_initialize_information cpuid c b =
     (let r = cpuid 0 c; b = leaf_0 r b;
          r = cpuid 1 (ecx r); b = leaf_1 r b;
          r = cpuid 0x80000000 (ecx r); b = b\<lparr>highest_function := eax r\<rparr>
      in if highest_function b < 0x80000001 then b
      else let r = cpuid 0x80000001 (ecx r); b = b\<lparr>features := (features b)[2 := edx r, 3 := ecx r]\<rparr>
      in if highest_function b < 0x80000004 then b
      else let r = cpuid 0x80000002 (ecx r); b = name_part 0 r b;
               r = cpuid 0x80000003 (ecx r); b = name_part 16 r b;
               r = cpuid 0x80000004 (ecx r); b = name_part 32 r b
      in if highest_function b < 0x80000007 then b
      else b\<lparr>invariant_tsc := ucast (drop_bit 8 (edx (cpuid 0x80000007 (ecx r))))\<rparr>)"

definition cpu_get_information :: "cpuinfo \<Rightarrow> c_int \<Rightarrow> cpuinfo option" where
  "cpu_get_information b cpu_num = (if cpu_num = 0 then Some b else None)"

text \<open>The string a character array holds; reading on past its end is a fault.\<close>

definition c_string :: "string \<Rightarrow> string res" where
  "c_string cs = (if CHR 0x00 \<in> set cs then Inr (takeWhile (\<lambda>c. c \<noteq> CHR 0x00) cs) else Inl OutOfBounds)"

fun printk_all :: "string \<Rightarrow> c_int \<Rightarrow> (string \<times> parg list) list \<Rightarrow> klog \<Rightarrow> klog res option" where
  "printk_all junk level [] k = Some (Inr k)"
| "printk_all junk level ((format, args) # ls) k =
     Option.bind (printk junk k level (format @ [CHR 0x0A]) args) (\<lambda>r. case r of Inl e \<Rightarrow> Some (Inl e) | Inr (n, k) \<Rightarrow> printk_all junk level ls k)"

definition cpu_print_information :: "string \<Rightarrow> cpuinfo \<Rightarrow> klog \<Rightarrow> klog res option" where
  "cpu_print_information junk b k =
     (case c_string (signature b) of Inl e \<Rightarrow> Some (Inl e)
      | Inr sig \<Rightarrow> (case c_string (processor_name b) of Inl e \<Rightarrow> Some (Inl e)
      | Inr name \<Rightarrow> printk_all junk INFO
          [(''CPU information: '', []),
           (''  Signature: %s'', [Str sig]),
           (''  Name: %s'', [Str name]),
           (''  Stepping: 0x%X'', [Num (ucast (stepping b))]),
           (''  Type: 0x%X'', [Num (ucast (cpu_type b))]),
           (''  Family: 0x%X'', [Num (ucast (family b))]),
           (''  Model: 0x%X'', [Num (ucast (model b))]),
           (''  Features: 0x%08X 0x%08X'', [Num (ucast (features b ! 0)), Num (ucast (features b ! 1))]),
           (''  Extended Features: 0x%08X 0x%08X'', [Num (ucast (features b ! 2)), Num (ucast (features b ! 3))]),
           (''  Invariant TSC: %s'', [Str (if invariant_tsc b \<noteq> 0 then ''true'' else ''false'')])] k))"

text \<open>\<open>X86_CPU_HAS_TSC\<close>; the other tests of the header differ in the bit only.\<close>

definition X86_CPU_HAS_TSC :: "cpuinfo \<Rightarrow> u32" where
  "X86_CPU_HAS_TSC b = (features b ! 0) AND push_bit 4 1"

section \<open>What is recorded\<close>

definition cpuinfo_ok :: "cpuinfo \<Rightarrow> bool" where
  "cpuinfo_ok b \<longleftrightarrow> length (signature b) = 13 \<and> signature b ! 12 = CHR 0x00 \<and> length (features b) = 4 \<and> length (processor_name b) = 48
     \<and> unat (stepping b) < 16"

lemma reg_chars_length [simp]: "length (reg_chars w) = 4"
  by (simp add: reg_chars_def)

lemma regs_chars_length [simp]: "length (regs_chars r) = 16"
  by (simp add: regs_chars_def)

lemma name_part_keeps [simp]:
  "signature (name_part at r b) = signature b" "features (name_part at r b) = features b" "stepping (name_part at r b) = stepping b"
  "family (name_part at r b) = family b" "cpu_type (name_part at r b) = cpu_type b" "highest_function (name_part at r b) = highest_function b"
  by (simp_all add: name_part_def)

lemma name_part_length [simp]: "length (processor_name b) = 48 \<Longrightarrow> at \<le> 32 \<Longrightarrow> length (processor_name (name_part at r b)) = 48"
  by (simp add: name_part_def)

lemma ucast_8_add: "(ucast (x + y) :: u8) = ucast x + ucast y" for x y :: u32
proof -
  have "(take_bit 8 (take_bit 32 (a + b)) :: int) = take_bit 8 (take_bit 32 a + take_bit 32 b)" for a b :: int
    using take_bit_add [of 8 "take_bit 32 a" "take_bit 32 b"] take_bit_add [of 8 a b] by simp
  then show ?thesis by transfer simp
qed

lemma ucast_8_and: "(ucast (x AND y) :: u8) = ucast x AND ucast y" for x y :: u32
  by (rule unsigned_and_eq)

lemma leaf_1_truncated: "family (leaf_1 r b) = 0" "cpu_type (leaf_1 r b) = 0" "unat (stepping (leaf_1 r b)) < 16"
proof -
  have "take_bit 4 (eax r) = eax r AND 0xF" by (simp add: take_bit_eq_mask mask_eq_exp_minus_1)
  then have "unat (eax r AND 0xF) = unat (eax r) mod 16" using unat_take_bit_mod [of 4 "eax r"] by simp
  then have "unat (ucast (eax r AND 0xF) :: u8) \<le> unat (eax r) mod 16" by (simp add: unsigned_ucast_eq take_bit_eq_mod)
  then show "unat (stepping (leaf_1 r b)) < 16" using mod_less_divisor [of 16 "unat (eax r)"] by (simp add: leaf_1_def)
  have m: "(0xF00 :: u8) = 0" "(0xFF00000 :: u8) = 0" "(0x3000 :: u8) = 0" by simp_all
  show "family (leaf_1 r b) = 0" "cpu_type (leaf_1 r b) = 0" by (simp_all add: leaf_1_def ucast_8_add ucast_8_and m)
qed

section \<open>Properties\<close>

text \<open>C40: the record of the processor is well formed. Whatever \<open>cpuid\<close> returns, \<open>cpu_initialize_information\<close> leaves a signature of the
  twelve characters of leaf zero followed by the terminator, four feature words with the first two from leaf
  one, forty-eight characters of name and a stepping of four bits; each early return keeps the fields of the
  leaves not read. The family and the type are always zero: the bits selected for them are
  above the eighth, and the fields have eight bits.\<close>

theorem cpu_information_typed:
  assumes "length (features b) = 4" and "length (processor_name b) = 48"
  shows "cpuinfo_ok (cpu_initialize_information cpuid c b)
    \<and> (let r = cpuid 0 c in take 12 (signature (cpu_initialize_information cpuid c b)) = reg_chars (ebx r) @ reg_chars (edx r) @ reg_chars (ecx r)
         \<and> take 2 (features (cpu_initialize_information cpuid c b)) = [edx (cpuid 1 (ecx r)), ecx (cpuid 1 (ecx r))])
    \<and> family (cpu_initialize_information cpuid c b) = 0 \<and> cpu_type (cpu_initialize_information cpuid c b) = 0"
proof -
  let ?b = "leaf_1 (cpuid 1 (ecx (cpuid 0 c))) (leaf_0 (cpuid 0 c) b)"
  let ?same = "\<lambda>x. signature x = signature ?b \<and> take 2 (features x) = take 2 (features ?b) \<and> length (features x) = 4
    \<and> stepping x = stepping ?b \<and> family x = family ?b \<and> cpu_type x = cpu_type ?b \<and> length (processor_name x) = 48"
  have len: "length (features ?b) = 4" "length (processor_name ?b) = 48" using assms by (simp_all add: leaf_0_def leaf_1_def)
  have "?same (cpu_initialize_information cpuid c b)"
    using len by (simp add: cpu_initialize_information_def Let_def)
  moreover have "signature ?b = reg_chars (ebx (cpuid 0 c)) @ reg_chars (edx (cpuid 0 c)) @ reg_chars (ecx (cpuid 0 c)) @ [CHR 0x00]"
    by (simp add: leaf_0_def leaf_1_def)
  moreover have "take 2 (features ?b) = [edx (cpuid 1 (ecx (cpuid 0 c))), ecx (cpuid 1 (ecx (cpuid 0 c)))]"
    using assms(1) by (simp add: leaf_0_def leaf_1_def numeral_2_eq_2 numeral_eq_Suc length_Suc_conv) auto
  ultimately show ?thesis using leaf_1_truncated by (simp add: cpuinfo_ok_def Let_def nth_append)
qed

definition demo_cpuid :: "u32 \<Rightarrow> u32 \<Rightarrow> regs" where
  "demo_cpuid a c = (if a = 0 then \<lparr>eax = 1, ebx = 0x756E6547, ecx = 0x6C65746E, edx = 0x49656E69\<rparr>
     else if a = 1 then \<lparr>eax = 0x306A9, ebx = 0, ecx = 0, edx = 0x10\<rparr> else \<lparr>eax = 0, ebx = 0, ecx = 0, edx = 0\<rparr>)"

theorem cpu_information_typed_witness:
  "\<exists>b. take 12 (signature b) = ''GenuineIntel'' \<and> cpuinfo_ok b \<and> family b = 0 \<and> b = cpu_initialize_information demo_cpuid 0
     \<lparr>stepping = 0, cpu_type = 0, family = 0, model = 0, invariant_tsc = 0, features = replicate 4 0, highest_function = 0,
      signature = replicate 13 (CHR 0x00), processor_name = replicate 48 (CHR 0x00)\<rparr>"
proof -
  have "reg_chars 0x756E6547 @ reg_chars 0x49656E69 @ reg_chars 0x6C65746E = ''GenuineIntel''" by code_simp
  then show ?thesis
    using cpu_information_typed [of "\<lparr>stepping = 0, cpu_type = 0, family = 0, model = 0, invariant_tsc = 0, features = replicate 4 0, highest_function = 0,
      signature = replicate 13 (CHR 0x00), processor_name = replicate 48 (CHR 0x00)\<rparr>" demo_cpuid 0]
    by (simp add: demo_cpuid_def Let_def)
qed

end
