(* ===== verification/Boot.thy ===== *)
theory Boot
  imports MemInit Debug Cpu Heap_Correct
begin

text \<open>
  \<open>arch/x86_64/boot/x86-64_init.c\<close> with the parts of \<open>multiboot.h\<close> and \<open>elf.h\<close> it uses: what the kernel makes of
  the information the boot loader gives it. The boot loader's memory map, section headers, symbols and strings are
  functions of the address (entries do not overlap); the addresses the linker gives are the record \<open>linked\<close>.
  Messages on the log are left out; memory comes from the early heap of \<open>Heap\<close>.
\<close>

section \<open>Definitions\<close>

definition sizeof_ksymbol :: size_t where "sizeof_ksymbol = 24"
definition sizeof_memory_region :: size_t where "sizeof_memory_region = 40"

subsection \<open>multiboot.h and elf.h\<close>

definition MULTIBOOT_BOOTLOADER_MAGIC :: u32 where "MULTIBOOT_BOOTLOADER_MAGIC = 0x2BADB002"
definition MULTIBOOT_INFO_ELF_SHDR :: u32 where "MULTIBOOT_INFO_ELF_SHDR = 0x20"
definition MULTIBOOT_MEMORY_AVAILABLE :: u32 where "MULTIBOOT_MEMORY_AVAILABLE = 1"
definition MULTIBOOT_MEMORY_RESERVED :: u32 where "MULTIBOOT_MEMORY_RESERVED = 2"

record multiboot_mmap_entry =
  me_size :: u32
  me_addr :: u64
  me_len :: u64
  me_type :: u32

record elf_section_header_table =
  sec_num :: u32
  sec_size :: u32
  sec_addr :: u32
  sec_shndx :: u32

record elf64_shdr =
  sh_name :: u32
  sh_type :: u32
  sh_flags :: u64
  sh_addr :: u64
  sh_offset :: u64
  sh_size :: u64
  sh_link :: u32
  sh_info :: u32
  sh_addralign :: u64
  sh_entsize :: u64

record elf64_sym =
  st_name :: u32
  st_info :: u8
  st_other :: u8
  st_shndx :: u16
  st_value :: u64
  st_size :: u64

definition SHT_SYMTAB :: u32 where "SHT_SYMTAB = 2"
definition STT_FUNC :: u32 where "STT_FUNC = 2"

definition ELF_ST_TYPE :: "u8 \<Rightarrow> u32" where
  "ELF_ST_TYPE x = ucast x AND 0xF"

text \<open>The information structure with the memory its pointers lead to.\<close>

record multiboot_info =
  mb_flags :: u32
  elf_sec :: elf_section_header_table
  mmap_length :: u32
  mmap_addr :: u32
  mmap_at :: "u32 \<Rightarrow> multiboot_mmap_entry"
  shdr_at :: "addr_t \<Rightarrow> elf64_shdr"
  sym_at :: "addr_t \<Rightarrow> elf64_sym"
  str_at :: "addr_t \<Rightarrow> string"

subsection \<open>The memory map\<close>

text \<open>The addresses of the entries a loop over the map visits. The bodies change neither the sizes nor the
  bounds. None for a map whose sizes never lead past the end.\<close>

partial_function (option) mmap_walk :: "(u32 \<Rightarrow> multiboot_mmap_entry) \<Rightarrow> u32 \<Rightarrow> u32 \<Rightarrow> u32 list option" where
  "mmap_walk at end mmap =
     (if mmap < end then Option.bind (mmap_walk at end (mmap + (me_size (at mmap) + 4))) (\<lambda>ps. Some (mmap # ps)) else Some [])"

definition mmap_entries :: "multiboot_info \<Rightarrow> u32 list option" where
  "mmap_entries mb = mmap_walk (mmap_at mb) (mmap_addr mb + mmap_length mb) (mmap_addr mb)"

definition fix_entry :: "addr_t \<Rightarrow> addr_t \<Rightarrow> multiboot_mmap_entry \<Rightarrow> multiboot_mmap_entry res" where
  "fix_entry kernel_start kernel_end e =
     (if me_type e = MULTIBOOT_MEMORY_AVAILABLE \<and> me_addr e \<le> kernel_start \<and> me_addr e + me_len e \<ge> kernel_end
      then if me_addr e < kernel_start \<and> me_addr e + me_len e \<le> kernel_end
           then let overlap = (me_addr e + me_len e) - kernel_start in Inr (e\<lparr>me_len := me_len e - overlap\<rparr>)
           else if me_addr e \<ge> kernel_start \<and> me_addr e \<le> kernel_end \<and> me_addr e + me_len e > kernel_end
           then let overlap = kernel_end - me_addr e in Inr (e\<lparr>me_addr := kernel_end, me_len := me_len e - overlap\<rparr>)
           else if me_addr e < kernel_start \<and> me_addr e + me_len e \<ge> kernel_end then Inl Panic
           else if me_addr e \<ge> kernel_start \<and> me_addr e + me_len e \<le> kernel_end then Inr (e\<lparr>me_type := MULTIBOOT_MEMORY_RESERVED\<rparr>)
           else Inr e
      else Inr e)"

fun fix_entries :: "addr_t \<Rightarrow> addr_t \<Rightarrow> u32 list \<Rightarrow> (u32 \<Rightarrow> multiboot_mmap_entry) \<Rightarrow> (u32 \<Rightarrow> multiboot_mmap_entry) res" where
  "fix_entries ks ke [] at = Inr at"
| "fix_entries ks ke (p # ps) at = bind_res (fix_entry ks ke (at p)) (\<lambda>e. fix_entries ks ke ps (at(p := e)))"

definition x86_64_fix_multiboot :: "addr_t \<Rightarrow> addr_t \<Rightarrow> multiboot_info \<Rightarrow> multiboot_info res option" where
  "x86_64_fix_multiboot start_sym end_sym mb =
     map_option (\<lambda>ps. bind_res (fix_entries (ROUND_DOWN start_sym PAGE_SIZE) (ROUND_UP end_sym PAGE_SIZE) ps (mmap_at mb)) (\<lambda>at.
       Inr (mb\<lparr>mmap_at := at\<rparr>))) (mmap_entries mb)"

text \<open>The entry found, None for the null pointer.\<close>

definition largest_step :: "(u32 \<Rightarrow> multiboot_mmap_entry) \<Rightarrow> u32 \<Rightarrow> u64 \<times> u32 option \<Rightarrow> u64 \<times> u32 option" where
  "largest_step at p st = (if me_type (at p) = MULTIBOOT_MEMORY_AVAILABLE \<and> me_len (at p) > fst st then (me_len (at p), Some p) else st)"

definition multiboot_get_largest_available_block :: "multiboot_info \<Rightarrow> u32 option option" where
  "multiboot_get_largest_available_block mb = map_option (\<lambda>ps. snd (fold (largest_step (mmap_at mb)) ps (0, None))) (mmap_entries mb)"

subsection \<open>Sections and symbols\<close>

definition section_header :: "multiboot_info \<Rightarrow> u32 \<Rightarrow> elf64_shdr" where
  "section_header mb i = shdr_at mb (ucast (sec_addr (elf_sec mb) + sec_size (elf_sec mb) * i))"

definition string_header :: "multiboot_info \<Rightarrow> elf64_shdr \<Rightarrow> elf64_shdr" where
  "string_header mb sh = shdr_at mb (ucast (sec_addr (elf_sec mb)) + ucast (sh_link sh * sec_size (elf_sec mb)))"

definition sections :: "multiboot_info \<Rightarrow> elf64_shdr list" where
  "sections mb = map (\<lambda>i. section_header mb (of_nat i)) [0 ..< unat (sec_num (elf_sec mb))]"

definition symtab_sizes :: "multiboot_info \<Rightarrow> u64 \<times> u64" where
  "symtab_sizes mb = fold (\<lambda>sh st. if sh_type sh = SHT_SYMTAB then (sh_size sh, sh_size (string_header mb sh)) else st) (sections mb) (0, 0)"

definition x86_64_protect_symtab :: "multiboot_info \<Rightarrow> u32 option \<Rightarrow> multiboot_info res" where
  "x86_64_protect_symtab mb entry =
     (let (symtab_size, string_table_size) = symtab_sizes mb; tot = ROUND_UP (symtab_size + string_table_size) 0x1000
      in case entry of None \<Rightarrow> Inl NullDeref
         | Some p \<Rightarrow> let e = mmap_at mb p
             in Inr (mb\<lparr>mmap_at := (mmap_at mb)(p := e\<lparr>me_addr := me_addr e + tot, me_len := me_len e - tot\<rparr>)\<rparr>))"

text \<open>The symbols of one table: the loop counts from one to \<open>num_syms\<close> and advances the pointer first.\<close>

definition table_symbols :: "multiboot_info \<Rightarrow> elf64_shdr \<Rightarrow> (addr_t \<times> string) list res" where
  "table_symbols mb sh =
     (if sh_addr sh = 0 then Inr []
      else if sh_entsize sh = 0 then Inl DivByZero
      else let num_syms = nat (sint (ucast (sh_size sh div sh_entsize sh) :: u32));
               strings = sh_addr (string_header mb sh);
               syms = map (\<lambda>j. sym_at mb (sh_addr sh + 24 * of_nat j)) [1 ..< Suc num_syms]
           in Inr (map (\<lambda>sy. (st_value sy, if st_name sy \<noteq> 0 then str_at mb (strings + ucast (st_name sy)) else ''N/A''))
                (filter (\<lambda>sy. ELF_ST_TYPE (st_info sy) = STT_FUNC) syms)))"

text \<open>The symbols of all tables, in the order of registration.\<close>

fun tables_symbols :: "multiboot_info \<Rightarrow> elf64_shdr list \<Rightarrow> (addr_t \<times> string) list res" where
  "tables_symbols mb [] = Inr []"
| "tables_symbols mb (sh # shs) =
     (if sh_type sh = SHT_SYMTAB
      then bind_res (table_symbols mb sh) (\<lambda>xs. bind_res (tables_symbols mb shs) (\<lambda>ys. Inr (xs @ ys)))
      else tables_symbols mb shs)"

fun register_symbols :: "(addr_t \<times> string) list \<Rightarrow> heap \<times> symtab \<Rightarrow> (heap \<times> symtab) res option" where
  "register_symbols [] st = Some (Inr st)"
| "register_symbols ((a, name) # xs) (h, sy) =
     bind_ro (kmalloc h (sizeof_ksymbol + of_nat (length name) + 2)) (\<lambda>(p, h).
     bind_ro (Some (ksymbol_register sy p a name (of_nat (length name)))) (\<lambda>sy. register_symbols xs (h, sy)))"

definition multiboot_parse_symbols :: "multiboot_info \<Rightarrow> heap \<Rightarrow> symtab \<Rightarrow> (heap \<times> symtab) res option" where
  "multiboot_parse_symbols mb h sy = bind_ro (Some (tables_symbols mb (sections mb))) (\<lambda>xs. register_symbols xs (h, sy))"

definition multiboot_has_symbols :: "multiboot_info \<Rightarrow> bool" where
  "multiboot_has_symbols mb \<longleftrightarrow> mb_flags mb AND MULTIBOOT_INFO_ELF_SHDR \<noteq> 0"

subsection \<open>The boot information\<close>

definition add_region :: "multiboot_mmap_entry \<Rightarrow> mint_bootinfo \<Rightarrow> mint_bootinfo" where
  "add_region e b =
     (let b = (if me_type e = 1
               then let b = b\<lparr>total_mem := total_mem b + me_len e\<rparr>
                    in if me_addr e + me_len e > highest_mem b then b\<lparr>highest_mem := me_addr e + me_len e\<rparr> else b
               else b)
      in b\<lparr>memregions := memregions b @ [\<lparr>mr_addr = me_addr e, mr_size = me_len e, mr_type = ucast (me_type e)\<rparr>],
           num_memregions := num_memregions b + 1\<rparr>)"

fun add_regions :: "multiboot_mmap_entry list \<Rightarrow> heap \<times> mint_bootinfo \<Rightarrow> (heap \<times> mint_bootinfo) res option" where
  "add_regions [] st = Some (Inr st)"
| "add_regions (e # es) (h, b) =
     bind_ro (kzalloc h sizeof_memory_region) (\<lambda>(p, h). if p = NULL then Some (Inl NullDeref) else add_regions es (h, add_region e b))"

definition empty_bootinfo :: mint_bootinfo where
  "empty_bootinfo = \<lparr>cmdline = 0, total_mem = 0, highest_mem = 0, num_memregions = 0, memregions = []\<rparr>"

definition make_bootinfo :: "multiboot_info \<Rightarrow> heap \<Rightarrow> (heap \<times> mint_bootinfo) res option" where
  "make_bootinfo mb h = Option.bind (mmap_entries mb) (\<lambda>ps. add_regions (map (mmap_at mb) ps) (h, empty_bootinfo))"

text \<open>The state \<open>x86_64_init\<close> sets up before it calls \<open>kmain\<close>, and the addresses the linker gives.\<close>

record boot_state =
  bs_intr :: intr
  bs_consoles :: consoles
  bs_cpu :: cpuinfo
  bs_gdt :: "gdt_entry list \<times> tss_entry \<times> descriptor"
  bs_idt :: "idt_entry list \<times> descriptor"
  bs_mboot :: multiboot_info
  bs_heap :: heap
  bs_symbols :: symtab
  bs_info :: mint_bootinfo

record linked =
  at_serial :: addr_t
  at_vga :: addr_t
  kernel_start_sym :: addr_t
  kernel_end_sym :: addr_t
  at_gdt :: addr_t
  at_tss :: addr_t
  at_idt :: addr_t
  isr_stub :: "nat \<Rightarrow> u64"
  irq_stub :: "nat \<Rightarrow> u64"

definition boot_heap :: "linked \<Rightarrow> boot_state \<Rightarrow> boot_state res option" where
  "boot_heap l s =
     bind_ro (x86_64_fix_multiboot (kernel_start_sym l) (kernel_end_sym l) (bs_mboot s)) (\<lambda>mb.
     Option.bind (multiboot_get_largest_available_block mb) (\<lambda>kmalloc_free.
     bind_ro (Some (x86_64_protect_symtab mb kmalloc_free)) (\<lambda>mb.
       let e = mmap_at mb (the kmalloc_free)
       in Some (Inr (s\<lparr>bs_mboot := mb, bs_heap := early_malloc_set_properties (bs_heap s) (me_addr e + VMA_BASE) (me_len e)\<rparr>)))))"

definition x86_64_init :: "linked \<Rightarrow> (u32 \<Rightarrow> u32 \<Rightarrow> regs) \<Rightarrow> u32 \<Rightarrow> boot_state \<Rightarrow> boot_state res option" where
  "x86_64_init l cpuid magic s =
     (let s = s\<lparr>bs_intr := interrupt_disable (bs_intr s)\<rparr> in
      bind_ro (Some (x86_64_init_console (at_serial l) (at_vga l) (bs_consoles s))) (\<lambda>c.
      if magic \<noteq> MULTIBOOT_BOOTLOADER_MAGIC then Some (Inl Panic)
      else let s = s\<lparr>bs_consoles := c, bs_cpu := cpu_initialize_information cpuid 0 (bs_cpu s),
                     bs_gdt := gdt_init (at_gdt l) (at_tss l), bs_idt := idt_init (isr_stub l) (irq_stub l) (at_idt l)\<rparr>
      in bind_ro (boot_heap l s) (\<lambda>s.
         bind_ro (if multiboot_has_symbols (bs_mboot s) then multiboot_parse_symbols (bs_mboot s) (bs_heap s) (bs_symbols s)
                  else Some (Inr (bs_heap s, bs_symbols s))) (\<lambda>(h, sy).
         bind_ro (make_bootinfo (bs_mboot s) h) (\<lambda>(h, b).
           Some (Inr (s\<lparr>bs_heap := h, bs_symbols := sy, bs_info := b\<rparr>)))))))"

section \<open>Walking the map\<close>

lemma mmap_walk_Cons:
  "mmap_walk at e m = Some (p # ps) \<longleftrightarrow> p = m \<and> m < e \<and> mmap_walk at e (m + (me_size (at m) + 4)) = Some ps"
proof (cases "m < e")
  case True
  have "mmap_walk at e m = Option.bind (mmap_walk at e (m + (me_size (at m) + 4))) (\<lambda>ps. Some (m # ps))"
    using True mmap_walk.simps [of at e m] by (simp only: if_True)
  then show ?thesis using True by (cases "mmap_walk at e (m + (me_size (at m) + 4))") auto
next
  case False
  then have "mmap_walk at e m = Some []" using mmap_walk.simps [of at e m] by (simp only: if_False)
  then show ?thesis using False by simp
qed

lemma mmap_walk_Nil: "mmap_walk at e m = Some [] \<longleftrightarrow> \<not> m < e"
proof (cases "m < e")
  case True
  have "mmap_walk at e m = Option.bind (mmap_walk at e (m + (me_size (at m) + 4))) (\<lambda>ps. Some (m # ps))"
    using True mmap_walk.simps [of at e m] by (simp only: if_True)
  then show ?thesis using True by (cases "mmap_walk at e (m + (me_size (at m) + 4))") auto
next
  case False
  then have "mmap_walk at e m = Some []" using mmap_walk.simps [of at e m] by (simp only: if_False)
  then show ?thesis using False by simp
qed

lemma mmap_walk_suffix: "mmap_walk at e m = Some ps \<Longrightarrow> i < length ps \<Longrightarrow> mmap_walk at e (ps ! i) = Some (drop i ps)"
proof (induction ps arbitrary: m i)
  case (Cons p ps)
  then have p: "p = m" "mmap_walk at e (m + (me_size (at m) + 4)) = Some ps" by (simp_all add: mmap_walk_Cons)
  show ?case using Cons.IH [OF p(2)] Cons.prems p(1) by (cases i) auto
qed simp

lemma mmap_walk_distinct: "mmap_walk at e m = Some ps \<Longrightarrow> distinct ps"
  unfolding distinct_conv_nth
proof (intro allI impI notI)
  fix i j assume a: "mmap_walk at e m = Some ps" "i < length ps" "j < length ps" "i \<noteq> j" "ps ! i = ps ! j"
  then have "drop i ps = drop j ps" using mmap_walk_suffix [OF a(1)] by (metis option.inject)
  then have "length ps - i = length ps - j" by (metis length_drop)
  then show False using a(2-4) by linarith
qed

definition entry_range :: "multiboot_mmap_entry \<Rightarrow> nat set" where
  "entry_range e = {unat (me_addr e) ..< unat (me_addr e) + unat (me_len e)}"

definition entry_fits :: "multiboot_mmap_entry \<Rightarrow> bool" where
  "entry_fits e \<longleftrightarrow> unat (me_addr e) + unat (me_len e) < 2 ^ 64"

definition surrounds :: "addr_t \<Rightarrow> addr_t \<Rightarrow> multiboot_mmap_entry \<Rightarrow> bool" where
  "surrounds ks ke e \<longleftrightarrow> me_type e = MULTIBOOT_MEMORY_AVAILABLE \<and> unat (me_addr e) < unat ks \<and> unat ke < unat (me_addr e) + unat (me_len e)"

definition covers :: "addr_t \<Rightarrow> addr_t \<Rightarrow> multiboot_mmap_entry \<Rightarrow> bool" where
  "covers ks ke e \<longleftrightarrow> {unat ks ..< unat ke} \<subseteq> entry_range e"

lemma fix_entry_clear:
  assumes fits: "entry_fits e" and k: "ks < ke" and ns: "\<not> surrounds ks ke e"
  shows "\<exists>e'. fix_entry ks ke e = Inr e' \<and> me_size e' = me_size e \<and> entry_fits e'
    \<and> (me_type e' = MULTIBOOT_MEMORY_AVAILABLE \<longrightarrow> me_type e = MULTIBOOT_MEMORY_AVAILABLE \<and> entry_range e' \<subseteq> entry_range e
        \<and> (covers ks ke e \<longrightarrow> entry_range e' \<inter> {unat ks ..< unat ke} = {}))"
proof -
  have en: "unat (me_addr e + me_len e) = unat (me_addr e) + unat (me_len e)"
    using fits by (subst unat_add_no_overflow) (simp_all add: entry_fits_def)
  have lt: "unat ks < unat ke" using k by (simp add: word_less_nat_alt)
  have cov: "covers ks ke e \<longleftrightarrow> me_addr e \<le> ks \<and> ke \<le> me_addr e + me_len e"
  proof
    assume c: "covers ks ke e"
    have "unat ks \<in> entry_range e" "unat ke - 1 \<in> entry_range e" using c lt by (auto simp: covers_def)
    then show "me_addr e \<le> ks \<and> ke \<le> me_addr e + me_len e"
      using lt en by (auto simp: entry_range_def word_le_nat_alt)
  qed (use en in \<open>auto simp: covers_def entry_range_def word_le_nat_alt\<close>)
  consider (no) "me_type e \<noteq> MULTIBOOT_MEMORY_AVAILABLE \<or> \<not> (me_addr e \<le> ks \<and> ke \<le> me_addr e + me_len e)"
    | (front) "me_type e = MULTIBOOT_MEMORY_AVAILABLE" "me_addr e < ks" "me_addr e + me_len e = ke"
    | (rear) "me_type e = MULTIBOOT_MEMORY_AVAILABLE" "me_addr e = ks" "ke < me_addr e + me_len e"
    | (same) "me_type e = MULTIBOOT_MEMORY_AVAILABLE" "me_addr e = ks" "me_addr e + me_len e = ke"
    using ns en by (auto simp: surrounds_def word_le_nat_alt word_less_nat_alt word_unat_eq_iff) linarith+
  then show ?thesis
  proof cases
    case no
    then have "fix_entry ks ke e = Inr e" by (auto simp: fix_entry_def)
    then show ?thesis using no fits cov by auto
  next
    case front
    have ov: "unat ((me_addr e + me_len e) - ks) = unat ke - unat ks" using front(3) lt by (simp add: unat_sub_no_underflow word_le_nat_alt)
    have l: "unat (me_len e - ((me_addr e + me_len e) - ks)) = unat ks - unat (me_addr e)"
      using ov en lt front(2) arg_cong [OF front(3), of unat] by (subst unat_sub_no_underflow) (simp_all add: word_le_nat_alt word_less_nat_alt)
    have "fix_entry ks ke e = Inr (e\<lparr>me_len := me_len e - ((me_addr e + me_len e) - ks)\<rparr>)"
      using front k by (simp add: fix_entry_def Let_def)
    then show ?thesis using l front en lt fits by (auto simp: entry_fits_def entry_range_def word_less_nat_alt word_unat_eq_iff)
  next
    case rear
    have ov: "unat (ke - me_addr e) = unat ke - unat ks" using rear(2) lt by (simp add: unat_sub_no_underflow word_le_nat_alt)
    have l: "unat (me_len e - (ke - me_addr e)) = unat ks + unat (me_len e) - unat ke"
      using ov en rear lt by (subst unat_sub_no_underflow) (simp_all add: word_le_nat_alt word_less_nat_alt)
    have "fix_entry ks ke e = Inr (e\<lparr>me_addr := ke, me_len := me_len e - (ke - me_addr e)\<rparr>)"
      using rear k by (simp add: fix_entry_def Let_def)
    then show ?thesis using l rear en lt fits by (auto simp: entry_fits_def entry_range_def word_less_nat_alt)
  next
    case same
    then have "fix_entry ks ke e = Inr (e\<lparr>me_type := MULTIBOOT_MEMORY_RESERVED\<rparr>)" using k by (simp add: fix_entry_def)
    then show ?thesis using fits by (simp add: entry_fits_def MULTIBOOT_MEMORY_RESERVED_def MULTIBOOT_MEMORY_AVAILABLE_def)
  qed
qed

lemma fix_entries_all:
  assumes "distinct ps" and "\<forall>p \<in> set ps. \<exists>e. fix_entry ks ke (at p) = Inr e"
  shows "fix_entries ks ke ps at = Inr (\<lambda>p. if p \<in> set ps then projr (fix_entry ks ke (at p)) else at p)"
  using assms
proof (induction ps arbitrary: at)
  case (Cons p ps)
  obtain e where e: "fix_entry ks ke (at p) = Inr e" using Cons.prems by auto
  have "fix_entries ks ke ps (at(p := e)) = Inr (\<lambda>q. if q \<in> set ps then projr (fix_entry ks ke ((at(p := e)) q)) else (at(p := e)) q)"
    using Cons.prems by (intro Cons.IH) auto
  moreover have "(\<lambda>q. if q \<in> set ps then projr (fix_entry ks ke ((at(p := e)) q)) else (at(p := e)) q)
      = (\<lambda>q. if q \<in> set (p # ps) then projr (fix_entry ks ke (at q)) else at q)"
    using Cons.prems(1) e by (auto simp: fun_eq_iff)
  ultimately show ?case using e by simp
qed simp

lemma mmap_walk_cong: "\<forall>p. me_size (at' p) = me_size (at p) \<Longrightarrow> mmap_walk at e m = Some ps \<Longrightarrow> mmap_walk at' e m = Some ps"
  by (induction ps arbitrary: m) (simp_all add: mmap_walk_Cons mmap_walk_Nil)

lemma largest_fold:
  assumes "fold (largest_step at) ps (n, r) = (n', r')"
  shows "n \<le> n' \<and> (\<forall>p \<in> set ps. me_type (at p) = MULTIBOOT_MEMORY_AVAILABLE \<longrightarrow> me_len (at p) \<le> n')
    \<and> (n' = n \<and> r' = r \<or> (\<exists>p \<in> set ps. r' = Some p \<and> me_len (at p) = n' \<and> n < n' \<and> me_type (at p) = MULTIBOOT_MEMORY_AVAILABLE))"
  using assms
proof (induction ps arbitrary: n r)
  case (Cons p ps)
  let ?st = "largest_step at p (n, r)"
  have st: "n \<le> fst ?st" "me_type (at p) = MULTIBOOT_MEMORY_AVAILABLE \<longrightarrow> me_len (at p) \<le> fst ?st"
      "?st = (n, r) \<or> (?st = (me_len (at p), Some p) \<and> n < me_len (at p) \<and> me_type (at p) = MULTIBOOT_MEMORY_AVAILABLE)"
    by (auto simp: largest_step_def)
  obtain n1 r1 where eq: "?st = (n1, r1)" by fastforce
  then have "fold (largest_step at) ps (n1, r1) = (n', r')" using Cons.prems by simp
  from Cons.IH [OF this] show ?case using st unfolding eq by (auto intro: order_trans)
qed simp

section \<open>Repairing the map\<close>

abbreviation kernel_pages :: "addr_t \<Rightarrow> addr_t \<Rightarrow> nat set" where
  "kernel_pages ks ke \<equiv> {unat (ROUND_DOWN ks PAGE_SIZE) ..< unat (ROUND_UP ke PAGE_SIZE)}"

definition map_ok :: "addr_t \<Rightarrow> addr_t \<Rightarrow> multiboot_info \<Rightarrow> u32 list \<Rightarrow> bool" where
  "map_ok ks ke mb ps \<longleftrightarrow> mmap_entries mb = Some ps \<and> ROUND_DOWN ks PAGE_SIZE < ROUND_UP ke PAGE_SIZE
     \<and> (\<forall>p \<in> set ps. entry_fits (mmap_at mb p) \<and> \<not> surrounds (ROUND_DOWN ks PAGE_SIZE) (ROUND_UP ke PAGE_SIZE) (mmap_at mb p))"

lemma fix_multiboot_clear:
  assumes "map_ok ks ke mb ps"
  shows "\<exists>mb'. x86_64_fix_multiboot ks ke mb = Some (Inr mb') \<and> mmap_entries mb' = Some ps
    \<and> (\<exists>at. mb' = mb\<lparr>mmap_at := at\<rparr>)
    \<and> (\<forall>p \<in> set ps. entry_fits (mmap_at mb' p)
        \<and> (me_type (mmap_at mb' p) = MULTIBOOT_MEMORY_AVAILABLE \<longrightarrow> me_type (mmap_at mb p) = MULTIBOOT_MEMORY_AVAILABLE
            \<and> entry_range (mmap_at mb' p) \<subseteq> entry_range (mmap_at mb p)
            \<and> (kernel_pages ks ke \<subseteq> entry_range (mmap_at mb p) \<longrightarrow> entry_range (mmap_at mb' p) \<inter> kernel_pages ks ke = {})))"
proof -
  let ?s = "ROUND_DOWN ks PAGE_SIZE" and ?e = "ROUND_UP ke PAGE_SIZE"
  let ?at = "\<lambda>p. if p \<in> set ps then projr (fix_entry ?s ?e (mmap_at mb p)) else mmap_at mb p"
  have ents: "mmap_entries mb = Some ps" and lt: "?s < ?e" using assms by (simp_all add: map_ok_def)
  have each: "\<exists>e'. fix_entry ?s ?e (mmap_at mb p) = Inr e' \<and> me_size e' = me_size (mmap_at mb p) \<and> entry_fits e'
      \<and> (me_type e' = MULTIBOOT_MEMORY_AVAILABLE \<longrightarrow> me_type (mmap_at mb p) = MULTIBOOT_MEMORY_AVAILABLE \<and> entry_range e' \<subseteq> entry_range (mmap_at mb p)
          \<and> (covers ?s ?e (mmap_at mb p) \<longrightarrow> entry_range e' \<inter> {unat ?s ..< unat ?e} = {}))" if "p \<in> set ps" for p
    using assms that by (intro fix_entry_clear) (auto simp: map_ok_def)
  have "distinct ps" using ents mmap_walk_distinct by (auto simp: mmap_entries_def)
  then have "fix_entries ?s ?e ps (mmap_at mb) = Inr ?at" using each by (intro fix_entries_all) blast+
  then have fixed: "x86_64_fix_multiboot ks ke mb = Some (Inr (mb\<lparr>mmap_at := ?at\<rparr>))" using ents by (simp add: x86_64_fix_multiboot_def)
  have "\<forall>p. me_size (?at p) = me_size (mmap_at mb p)" using each by fastforce
  then have "mmap_entries (mb\<lparr>mmap_at := ?at\<rparr>) = Some ps"
    using ents mmap_walk_cong [of ?at "mmap_at mb"] by (simp add: mmap_entries_def)
  moreover have "entry_fits (?at p) \<and> (me_type (?at p) = MULTIBOOT_MEMORY_AVAILABLE \<longrightarrow> me_type (mmap_at mb p) = MULTIBOOT_MEMORY_AVAILABLE
      \<and> entry_range (?at p) \<subseteq> entry_range (mmap_at mb p)
      \<and> (kernel_pages ks ke \<subseteq> entry_range (mmap_at mb p) \<longrightarrow> entry_range (?at p) \<inter> kernel_pages ks ke = {}))" if "p \<in> set ps" for p
    using each [OF that] that by (auto simp: covers_def)
  ultimately show ?thesis using fixed by (intro exI [of _ "mb\<lparr>mmap_at := ?at\<rparr>"]) auto
qed

text \<open>A free region that begins before the kernel and ends after it is not split: the boot stops.\<close>

lemma fix_entry_panics: "surrounds ks ke e \<Longrightarrow> entry_fits e \<Longrightarrow> fix_entry ks ke e = Inl Panic"
  by (auto simp: surrounds_def entry_fits_def fix_entry_def word_le_nat_alt word_less_nat_alt unat_add_no_overflow)

text \<open>A free region that reaches into the kernel from below and ends inside it is left as it is.\<close>

lemma fix_entry_overlap_kept:
  "fix_entry 0x100000 0x200000 \<lparr>me_size = 20, me_addr = 0x80000, me_len = 0x100000, me_type = 1\<rparr>
    = Inr \<lparr>me_size = 20, me_addr = 0x80000, me_len = 0x100000, me_type = 1\<rparr>"
  by (simp add: fix_entry_def)

section \<open>Allocations from the early heap\<close>

text \<open>\<open>n\<close> bytes are left between the watermark and the end.\<close>

definition early_room :: "heap \<Rightarrow> nat \<Rightarrow> bool" where
  "early_room h n \<longleftrightarrow> heap_status h = HEAP_EARLY \<and> 0 < unat (early_heap_watermark h) \<and> unat (early_heap_watermark h) + n \<le> unat (early_heap_end h)"

definition same_region :: "heap \<Rightarrow> heap \<Rightarrow> bool" where
  "same_region h h' \<longleftrightarrow> early_heap_start h' = early_heap_start h \<and> early_heap_end h' = early_heap_end h"

lemma kmalloc_early:
  assumes "early_room h (unat sz + n)"
  shows "\<exists>h'. kmalloc h sz = Some (Inr (early_heap_watermark h, h')) \<and> early_room h' n \<and> same_region h h'
    \<and> unat (early_heap_watermark h') = unat (early_heap_watermark h) + unat sz"
proof -
  have rdy: "early_ready h" "unat (early_heap_watermark h) + unat sz \<le> unat (early_heap_end h)"
    using assms by (auto simp: early_room_def early_ready_def word_le_nat_alt)
  have "early_malloc h sz = (early_heap_watermark h, h\<lparr>early_heap_watermark := early_heap_watermark h + sz\<rparr>)"
    using early.granted [OF rdy] early.mark_up [OF rdy] rdy(2) by (simp add: early_malloc_def word_less_nat_alt)
  moreover have "HEAP_EARLY \<noteq> HEAP_UNINITIALIZED" by (simp add: HEAP_EARLY_def HEAP_UNINITIALIZED_def)
  ultimately show ?thesis using assms early.mark_up [OF rdy] by (simp add: kmalloc_def early_room_def same_region_def)
qed

lemma kzalloc_early:
  assumes "early_room h (unat sz + n)"
  shows "\<exists>p h'. kzalloc h sz = Some (Inr (p, h')) \<and> p \<noteq> NULL \<and> early_room h' n \<and> same_region h h'"
proof -
  obtain h1 where h1: "kmalloc h sz = Some (Inr (early_heap_watermark h, h1))" "early_room h1 n" "same_region h h1"
    using kmalloc_early [OF assms] by blast
  have "early_heap_watermark h \<noteq> NULL" using assms by (auto simp: early_room_def)
  then show ?thesis using h1 by (simp add: kzalloc_def early_room_def same_region_def)
qed

definition region_of :: "multiboot_mmap_entry \<Rightarrow> mint_memory_region" where
  "region_of e = \<lparr>mr_addr = me_addr e, mr_size = me_len e, mr_type = ucast (me_type e)\<rparr>"

lemma add_region_regions [simp]: "memregions (add_region e b) = memregions b @ [region_of e]"
  by (simp add: add_region_def Let_def region_of_def)

lemma add_regions_early:
  assumes "early_room h (40 * length es + n)"
  shows "\<exists>h'. add_regions es (h, b) = Some (Inr (h', fold add_region es b)) \<and> early_room h' n \<and> same_region h h'"
  using assms
proof (induction es arbitrary: h b)
  case Nil
  then show ?case by (simp add: same_region_def)
next
  case (Cons e es)
  have "early_room h (unat sizeof_memory_region + (40 * length es + n))"
    using Cons.prems by (simp add: sizeof_memory_region_def add.assoc)
  from kzalloc_early [OF this] obtain p h1 where h1: "kzalloc h sizeof_memory_region = Some (Inr (p, h1))" "p \<noteq> NULL"
      "early_room h1 (40 * length es + n)" "same_region h h1" by blast
  from Cons.IH [OF h1(3)] show ?case using h1 by (fastforce simp: same_region_def)
qed

lemma fold_add_region_regions: "memregions (fold add_region es b) = memregions b @ map region_of es"
  by (induction es arbitrary: b) simp_all

definition symbol_bytes :: "(addr_t \<times> string) list \<Rightarrow> nat" where
  "symbol_bytes xs = (\<Sum>(a, name)\<leftarrow>xs. 26 + length name)"

text \<open>The symbols on the list, newest first.\<close>

definition symbol_list :: "symtab \<Rightarrow> ksymbol list \<Rightarrow> bool" where
  "symbol_list sy ks \<longleftrightarrow> (\<exists>ps. dll (ksymbol_links sy) (ksymbol_list sy) ps \<and> map (ksymbol_at sy) ps = ks)"

lemma register_symbols_early:
  assumes "early_room h (symbol_bytes xs + n)" and "dll (ksymbol_links sy) (ksymbol_list sy) ps" and "\<forall>p \<in> set ps. p < early_heap_watermark h"
    and "ksymbol_list sy < early_heap_watermark h"
  shows "\<exists>h' sy'. register_symbols xs (h, sy) = Some (Inr (h', sy')) \<and> early_room h' n \<and> same_region h h'
    \<and> symbol_list sy' (rev (map (\<lambda>(a, name). \<lparr>ks_address = a, ks_name = name\<rparr>) xs) @ map (ksymbol_at sy) ps)"
  using assms
proof (induction xs arbitrary: h sy ps)
  case Nil
  then show ?case by (auto simp: symbol_bytes_def symbol_list_def same_region_def)
next
  case (Cons x xs)
  obtain a name where x: "x = (a, name)" by fastforce
  let ?sz = "sizeof_ksymbol + of_nat (length name) + 2" and ?w = "early_heap_watermark h"
  have "length name + 26 \<le> unat (early_heap_end h)" using Cons.prems(1) by (simp add: early_room_def symbol_bytes_def x)
  then have ln: "length name + 26 < 2 ^ 64" using unat_less_length_power [of "early_heap_end h"] by simp
  have "?sz = of_nat (length name + 26)" by (simp add: sizeof_ksymbol_def)
  then have sz: "unat ?sz = 26 + length name" using ln by (simp only: unat_of_nat) simp
  have "early_room h (unat ?sz + (symbol_bytes xs + n))" using Cons.prems(1) unfolding sz by (simp add: symbol_bytes_def x add.assoc)
  from kmalloc_early [OF this] obtain h1 where h1: "kmalloc h ?sz = Some (Inr (?w, h1))" "early_room h1 (symbol_bytes xs + n)"
      "same_region h h1" "unat (early_heap_watermark h1) = unat ?w + unat ?sz" by blast
  have up: "?w < early_heap_watermark h1" using h1(4) sz by (simp add: word_less_nat_alt)
  have w: "?w \<noteq> NULL" using Cons.prems(1) by (auto simp: early_room_def)
  have fresh: "?w \<notin> insert NULL (insert (ksymbol_list sy) (set ps))" using Cons.prems(3,4) w by auto
  obtain lh where lh: "list_add (ksymbol_links sy) (ksymbol_list sy) ?w = Inr lh" "dll lh (ksymbol_list sy) (?w # ps)"
    using list_add_dll [OF Cons.prems(2) fresh] by blast
  let ?sy = "sy\<lparr>ksymbol_links := lh, ksymbol_at := (ksymbol_at sy)(?w := \<lparr>ks_address = a, ks_name = name\<rparr>)\<rparr>"
  have reg: "ksymbol_register sy ?w a name (of_nat (length name)) = Inr ?sy"
    using lh(1) w ln by (simp add: ksymbol_register_def copied_name_def unat_of_nat)
  have prem: "dll (ksymbol_links ?sy) (ksymbol_list ?sy) (?w # ps)" "\<forall>q \<in> set (?w # ps). q < early_heap_watermark h1"
      "ksymbol_list ?sy < early_heap_watermark h1" using Cons.prems(3,4) up lh(2) by (auto intro: less_trans)
  obtain h' sy' where r: "register_symbols xs (h1, ?sy) = Some (Inr (h', sy'))" "early_room h' n" "same_region h1 h'"
      "symbol_list sy' (rev (map (\<lambda>(a, name). \<lparr>ks_address = a, ks_name = name\<rparr>) xs) @ map (ksymbol_at ?sy) (?w # ps))"
    using Cons.IH [OF h1(2) prem] by blast
  have "map (ksymbol_at ?sy) (?w # ps) = \<lparr>ks_address = a, ks_name = name\<rparr> # map (ksymbol_at sy) ps" using fresh by auto
  then have "symbol_list sy' (rev (map (\<lambda>(a, name). \<lparr>ks_address = a, ks_name = name\<rparr>) (x # xs)) @ map (ksymbol_at sy) ps)"
    using r(4) by (simp only: x) simp
  moreover have "register_symbols (x # xs) (h, sy) = Some (Inr (h', sy'))" using h1(1) reg r(1) by (simp add: x)
  ultimately show ?case using r(2,3) h1(3) by (auto simp: same_region_def)
qed

section \<open>From the boot loader to \<open>kmain\<close>\<close>

lemma string_header_map [simp]: "string_header (mb\<lparr>mmap_at := at\<rparr>) = string_header mb"
  by (simp add: fun_eq_iff string_header_def)

lemma sections_map [simp]: "sections (mb\<lparr>mmap_at := at\<rparr>) = sections mb" "multiboot_has_symbols (mb\<lparr>mmap_at := at\<rparr>) = multiboot_has_symbols mb"
  by (simp_all add: sections_def section_header_def multiboot_has_symbols_def)

lemma symtab_sizes_map [simp]: "symtab_sizes (mb\<lparr>mmap_at := at\<rparr>) = symtab_sizes mb"
  unfolding symtab_sizes_def by simp

lemma table_symbols_map [simp]: "table_symbols (mb\<lparr>mmap_at := at\<rparr>) sh = table_symbols mb sh"
  unfolding table_symbols_def by (simp cong: if_cong)

lemma tables_symbols_map [simp]: "tables_symbols (mb\<lparr>mmap_at := at\<rparr>) shs = tables_symbols mb shs"
  by (induction shs) simp_all

definition boot_symbols :: "multiboot_info \<Rightarrow> (addr_t \<times> string) list res" where
  "boot_symbols mb = (if multiboot_has_symbols mb then tables_symbols mb (sections mb) else Inr [])"

definition reserved_bytes :: "multiboot_info \<Rightarrow> size_t" where
  "reserved_bytes mb = (case symtab_sizes mb of (a, b) \<Rightarrow> ROUND_UP (a + b) 0x1000)"

text \<open>The block chosen for the early heap lies below two gigabytes, where the mapping at \<open>VMA_BASE\<close> reaches, and has room for the symbol
  tables, \<open>xs\<close> symbols and \<open>k\<close> memory regions.\<close>

definition block_ok :: "multiboot_info \<Rightarrow> multiboot_mmap_entry \<Rightarrow> (addr_t \<times> string) list \<Rightarrow> nat \<Rightarrow> bool" where
  "block_ok mb e xs k \<longleftrightarrow> 0 < unat (me_addr e) + unat (reserved_bytes mb) \<and> unat (me_addr e) + unat (me_len e) < 2 ^ 31
     \<and> unat (reserved_bytes mb) + symbol_bytes xs + 40 * k < unat (me_len e)"

lemma boot_heap_early:
  assumes fixed: "x86_64_fix_multiboot (kernel_start_sym l) (kernel_end_sym l) (bs_mboot s) = Some (Inr mb)"
    and large: "multiboot_get_largest_available_block mb = Some (Some p)" and block: "block_ok mb (mmap_at mb p) xs k"
  shows "\<exists>s' e. boot_heap l s = Some (Inr s') \<and> s' = s\<lparr>bs_mboot := bs_mboot s', bs_heap := bs_heap s'\<rparr>
    \<and> bs_mboot s' = mb\<lparr>mmap_at := (mmap_at mb)(p := e)\<rparr> \<and> me_size e = me_size (mmap_at mb p) \<and> early_room (bs_heap s') (symbol_bytes xs + 40 * k)
    \<and> unat VMA_BASE + unat (me_addr (mmap_at mb p)) \<le> unat (early_heap_start (bs_heap s')) \<and> early_heap_watermark (bs_heap s') = early_heap_start (bs_heap s')
    \<and> {unat (early_heap_start (bs_heap s')) - unat VMA_BASE ..< unat (early_heap_end (bs_heap s')) - unat VMA_BASE} \<subseteq> entry_range (mmap_at mb p)"
proof -
  let ?e = "mmap_at mb p" and ?t = "reserved_bytes mb"
  let ?e' = "?e\<lparr>me_addr := me_addr ?e + ?t, me_len := me_len ?e - ?t\<rparr>"
  let ?h = "early_malloc_set_properties (bs_heap s) (me_addr ?e' + VMA_BASE) (me_len ?e')"
  have vma: "unat VMA_BASE = 2 ^ 64 - 2 ^ 31" by (simp add: VMA_BASE_def)
  have b: "0 < unat (me_addr ?e) + unat ?t" "unat (me_addr ?e) + unat (me_len ?e) < 2 ^ 31" "unat ?t + symbol_bytes xs + 40 * k < unat (me_len ?e)"
    using block by (simp_all add: block_ok_def)
  have a: "unat (me_addr ?e + ?t) = unat (me_addr ?e) + unat ?t" using b by (subst unat_add_no_overflow) simp_all
  have l: "unat (me_len ?e - ?t) = unat (me_len ?e) - unat ?t" using b(3) by (subst unat_sub_no_underflow) (simp_all add: word_le_nat_alt)
  have st: "unat (me_addr ?e + ?t + VMA_BASE) = unat (me_addr ?e) + unat ?t + unat VMA_BASE" using a b vma by (subst unat_add_no_overflow) simp_all
  have en: "unat (me_addr ?e + ?t + VMA_BASE + (me_len ?e - ?t)) = unat (me_addr ?e) + unat (me_len ?e) + unat VMA_BASE"
    using st l b vma by (subst unat_add_no_overflow) simp_all
  have "me_addr ?e' + VMA_BASE \<noteq> 0" "me_len ?e' \<noteq> 0" using st l b vma by (auto simp: word_eq_zero_iff_unat)
  then have h: "?h = (bs_heap s)\<lparr>early_heap_start := me_addr ?e + ?t + VMA_BASE, early_heap_extent := me_len ?e - ?t,
      early_heap_end := me_addr ?e + ?t + VMA_BASE + (me_len ?e - ?t), early_heap_watermark := me_addr ?e + ?t + VMA_BASE, heap_status := HEAP_EARLY\<rparr>"
    by (simp add: early_malloc_set_properties_def)
  have prot: "x86_64_protect_symtab mb (Some p) = Inr (mb\<lparr>mmap_at := (mmap_at mb)(p := ?e')\<rparr>)"
    by (simp add: x86_64_protect_symtab_def reserved_bytes_def Let_def split: prod.split)
  have "boot_heap l s = Some (Inr (s\<lparr>bs_mboot := mb\<lparr>mmap_at := (mmap_at mb)(p := ?e')\<rparr>, bs_heap := ?h\<rparr>))"
    using fixed large prot by (simp add: boot_heap_def Let_def)
  moreover have "early_room ?h (symbol_bytes xs + 40 * k)" unfolding h using st en b vma by (simp add: early_room_def)
  moreover have "unat VMA_BASE + unat (me_addr ?e) \<le> unat (early_heap_start ?h)" unfolding h using st by simp
  moreover have "{unat (early_heap_start ?h) - unat VMA_BASE ..< unat (early_heap_end ?h) - unat VMA_BASE} \<subseteq> entry_range ?e"
    unfolding h using st en by (auto simp: entry_range_def)
  ultimately show ?thesis
    by (intro exI [of _ "s\<lparr>bs_mboot := mb\<lparr>mmap_at := (mmap_at mb)(p := ?e')\<rparr>, bs_heap := ?h\<rparr>"] exI [of _ ?e']) (simp add: h [simplified])
qed

lemma largest_available:
  assumes "multiboot_get_largest_available_block mb = Some (Some p)" and "mmap_entries mb = Some ps"
  shows "p \<in> set ps" and "me_type (mmap_at mb p) = MULTIBOOT_MEMORY_AVAILABLE"
    and "\<forall>q \<in> set ps. me_type (mmap_at mb q) = MULTIBOOT_MEMORY_AVAILABLE \<longrightarrow> me_len (mmap_at mb q) \<le> me_len (mmap_at mb p)"
proof -
  obtain n r where f: "fold (largest_step (mmap_at mb)) ps (0, None) = (n, r)" by fastforce
  then have "r = Some p" using assms by (simp add: multiboot_get_largest_available_block_def)
  then show "p \<in> set ps" "me_type (mmap_at mb p) = MULTIBOOT_MEMORY_AVAILABLE"
    "\<forall>q \<in> set ps. me_type (mmap_at mb q) = MULTIBOOT_MEMORY_AVAILABLE \<longrightarrow> me_len (mmap_at mb q) \<le> me_len (mmap_at mb p)"
    using largest_fold [OF f] by auto
qed

text \<open>What the start-up code relies on: the consoles and the symbol list are still empty.\<close>

definition fresh_boot :: "linked \<Rightarrow> boot_state \<Rightarrow> bool" where
  "fresh_boot l s \<longleftrightarrow> dll (console_links (bs_consoles s)) (console_list (bs_consoles s)) [] \<and> vga_ok (screen (devs (bs_consoles s)))
     \<and> distinct [at_serial l, at_vga l, console_list (bs_consoles s)] \<and> at_serial l \<noteq> NULL \<and> at_vga l \<noteq> NULL
     \<and> dll (ksymbol_links (bs_symbols s)) (ksymbol_list (bs_symbols s)) [] \<and> interrupt_depth (bs_intr s) = 0"

text \<open>Each free region either contains the whole kernel or does not meet it.\<close>

definition map_clean :: "addr_t \<Rightarrow> addr_t \<Rightarrow> multiboot_info \<Rightarrow> u32 list \<Rightarrow> bool" where
  "map_clean ks ke mb ps \<longleftrightarrow> (\<forall>p \<in> set ps. me_type (mmap_at mb p) = MULTIBOOT_MEMORY_AVAILABLE
     \<longrightarrow> kernel_pages ks ke \<subseteq> entry_range (mmap_at mb p) \<or> entry_range (mmap_at mb p) \<inter> kernel_pages ks ke = {})"

lemma fixed_available_outside:
  assumes ok: "map_ok ks ke mb ps" and clean: "map_clean ks ke mb ps" and fixed: "x86_64_fix_multiboot ks ke mb = Some (Inr mb1)"
    and p: "p \<in> set ps" "me_type (mmap_at mb1 p) = MULTIBOOT_MEMORY_AVAILABLE"
  shows "entry_range (mmap_at mb1 p) \<inter> kernel_pages ks ke = {}"
proof -
  have f: "me_type (mmap_at mb p) = MULTIBOOT_MEMORY_AVAILABLE" "entry_range (mmap_at mb1 p) \<subseteq> entry_range (mmap_at mb p)"
      "kernel_pages ks ke \<subseteq> entry_range (mmap_at mb p) \<longrightarrow> entry_range (mmap_at mb1 p) \<inter> kernel_pages ks ke = {}"
    using fix_multiboot_clear [OF ok] fixed p by auto
  have "kernel_pages ks ke \<subseteq> entry_range (mmap_at mb p) \<or> entry_range (mmap_at mb p) \<inter> kernel_pages ks ke = {}"
    using clean p(1) f(1) by (simp add: map_clean_def)
  then show ?thesis using f(2,3) by (elim disjE) auto
qed

lemma parse_symbols_early:
  assumes "boot_symbols mb = Inr xs" and "early_room h (symbol_bytes xs + n)" and "dll (ksymbol_links sy) (ksymbol_list sy) []"
    and "ksymbol_list sy < early_heap_watermark h"
  shows "\<exists>h' sy'. (if multiboot_has_symbols mb then multiboot_parse_symbols mb h sy else Some (Inr (h, sy))) = Some (Inr (h', sy'))
    \<and> early_room h' n \<and> same_region h h' \<and> symbol_list sy' (rev (map (\<lambda>(a, name). \<lparr>ks_address = a, ks_name = name\<rparr>) xs))"
proof (cases "multiboot_has_symbols mb")
  case True
  then show ?thesis using register_symbols_early [OF assms(2,3) _ assms(4)] assms(1)
    by (simp add: boot_symbols_def multiboot_parse_symbols_def)
next
  case False
  then show ?thesis using assms by (auto simp: boot_symbols_def symbol_bytes_def symbol_list_def same_region_def)
qed

section \<open>Properties\<close>

text \<open>C22: the memory map after the repair. When every entry fits the address space and none strictly surrounds the kernel,
  \<open>x86_64_fix_multiboot\<close> succeeds and keeps the entries in place; what is available afterwards was available before,
  and an available entry that contained the kernel no longer meets its pages.\<close>

theorem fix_multiboot_protects:
  assumes "map_ok ks ke mb ps"
  shows "\<exists>mb'. x86_64_fix_multiboot ks ke mb = Some (Inr mb') \<and> mmap_entries mb' = Some ps
    \<and> (\<forall>p \<in> set ps. me_type (mmap_at mb' p) = MULTIBOOT_MEMORY_AVAILABLE \<longrightarrow> me_type (mmap_at mb p) = MULTIBOOT_MEMORY_AVAILABLE
            \<and> entry_range (mmap_at mb' p) \<subseteq> entry_range (mmap_at mb p)
            \<and> (kernel_pages ks ke \<subseteq> entry_range (mmap_at mb p) \<longrightarrow> entry_range (mmap_at mb' p) \<inter> kernel_pages ks ke = {}))"
  using fix_multiboot_clear [OF assms] by blast

text \<open>A machine with two entries in its map, the second from one megabyte on, where the kernel is.\<close>

definition demo_mboot :: multiboot_info where
  "demo_mboot = \<lparr>mb_flags = 0, elf_sec = \<lparr>sec_num = 0, sec_size = 0, sec_addr = 0, sec_shndx = 0\<rparr>, mmap_length = 48, mmap_addr = 0x1000,
     mmap_at = (\<lambda>a. if a = 0x1000 then \<lparr>me_size = 20, me_addr = 0, me_len = 0x9F000, me_type = 1\<rparr>
                     else \<lparr>me_size = 20, me_addr = 0x100000, me_len = 0x7F00000, me_type = 1\<rparr>),
     shdr_at = (\<lambda>_. \<lparr>sh_name = 0, sh_type = 0, sh_flags = 0, sh_addr = 0, sh_offset = 0, sh_size = 0, sh_link = 0, sh_info = 0, sh_addralign = 0, sh_entsize = 0\<rparr>),
     sym_at = (\<lambda>_. \<lparr>st_name = 0, st_info = 0, st_other = 0, st_shndx = 0, st_value = 0, st_size = 0\<rparr>), str_at = (\<lambda>_. [])\<rparr>"

lemma demo_entries: "mmap_entries demo_mboot = Some [0x1000, 0x1018]"
  by (simp add: mmap_entries_def mmap_walk_Cons mmap_walk_Nil demo_mboot_def)

lemma demo_kernel: "ROUND_DOWN 0x100000 PAGE_SIZE = (0x100000 :: addr_t)" "ROUND_UP 0x1FF800 PAGE_SIZE = (0x200000 :: addr_t)"
  by (simp_all add: ROUND_DOWN_def ROUND_UP_def PAGE_SIZE_def)

lemma demo_map_ok: "map_ok 0x100000 0x1FF800 demo_mboot [0x1000, 0x1018]"
  unfolding map_ok_def demo_kernel demo_entries by (simp add: demo_mboot_def entry_fits_def surrounds_def)

theorem fix_multiboot_protects_witness:
  "\<exists>mb'. x86_64_fix_multiboot 0x100000 0x1FF800 demo_mboot = Some (Inr mb') \<and> mmap_entries mb' = Some [0x1000, 0x1018]"
  using fix_multiboot_protects [OF demo_map_ok] by blast


definition demo_fixed :: multiboot_info where
  "demo_fixed = demo_mboot\<lparr>mmap_at := (mmap_at demo_mboot)(0x1000 := mmap_at demo_mboot 0x1000,
     0x1018 := \<lparr>me_size = 20, me_addr = 0x200000, me_len = 0x7E00000, me_type = 1\<rparr>)\<rparr>"

lemma demo_fix: "x86_64_fix_multiboot 0x100000 0x1FF800 demo_mboot = Some (Inr demo_fixed)"
  unfolding x86_64_fix_multiboot_def demo_kernel demo_entries
  by (simp add: fix_entry_def demo_mboot_def demo_fixed_def MULTIBOOT_MEMORY_AVAILABLE_def Let_def)

lemma demo_fixed_entries: "mmap_entries demo_fixed = Some [0x1000, 0x1018]"
  by (simp add: mmap_entries_def mmap_walk_Cons mmap_walk_Nil demo_fixed_def demo_mboot_def)

lemma demo_largest: "multiboot_get_largest_available_block demo_fixed = Some (Some 0x1018)"
  by (simp add: multiboot_get_largest_available_block_def demo_fixed_entries largest_step_def)
    (simp add: demo_fixed_def demo_mboot_def MULTIBOOT_MEMORY_AVAILABLE_def)

definition demo_linked :: linked where
  "demo_linked = \<lparr>at_serial = 16, at_vga = 32, kernel_start_sym = 0x100000, kernel_end_sym = 0x1FF800, at_gdt = 0x1000, at_tss = 0x2000,
     at_idt = 0x3000, isr_stub = (\<lambda>_. 0), irq_stub = (\<lambda>_. 0)\<rparr>"

definition demo_boot :: boot_state where
  "demo_boot = \<lparr>bs_intr = demo_intr,
     bs_consoles = \<lparr>console_list = 8, console_links = \<lparr>lnext = (\<lambda>_. 8), lprev = (\<lambda>_. 8)\<rparr>, console_at = (\<lambda>_. x86_64_console_serial),
       devs = devs (log_consoles demo_log)\<rparr>,
     bs_cpu = \<lparr>stepping = 0, cpu_type = 0, family = 0, model = 0, invariant_tsc = 0, features = replicate 4 0, highest_function = 0,
       signature = replicate 13 (CHR 0x00), processor_name = replicate 48 (CHR 0x00)\<rparr>,
     bs_gdt = ([], zero_tss, \<lparr>desc_limit = 0, desc_offset = 0\<rparr>), bs_idt = ([], \<lparr>desc_limit = 0, desc_offset = 0\<rparr>),
     bs_mboot = demo_mboot, bs_heap = demo_heap\<lparr>heap_status := HEAP_UNINITIALIZED\<rparr>,
     bs_symbols = \<lparr>ksymbol_list = 48, ksymbol_links = \<lparr>lnext = (\<lambda>_. 48), lprev = (\<lambda>_. 48)\<rparr>, ksymbol_at = (\<lambda>_. \<lparr>ks_address = 0, ks_name = []\<rparr>)\<rparr>,
     bs_info = empty_bootinfo\<rparr>"


end
