(* ===== verification/Fault.thy ===== *)
theory Fault
  imports Debug Cpu
begin

text \<open>
  \<open>arch/x86_64/mm/fault.c\<close> and the report of \<open>mm/virtual.c\<close>: what a page fault prints before the processor
  halts. The address is the register \<open>cr2\<close>, the reason the low byte of the error code.
\<close>

section \<open>Definitions\<close>

definition FAULT_PRESENT :: u8 where "FAULT_PRESENT = 0x1"
definition FAULT_WRITE :: u8 where "FAULT_WRITE = 0x2"
definition FAULT_USER :: u8 where "FAULT_USER = 0x4"
definition FAULT_RESERVED :: u8 where "FAULT_RESERVED = 0x8"
definition FAULT_IF :: u8 where "FAULT_IF = 0x10"

text \<open>The lines of the report, as formats with their arguments.\<close>

definition fault_report :: "addr_t \<Rightarrow> u8 \<Rightarrow> (string \<times> parg list) list" where
  "fault_report address reason =
     [(''PAGE FAULT'', []),
      (''  Address: %p'', [Num address]),
      (''  Present: %u'', [Num (if reason AND FAULT_PRESENT \<noteq> 0 then 1 else 0)]),
      (''  Write: %u'', [Num (if reason AND FAULT_WRITE \<noteq> 0 then 1 else 0)]),
      (''  User: %u'', [Num (if reason AND FAULT_USER \<noteq> 0 then 1 else 0)]),
      (''  Reserved: %u'', [Num (if reason AND FAULT_RESERVED \<noteq> 0 then 1 else 0)]),
      (''  Instruction fetch: %u'', [Num (if reason AND FAULT_IF \<noteq> 0 then 1 else 0)])]"

text \<open>The state in which \<open>virtual_fault\<close> halts for ever.\<close>

definition virtual_fault :: "string \<Rightarrow> (addr_t \<Rightarrow> u64) \<Rightarrow> symtab \<Rightarrow> addr_t \<Rightarrow> addr_t \<Rightarrow> u8 \<Rightarrow> intr \<Rightarrow> klog \<Rightarrow> (intr \<times> klog) res option" where
  "virtual_fault junk mem sy bp address reason i k =
     Option.bind (printk_all junk ERROR (fault_report address reason) k)
       (\<lambda>r. case r of Inl e \<Rightarrow> Some (Inl e) | Inr k \<Rightarrow> stacktrace junk mem sy bp i k)"

definition arch_virtual_fault :: "string \<Rightarrow> (addr_t \<Rightarrow> u64) \<Rightarrow> symtab \<Rightarrow> addr_t \<Rightarrow> addr_t \<Rightarrow> interrupt_ctx \<Rightarrow> intr \<Rightarrow> klog \<Rightarrow> (intr \<times> klog) res option" where
  "arch_virtual_fault junk mem sy bp cr2 registers i k = virtual_fault junk mem sy bp cr2 (ucast (err_code registers)) i k"

section \<open>Lines on the log\<close>

lemma printf_plain:
  "CHR ''%'' \<notin> set s \<Longrightarrow> printf_format junk (s @ f) args = map_option (\<lambda>r. bind_res r (\<lambda>out. Inr (s @ out))) (printf_format junk f args)"
proof (induction s)
  case Nil
  have "bind_res r Inr = r" for r :: "string res" by (cases r) simp_all
  then show ?case by (simp add: option.map_ident)
next
  case (Cons c s)
  have "bind_res (bind_res r (\<lambda>out. Inr (s @ out))) (\<lambda>out. Inr (c # out)) = bind_res r (\<lambda>out. Inr (c # s @ out))" for r :: "string res"
    by (cases r) simp_all
  moreover have "c \<noteq> CHR ''%''" "CHR ''%'' \<notin> set s" using Cons.prems by auto
  ultimately show ?case using Cons.IH by (simp add: option.map_comp comp_def)
qed

definition flag_text :: "bool \<Rightarrow> string" where
  "flag_text b = (if b then ''1'' else ''0'')"

lemma printf_flag:
  assumes "CHR ''%'' \<notin> set s"
  shows "printf_format junk ((s @ ''%u'') @ [CHR 0x0A]) [Num (if b then 1 else 0)] = Some (Inr (s @ flag_text b @ [CHR 0x0A]))"
proof -
  have d: "ui2a 0 10 False False = Some ''0''" "ui2a 1 10 False False = Some ''1''"
    by (simp_all add: ui2a_def unsigned2a_digits digits_of.simps digit_char_def char_of_def bit_nat_def)
  have "printf_format junk (''%u'' @ [CHR 0x0A]) [Num (if b then 1 else 0)] = Some (Inr (flag_text b @ [CHR 0x0A]))"
    using d by (simp add: parse_spec_def is_digit_def of_char_def convert_def conv_num_def num_arg_def puts_def Let_def flag_text_def)
  then show ?thesis using printf_plain [OF assms, of junk "''%u'' @ [CHR 0x0A]"] by simp
qed

definition pointer_text :: "u64 \<Rightarrow> string" where
  "pointer_text n = ''0x'' @ replicate (16 - length (upper_hex n)) (CHR ''0'') @ upper_hex n"

lemma printf_pointer:
  assumes "CHR ''%'' \<notin> set s"
  shows "printf_format junk ((s @ ''%p'') @ [CHR 0x0A]) [Num a] = Some (Inr (s @ pointer_text a @ [CHR 0x0A]))"
proof -
  have "ul2a a 16 True False = Some (upper_hex a)" by (simp add: ul2a_def unsigned2a_digits upper_hex_def)
  then have "printf_format junk (''%p'' @ [CHR 0x0A]) [Num a] = Some (Inr (pointer_text a @ [CHR 0x0A]))"
    by (simp add: parse_spec_def is_digit_def of_char_def convert_def conv_num_def num_arg_def puts_def Let_def pointer_text_def hex_by_length_def)
  then show ?thesis using printf_plain [OF assms, of junk "''%p'' @ [CHR 0x0A]"] by simp
qed

definition line_ok :: "string \<Rightarrow> string \<times> parg list \<Rightarrow> string \<Rightarrow> bool" where
  "line_ok junk fa l \<longleftrightarrow> printf_format junk (fst fa @ [CHR 0x0A]) (snd fa) = Some (Inr (l @ [CHR 0x0A])) \<and> length l < 1000 \<and> CHR 0x1B \<notin> set l"

lemma line_flag:
  assumes "CHR ''%'' \<notin> set s" and "CHR 0x1B \<notin> set s" and "length s < 100"
  shows "line_ok junk (s @ ''%u'', [Num (if b then 1 else 0)]) (s @ flag_text b)"
  using printf_flag [OF assms(1)] assms(2,3) by (simp add: line_ok_def flag_text_def)

lemma line_pointer:
  assumes "CHR ''%'' \<notin> set s" and "CHR 0x1B \<notin> set s" and "length s < 100"
  shows "line_ok junk (s @ ''%p'', [Num a]) (s @ pointer_text a)"
  using printf_pointer [OF assms(1)] assms(2,3) upper_hex_ok [of a] by (auto simp: line_ok_def pointer_text_def)

text \<open>Lines that each format to a short text without incomplete escape sequences appear on the log one after the other.\<close>

definition log_lines :: "c_int \<Rightarrow> time_t list \<Rightarrow> string list \<Rightarrow> string" where
  "log_lines level tms ls = concat (map2 (\<lambda>t l. log_prefix level t @ l @ [CHR 0x0A]) tms ls)"

lemma printk_all_text:
  assumes "log_ok ser vg k" and "unat level < 4" and "width_ends junk"
    and "list_all2 (line_ok junk) fs ls"
  shows "\<exists>k' tms. printk_all junk level fs k = Some (Inr k') \<and> log_ok ser vg k' \<and> length tms = length ls
    \<and> log_text (log_consoles k') = log_text (log_consoles k) @ log_lines level tms ls"
  using assms(1,4)
proof (induction fs arbitrary: k ls)
  case Nil
  then show ?case by (simp add: log_lines_def)
next
  case (Cons fa fs)
  obtain f args where fa: "fa = (f, args)" by fastforce
  obtain l ls' where ls: "ls = l # ls'" using Cons.prems(2) by (auto simp: list_all2_Cons1)
  have l: "printf_format junk (f @ [CHR 0x0A]) args = Some (Inr (l @ [CHR 0x0A]))" "length l < 1000" "CHR 0x1B \<notin> set l"
    and rest: "list_all2 (line_ok junk) fs ls'"
    using Cons.prems(2) by (simp_all add: fa ls) (simp_all add: line_ok_def)
  have "escapes_ok (l @ [CHR 0x0A])" using l(3) by (intro escapes_ok_no_escape) simp
  then obtain n k1 t where k1: "printk junk k level (f @ [CHR 0x0A]) args = Some (Inr (n, k1))" "log_ok ser vg k1"
      "log_text (log_consoles k1) = log_text (log_consoles k) @ log_prefix level t @ l @ [CHR 0x0A]"
    using printk_text [OF Cons.prems(1) assms(2,3) l(1)] l(2) by auto
  obtain k' tms where k': "printk_all junk level fs k1 = Some (Inr k')" "log_ok ser vg k'" "length tms = length ls'"
      "log_text (log_consoles k') = log_text (log_consoles k1) @ log_lines level tms ls'" using Cons.IH [OF k1(2) rest] by blast
  then show ?case using k1 by (intro exI [of _ k'] exI [of _ "t # tms"]) (simp add: fa ls log_lines_def)
qed

section \<open>Properties\<close>

definition fault_lines :: "addr_t \<Rightarrow> u8 \<Rightarrow> string list" where
  "fault_lines a r = [''PAGE FAULT'', ''  Address: '' @ pointer_text a, ''  Present: '' @ flag_text (bit r 0), ''  Write: '' @ flag_text (bit r 1),
     ''  User: '' @ flag_text (bit r 2), ''  Reserved: '' @ flag_text (bit r 3), ''  Instruction fetch: '' @ flag_text (bit r 4)]"

lemma reason_bits: "r AND FAULT_PRESENT \<noteq> 0 \<longleftrightarrow> bit r 0" "r AND FAULT_WRITE \<noteq> 0 \<longleftrightarrow> bit r 1" "r AND FAULT_USER \<noteq> 0 \<longleftrightarrow> bit r 2"
  "r AND FAULT_RESERVED \<noteq> 0 \<longleftrightarrow> bit r 3" "r AND FAULT_IF \<noteq> 0 \<longleftrightarrow> bit r 4"
proof -
  have "r AND 2 ^ n \<noteq> 0 \<longleftrightarrow> bit r n" if "n < 8" for n
    using that by (simp add: and_exp_eq_0_iff_not_bit)
  from this [of 0] this [of 1] this [of 2] this [of 3] this [of 4]
  show "r AND FAULT_PRESENT \<noteq> 0 \<longleftrightarrow> bit r 0" "r AND FAULT_WRITE \<noteq> 0 \<longleftrightarrow> bit r 1" "r AND FAULT_USER \<noteq> 0 \<longleftrightarrow> bit r 2"
    "r AND FAULT_RESERVED \<noteq> 0 \<longleftrightarrow> bit r 3" "r AND FAULT_IF \<noteq> 0 \<longleftrightarrow> bit r 4"
    by (simp_all add: FAULT_PRESENT_def FAULT_WRITE_def FAULT_USER_def FAULT_RESERVED_def FAULT_IF_def)
qed

lemma fault_report_formats: "list_all2 (line_ok junk) (fault_report a r) (fault_lines a r)"
proof -
  have "line_ok junk (''PAGE FAULT'', []) ''PAGE FAULT''" by (simp add: line_ok_def)
  moreover note line_pointer [of "''  Address: ''" junk a] line_flag [of "''  Present: ''" junk "bit r 0"] line_flag [of "''  Write: ''" junk "bit r 1"]
    line_flag [of "''  User: ''" junk "bit r 2"] line_flag [of "''  Reserved: ''" junk "bit r 3"] line_flag [of "''  Instruction fetch: ''" junk "bit r 4"]
  ultimately show ?thesis unfolding fault_report_def fault_lines_def reason_bits by simp
qed

text \<open>The report of a page fault. With a working log and a chain of frames that ends, \<open>arch_virtual_fault\<close> reaches its halt having
  printed the faulting address with sixteen digits, the five lowest bits of the error code under their names, and the
  trace.\<close>

theorem page_fault_report:
  assumes "log_ok ser vg k" and "symbols_ok sy ps" and "width_ends junk" and "frame_chain mem bp ips"
  shows "\<exists>i' k' tms rts. arch_virtual_fault junk mem sy bp cr2 registers i k = Some (Inr (i', k')) \<and> length tms = 7
    \<and> map (\<lambda>(r, t). Some (Inr r)) rts = map (ksymbol_resolve sy) ips
    \<and> log_text (log_consoles k') = log_text (log_consoles k) @ log_lines ERROR tms (fault_lines cr2 (ucast (err_code registers))) @ trace_text rts"
proof -
  let ?r = "ucast (err_code registers) :: u8"
  obtain k1 tms where k1: "printk_all junk ERROR (fault_report cr2 ?r) k = Some (Inr k1)" "log_ok ser vg k1"
      "length tms = length (fault_lines cr2 ?r)" "log_text (log_consoles k1) = log_text (log_consoles k) @ log_lines ERROR tms (fault_lines cr2 ?r)"
    using printk_all_text [OF assms(1) _ assms(3) fault_report_formats [of junk cr2 ?r], of ERROR] by (auto simp: ERROR_def)
  obtain k3 rts where k3: "arch_stacktrace junk mem sy bp k1 = Some (Inr k3)" "map (\<lambda>(r, t). Some (Inr r)) rts = map (ksymbol_resolve sy) ips"
      "log_text (log_consoles k3) = log_text (log_consoles k1) @ trace_text rts"
    using arch_stacktrace_text [OF assms(2,3,4) k1(2)] by blast
  have "length tms = 7" using k1(3) by (simp add: fault_lines_def)
  then show ?thesis using k1(1,4) k3 unfolding arch_virtual_fault_def virtual_fault_def
    by (intro exI [of _ "interrupt_enable (interrupt_disable i)"] exI [of _ k3] exI [of _ tms] exI [of _ rts]) (simp add: stacktrace_def)
qed

theorem page_fault_report_witness:
  "\<exists>i' k'. arch_virtual_fault [] (\<lambda>_. 0) \<lparr>ksymbol_list = 8, ksymbol_links = \<lparr>lnext = (\<lambda>_. 0)(8 := 8), lprev = (\<lambda>_. 0)(8 := 8)\<rparr>, ksymbol_at = (\<lambda>_. \<lparr>ks_address = 0, ks_name = []\<rparr>)\<rparr>
    0 0xDEAD demo_regs demo_intr demo_log = Some (Inr (i', k'))"
proof -
  let ?sy = "\<lparr>ksymbol_list = 8, ksymbol_links = \<lparr>lnext = (\<lambda>_. 0)(8 := 8), lprev = (\<lambda>_. 0)(8 := 8)\<rparr>, ksymbol_at = (\<lambda>_. \<lparr>ks_address = 0, ks_name = []\<rparr>)\<rparr>"
  have "log_ok 16 32 demo_log" using demo_clock_inv
    by (simp add: log_ok_def con_inv_def time_ok_def demo_log_def demo_time_def dll_def vga_ok_def)
  moreover have "symbols_ok ?sy []" by (simp add: symbols_ok_def dll_def)
  ultimately show ?thesis using page_fault_report [of 16 32 demo_log ?sy "[]" "[]" "\<lambda>_. 0" 0 "[]" "0xDEAD" demo_regs demo_intr]
    by (auto simp: width_ends_def)
qed

end
