(* ===== verification/Pci.thy ===== *)
theory Pci
  imports MemInit Printf
begin

text \<open>
  \<open>drivers/pci/pci.c\<close> and \<open>pci.h\<close>: the scan of the configuration space, the list of devices found, the drivers and
  how they are matched, and the mapping of device memory. What a 32-bit port read delivers is a parameter, a
  function of the writes before it. The tables of names (\<open>pci_list.h\<close>) are arguments of the one function that reads
  them. What \<open>kzalloc\<close> returns for the devices is the argument \<open>alloc\<close>, by the number of the call.
\<close>

section \<open>Definitions\<close>

subsection \<open>io.h\<close>

text \<open>The 32-bit port writes so far, the latest first.\<close>

type_synonym io32 = "(u16 \<times> u32) list"

definition outl :: "u16 \<Rightarrow> u32 \<Rightarrow> io32 \<Rightarrow> io32" where
  "outl port v s = (port, v) # s"

subsection \<open>pci.h\<close>

record pci_header_00 =
  bar :: "u32 list"
  cis :: u32
  sub_vendor_id :: u16
  sub_id :: u16
  expansion_rom :: u32
  cap :: u8
  interrupt_line :: u8
  interrupt_pin :: u8
  min_grant :: u8
  max_latency :: u8

record pci_header_01 =
  bar1 :: "u32 list"
  primary_bus :: u8
  secondary_bus :: u8
  subordinate_bus :: u8
  secondary_latency :: u8
  io_base :: u8
  io_limit :: u8
  secondary_status :: u16
  memory_base :: u16
  memory_limit :: u16
  prefetch_base :: u16
  prefetch_limit :: u16
  prefetch_base_upper :: u32
  prefetch_limit_upper :: u32
  io_base_upper :: u16
  io_limit_upper :: u16
  cap1 :: u8
  expansion_rom1 :: u32
  interrupt_line1 :: u8
  interrupt_pin1 :: u8
  bridge_control :: u16

text \<open>The common part of a header, and the twelve words of the union.\<close>

record pci_header =
  vendor_id :: u16
  device_id :: u16
  pci_command :: u16
  pci_status :: u16
  revision :: u8
  prog_if :: u8
  pci_subclass :: u8
  pci_class :: u8
  cache_sz :: u8
  latency :: u8
  header_type :: u8
  bist :: u8
  header_union :: "u32 list"

definition word_byte :: "u32 \<Rightarrow> nat \<Rightarrow> u8" where
  "word_byte w i = ucast (drop_bit (8 * i) w)"

definition word_half :: "u32 \<Rightarrow> nat \<Rightarrow> u16" where
  "word_half w i = ucast (drop_bit (16 * i) w)"

text \<open>The sixteen words of a header as the structure reads them.\<close>

definition header_of :: "u32 list \<Rightarrow> pci_header" where
  "header_of w =
     \<lparr>vendor_id = word_half (w ! 0) 0, device_id = word_half (w ! 0) 1, pci_command = word_half (w ! 1) 0, pci_status = word_half (w ! 1) 1,
      revision = word_byte (w ! 2) 0, prog_if = word_byte (w ! 2) 1, pci_subclass = word_byte (w ! 2) 2, pci_class = word_byte (w ! 2) 3,
      cache_sz = word_byte (w ! 3) 0, latency = word_byte (w ! 3) 1, header_type = word_byte (w ! 3) 2, bist = word_byte (w ! 3) 3,
      header_union = drop 4 w\<rparr>"

definition header00 :: "pci_header \<Rightarrow> pci_header_00" where
  "header00 h =
     (let u = header_union h
      in \<lparr>bar = take 6 u, cis = u ! 6, sub_vendor_id = word_half (u ! 7) 0, sub_id = word_half (u ! 7) 1, expansion_rom = u ! 8,
          cap = word_byte (u ! 9) 0, interrupt_line = word_byte (u ! 11) 0, interrupt_pin = word_byte (u ! 11) 1,
          min_grant = word_byte (u ! 11) 2, max_latency = word_byte (u ! 11) 3\<rparr>)"

definition header01 :: "pci_header \<Rightarrow> pci_header_01" where
  "header01 h =
     (let u = header_union h
      in \<lparr>bar1 = take 2 u, primary_bus = word_byte (u ! 2) 0, secondary_bus = word_byte (u ! 2) 1, subordinate_bus = word_byte (u ! 2) 2,
          secondary_latency = word_byte (u ! 2) 3, io_base = word_byte (u ! 3) 0, io_limit = word_byte (u ! 3) 1,
          secondary_status = word_half (u ! 3) 1, memory_base = word_half (u ! 4) 0, memory_limit = word_half (u ! 4) 1,
          prefetch_base = word_half (u ! 5) 0, prefetch_limit = word_half (u ! 5) 1, prefetch_base_upper = u ! 6,
          prefetch_limit_upper = u ! 7, io_base_upper = word_half (u ! 8) 0, io_limit_upper = word_half (u ! 8) 1,
          cap1 = word_byte (u ! 9) 0, expansion_rom1 = u ! 10, interrupt_line1 = word_byte (u ! 11) 0,
          interrupt_pin1 = word_byte (u ! 11) 1, bridge_control = word_half (u ! 11) 1\<rparr>)"

record pci_device =
  pd_bus :: u8
  pd_device :: u8
  pd_function :: u8
  pd_header :: pci_header

record pci_device_filter =
  f_vendor :: u32
  f_device :: u32
  f_class :: u32
  f_subclass :: u32

text \<open>Null pointers are None; a probe function is its address.\<close>

record pci_driver =
  drv_name :: "string option"
  drv_filter :: "pci_device_filter option"
  drv_probe :: "addr_t option"

subsection \<open>pci.c\<close>

record pci =
  pci_io :: io32
  pci_allocs :: nat
  pci_device_list :: addr_t
  pci_device_links :: list_heap
  pci_device_at :: "addr_t \<Rightarrow> pci_device"
  pci_driver_list :: addr_t
  pci_driver_links :: list_heap
  pci_driver_at :: "addr_t \<Rightarrow> pci_driver"
  probe_calls :: "(addr_t \<times> addr_t) list"
  pci_region :: "valloc_region option"

text \<open>The devices in list order; the address of the first match.\<close>

fun match_device :: "pci_device_filter \<Rightarrow> (addr_t \<Rightarrow> pci_device) \<Rightarrow> addr_t list \<Rightarrow> addr_t option" where
  "match_device f at [] = None"
| "match_device f at (p # ps) =
     (let h = pd_header (at p) in
      if f_vendor f \<noteq> 0 \<and> f_device f \<noteq> 0 \<and> f_class f = 0 \<and> f_subclass f = 0
      then if ucast (vendor_id h) = f_vendor f \<and> ucast (device_id h) = f_device f then Some p else match_device f at ps
      else if f_vendor f = 0 \<and> f_device f = 0 \<and> f_class f \<noteq> 0 \<and> f_subclass f \<noteq> 0
      then if ucast (pci_class h) = f_class f \<and> ucast (pci_subclass h) = f_subclass f then Some p else match_device f at ps
      else if f_vendor f \<noteq> 0 \<and> f_device f \<noteq> 0 \<and> f_class f \<noteq> 0 \<and> f_subclass f \<noteq> 0
      then if ucast (vendor_id h) = f_vendor f \<and> ucast (device_id h) = f_device f \<and> ucast (pci_class h) = f_class f
              \<and> ucast (pci_subclass h) = f_subclass f then Some p else match_device f at ps
      else None)"

definition pci_driver_match_device :: "pci \<Rightarrow> pci_driver \<Rightarrow> addr_t option res option" where
  "pci_driver_match_device s d =
     (case drv_filter d of None \<Rightarrow> Some (Inr None)
      | Some f \<Rightarrow> map_option (\<lambda>r. bind_res r (\<lambda>ps. Inr (match_device f (pci_device_at s) ps)))
          (list_for_each (pci_device_links s) (pci_device_list s)))"

definition pci_driver_register :: "pci \<Rightarrow> addr_t \<Rightarrow> (u32 \<times> pci) res option" where
  "pci_driver_register s driver =
     (let d = pci_driver_at s driver in
      if drv_name d = None \<or> drv_filter d = None \<or> drv_probe d = None then Some (Inr (1, s))
      else case list_add (pci_driver_links s) (pci_driver_list s) driver of Inl e \<Rightarrow> Some (Inl e)
        | Inr h \<Rightarrow> let s = s\<lparr>pci_driver_links := h\<rparr>
            in map_option (\<lambda>r. bind_res r (\<lambda>dev. Inr (0, case dev of None \<Rightarrow> s
                 | Some p \<Rightarrow> s\<lparr>probe_calls := probe_calls s @ [(the (drv_probe d), p)]\<rparr>))) (pci_driver_match_device s d))"

definition config_address :: "u16 \<Rightarrow> u16 \<Rightarrow> u16 \<Rightarrow> u32 \<Rightarrow> u32" where
  "config_address bus dev func reg =
     0x80000000 OR push_bit 16 (ucast bus) OR push_bit 11 (ucast dev) OR push_bit 8 (ucast func) OR (reg AND NOT 3)"

definition pci_read_dword :: "(io32 \<Rightarrow> u16 \<Rightarrow> u32) \<Rightarrow> u16 \<Rightarrow> u16 \<Rightarrow> u16 \<Rightarrow> u32 \<Rightarrow> pci \<Rightarrow> u32 \<times> pci" where
  "pci_read_dword inl bus dev func reg s =
     (let s = s\<lparr>pci_io := outl 0xCF8 (config_address bus dev func reg) (pci_io s)\<rparr>
      in (inl (pci_io s) (0xCFC + ucast (reg AND 3)), s))"

definition pci_write_dword :: "u16 \<Rightarrow> u16 \<Rightarrow> u16 \<Rightarrow> u32 \<Rightarrow> u32 \<Rightarrow> pci \<Rightarrow> pci" where
  "pci_write_dword bus dev func reg data s =
     s\<lparr>pci_io := outl (0xCFC + ucast (reg AND 3)) data (outl 0xCF8 (config_address bus dev func reg) (pci_io s))\<rparr>"

text \<open>The line printed for a device: of several entries with the same number the last one counts.\<close>

definition pci_dump_header :: "(u16 \<times> string \<times> string) list \<Rightarrow> (u16 \<times> u16 \<times> string \<times> string) list \<Rightarrow> pci_header \<Rightarrow> string \<times> parg list" where
  "pci_dump_header PciVenTable PciDevTable h =
     (let vendor = fold (\<lambda>(id, short, full) v. if id = vendor_id h then full else v) PciVenTable ''Unknown'';
          chip = fold (\<lambda>(ven, dev, short, desc) c. if ven = vendor_id h \<and> dev = device_id h then desc else c) PciDevTable ''Unknown device''
      in (''PCI: Found device: 0x%04X:0x%04X (%s %s)'' @ [CHR 0x0A],
          [Num (ucast (vendor_id h)), Num (ucast (device_id h)), Str vendor, Str chip]))"

fun read_words :: "(io32 \<Rightarrow> u16 \<Rightarrow> u32) \<Rightarrow> u16 \<Rightarrow> u16 \<Rightarrow> u16 \<Rightarrow> u32 list \<Rightarrow> pci \<Rightarrow> u32 list \<times> pci" where
  "read_words inl bus dev func [] s = ([], s)"
| "read_words inl bus dev func (i # is) s =
     (let (w, s) = pci_read_dword inl bus dev func i s; (ws, s) = read_words inl bus dev func is s in (w # ws, s))"

definition pci_probe :: "(io32 \<Rightarrow> u16 \<Rightarrow> u32) \<Rightarrow> (nat \<Rightarrow> addr_t) \<Rightarrow> u16 \<Rightarrow> u16 \<Rightarrow> u16 \<Rightarrow> pci \<Rightarrow> (pci_header option \<times> pci) res" where
  "pci_probe inl alloc bus dev func s =
     (let (w, s) = pci_read_dword inl bus dev func 0 s in
      if w = 0xFFFFFFFF then Inr (None, s)
      else if alloc (pci_allocs s) = NULL then Inl NullDeref
      else let (ws, s) = read_words inl bus dev func (map (\<lambda>i. of_nat (4 * i)) [0 ..< 16]) (s\<lparr>pci_allocs := pci_allocs s + 1\<rparr>)
           in Inr (Some (header_of ws), s))"

definition add_device :: "(nat \<Rightarrow> addr_t) \<Rightarrow> u16 \<Rightarrow> u16 \<Rightarrow> u16 \<Rightarrow> pci_header \<Rightarrow> pci \<Rightarrow> pci res" where
  "add_device alloc bus dev func h s =
     (let p = alloc (pci_allocs s) in
      if p = NULL then Inl NullDeref
      else bind_res (list_add (pci_device_links s) (pci_device_list s) p) (\<lambda>lh.
        Inr (s\<lparr>pci_allocs := pci_allocs s + 1, pci_device_links := lh,
               pci_device_at := (pci_device_at s)(p := \<lparr>pd_bus = ucast bus, pd_device = ucast dev, pd_function = ucast func, pd_header = h\<rparr>)\<rparr>)))"

definition detect_function :: "(io32 \<Rightarrow> u16 \<Rightarrow> u32) \<Rightarrow> (nat \<Rightarrow> addr_t) \<Rightarrow> u16 \<Rightarrow> u16 \<Rightarrow> u16 \<Rightarrow> pci \<Rightarrow> (pci_header option \<times> pci) res" where
  "detect_function inl alloc bus dev func s =
     bind_res (pci_probe inl alloc bus dev func s) (\<lambda>(ho, s). case ho of None \<Rightarrow> Inr (None, s)
       | Some h \<Rightarrow> bind_res (add_device alloc bus dev func h s) (\<lambda>s. Inr (Some h, s)))"

fun detect_functions :: "(io32 \<Rightarrow> u16 \<Rightarrow> u32) \<Rightarrow> (nat \<Rightarrow> addr_t) \<Rightarrow> u16 \<Rightarrow> u16 \<Rightarrow> u16 list \<Rightarrow> pci \<Rightarrow> pci res" where
  "detect_functions inl alloc bus dev [] s = Inr s"
| "detect_functions inl alloc bus dev (f # fs) s =
     bind_res (detect_function inl alloc bus dev f s) (\<lambda>(ho, s). detect_functions inl alloc bus dev fs s)"

definition detect_slot :: "(io32 \<Rightarrow> u16 \<Rightarrow> u32) \<Rightarrow> (nat \<Rightarrow> addr_t) \<Rightarrow> u16 \<times> u16 \<Rightarrow> pci \<Rightarrow> pci res" where
  "detect_slot inl alloc bd s =
     bind_res (detect_function inl alloc (fst bd) (snd bd) 0 s) (\<lambda>(ho, s). case ho of None \<Rightarrow> Inr s
       | Some h \<Rightarrow> if header_type h AND 0x80 \<noteq> 0 then detect_functions inl alloc (fst bd) (snd bd) (map of_nat [1 ..< 8]) s else Inr s)"

fun detect_slots :: "(io32 \<Rightarrow> u16 \<Rightarrow> u32) \<Rightarrow> (nat \<Rightarrow> addr_t) \<Rightarrow> (u16 \<times> u16) list \<Rightarrow> pci \<Rightarrow> pci res" where
  "detect_slots inl alloc [] s = Inr s"
| "detect_slots inl alloc (bd # bds) s = bind_res (detect_slot inl alloc bd s) (detect_slots inl alloc bds)"

definition all_slots :: "(u16 \<times> u16) list" where
  "all_slots = concat (map (\<lambda>b. map (\<lambda>d. (of_nat b, of_nat d)) [0 ..< 32]) [0 ..< 256])"

definition pci_detect :: "(io32 \<Rightarrow> u16 \<Rightarrow> u32) \<Rightarrow> (nat \<Rightarrow> addr_t) \<Rightarrow> pci \<Rightarrow> pci res" where
  "pci_detect inl alloc s = detect_slots inl alloc all_slots s"

text \<open>The address returned, the state of the address ranges and the page tables.\<close>

definition pci_map :: "pci \<Rightarrow> vm \<Rightarrow> addr_t \<Rightarrow> size_t \<Rightarrow> (addr_t \<times> pci \<times> vm) res option" where
  "pci_map s v physical sz0 =
     (let sz = ROUND_UP sz0 0x1000 in
      case valloc_alloc (pci_region s) sz of Inl e \<Rightarrow> Some (Inl e)
      | Inr (virtual, r) \<Rightarrow> map_option (\<lambda>x. bind_res x (\<lambda>v. Inr (virtual, s\<lparr>pci_region := r\<rparr>, v)))
          (virtual_map v (Some (kernel_context v)) virtual physical sz (PAGE_PRESENT OR PAGE_WRITABLE)))"

definition pci_init :: "bool \<Rightarrow> (io32 \<Rightarrow> u16 \<Rightarrow> u32) \<Rightarrow> (nat \<Rightarrow> addr_t) \<Rightarrow> pci \<Rightarrow> pci res" where
  "pci_init ok inl alloc s = pci_detect inl alloc (s\<lparr>pci_region := valloc_create ok PCI_START (PCI_END - PCI_START)\<rparr>)"

section \<open>The configuration space\<close>

text \<open>The mechanism of the ports: after an address is written to the first, the second reads the word at it.\<close>

definition config_space :: "(io32 \<Rightarrow> u16 \<Rightarrow> u32) \<Rightarrow> (u32 \<Rightarrow> u32) \<Rightarrow> bool" where
  "config_space inl conf \<longleftrightarrow> (\<forall>a s. inl ((0xCF8, a) # s) 0xCFC = conf a)"

lemma pci_read_dword_conf:
  assumes "config_space inl conf" and "reg AND 3 = 0"
  shows "\<exists>io. pci_read_dword inl bus dev func reg s = (conf (config_address bus dev func reg), s\<lparr>pci_io := io\<rparr>)"
  using assms by (auto simp: pci_read_dword_def config_space_def outl_def Let_def)

lemma read_words_conf:
  assumes "config_space inl conf" and "\<forall>i \<in> set is. i AND 3 = 0"
  shows "\<exists>io. read_words inl bus dev func is s = (map (\<lambda>i. conf (config_address bus dev func i)) is, s\<lparr>pci_io := io\<rparr>)"
  using assms(2)
proof (induction "is" arbitrary: s)
  case Nil
  then show ?case by (auto intro: exI [of _ "pci_io s"])
next
  case (Cons i "is")
  obtain io where io: "pci_read_dword inl bus dev func i s = (conf (config_address bus dev func i), s\<lparr>pci_io := io\<rparr>)"
    using pci_read_dword_conf [OF assms(1)] Cons.prems by fastforce
  obtain io2 where "read_words inl bus dev func is (s\<lparr>pci_io := io\<rparr>) = (map (\<lambda>i. conf (config_address bus dev func i)) is, s\<lparr>pci_io := io\<rparr>\<lparr>pci_io := io2\<rparr>)"
    using Cons by fastforce
  then show ?case using io by auto
qed

lemma aligned_registers: "\<forall>i \<in> set (map (\<lambda>i. of_nat (4 * i)) [0 ..< 16] :: u32 list). i AND 3 = 0"
proof -
  have "(of_nat (4 * i) :: u32) AND 3 = 0" for i
  proof -
    have "(of_nat (4 * i) :: u32) = push_bit 2 (of_nat i)" by (simp add: push_bit_eq_mult)
    moreover have "(3 :: u32) = mask 2" by (simp add: mask_eq_exp_minus_1)
    ultimately show ?thesis by (simp add: bit_eq_iff bit_simps)
  qed
  then show ?thesis by simp
qed

text \<open>What the configuration space holds for a function: its header, or None when nothing answers.\<close>

definition scan :: "(u32 \<Rightarrow> u32) \<Rightarrow> u16 \<Rightarrow> u16 \<Rightarrow> u16 \<Rightarrow> pci_header option" where
  "scan conf bus dev func =
     (if conf (config_address bus dev func 0) = 0xFFFFFFFF then None
      else Some (header_of (map (\<lambda>i. conf (config_address bus dev func (of_nat (4 * i)))) [0 ..< 16])))"

definition device_of :: "u16 \<Rightarrow> u16 \<Rightarrow> u16 \<Rightarrow> pci_header \<Rightarrow> pci_device" where
  "device_of bus dev func h = \<lparr>pd_bus = ucast bus, pd_device = ucast dev, pd_function = ucast func, pd_header = h\<rparr>"

definition function_devices :: "(u32 \<Rightarrow> u32) \<Rightarrow> u16 \<Rightarrow> u16 \<Rightarrow> u16 list \<Rightarrow> pci_device list" where
  "function_devices conf bus dev fs = List.map_filter (\<lambda>f. map_option (device_of bus dev f) (scan conf bus dev f)) fs"

definition slot_devices :: "(u32 \<Rightarrow> u32) \<Rightarrow> u16 \<times> u16 \<Rightarrow> pci_device list" where
  "slot_devices conf bd =
     (case scan conf (fst bd) (snd bd) 0 of None \<Rightarrow> []
      | Some h \<Rightarrow> device_of (fst bd) (snd bd) 0 h
          # (if bit (header_type h) 7 then function_devices conf (fst bd) (snd bd) (map of_nat [1 ..< 8]) else []))"

section \<open>The scan\<close>

text \<open>The scan makes at most two allocations for each of the 65536 functions.\<close>

definition fresh_alloc :: "(nat \<Rightarrow> addr_t) \<Rightarrow> addr_t \<Rightarrow> bool" where
  "fresh_alloc alloc l \<longleftrightarrow> inj_on alloc {..< 2 ^ 17} \<and> (\<forall>n < 2 ^ 17. alloc n \<noteq> NULL \<and> alloc n \<noteq> l)"

text \<open>The list of devices holds the records \<open>D\<close>, newest first, at addresses allocated so far; \<open>k\<close> more functions can be scanned.\<close>

definition holds :: "(nat \<Rightarrow> addr_t) \<Rightarrow> nat \<Rightarrow> pci \<Rightarrow> pci_device list \<Rightarrow> bool" where
  "holds alloc k s D \<longleftrightarrow> fresh_alloc alloc (pci_device_list s) \<and> pci_allocs s + 2 * k \<le> 2 ^ 17 \<and> (\<exists>ps. dll (pci_device_links s) (pci_device_list s) ps
     \<and> set ps \<subseteq> alloc ` {..< pci_allocs s} \<and> map (pci_device_at s) ps = D)"

lemma holds_fewer: "holds alloc k s D \<Longrightarrow> k' \<le> k \<Longrightarrow> holds alloc k' s D"
  by (auto simp: holds_def)

lemma add_device_holds:
  assumes "holds alloc k (s\<lparr>pci_allocs := pci_allocs s + 1\<rparr>) D" and "set qs \<subseteq> alloc ` {..< pci_allocs s}"
    and "dll (pci_device_links s) (pci_device_list s) qs" and "map (pci_device_at s) qs = D"
  shows "\<exists>s'. add_device alloc bus dev func h s = Inr s' \<and> holds alloc k s' (device_of bus dev func h # D)"
proof -
  let ?p = "alloc (pci_allocs s)"
  have fr: "fresh_alloc alloc (pci_device_list s)" and n: "pci_allocs s < 2 ^ 17" "pci_allocs s + 1 + 2 * k \<le> 2 ^ 17"
    using assms(1) by (auto simp: holds_def)
  have new: "?p \<notin> set qs"
  proof
    assume "?p \<in> set qs"
    then obtain m where "m < pci_allocs s" "alloc m = ?p" using assms(2) by fastforce
    then show False using fr n(1) by (auto simp: fresh_alloc_def dest: inj_onD)
  qed
  have p: "?p \<noteq> NULL" "?p \<noteq> pci_device_list s" using fr n(1) by (simp_all add: fresh_alloc_def)
  obtain lh where lh: "list_add (pci_device_links s) (pci_device_list s) ?p = Inr lh" "dll lh (pci_device_list s) (?p # qs)"
    using klist.add_cons [OF assms(3), of ?p] new p by auto
  let ?s = "s\<lparr>pci_allocs := pci_allocs s + 1, pci_device_links := lh, pci_device_at := (pci_device_at s)(?p := device_of bus dev func h)\<rparr>"
  have "add_device alloc bus dev func h s = Inr ?s" using lh(1) p by (simp add: add_device_def device_of_def Let_def)
  moreover have "holds alloc k ?s (device_of bus dev func h # D)"
    unfolding holds_def using fr lh(2) assms(2,4) new n by (auto simp: lessThan_Suc intro!: exI [of _ "?p # qs"])
  ultimately show ?thesis by blast
qed

lemma detect_function_holds:
  assumes c: "config_space inl conf" and h: "holds alloc (Suc k) s D"
  shows "\<exists>s'. detect_function inl alloc bus dev func s = Inr (scan conf bus dev func, s')
    \<and> holds alloc k s' ((case scan conf bus dev func of None \<Rightarrow> [] | Some hx \<Rightarrow> [device_of bus dev func hx]) @ D)"
proof -
  obtain io where io: "pci_read_dword inl bus dev func 0 s = (conf (config_address bus dev func 0), s\<lparr>pci_io := io\<rparr>)"
    using pci_read_dword_conf [OF c, of 0] by fastforce
  have keep: "holds alloc k (s\<lparr>pci_io := x\<rparr>) D" for x using h by (auto simp: holds_def)
  show ?thesis
  proof (cases "conf (config_address bus dev func 0) = 0xFFFFFFFF")
    case True
    then show ?thesis using io keep by (simp add: detect_function_def pci_probe_def scan_def)
  next
    case False
    let ?s1 = "s\<lparr>pci_io := io\<rparr>\<lparr>pci_allocs := pci_allocs (s\<lparr>pci_io := io\<rparr>) + 1\<rparr>"
    obtain io2 where io2: "read_words inl bus dev func (map (\<lambda>i. of_nat (4 * i)) [0 ..< 16]) ?s1
        = (map (\<lambda>i. conf (config_address bus dev func i)) (map (\<lambda>i. of_nat (4 * i)) [0 ..< 16]), ?s1\<lparr>pci_io := io2\<rparr>)"
      using read_words_conf [OF c aligned_registers] by blast
    have "alloc (pci_allocs s) \<noteq> NULL" using h by (simp add: holds_def fresh_alloc_def)
    then have probe: "pci_probe inl alloc bus dev func s = Inr (scan conf bus dev func, ?s1\<lparr>pci_io := io2\<rparr>)"
      using io io2 False by (simp add: pci_probe_def scan_def comp_def)
    obtain qs where qs: "dll (pci_device_links s) (pci_device_list s) qs" "set qs \<subseteq> alloc ` {..< pci_allocs s}" "map (pci_device_at s) qs = D"
      using h by (auto simp: holds_def)
    then have "set qs \<subseteq> alloc ` {..< pci_allocs s + 1}" "set qs \<subseteq> alloc ` {..< pci_allocs s + 1 + 1}" by (auto simp: lessThan_Suc)
    then have "holds alloc k (?s1\<lparr>pci_io := io2\<rparr>\<lparr>pci_allocs := pci_allocs (?s1\<lparr>pci_io := io2\<rparr>) + 1\<rparr>) D"
        "set qs \<subseteq> alloc ` {..< pci_allocs (?s1\<lparr>pci_io := io2\<rparr>)}"
      using h qs(1,3) by (auto simp: holds_def)
    from add_device_holds [OF this, of bus dev func "the (scan conf bus dev func)"] qs(1,3)
    obtain s' where "add_device alloc bus dev func (the (scan conf bus dev func)) (?s1\<lparr>pci_io := io2\<rparr>) = Inr s'"
        "holds alloc k s' (device_of bus dev func (the (scan conf bus dev func)) # D)" by auto
    moreover have "scan conf bus dev func = Some (the (scan conf bus dev func))" using False by (simp add: scan_def)
    ultimately show ?thesis using probe by (auto simp: detect_function_def split: option.splits)
  qed
qed

lemma detect_functions_holds:
  assumes c: "config_space inl conf" and h: "holds alloc (length fs + k) s D"
  shows "\<exists>s'. detect_functions inl alloc bus dev fs s = Inr s' \<and> holds alloc k s' (rev (function_devices conf bus dev fs) @ D)"
  using h
proof (induction fs arbitrary: s D)
  case Nil
  then show ?case by (simp add: function_devices_def)
next
  case (Cons f fs)
  have "holds alloc (Suc (length fs + k)) s D" using Cons.prems by simp
  from detect_function_holds [OF c this, of bus dev f]
  obtain s1 where s1: "detect_function inl alloc bus dev f s = Inr (scan conf bus dev f, s1)"
      "holds alloc (length fs + k) s1 ((case scan conf bus dev f of None \<Rightarrow> [] | Some hx \<Rightarrow> [device_of bus dev f hx]) @ D)" by blast
  show ?case using Cons.IH [OF s1(2)] s1(1) by (cases "scan conf bus dev f") (auto simp: function_devices_def)
qed

lemma detect_slot_holds:
  assumes c: "config_space inl conf" and h: "holds alloc (8 + k) s D"
  shows "\<exists>s'. detect_slot inl alloc bd s = Inr s' \<and> holds alloc k s' (rev (slot_devices conf bd) @ D)"
proof -
  obtain b d where bd: "bd = (b, d)" by fastforce
  have "holds alloc (Suc (7 + k)) s D" using h by simp
  from detect_function_holds [OF c this, of b d 0]
  obtain s1 where s1: "detect_function inl alloc b d 0 s = Inr (scan conf b d 0, s1)"
      "holds alloc (7 + k) s1 ((case scan conf b d 0 of None \<Rightarrow> [] | Some hx \<Rightarrow> [device_of b d 0 hx]) @ D)" by blast
  have multi: "t AND 0x80 \<noteq> 0 \<longleftrightarrow> bit t 7" for t :: u8 using and_exp_eq_0_iff_not_bit [of t 7] by simp
  show ?thesis
  proof (cases "scan conf b d 0")
    case None
    then show ?thesis using s1 holds_fewer by (fastforce simp: detect_slot_def slot_devices_def bd)
  next
    case (Some hx)
    then have "holds alloc (length (map of_nat [1 ..< 8] :: u16 list) + k) s1 (device_of b d 0 hx # D)" using s1(2) by simp
    from detect_functions_holds [OF c this, of b d] holds_fewer [OF s1(2), of k] show ?thesis using s1(1) Some
      by (simp add: detect_slot_def slot_devices_def bd multi del: upt_Suc upt_conv_Cons upt_rec_numeral)
  qed
qed

lemma detect_slots_holds:
  assumes c: "config_space inl conf" and h: "holds alloc (8 * length bds) s D"
  shows "\<exists>s'. detect_slots inl alloc bds s = Inr s' \<and> holds alloc 0 s' (rev (concat (map (slot_devices conf) bds)) @ D)"
  using h
proof (induction bds arbitrary: s D)
  case (Cons bd bds)
  have "holds alloc (8 + 8 * length bds) s D" using Cons.prems by simp
  from detect_slot_holds [OF c this, of bd]
  obtain s1 where "detect_slot inl alloc bd s = Inr s1" "holds alloc (8 * length bds) s1 (rev (slot_devices conf bd) @ D)" by blast
  then show ?case using Cons.IH [of s1] by fastforce
qed simp

lemma all_slots_length: "length all_slots = 8192"
  by (simp add: all_slots_def length_concat comp_def sum_list_triv)

section \<open>Matching\<close>

text \<open>A filter names a vendor and a device, a class and a subclass, or all four; zero stands for any.\<close>

definition filter_ok :: "pci_device_filter \<Rightarrow> bool" where
  "filter_ok f \<longleftrightarrow> (f_vendor f = 0 \<longleftrightarrow> f_device f = 0) \<and> (f_class f = 0 \<longleftrightarrow> f_subclass f = 0) \<and> (f_vendor f \<noteq> 0 \<or> f_class f \<noteq> 0)"

definition wanted :: "pci_device_filter \<Rightarrow> pci_header \<Rightarrow> bool" where
  "wanted f h \<longleftrightarrow> (f_vendor f \<noteq> 0 \<longrightarrow> f_vendor f = ucast (vendor_id h)) \<and> (f_device f \<noteq> 0 \<longrightarrow> f_device f = ucast (device_id h))
     \<and> (f_class f \<noteq> 0 \<longrightarrow> f_class f = ucast (pci_class h)) \<and> (f_subclass f \<noteq> 0 \<longrightarrow> f_subclass f = ucast (pci_subclass h))"

lemma match_device_find:
  "match_device f at ps = (if filter_ok f then find (\<lambda>p. wanted f (pd_header (at p))) ps else None)"
proof (induction ps)
  case (Cons p ps)
  then show ?case by (auto simp: filter_ok_def wanted_def Let_def)
qed simp

section \<open>Properties\<close>

text \<open>C12: the scan finds every device. For any configuration space, \<open>pci_init\<close> ends with a list of devices that are exactly
  the functions that answer, with their bus, device and function numbers and the sixteen words of their
  header: function zero of each of the 8192 slots, and the functions one to seven of those whose header
  type says they have several. The newest is first.\<close>

theorem pci_init_finds_devices:
  assumes "config_space inl conf" and "dll (pci_device_links s) (pci_device_list s) []" and "fresh_alloc alloc (pci_device_list s)" and "pci_allocs s = 0"
  shows "\<exists>s' ps. pci_init ok inl alloc s = Inr s' \<and> list_for_each (pci_device_links s') (pci_device_list s') = Some (Inr ps)
    \<and> map (pci_device_at s') ps = rev (concat (map (slot_devices conf) all_slots))"
proof -
  let ?s = "s\<lparr>pci_region := valloc_create ok PCI_START (PCI_END - PCI_START)\<rparr>"
  have "holds alloc (8 * length all_slots) ?s []" using assms(2-4) by (auto simp: holds_def all_slots_length)
  then obtain s' where s': "pci_init ok inl alloc s = Inr s'" "holds alloc 0 s' (rev (concat (map (slot_devices conf) all_slots)))"
    using detect_slots_holds [OF assms(1)] by (fastforce simp: pci_init_def pci_detect_def)
  then obtain ps where "dll (pci_device_links s') (pci_device_list s') ps" "map (pci_device_at s') ps = rev (concat (map (slot_devices conf) all_slots))"
    by (auto simp: holds_def)
  then show ?thesis using s'(1) klist.visit_all by blast
qed

text \<open>A machine with one storage controller in slot one.\<close>

definition demo_conf :: "u32 \<Rightarrow> u32" where
  "demo_conf a = (if a = 0x80000800 then 0x29228086 else if a = 0x80000808 then 0x01060102 else if a = 0x8000080C then 0 else 0xFFFFFFFF)"

definition demo_inl :: "io32 \<Rightarrow> u16 \<Rightarrow> u32" where
  "demo_inl s port = (case s of (p, a) # _ \<Rightarrow> demo_conf a | [] \<Rightarrow> 0)"

definition demo_pci :: pci where
  "demo_pci = \<lparr>pci_io = [], pci_allocs = 0, pci_device_list = 8, pci_device_links = \<lparr>lnext = (\<lambda>_. 8), lprev = (\<lambda>_. 8)\<rparr>,
     pci_device_at = (\<lambda>_. device_of 0 1 0 (header_of (map (\<lambda>i. demo_conf (config_address 0 1 0 (of_nat (4 * i)))) [0 ..< 16]))),
     pci_driver_list = 16, pci_driver_links = \<lparr>lnext = (\<lambda>_. 16), lprev = (\<lambda>_. 16)\<rparr>,
     pci_driver_at = (\<lambda>_. \<lparr>drv_name = Some ''ahci'', drv_filter = Some \<lparr>f_vendor = 0, f_device = 0, f_class = 1, f_subclass = 6\<rparr>, drv_probe = Some 64\<rparr>),
     probe_calls = [], pci_region = None\<rparr>"

definition demo_alloc :: "nat \<Rightarrow> addr_t" where
  "demo_alloc n = 32 + of_nat (n mod 2 ^ 60)"

theorem pci_init_finds_devices_witness:
  "\<exists>s' ps. pci_init True demo_inl demo_alloc demo_pci = Inr s' \<and> list_for_each (pci_device_links s') (pci_device_list s') = Some (Inr ps)
    \<and> (\<exists>p \<in> set ps. pd_device (pci_device_at s' p) = 1)"
proof -
  have "config_space demo_inl demo_conf" by (simp add: config_space_def demo_inl_def)
  moreover have "dll (pci_device_links demo_pci) (pci_device_list demo_pci) []" by (simp add: demo_pci_def dll_def)
  moreover have "fresh_alloc demo_alloc (pci_device_list demo_pci)"
    by (auto simp: fresh_alloc_def demo_alloc_def demo_pci_def inj_on_def word_unat_eq_iff unat_of_nat unat_word_ariths)
  ultimately obtain s' ps where s': "pci_init True demo_inl demo_alloc demo_pci = Inr s'"
      "list_for_each (pci_device_links s') (pci_device_list s') = Some (Inr ps)"
      "map (pci_device_at s') ps = rev (concat (map (slot_devices demo_conf) all_slots))"
    using pci_init_finds_devices [of demo_inl demo_conf demo_pci demo_alloc True] by (auto simp: demo_pci_def)
  have "scan demo_conf 0 1 0 \<noteq> None" by (simp add: scan_def demo_conf_def config_address_def)
  then obtain h where "scan demo_conf 0 1 0 = Some h" by blast
  then have "device_of 0 1 0 h \<in> set (slot_devices demo_conf (0, 1))" by (simp add: slot_devices_def)
  moreover have "(0, 1) \<in> set all_slots" by (auto simp: all_slots_def intro!: bexI [of _ 0] image_eqI [of _ _ 1])
  ultimately have "device_of 0 1 0 h \<in> set (map (pci_device_at s') ps)" unfolding s'(3) by auto
  then show ?thesis using s'(1,2) by (auto simp: device_of_def) (metis pci_device.select_convs(2))
qed

text \<open>C30: a driver gets the newest device it asks for. Registering a complete driver adds it to the list and calls its
  probe function once, with the first device of the list whose numbers agree with every field of
  the filter that is set, or not at all when there is none or the filter sets only half of a pair.\<close>

theorem pci_driver_register_matches:
  assumes "dll (pci_device_links s) (pci_device_list s) ps" and "dll (pci_driver_links s) (pci_driver_list s) ds"
    and "p \<notin> insert NULL (insert (pci_driver_list s) (set ds))"
    and "drv_name (pci_driver_at s p) \<noteq> None" and "drv_filter (pci_driver_at s p) = Some f" and "drv_probe (pci_driver_at s p) = Some fn"
  shows "\<exists>s'. pci_driver_register s p = Some (Inr (0, s')) \<and> dll (pci_driver_links s') (pci_driver_list s') (p # ds)
    \<and> probe_calls s' = probe_calls s @ (case find (\<lambda>q. filter_ok f \<and> wanted f (pd_header (pci_device_at s q))) ps of None \<Rightarrow> [] | Some q \<Rightarrow> [(fn, q)])"
proof -
  obtain h where h: "list_add (pci_driver_links s) (pci_driver_list s) p = Inr h" "dll h (pci_driver_list s) (p # ds)"
    using klist.add_cons [OF assms(2,3)] by blast
  have each: "list_for_each (pci_device_links s) (pci_device_list s) = Some (Inr ps)" using assms(1) by (rule klist.visit_all)
  have "match_device f (pci_device_at s) ps = find (\<lambda>q. filter_ok f \<and> wanted f (pd_header (pci_device_at s q))) ps"
    unfolding match_device_find by (cases "filter_ok f") (auto simp: find_None_iff eq_commute [of None])
  then show ?thesis using assms(4-6) h each
    by (auto simp: pci_driver_register_def pci_driver_match_device_def Let_def split: option.splits)
qed

theorem pci_driver_register_matches_witness:
  "\<exists>s'. pci_driver_register (demo_pci\<lparr>pci_device_links := \<lparr>lnext = (\<lambda>p. if p = 8 then 40 else 8), lprev = (\<lambda>p. if p = 8 then 40 else 8)\<rparr>\<rparr>) 24 = Some (Inr (0, s'))
    \<and> probe_calls s' = [(64, 40)]"
proof -
  let ?s = "demo_pci\<lparr>pci_device_links := \<lparr>lnext = (\<lambda>p. if p = 8 then 40 else 8), lprev = (\<lambda>p. if p = 8 then 40 else 8)\<rparr>\<rparr>"
  let ?f = "\<lparr>f_vendor = 0, f_device = 0, f_class = 1, f_subclass = 6\<rparr>"
  have "dll (pci_device_links ?s) (pci_device_list ?s) [40]" "dll (pci_driver_links ?s) (pci_driver_list ?s) []"
    by (simp_all add: demo_pci_def dll_def)
  moreover have "demo_conf (config_address 0 1 0 8) = 0x01060102" by (simp add: demo_conf_def config_address_def)
  then have "wanted ?f (pd_header (pci_device_at ?s 40))"
    by (simp add: demo_pci_def wanted_def device_of_def header_of_def word_byte_def upt_rec)
  ultimately show ?thesis using pci_driver_register_matches [of ?s "[40]" "[]" 24 ?f 64]
    by (auto simp: demo_pci_def filter_ok_def)
qed

end
