(* ===== verification/Ahci.thy ===== *)
theory Ahci
  imports Pci Vfs
begin

text \<open>
  \<open>drivers/ata/ahci/ahci.c\<close> and \<open>ahci.h\<close>: the driver of the disk controller. The registers of the controller are
  reached by reads and writes that the model records, the latest first; what a read delivers is the parameter \<open>hw\<close>, a
  function of that record. The tables a device reads by DMA (command headers, command tables) are typed stores of the
  driver's structure; what the device leaves in a DMA buffer is a parameter.
\<close>

section \<open>Definitions\<close>

subsection \<open>ahci.h: constants\<close>

definition FIS_TYPE_REG_H2D :: u8 where "FIS_TYPE_REG_H2D = 0x27"
definition ATA_STATUS_BSY :: u32 where "ATA_STATUS_BSY = push_bit 7 1"
definition ATA_CMD_READ_DMA_EXT :: u8 where "ATA_CMD_READ_DMA_EXT = 0x25"
definition ATA_CMD_IDENTIFY :: u8 where "ATA_CMD_IDENTIFY = 0xEC"
definition PXIE_DHRE :: u32 where "PXIE_DHRE = push_bit 0 1"
definition PXIE_PSE :: u32 where "PXIE_PSE = push_bit 1 1"
definition PXIE_DSE :: u32 where "PXIE_DSE = push_bit 2 1"
definition PXIE_SDBE :: u32 where "PXIE_SDBE = push_bit 3 1"
definition PXIE_DPE :: u32 where "PXIE_DPE = push_bit 5 1"
definition PXCMD_ST :: u32 where "PXCMD_ST = push_bit 0 1"
definition PXCMD_FRE :: u32 where "PXCMD_FRE = push_bit 4 1"
definition PXCMD_FR :: u32 where "PXCMD_FR = push_bit 14 1"
definition PXCMD_CR :: u32 where "PXCMD_CR = push_bit 15 1"
definition AHCI_TYPE_NULL :: u32 where "AHCI_TYPE_NULL = 0"
definition AHCI_TYPE_SATA :: u32 where "AHCI_TYPE_SATA = 0x00000101"
definition GHC_AE :: u32 where "GHC_AE = push_bit 31 1"
definition GHC_IE :: u32 where "GHC_IE = push_bit 1 1"
definition AHCI_PRDT_MAX_MEMORY :: size_t where "AHCI_PRDT_MAX_MEMORY = 0x1000"
definition AHCI_BLOCK_SIZE :: size_t where "AHCI_BLOCK_SIZE = 512"
definition ATA_SERIAL_NUMBER :: nat where "ATA_SERIAL_NUMBER = 10"
definition ATA_MODEL_NUMBER :: nat where "ATA_MODEL_NUMBER = 27"
definition ATA_LBA28_CAPACITY :: nat where "ATA_LBA28_CAPACITY = 60"
definition ATA_LBA48_CAPACITY :: nat where "ATA_LBA48_CAPACITY = 100"

subsection \<open>ahci.h: registers and structures\<close>

datatype hba_port = CommandListBaseLow | CommandListBaseHigh | FisBaseLow | FisBaseHigh | PortInterruptStatus | InterruptEnable | Command
  | Reserved0 | TaskFileData | Signature | SataStatus | SataControl | SataError | SataActive | CommandIssue | SataNotification | FisBasedSwitchControl

datatype hba_memory = Capability | GlobalHostControl | InterruptStatus | PortImplemented | Version | CccControl | CccPorts | EmLocation
  | EmControl | ExtCapabilities | Bohc | Ports nat hba_port

text \<open>The offsets of the registers in the structures.\<close>

fun port_offset :: "hba_port \<Rightarrow> nat" where
  "port_offset CommandListBaseLow = 0" | "port_offset CommandListBaseHigh = 4" | "port_offset FisBaseLow = 8" | "port_offset FisBaseHigh = 12"
| "port_offset PortInterruptStatus = 16" | "port_offset InterruptEnable = 20" | "port_offset Command = 24" | "port_offset Reserved0 = 28"
| "port_offset TaskFileData = 32" | "port_offset Signature = 36" | "port_offset SataStatus = 40" | "port_offset SataControl = 44"
| "port_offset SataError = 48" | "port_offset SataActive = 52" | "port_offset CommandIssue = 56" | "port_offset SataNotification = 60"
| "port_offset FisBasedSwitchControl = 64"

fun reg_offset :: "hba_memory \<Rightarrow> nat" where
  "reg_offset Capability = 0" | "reg_offset GlobalHostControl = 4" | "reg_offset InterruptStatus = 8" | "reg_offset PortImplemented = 12"
| "reg_offset Version = 16" | "reg_offset CccControl = 20" | "reg_offset CccPorts = 24" | "reg_offset EmLocation = 28" | "reg_offset EmControl = 32"
| "reg_offset ExtCapabilities = 36" | "reg_offset Bohc = 40" | "reg_offset (Ports i r) = 0x100 + 0x80 * i + port_offset r"

record fis_reg_host_to_device =
  fis_type :: u8
  fis_pmport :: "4 word"
  fis_c :: bool
  fis_command :: u8
  feature_low :: u8
  lba0 :: u8
  lba1 :: u8
  lba2 :: u8
  fis_device :: u8
  lba3 :: u8
  lba4 :: u8
  lba5 :: u8
  feature_high :: u8
  count_low :: u8
  count_high :: u8
  fis_icc :: u8
  fis_control :: u8

definition zero_fis :: fis_reg_host_to_device where
  "zero_fis = \<lparr>fis_type = 0, fis_pmport = 0, fis_c = False, fis_command = 0, feature_low = 0, lba0 = 0, lba1 = 0, lba2 = 0, fis_device = 0,
     lba3 = 0, lba4 = 0, lba5 = 0, feature_high = 0, count_low = 0, count_high = 0, fis_icc = 0, fis_control = 0\<rparr>"

record hba_command_header =
  fis_length :: "5 word"
  hdr_atapi :: bool
  hdr_write :: bool
  prefetchable :: bool
  hdr_reset :: bool
  hdr_bist :: bool
  clear_busy_upon_r_ok :: bool
  hdr_pmport :: "4 word"
  prdt_len :: u16
  prdb_count :: u32
  command_table_base_low :: u32
  command_table_base_high :: u32

record hba_prdt_entry =
  data_base_low :: u32
  data_base_high :: u32
  byte_count :: "22 word"
  interrupt_on_complete :: bool

record hba_command_table =
  command_fis :: fis_reg_host_to_device
  prdt_entries :: "nat \<Rightarrow> hba_prdt_entry"

text \<open>A command table has one page: 128 bytes and as many entries of 16 bytes as fit behind them.\<close>

definition prdt_room :: nat where "prdt_room = (4096 - 128) div 16"

record ahci_device =
  port_no :: nat
  fis_base :: addr_t
  command_base :: addr_t
  command_table_base :: "addr_t list"
  identify :: "u16 list"
  dev_headers :: "nat \<Rightarrow> hba_command_header"
  dev_tables :: "nat \<Rightarrow> hba_command_table"

definition ahci_get_lba28_capacity :: "u16 list \<Rightarrow> u32" where
  "ahci_get_lba28_capacity idn = push_bit 16 (ucast (idn ! (ATA_LBA28_CAPACITY + 1))) OR ucast (idn ! ATA_LBA28_CAPACITY)"

definition ahci_get_lba48_capacity :: "u16 list \<Rightarrow> u64" where
  "ahci_get_lba48_capacity idn =
     push_bit 16 (push_bit 16 (push_bit 16 (ucast (idn ! (ATA_LBA48_CAPACITY + 3))) OR ucast (idn ! (ATA_LBA48_CAPACITY + 2)))
       OR ucast (idn ! (ATA_LBA48_CAPACITY + 1))) OR ucast (idn ! ATA_LBA48_CAPACITY)"

subsection \<open>Access to the controller\<close>

datatype hba_event = Rd hba_memory | Wr hba_memory u32

type_synonym hba = "hba_event list"
type_synonym hw = "hba_memory \<Rightarrow> hba \<Rightarrow> u32"

definition reg_read :: "hw \<Rightarrow> hba_memory \<Rightarrow> hba \<Rightarrow> u32 \<times> hba" where
  "reg_read hw r s = (hw r s, Rd r # s)"

definition reg_write :: "hba_memory \<Rightarrow> u32 \<Rightarrow> hba \<Rightarrow> hba" where
  "reg_write r v s = Wr r v # s"

definition reg_update :: "hw \<Rightarrow> hba_memory \<Rightarrow> (u32 \<Rightarrow> u32) \<Rightarrow> hba \<Rightarrow> hba" where
  "reg_update hw r f s = (let (v, s) = reg_read hw r s in reg_write r (f v) s)"

text \<open>A polling loop ends with the first read that satisfies the condition; None when none does.\<close>

partial_function (option) poll :: "hw \<Rightarrow> hba_memory \<Rightarrow> (u32 \<Rightarrow> bool) \<Rightarrow> hba \<Rightarrow> hba option" where
  "poll hw r ready s = (let (v, s') = reg_read hw r s in if ready v then Some s' else poll hw r ready s')"

subsection \<open>ahci.c\<close>

fun swap_pairs :: "string \<Rightarrow> string" where
  "swap_pairs (a # b # cs) = b # a # swap_pairs cs"
| "swap_pairs cs = cs"

definition ahci_string_copy :: "string \<Rightarrow> size_t \<Rightarrow> string res" where
  "ahci_string_copy source len =
     (let n = unat len; m = n + n mod 2
      in if length source < m then Inl OutOfBounds else Inr (take n (swap_pairs (take m source)) @ [CHR 0x00]))"

definition ahci_start_command :: "hw \<Rightarrow> nat \<Rightarrow> hba \<Rightarrow> hba option" where
  "ahci_start_command hw port s =
     map_option (\<lambda>s. reg_update hw (Ports port Command) (\<lambda>v. v OR PXCMD_ST) (reg_update hw (Ports port Command) (\<lambda>v. v OR PXCMD_FRE) s))
       (poll hw (Ports port Command) (\<lambda>v. v AND PXCMD_CR = 0) s)"

text \<open>The condition of the second loop reads the register once or twice.\<close>

partial_function (option) stop_wait :: "hw \<Rightarrow> nat \<Rightarrow> hba \<Rightarrow> hba option" where
  "stop_wait hw port s =
     (let (v, s) = reg_read hw (Ports port Command) s in
      if v AND PXCMD_CR \<noteq> 0 then stop_wait hw port s
      else let (v, s) = reg_read hw (Ports port Command) s in if v AND PXCMD_FR \<noteq> 0 then stop_wait hw port s else Some s)"

definition ahci_stop_command :: "hw \<Rightarrow> nat \<Rightarrow> hba \<Rightarrow> hba option" where
  "ahci_stop_command hw port s =
     stop_wait hw port (reg_update hw (Ports port Command) (\<lambda>v. v AND NOT PXCMD_FRE) (reg_update hw (Ports port Command) (\<lambda>v. v AND NOT PXCMD_ST) s))"

text \<open>The loop over the slots from \<open>i\<close> on, for the bits left.\<close>

fun slot_loop :: "nat \<Rightarrow> nat \<Rightarrow> u32 \<Rightarrow> nat option" where
  "slot_loop 0 i slots = None"
| "slot_loop (Suc n) i slots = (if slots AND 1 = 0 then Some i else slot_loop n (i + 1) (drop_bit 1 slots))"

definition ahci_get_command_slot :: "hw \<Rightarrow> nat \<Rightarrow> hba \<Rightarrow> nat option \<times> hba" where
  "ahci_get_command_slot hw port s =
     (let (a, s) = reg_read hw (Ports port SataActive) s; (c, s) = reg_read hw (Ports port CommandIssue) s
      in (slot_loop 32 0 (a OR c), s))"

text \<open>The loop that describes the buffer: \<open>n\<close> turns are left of the 65536.\<close>

fun prdt_loop :: "nat \<Rightarrow> nat \<Rightarrow> size_t \<Rightarrow> addr_t \<Rightarrow> (nat \<Rightarrow> hba_prdt_entry) \<Rightarrow> (nat \<Rightarrow> hba_prdt_entry) res" where
  "prdt_loop 0 index to_write buffer es = Inr es"
| "prdt_loop (Suc n) index to_write buffer es =
     (if to_write = 0 then Inr es
      else if index \<ge> prdt_room then Inl OutOfBounds
      else let e = \<lparr>data_base_low = ucast (LOWER_32 buffer), data_base_high = ucast (UPPER_32 buffer),
                    byte_count = ucast (if to_write \<le> AHCI_PRDT_MAX_MEMORY then to_write - 1 else AHCI_PRDT_MAX_MEMORY - 1),
                    interrupt_on_complete = interrupt_on_complete (es index)\<rparr>
           in prdt_loop n (index + 1) (to_write - (ucast (byte_count e) + 1)) (buffer + (ucast (byte_count e) + 1)) (es(index := e)))"

definition command_fis_for :: "u16 list \<Rightarrow> u8 \<Rightarrow> size_t \<Rightarrow> u64 \<Rightarrow> fis_reg_host_to_device" where
  "command_fis_for idn command sz lba =
     (let num_blocks = (sz + AHCI_BLOCK_SIZE - 1) div AHCI_BLOCK_SIZE;
          fis = zero_fis\<lparr>fis_type := FIS_TYPE_REG_H2D, fis_command := command, fis_c := True\<rparr>
      in if ahci_get_lba48_capacity idn > 0
         then fis\<lparr>count_low := ucast (num_blocks AND 0xFF), count_high := ucast (drop_bit 8 num_blocks AND 0xFF),
                  lba0 := ucast (lba AND 0xFF), lba1 := ucast (drop_bit 8 lba AND 0xFF), lba2 := ucast (drop_bit 16 lba AND 0xFF),
                  lba3 := ucast (drop_bit 24 lba AND 0xFF), lba4 := ucast (drop_bit 32 lba AND 0xFF), lba5 := ucast (drop_bit 40 lba AND 0xFF),
                  fis_device := push_bit 6 1\<rparr>
         else fis\<lparr>count_low := ucast (num_blocks AND 0xFF),
                  lba0 := ucast (lba AND 0xFF), lba1 := ucast (drop_bit 8 lba AND 0xFF), lba2 := ucast (drop_bit 16 lba AND 0xFF),
                  fis_device := ucast (push_bit 6 1 OR (drop_bit 24 lba AND 0xF))\<rparr>)"

definition ahci_send_command :: "hw \<Rightarrow> ahci_device \<Rightarrow> u8 \<Rightarrow> size_t \<Rightarrow> bool \<Rightarrow> u64 \<Rightarrow> addr_t \<Rightarrow> hba \<Rightarrow> (ahci_device \<times> hba) res" where
  "ahci_send_command hw device command sz wr lba buffer s =
     (let (slot, s) = ahci_get_command_slot hw (port_no device) s in
      case slot of None \<Rightarrow> Inr (device, s)
      | Some i \<Rightarrow>
          let h = (dev_headers device i)\<lparr>fis_length := 5, hdr_write := wr, prdt_len := ucast ((sz - 1) div AHCI_PRDT_MAX_MEMORY + 1)\<rparr>
          in bind_res (prdt_loop 65536 0 sz buffer (prdt_entries (dev_tables device i))) (\<lambda>es.
               Inr (device\<lparr>dev_headers := (dev_headers device)(i := h),
                           dev_tables := (dev_tables device)(i := \<lparr>command_fis = command_fis_for (identify device) command sz lba, prdt_entries = es\<rparr>)\<rparr>,
                    reg_write (Ports (port_no device) CommandIssue) (push_bit i 1) s)))"

text \<open>The driver's state: the controller, the flag its interrupt sets, the devices by port, and the parts of the kernel it calls. \<open>blocks\<close> gives
  the port behind a block device structure.\<close>

record ahci =
  ah_hba :: hba
  got_interrupt :: bool
  ahci_last_letter :: char
  ah_ports :: "nat \<Rightarrow> ahci_device option"
  ah_dma :: dma
  ah_fs :: fs
  ah_pci :: pci
  ah_intr :: intr
  blocks :: "addr_t \<Rightarrow> nat option"

fun interrupt_loop :: "hw \<Rightarrow> nat list \<Rightarrow> hba \<Rightarrow> hba" where
  "interrupt_loop hw [] s = s"
| "interrupt_loop hw (i # is) s =
     (let (v, s) = reg_read hw InterruptStatus s
      in interrupt_loop hw is (if v AND push_bit i 1 \<noteq> 0
           then reg_write InterruptStatus (push_bit i 1) (reg_write (Ports i PortInterruptStatus) (NOT 0) s) else s))"

definition ahci_interrupt :: "hw \<Rightarrow> ahci \<Rightarrow> ahci" where
  "ahci_interrupt hw s = s\<lparr>ah_hba := interrupt_loop hw [0 ..< 32] (ah_hba s), got_interrupt := True\<rparr>"

text \<open>Waiting for the interrupt: \<open>arrives k\<close> tells whether it comes in the \<open>k\<close>th turn.\<close>

partial_function (option) wait_interrupt :: "hw \<Rightarrow> (nat \<Rightarrow> bool) \<Rightarrow> nat \<Rightarrow> ahci \<Rightarrow> ahci option" where
  "wait_interrupt hw arrives k s =
     (if got_interrupt s then Some s else wait_interrupt hw arrives (k + 1) (if arrives k then ahci_interrupt hw s else s))"

definition ahci_await_completion :: "hw \<Rightarrow> (nat \<Rightarrow> bool) \<Rightarrow> nat \<Rightarrow> ahci \<Rightarrow> ahci option" where
  "ahci_await_completion hw arrives port s =
     Option.bind (wait_interrupt hw arrives 0 s) (\<lambda>s.
       map_option (\<lambda>h. s\<lparr>ah_hba := h, got_interrupt := False\<rparr>) (poll hw (Ports port TaskFileData) (\<lambda>v. v AND ATA_STATUS_BSY = 0) (ah_hba s)))"

text \<open>The quotient of a signed offset rounds towards zero.\<close>

definition block_index_of :: "off_t \<Rightarrow> u64" where
  "block_index_of offset = (if 0 \<le> sint offset then word_of_int (sint offset div 512) else word_of_int (- (- sint offset div 512)))"

text \<open>The loop of a read; \<open>bytes\<close> is what the device leaves in memory. The result is the count returned, the buffer and the state. The
  loop subtracts the size from itself first and adds the new size, zero, to the count.\<close>

function (sequential) read_loop ::
  "hw \<Rightarrow> (nat \<Rightarrow> bool) \<Rightarrow> (addr_t \<Rightarrow> u8) \<Rightarrow> dma_block \<Rightarrow> nat \<Rightarrow> size_t \<Rightarrow> off_t \<Rightarrow> size_t \<Rightarrow> u8 list \<Rightarrow> ahci \<Rightarrow> (size_t \<times> u8 list \<times> ahci) res option" where
  "read_loop hw arrives bytes region i sz offset rd buffer s =
     (if sz = 0 then Some (Inr (rd, buffer, s))
      else case ah_ports s i of None \<Rightarrow> Some (Inl NullDeref)
      | Some device \<Rightarrow>
        bind_ro (Some (ahci_send_command hw device ATA_CMD_READ_DMA_EXT sz False (block_index_of offset) (dma_physical_base region) (ah_hba s))) (\<lambda>(device, h).
        Option.bind (ahci_await_completion hw arrives (port_no device) (s\<lparr>ah_hba := h, ah_ports := (ah_ports s)(i := Some device)\<rparr>)) (\<lambda>s.
          read_loop hw arrives bytes region i (sz - sz) offset (rd + (sz - sz))
            (map (\<lambda>k. bytes (dma_virtual_base region + of_nat k)) [0 ..< unat sz]) s)))"
  by pat_completeness auto
termination
  by (relation "measure (\<lambda>(hw, arrives, bytes, region, i, sz, _). unat sz)") (auto simp: unat_eq_0 intro: gr0I)

definition ahci_read :: "hw \<Rightarrow> (nat \<Rightarrow> bool) \<Rightarrow> (addr_t \<Rightarrow> u8) \<Rightarrow> bool \<Rightarrow> ahci \<Rightarrow> nat \<Rightarrow> u8 list \<Rightarrow> size_t \<Rightarrow> off_t \<Rightarrow> (size_t \<times> u8 list \<times> ahci) res option" where
  "ahci_read hw arrives bytes ok s i buffer sz offset =
     bind_ro (dma_alloc ok (ah_dma s) sz) (\<lambda>(region, d). read_loop hw arrives bytes region i sz offset 0 buffer (s\<lparr>ah_dma := d\<rparr>))"

fun alloc_tables :: "bool \<Rightarrow> nat list \<Rightarrow> dma \<Rightarrow> ahci_device \<Rightarrow> (ahci_device \<times> dma) res option" where
  "alloc_tables ok [] d device = Some (Inr (device, d))"
| "alloc_tables ok (i # is) d device =
     bind_ro (dma_alloc ok d 0x1000) (\<lambda>(r, d).
       let h = (dev_headers device i)\<lparr>command_table_base_low := ucast (dma_physical_base r AND 0xFFFFFFFF),
                 command_table_base_high := ucast (drop_bit 32 (dma_physical_base r) AND 0xFFFFFFFF)\<rparr>
       in alloc_tables ok is d (device\<lparr>dev_headers := (dev_headers device)(i := h),
            command_table_base := (command_table_base device)[i := dma_virtual_base r]\<rparr>))"

definition ahci_initialize_port :: "hw \<Rightarrow> bool \<Rightarrow> ahci_device \<Rightarrow> ahci \<Rightarrow> (ahci_device \<times> ahci) res option" where
  "ahci_initialize_port hw ok device s =
     (let p = port_no device in
      Option.bind (ahci_stop_command hw p (ah_hba s)) (\<lambda>h.
      bind_ro (dma_alloc ok (ah_dma s) 0x2000) (\<lambda>(cl, d).
      bind_ro (dma_alloc ok d 0x1000) (\<lambda>(fb, d).
      bind_ro (alloc_tables ok [0 ..< 32] d device) (\<lambda>(device, d).
        let h = reg_write (Ports p CommandListBaseLow) (ucast (dma_physical_base cl AND 0xFFFFFFFF)) h;
            h = reg_write (Ports p CommandListBaseHigh) (ucast (drop_bit 32 (dma_physical_base cl) AND 0xFFFFFFFF)) h;
            h = reg_write (Ports p FisBaseLow) (ucast (dma_physical_base fb AND 0xFFFFFFFF)) h;
            h = reg_write (Ports p FisBaseHigh) (ucast (drop_bit 32 (dma_physical_base fb) AND 0xFFFFFFFF)) h;
            device = device\<lparr>fis_base := dma_virtual_base fb, command_base := dma_virtual_base cl\<rparr>
        in map_option (\<lambda>h. Inr (device, s\<lparr>ah_dma := d,
             ah_hba := reg_write (Ports p InterruptEnable) (PXIE_DHRE OR PXIE_PSE OR PXIE_DSE OR PXIE_SDBE OR PXIE_DPE) h\<rparr>))
             (ahci_start_command hw p h))))))"

definition ahci_check_type :: "hw \<Rightarrow> nat \<Rightarrow> hba \<Rightarrow> u32 \<times> hba" where
  "ahci_check_type hw port s =
     (let (ssts, s) = reg_read hw (Ports port SataStatus) s;
          ipm = drop_bit 8 ssts AND 0x0F; det = ssts AND 0x0F
      in if ipm \<noteq> 1 \<or> det \<noteq> 3 then (AHCI_TYPE_NULL, s) else reg_read hw (Ports port Signature) s)"

definition S_IFBLK :: mode_t where "S_IFBLK = 0x6000"

definition ahci_create_fs_node :: "nat \<Rightarrow> ahci \<Rightarrow> ahci res" where
  "ahci_create_fs_node i s =
     bind_res (mknod (ah_fs s) (''/dev/sd'' @ [ahci_last_letter s]) S_IFBLK) (\<lambda>(node, fs).
     if node = NULL then Inr (s\<lparr>ah_fs := fs\<rparr>)
     else let (blk, fs) = fs_kmalloc fs
          in if blk = NULL then Inr (s\<lparr>ah_fs := fs\<rparr>)
             else let s = s\<lparr>blocks := (blocks s)(blk \<mapsto> i)\<rparr>
                  in bind_res (block_mount_inode fs node blk) (\<lambda>(r, fs). Inr (s\<lparr>ah_fs := fs\<rparr>)))"

text \<open>Waiting for the answer to the identification, \<open>n\<close> turns at most.\<close>

fun wait_identify :: "hw \<Rightarrow> nat \<Rightarrow> nat \<Rightarrow> hba \<Rightarrow> hba" where
  "wait_identify hw port 0 s = s"
| "wait_identify hw port (Suc n) s =
     (let (a, s) = reg_read hw (Ports port SataActive) s; (c, s) = reg_read hw (Ports port CommandIssue) s
      in if (a OR c) AND 1 = 0 then s else wait_identify hw port n s)"

definition zero_device :: "nat \<Rightarrow> ahci_device" where
  "zero_device i = \<lparr>port_no = i, fis_base = 0, command_base = 0, command_table_base = replicate 32 0, identify = replicate 256 0,
     dev_headers = (\<lambda>_. \<lparr>fis_length = 0, hdr_atapi = False, hdr_write = False, prefetchable = False, hdr_reset = False, hdr_bist = False,
       clear_busy_upon_r_ok = False, hdr_pmport = 0, prdt_len = 0, prdb_count = 0, command_table_base_low = 0, command_table_base_high = 0\<rparr>),
     dev_tables = (\<lambda>_. \<lparr>command_fis = zero_fis, prdt_entries = (\<lambda>_. \<lparr>data_base_low = 0, data_base_high = 0, byte_count = 0, interrupt_on_complete = False\<rparr>)\<rparr>)\<rparr>"

text \<open>One port: \<open>answer i\<close> is what the device leaves in the buffer of the identification.\<close>

definition detect_port :: "hw \<Rightarrow> (nat \<Rightarrow> u16 list) \<Rightarrow> bool \<Rightarrow> nat \<Rightarrow> ahci \<Rightarrow> ahci res option" where
  "detect_port hw answer ok i s =
     (let (ty, h) = ahci_check_type hw i (ah_hba s); s = s\<lparr>ah_hba := h\<rparr> in
      if ty \<noteq> AHCI_TYPE_SATA then Some (Inr s)
      else if \<not> ok then Some (Inl NullDeref)
      else bind_ro (ahci_initialize_port hw ok (zero_device i) (s\<lparr>ah_ports := (ah_ports s)(i \<mapsto> zero_device i)\<rparr>)) (\<lambda>(device, s).
           bind_ro (dma_alloc ok (ah_dma s) 512) (\<lambda>(buffer, d).
           bind_ro (Some (ahci_send_command hw device ATA_CMD_IDENTIFY 512 False 0 (dma_physical_base buffer) (ah_hba s))) (\<lambda>(device, h).
             let h = wait_identify hw i 999999 h; device = device\<lparr>identify := answer i\<rparr>
             in Some (ahci_create_fs_node i (s\<lparr>ah_dma := d, ah_hba := h, ah_ports := (ah_ports s)(i \<mapsto> device)\<rparr>))))))"

fun detect_ports_loop :: "hw \<Rightarrow> (nat \<Rightarrow> u16 list) \<Rightarrow> bool \<Rightarrow> nat list \<Rightarrow> u32 \<Rightarrow> ahci \<Rightarrow> ahci res option" where
  "detect_ports_loop hw answer ok [] pi s = Some (Inr s)"
| "detect_ports_loop hw answer ok (i # is) pi s =
     bind_ro (if pi AND 1 \<noteq> 0 then detect_port hw answer ok i s else Some (Inr s)) (detect_ports_loop hw answer ok is (drop_bit 1 pi))"

definition ahci_detect_ports :: "hw \<Rightarrow> (nat \<Rightarrow> u16 list) \<Rightarrow> bool \<Rightarrow> ahci \<Rightarrow> ahci res option" where
  "ahci_detect_ports hw answer ok s =
     (let (c, h) = reg_read hw Capability (ah_hba s); (pi, h) = reg_read hw PortImplemented h
      in detect_ports_loop hw answer ok [0 ..< 32] pi (s\<lparr>ah_hba := h\<rparr>))"

definition sizeof_hba_memory :: size_t where "sizeof_hba_memory = 0x180"

text \<open>Taking the controller over from the firmware: the second test of the condition reads the register again.\<close>

partial_function (option) handoff_wait :: "hw \<Rightarrow> hba \<Rightarrow> hba option" where
  "handoff_wait hw s =
     (let (v, s) = reg_read hw Bohc s in
      if v AND 0x2 = 0 then handoff_wait hw s
      else let (v, s) = reg_read hw Bohc s in if v AND 0x1 \<noteq> 0 then handoff_wait hw s else Some s)"

definition ahci_handoff :: "hw \<Rightarrow> hba \<Rightarrow> hba option" where
  "ahci_handoff hw s =
     (let (v, s) = reg_read hw ExtCapabilities s
      in if v AND 0x1 \<noteq> 0 then handoff_wait hw (reg_update hw Bohc (\<lambda>v. v OR 0x2) s) else Some s)"

text \<open>\<open>p\<close> is the device found, \<open>hp\<close> the handler structure and \<open>fn\<close> its function.\<close>

definition ahci_probe :: "hw \<Rightarrow> (nat \<Rightarrow> u16 list) \<Rightarrow> bool \<Rightarrow> addr_t \<Rightarrow> addr_t \<Rightarrow> addr_t \<Rightarrow> ahci \<Rightarrow> ahci res option" where
  "ahci_probe hw answer ok hp fn p s =
     (let hdr = pd_header (pci_device_at (ah_pci s) p) in
      bind_ro (pci_map (ah_pci s) (dma_vm (ah_dma s)) (ucast (bar (header00 hdr) ! 5)) sizeof_hba_memory) (\<lambda>(abar, pc, v).
      let s = s\<lparr>ah_pci := pc, ah_dma := (ah_dma s)\<lparr>dma_vm := v\<rparr>\<rparr>;
          s = (if pci_command hdr AND 0x4 = 0
               then s\<lparr>ah_pci := pc\<lparr>pci_device_at := (pci_device_at pc)(p := (pci_device_at pc p)\<lparr>pd_header := hdr\<lparr>pci_command := pci_command hdr OR 0x4\<rparr>\<rparr>)\<rparr>\<rparr> else s)
      in Option.bind (ahci_handoff hw (ah_hba s)) (\<lambda>h.
         let i = (ah_intr s)\<lparr>handler_at := (handler_at (ah_intr s))(hp := \<lparr>handler = fn, dev_name = ''ahci'', dev_id = abar\<rparr>)\<rparr>
         in bind_ro (Some (interrupt_handler_register i (unat (interrupt_line (header00 hdr))) hp)) (\<lambda>i.
            ahci_detect_ports hw answer ok (s\<lparr>ah_intr := i,
              ah_hba := reg_update hw GlobalHostControl (\<lambda>v. v OR GHC_IE) (reg_update hw GlobalHostControl (\<lambda>v. v OR GHC_AE) h)\<rparr>)))))"

definition ahci_device_filter :: pci_device_filter where
  "ahci_device_filter = \<lparr>f_vendor = 0, f_device = 0, f_class = 1, f_subclass = 6\<rparr>"

definition ahci_driver :: "addr_t \<Rightarrow> pci_driver" where
  "ahci_driver probe = \<lparr>drv_name = Some ''ahci'', drv_filter = Some ahci_device_filter, drv_probe = Some probe\<rparr>"

text \<open>The driver structure is at \<open>drv\<close>, the probe function at \<open>probe\<close>.\<close>

definition init_ahci :: "addr_t \<Rightarrow> addr_t \<Rightarrow> pci \<Rightarrow> (u32 \<times> pci) res option" where
  "init_ahci drv probe s =
     map_option (\<lambda>r. bind_res r (\<lambda>(n, s). Inr (0, s)))
       (pci_driver_register (s\<lparr>pci_driver_at := (pci_driver_at s)(drv := ahci_driver probe)\<rparr>) drv)"

section \<open>Slots, tables and commands\<close>

lemma slot_loop_find: "slot_loop n i (drop_bit i w) = find (\<lambda>j. \<not> bit w j) [i ..< i + n]"
proof (induction n arbitrary: i)
  case (Suc n)
  have "drop_bit i w AND 1 = 0 \<longleftrightarrow> \<not> bit w i" by (simp add: and_one_eq bit_iff_odd_drop_bit even_iff_mod_2_eq_zero)
  moreover have "drop_bit 1 (drop_bit i w) = drop_bit (i + 1) w" by (simp only: drop_bit_drop_bit add.commute)
  ultimately have "slot_loop (Suc n) i (drop_bit i w) = (if \<not> bit w i then Some i else slot_loop n (i + 1) (drop_bit (i + 1) w))"
    by (simp only: slot_loop.simps)
  then show ?case using Suc.IH [of "i + 1"] by (simp add: upt_conv_Cons del: upt_Suc)
qed simp

text \<open>The slots in use, by the two registers read.\<close>

definition busy_slots :: "hw \<Rightarrow> nat \<Rightarrow> hba \<Rightarrow> u32" where
  "busy_slots hw port s = hw (Ports port SataActive) s OR hw (Ports port CommandIssue) (Rd (Ports port SataActive) # s)"

lemma get_command_slot_find:
  "ahci_get_command_slot hw port s
    = (find (\<lambda>j. \<not> bit (busy_slots hw port s) j) [0 ..< 32], Rd (Ports port CommandIssue) # Rd (Ports port SataActive) # s)"
  using slot_loop_find [of 32 0] by (simp add: ahci_get_command_slot_def busy_slots_def reg_read_def Let_def del: upt_Suc)

definition entry_base :: "hba_prdt_entry \<Rightarrow> addr_t" where
  "entry_base e = MERGE_64 (ucast (data_base_high e)) (ucast (data_base_low e))"

definition entry_bytes :: "hba_prdt_entry \<Rightarrow> nat" where
  "entry_bytes e = unat (byte_count e) + 1"

lemma ucast_halves: "(ucast (ucast (LOWER_32 a) :: u32) :: u64) = LOWER_32 a" "(ucast (ucast (UPPER_32 a) :: u32) :: u64) = UPPER_32 a"
proof -
  have m: "(0xFFFFFFFF :: u64) = mask 32" by (simp add: mask_eq_exp_minus_1)
  show "(ucast (ucast (LOWER_32 a) :: u32) :: u64) = LOWER_32 a" "(ucast (ucast (UPPER_32 a) :: u32) :: u64) = UPPER_32 a"
    unfolding LOWER_32_def UPPER_32_def m by (auto intro!: bit_word_eqI simp: bit_simps)
qed

text \<open>The loop describes \<open>t\<close> bytes from \<open>buffer\<close> on in pieces of a page.\<close>

lemma prdt_loop_entries:
  assumes "unat tw = t" and "(t + 4095) div 4096 \<le> n" and "index + (t + 4095) div 4096 \<le> prdt_room"
  shows "\<exists>es'. prdt_loop n index tw buffer es = Inr es' \<and> (\<forall>j < index. es' j = es j)
    \<and> (\<forall>j < (t + 4095) div 4096. entry_base (es' (index + j)) = buffer + of_nat (4096 * j) \<and> entry_bytes (es' (index + j)) = min 4096 (t - 4096 * j))"
  using assms
proof (induction n arbitrary: index tw t buffer es)
  case 0
  then show ?case by (intro exI [of _ es]) auto
next
  case (Suc n)
  show ?case
  proof (cases "t = 0")
    case True
    then show ?thesis using Suc.prems(1) by (auto simp: unat_eq_0)
  next
    case False
    define c where "c = (if tw \<le> AHCI_PRDT_MAX_MEMORY then tw - 1 else AHCI_PRDT_MAX_MEMORY - 1)"
    have tw: "tw \<noteq> 0" using False Suc.prems(1) by auto
    have c: "unat c = min 4096 t - 1"
      using tw Suc.prems(1) by (auto simp: c_def AHCI_PRDT_MAX_MEMORY_def word_le_nat_alt unat_minus_one)
    then have c22: "unat (ucast c :: 22 word) = min 4096 t - 1" by (simp add: unsigned_ucast_eq take_bit_eq_mod)
    have cc: "(ucast (ucast c :: 22 word) :: size_t) = c" using c c22 by (simp add: word_unat_eq_iff unat_ucast_widen)
    let ?e = "\<lparr>data_base_low = ucast (LOWER_32 buffer), data_base_high = ucast (UPPER_32 buffer), byte_count = ucast c,
       interrupt_on_complete = interrupt_on_complete (es index)\<rparr>"
    have c1: "unat (c + 1) = min 4096 t" using c False by (subst unat_add_no_overflow) auto
    have sub: "unat (tw - (c + 1)) = t - min 4096 t"
      using c1 Suc.prems(1) by (subst unat_sub_no_underflow) (simp_all add: word_le_nat_alt)
    have pages: "(t + 4095) div 4096 = Suc ((t - min 4096 t + 4095) div 4096)" 
    proof -
      have "t + 4095 = (t - 1) + 4096" using False by simp
      then have "(t + 4095) div 4096 = Suc ((t - 1) div 4096)" by simp
      moreover have "(t - 1) div 4096 = (t - min 4096 t + 4095) div 4096" using False by (cases "t \<le> 4096") (simp_all add: min_def)
      ultimately show ?thesis by simp
    qed
    have room: "index < prdt_room" using Suc.prems(3) pages by simp
    have p: "(t - min 4096 t + 4095) div 4096 \<le> n" "index + 1 + (t - min 4096 t + 4095) div 4096 \<le> prdt_room"
      using pages Suc.prems(2,3) by simp_all
    obtain es' where es': "prdt_loop n (index + 1) (tw - (c + 1)) (buffer + (c + 1)) (es(index := ?e)) = Inr es'"
        "\<forall>j < index + 1. es' j = (es(index := ?e)) j"
        "\<forall>j < (t - min 4096 t + 4095) div 4096. entry_base (es' (index + 1 + j)) = buffer + (c + 1) + of_nat (4096 * j)
           \<and> entry_bytes (es' (index + 1 + j)) = min 4096 (t - min 4096 t - 4096 * j)"
      using Suc.IH [OF sub p, of "buffer + (c + 1)" "es(index := ?e)"] by blast
    have "prdt_loop (Suc n) index tw buffer es = Inr es'" using es'(1) tw room by (simp add: cc Let_def flip: c_def)
    moreover have "\<forall>j < index. es' j = es j" using es'(2) by simp
    moreover have "entry_base (es' (index + j)) = buffer + of_nat (4096 * j) \<and> entry_bytes (es' (index + j)) = min 4096 (t - 4096 * j)"
      if j: "j < (t + 4095) div 4096" for j
    proof (cases j)
      case 0
      have "es' index = ?e" using es'(2) by simp
      then show ?thesis using 0 c22 False by (simp add: entry_base_def entry_bytes_def ucast_halves MERGE_UPPER_LOWER)
    next
      case (Suc k)
      then have k: "k < (t - min 4096 t + 4095) div 4096" using j pages by simp
      then have big: "4096 \<le> t" by (cases "t < 4096") (auto simp: min_def)
      then have "c + 1 = 4096" using c1 by (simp add: word_unat_eq_iff)
      then show ?thesis using es'(3) k Suc big by (auto simp: algebra_simps)
    qed
    ultimately show ?thesis by blast
  qed
qed

text \<open>A transfer of more than 248 pages writes past the page of the command table.\<close>

lemma prdt_loop_overrun:
  "4096 * (prdt_room - index) < unat tw \<Longrightarrow> prdt_room - index < n \<Longrightarrow> prdt_loop n index tw buffer es = Inl OutOfBounds"
proof (induction n arbitrary: index tw buffer es)
  case (Suc n)
  have tw: "tw \<noteq> 0" using Suc.prems(1) by auto
  show ?case
  proof (cases "index \<ge> prdt_room")
    case True
    then show ?thesis using tw by simp
  next
    case False
    then have big: "4096 < unat tw" using Suc.prems(1) by (auto intro: le_less_trans [of _ "4096 * (prdt_room - index)"])
    then have "\<not> tw \<le> AHCI_PRDT_MAX_MEMORY" by (simp add: AHCI_PRDT_MAX_MEMORY_def word_le_nat_alt)
    moreover have "(ucast (ucast (AHCI_PRDT_MAX_MEMORY - 1) :: 22 word) :: size_t) = 0xFFF" by (simp add: AHCI_PRDT_MAX_MEMORY_def)
    moreover have "unat (tw - 0x1000) = unat tw - 4096" using big by (subst unat_sub_no_underflow) (simp_all add: word_le_nat_alt)
    moreover have "prdt_room - index = Suc (prdt_room - (index + 1))" using False by simp
    ultimately show ?thesis using Suc.prems False tw Suc.IH [of "index + 1" "tw - 0x1000"] by (simp add: Let_def)
  qed
qed simp

lemma send_command_overruns:
  assumes "find (\<lambda>j. \<not> bit (busy_slots hw (port_no d) s) j) [0 ..< 32] = Some i" and "248 * 4096 < unat sz"
  shows "ahci_send_command hw d command sz wr lba buffer s = Inl OutOfBounds"
  using prdt_loop_overrun [of 0 sz 65536] assms by (simp add: ahci_send_command_def get_command_slot_find Let_def prdt_room_def del: upt_Suc prdt_loop.simps)

text \<open>The block address and count a command names.\<close>

definition fis_lba48 :: "fis_reg_host_to_device \<Rightarrow> u64" where
  "fis_lba48 f = ucast (lba0 f) OR push_bit 8 (ucast (lba1 f)) OR push_bit 16 (ucast (lba2 f)) OR push_bit 24 (ucast (lba3 f))
     OR push_bit 32 (ucast (lba4 f)) OR push_bit 40 (ucast (lba5 f))"

definition fis_lba28 :: "fis_reg_host_to_device \<Rightarrow> u64" where
  "fis_lba28 f = ucast (lba0 f) OR push_bit 8 (ucast (lba1 f)) OR push_bit 16 (ucast (lba2 f)) OR push_bit 24 (ucast (fis_device f) AND 0xF)"

definition fis_count :: "fis_reg_host_to_device \<Rightarrow> u64" where
  "fis_count f = ucast (count_low f) OR push_bit 8 (ucast (count_high f))"

lemma low_byte: "(ucast (ucast (a AND 0xFF) :: u8) :: u64) = take_bit 8 a" for a :: u64
proof -
  have m: "(0xFF :: u64) = mask 8" by (simp add: mask_eq_exp_minus_1)
  show ?thesis unfolding m by (rule bit_word_eqI) (auto simp: bit_simps)
qed

lemma low_nibble: "(ucast (ucast (push_bit 6 1 OR (a AND 0xF)) :: u8) AND 0xF :: u64) = take_bit 4 a" for a :: u64
proof -
  have m: "(0xF :: u64) = mask 4" by (simp add: mask_eq_exp_minus_1)
  have "(ucast (ucast y :: u8) :: u64) = take_bit 8 y" for y :: u64 by (rule bit_word_eqI) (auto simp: bit_simps)
  then have "(ucast (ucast (push_bit 6 1 OR (a AND 0xF)) :: u8) AND 0xF :: u64) = (take_bit 8 (push_bit 6 1) AND 0xF) OR (take_bit 8 (a AND 0xF) AND 0xF)"
    by (simp only: take_bit_or bit.conj_disj_distrib2)
  also have "take_bit 8 (push_bit 6 1) AND 0xF = (0 :: u64)" by simp
  also have "take_bit 8 (a AND 0xF) AND 0xF = take_bit 4 a" unfolding m by (rule bit_word_eqI) (auto simp: bit_simps)
  finally show ?thesis by simp
qed

lemma join_bits: "take_bit m a OR push_bit m (take_bit n (drop_bit m a)) = take_bit (m + n) a" for a :: u64
  by (rule bit_word_eqI) (auto simp: bit_simps)

lemmas join_bytes = join_bits [where m = 8 and n = 8, simplified] join_bits [where m = 16 and n = 8, simplified]
  join_bits [where m = 24 and n = 8, simplified] join_bits [where m = 32 and n = 8, simplified]
  join_bits [where m = 40 and n = 8, simplified] join_bits [where m = 24 and n = 4, simplified]

lemma command_fis_lba48:
  assumes "ahci_get_lba48_capacity idn > 0"
  shows "fis_lba48 (command_fis_for idn c sz lba) = take_bit 48 lba"
    and "fis_count (command_fis_for idn c sz lba) = take_bit 16 ((sz + AHCI_BLOCK_SIZE - 1) div AHCI_BLOCK_SIZE)"
  using assms by (simp_all add: command_fis_for_def Let_def fis_lba48_def fis_count_def low_byte join_bytes flip: or.assoc)

lemma command_fis_lba28:
  assumes "ahci_get_lba48_capacity idn = 0"
  shows "fis_lba28 (command_fis_for idn c sz lba) = take_bit 28 lba"
    and "fis_count (command_fis_for idn c sz lba) = take_bit 8 ((sz + AHCI_BLOCK_SIZE - 1) div AHCI_BLOCK_SIZE)"
  using assms by (simp_all add: command_fis_for_def Let_def fis_lba28_def fis_count_def low_byte low_nibble [simplified] join_bytes zero_fis_def
      del: push_bit_and flip: or.assoc)

lemma swap_pairs_twice: "swap_pairs (swap_pairs cs) = cs"
  by (induction cs rule: swap_pairs.induct) simp_all

lemma swap_pairs_length [simp]: "length (swap_pairs cs) = length cs"
  by (induction cs rule: swap_pairs.induct) simp_all

declare read_loop.simps [simp del]

section \<open>Waiting\<close>

lemma poll_ready: "ready (hw r s) \<Longrightarrow> poll hw r ready s = Some (Rd r # s)"
  by (simp add: poll.simps reg_read_def)

lemma wait_interrupt_got: "got_interrupt s \<Longrightarrow> wait_interrupt hw arrives k s = Some s"
  by (simp add: wait_interrupt.simps)

lemma wait_interrupt_step:
  "\<not> got_interrupt s \<Longrightarrow> wait_interrupt hw arrives k s = wait_interrupt hw arrives (k + 1) (if arrives k then ahci_interrupt hw s else s)"
  by (subst wait_interrupt.simps) simp

lemma wait_interrupt_arrives:
  assumes "arrives (k + n)"
  shows "\<exists>s' h g. wait_interrupt hw arrives k s = Some s' \<and> s' = s\<lparr>ah_hba := h, got_interrupt := g\<rparr>"
  using assms
proof (induction n arbitrary: k)
  case 0
  show ?case
  proof (cases "got_interrupt s")
    case True
    then show ?thesis using wait_interrupt_got [OF True] by (metis ahci.surjective ahci.update_convs(1,2))
  next
    case False
    have "wait_interrupt hw arrives k s = Some (ahci_interrupt hw s)"
      using 0 wait_interrupt_step [OF False, of hw arrives k] wait_interrupt_got [of "ahci_interrupt hw s"] by (simp add: ahci_interrupt_def)
    then show ?thesis unfolding ahci_interrupt_def by blast
  qed
next
  case (Suc n)
  consider "got_interrupt s" | "\<not> got_interrupt s" "arrives k" | "\<not> got_interrupt s" "\<not> arrives k" by blast
  then show ?case
  proof cases
    case 1
    then show ?thesis using wait_interrupt_got [OF 1] by (metis ahci.surjective ahci.update_convs(1,2))
  next
    case 2
    have "wait_interrupt hw arrives k s = Some (ahci_interrupt hw s)"
      using 2(2) wait_interrupt_step [OF 2(1), of hw arrives k] wait_interrupt_got [of "ahci_interrupt hw s"] by (simp add: ahci_interrupt_def)
    then show ?thesis unfolding ahci_interrupt_def by blast
  next
    case 3
    then show ?thesis using Suc.IH [of "k + 1"] Suc.prems wait_interrupt_step [OF 3(1), of hw arrives k] by simp
  qed
qed

lemma send_command_issues:
  assumes slot: "find (\<lambda>j. \<not> bit (busy_slots hw (port_no d) s) j) [0 ..< 32] = Some i" and sz: "0 < unat sz" "unat sz \<le> 248 * 4096"
  shows "\<exists>d' s'. ahci_send_command hw d command sz wr lba buffer s = Inr (d', s') \<and> hd s' = Wr (Ports (port_no d) CommandIssue) (push_bit i 1)
    \<and> (let n = (unat sz + 4095) div 4096; es = prdt_entries (dev_tables d' i) in
         unat (prdt_len (dev_headers d' i)) = n \<and> (\<forall>j < n. entry_base (es j) = buffer + of_nat (4096 * j))
         \<and> (\<forall>j < n. entry_bytes (es j) = min 4096 (unat sz - 4096 * j)) \<and> (\<Sum>j < n. entry_bytes (es j)) = unat sz)"
proof -
  let ?n = "(unat sz + 4095) div 4096" and ?s = "Rd (Ports (port_no d) CommandIssue) # Rd (Ports (port_no d) SataActive) # s"
  have room: "prdt_room = 248" by (simp add: prdt_room_def)
  have n: "?n \<le> 248" using sz(2) by (intro div_le_mono [of _ "248 * 4096 + 4095" 4096, simplified]) simp
  obtain es where es: "prdt_loop 65536 0 sz buffer (prdt_entries (dev_tables d i)) = Inr es"
      "\<forall>j < ?n. entry_base (es j) = buffer + of_nat (4096 * j) \<and> entry_bytes (es j) = min 4096 (unat sz - 4096 * j)"
    using prdt_loop_entries [of sz "unat sz" 65536 0 buffer] n room by fastforce
  have "unat ((sz - 1) div AHCI_PRDT_MAX_MEMORY) = (unat sz - 1) div 4096"
    using unat_minus_one [of sz] sz(1) by (simp add: AHCI_PRDT_MAX_MEMORY_def unat_div_distrib unat_gt_0)
  moreover have pages: "?n = Suc ((unat sz - 1) div 4096)"
  proof -
    have "unat sz + 4095 = (unat sz - 1) + 4096" using sz(1) by simp
    then show ?thesis by simp
  qed
  ultimately have "unat ((sz - 1) div AHCI_PRDT_MAX_MEMORY + 1) = ?n" using n by (subst unat_add_no_overflow) simp_all
  then have len: "unat (ucast ((sz - 1) div AHCI_PRDT_MAX_MEMORY + 1) :: u16) = ?n" using n by (simp add: unsigned_ucast_eq take_bit_eq_mod)
  have "(\<Sum>j < n. min 4096 (t - 4096 * j)) = min t (4096 * n)" for n t :: nat by (induction n) (auto simp: min_def)
  then have "(\<Sum>j < ?n. entry_bytes (es j)) = min (unat sz) (4096 * ?n)" using es(2) by simp
  moreover have "unat sz \<le> 4096 * ?n" using nat_round_up_bounds [of 4096 "unat sz"] by simp
  ultimately have "(\<Sum>j < ?n. entry_bytes (es j)) = unat sz" by simp
  then show ?thesis using es len slot by (simp add: ahci_send_command_def get_command_slot_find reg_write_def Let_def)
qed

section \<open>Properties\<close>

text \<open>C13: a command describes the buffer. When a slot is free and the size is positive and at most 248 pages, \<open>ahci_send_command\<close>
  uses the lowest free slot, its header counts the pieces, the pieces are consecutive pages from
  the buffer's address that together have exactly the size, and the slot is issued.\<close>

theorem send_command_describes_buffer:
  assumes slot: "find (\<lambda>j. \<not> bit (busy_slots hw (port_no d) s) j) [0 ..< 32] = Some i" and sz: "0 < unat sz" "unat sz \<le> 248 * 4096"
  shows "\<exists>d' s'. ahci_send_command hw d command sz wr lba buffer s = Inr (d', s') \<and> hd s' = Wr (Ports (port_no d) CommandIssue) (push_bit i 1)
    \<and> (let n = (unat sz + 4095) div 4096; es = prdt_entries (dev_tables d' i) in
         unat (prdt_len (dev_headers d' i)) = n \<and> (\<forall>j < n. entry_base (es j) = buffer + of_nat (4096 * j))
         \<and> (\<forall>j < n. entry_bytes (es j) = min 4096 (unat sz - 4096 * j)) \<and> (\<Sum>j < n. entry_bytes (es j)) = unat sz)"
  using assms by (rule send_command_issues)

text \<open>A controller with nothing in progress.\<close>

definition idle_hw :: hw where
  "idle_hw r s = 0"

theorem send_command_describes_buffer_witness:
  "\<exists>d' s'. ahci_send_command idle_hw (zero_device 3) 0x25 9000 False 7 0x10000 [] = Inr (d', s') \<and> unat (prdt_len (dev_headers d' 0)) = 3
    \<and> entry_base (prdt_entries (dev_tables d' 0) 2) = 0x12000 \<and> entry_bytes (prdt_entries (dev_tables d' 0) 2) = 808"
proof -
  have "find (\<lambda>j. \<not> bit (busy_slots idle_hw (port_no (zero_device 3)) []) j) [0 ..< 32] = Some 0"
    by (simp add: busy_slots_def idle_hw_def upt_conv_Cons del: upt_Suc)
  from send_command_describes_buffer [OF this, of 9000 "0x25" False 7 "0x10000"] show ?thesis by (force simp: Let_def)
qed

text \<open>C31: a command names the blocks. For a disk with 48-bit addresses the six address bytes of the command spell the block number and
  the two count bytes the number of blocks the size takes, for one without them the three bytes and the low half of the
  device byte do, with a count of eight bits; numbers that fit come back unchanged.\<close>

theorem command_fis_roundtrip:
  "fis_type (command_fis_for idn c sz lba) = FIS_TYPE_REG_H2D \<and> fis_c (command_fis_for idn c sz lba) \<and> fis_command (command_fis_for idn c sz lba) = c
    \<and> (if ahci_get_lba48_capacity idn > 0
       then (unat lba < 2 ^ 48 \<longrightarrow> fis_lba48 (command_fis_for idn c sz lba) = lba)
         \<and> (unat sz \<le> 65535 * 512 \<longrightarrow> unat (fis_count (command_fis_for idn c sz lba)) = (unat sz + 511) div 512)
       else (unat lba < 2 ^ 28 \<longrightarrow> fis_lba28 (command_fis_for idn c sz lba) = lba)
         \<and> (unat sz \<le> 255 * 512 \<longrightarrow> unat (fis_count (command_fis_for idn c sz lba)) = (unat sz + 511) div 512))"
proof -
  have tb: "take_bit n lba = lba" if "unat lba < 2 ^ n" for n
    using that by (simp add: word_unat_eq_iff unat_take_bit_mod)
  have blocks: "unat ((sz + AHCI_BLOCK_SIZE - 1) div AHCI_BLOCK_SIZE) = (unat sz + 511) div 512" if "unat sz \<le> 65535 * 512"
  proof -
    have "sz + AHCI_BLOCK_SIZE - 1 = 511 + sz" by (simp add: AHCI_BLOCK_SIZE_def)
    moreover have "unat (511 + sz) = 511 + unat sz" using that by (subst unat_add_no_overflow) simp_all
    moreover have "unat (512 :: size_t) = 512" by simp
    ultimately show ?thesis unfolding AHCI_BLOCK_SIZE_def unat_div_distrib by (simp only: add.commute)
  qed
  have fit: "(unat sz + 511) div 512 < 2 ^ n" if "unat sz \<le> (2 ^ n - 1) * 512" for n
  proof -
    have "(unat sz + 511) div 512 \<le> ((2 ^ n - 1) * 512 + 511) div 512" using that by (intro div_le_mono) simp
    also have "\<dots> = 2 ^ n - 1" by simp
    finally show ?thesis by (rule order_le_less_trans) simp
  qed
  have "fis_type (command_fis_for idn c sz lba) = FIS_TYPE_REG_H2D \<and> fis_c (command_fis_for idn c sz lba) \<and> fis_command (command_fis_for idn c sz lba) = c"
    by (simp add: command_fis_for_def Let_def)
  then show ?thesis
    using command_fis_lba48 [of idn c sz lba] command_fis_lba28 [of idn c sz lba] tb [of 48] tb [of 28] blocks fit [of 16] fit [of 8]
    by (cases "ahci_get_lba48_capacity idn > 0") (auto simp: unat_take_bit_mod word_gt_0)
qed

theorem command_fis_roundtrip_witness: "fis_lba28 (command_fis_for (replicate 256 0) 0x25 512 0x1234567) = 0x1234567"
  using command_fis_roundtrip [of "replicate 256 0" "0x25" 512 "0x1234567"]
  by (simp add: ahci_get_lba48_capacity_def ATA_LBA48_CAPACITY_def)


definition demo_ahci :: ahci where
  "demo_ahci = \<lparr>ah_hba = [], got_interrupt = False, ahci_last_letter = CHR ''a'', ah_ports = (\<lambda>i. Some (zero_device i)),
     ah_dma = \<lparr>dma_vm = demo_vm, dma_region = None\<rparr>, ah_fs = demo_fs, ah_pci = demo_pci, ah_intr = demo_intr, blocks = (\<lambda>_. None)\<rparr>"


text \<open>The controller's registers are mapped for thirty ports. The mapping made in \<open>ahci_probe\<close> has the size of the structure
  rounded to pages, one page; the registers of port \<open>i\<close> lie in it exactly when \<open>i\<close> is below thirty, while the driver
  and its interrupt handler go through thirty-two.\<close>

theorem hba_mapping_ports:
  "(\<forall>r. reg_offset (Ports i r) + 4 \<le> unat (ROUND_UP sizeof_hba_memory 0x1000)) \<longleftrightarrow> i < 30"
proof -
  have sz: "unat (ROUND_UP sizeof_hba_memory 0x1000) = 4096" by (simp add: sizeof_hba_memory_def ROUND_UP_def)
  have le: "port_offset r \<le> 64" for r by (cases r) simp_all
  have "reg_offset (Ports i r) + 4 \<le> 4096" if "i < 30" for r using that le [of r] by simp
  moreover have "\<not> reg_offset (Ports i CommandListBaseLow) + 4 \<le> 4096" if "\<not> i < 30" using that by simp
  ultimately show ?thesis unfolding sz by blast
qed

end
