(* ===== verification/Dma.thy ===== *)
theory Dma
  imports MemInit
begin

text \<open>
  Memory for devices, \<open>dma_alloc\<close> of \<open>mm/dma.c\<close> (defined in \<open>MemInit\<close>), against the components it is built from: a block from the DMA zone of the
  physical memory manager, addresses from a region with a watermark, page tables made of pages of the other zone, and the clearing of
  the block through the new mapping.
\<close>

section \<open>The parts\<close>

text \<open>A block of the DMA zone leaves the supply of pages of the other zone as it is.\<close>

lemma page_source_dma:
  assumes ps: "page_source fl1 H1 m P F" and b: "region_buddy (phys_dma_region P) = Some b"
    and j: "alloc_order b sz \<le> j" "j \<le> unat (max_order b)" "fl1 j \<noteq> []"
  shows "\<exists>a m' P' b' fl'. physical_alloc m P sz PHYS_DMA = Inr (a, m', P') \<and> 2 ^ alloc_order b sz dvd unat a \<and> (alloc_order b sz, a) \<notin> H1
    \<and> extent (alloc_order b sz, a) \<subseteq> free_area (unat (min_order b)) (unat (max_order b)) fl1
    \<and> phys_dma_region P' = (phys_dma_region P)\<lparr>region_buddy := Some b'\<rparr> \<and> min_order b' = min_order b \<and> max_order b' = max_order b
    \<and> free_area (unat (min_order b)) (unat (max_order b)) fl' = free_area (unat (min_order b)) (unat (max_order b)) fl1 - extent (alloc_order b sz, a)
    \<and> page_source fl' (insert (alloc_order b sz, a) H1) m' P' F"
proof -
  obtain fl2 H2 b2 where S: "F \<subseteq> {..< 2 ^ 52}" "physical_inv m P fl1 H1 fl2 H2" "region_buddy (phys_normal_region P) = Some b2"
      "min_order b2 = 12" "F = free_area 12 (unat (max_order b2)) fl2"
    using ps by (auto simp: page_source_def)
  let ?n = "alloc_order b sz" and ?mn = "unat (min_order b)" and ?mx = "unat (max_order b)" and ?Z = "{..< unat (region_size (phys_dma_region P))}"
  have inv: "buddy_inv m b fl1 H1" and cov: "covered ?mn ?mx fl1 H1 \<subseteq> ?Z"
    and z2: "zone (phys_normal_region P) m fl2 H2 {unat (region_size (phys_dma_region P)) ..}"
    using S(2) b by (simp_all add: physical_inv_def zone_def)
  obtain a m' b' fl' where A: "buddy_alloc m (Some b) sz = Inr (a, m', Some b')" "2 ^ ?n dvd unat a" "buddy_inv m' b' fl' (insert (?n, a) H1)"
      "(?n, a) \<notin> H1" "covered ?mn ?mx fl' (insert (?n, a) H1) = covered ?mn ?mx fl1 H1"
    using buddy_alloc_inv [OF inv, of sz] j by (auto split: if_splits)
  note ord = buddy_alloc_orders [OF A(1), THEN conjunct1] buddy_alloc_orders [OF A(1), THEN conjunct2]
  note T = taken_area [OF inv A(3,4) ord A(5)]
  have "page_words m' p = page_words m p" if "unat p \<in> {unat (region_size (phys_dma_region P)) ..}" for p
    by (rule buddy_alloc_words [OF inv A(1)]) (use that cov in auto)
  then have z2': "zone (phys_normal_region P) m' fl2 H2 {unat (region_size (phys_dma_region P)) ..}" by (rule zone_frame [OF z2])
  let ?P = "set_dma_buddy P (Some b')"
  have "physical_inv m' ?P fl' (insert (?n, a) H1) fl2 H2"
    using z2' A(3,5) cov ord by (simp add: physical_inv_def zone_def set_dma_buddy_def)
  then have "page_source fl' (insert (?n, a) H1) m' ?P F"
    using S unfolding page_source_def by (intro conjI exI [of _ fl2] exI [of _ H2] exI [of _ b2]) (auto simp: set_dma_buddy_def)
  moreover have "physical_alloc m P sz PHYS_DMA = Inr (a, m', ?P)" using A(1) b by (simp add: physical_alloc_def PHYS_DMA_def)
  ultimately show ?thesis using A(2,4) T ord
    by (intro exI [of _ a] exI [of _ m'] exI [of _ ?P] exI [of _ b'] exI [of _ fl']) (simp add: set_dma_buddy_def)
qed

lemma page_source_bounds:
  assumes "page_source fl1 H1 m P F"
  shows "F \<subseteq> {unat (region_size (phys_dma_region P)) ..}"
    and "region_buddy (phys_dma_region P) = Some b \<Longrightarrow> free_area (unat (min_order b)) (unat (max_order b)) fl1 \<subseteq> {..< unat (region_size (phys_dma_region P))}"
  using assms by (fastforce simp: page_source_def physical_inv_def zone_def covered_def free_area_def)+

text \<open>Memory that holds no table can be overwritten without a change of the translation.\<close>

lemma space_overwrite:
  assumes sp: "space s C" and cur: "current s = C" and fr: "\<And>f. f \<in> tables {510} (frames s) 3 C \<Longrightarrow> fr' f = frames s f"
  shows "space (s\<lparr>frames := fr'\<rparr>) C" and "tables {510} fr' 3 C = tables {510} (frames s) 3 C"
    and "i4 w \<noteq> 510 \<Longrightarrow> hw_walk fr' C w = hw_walk (frames s) C w"
proof -
  show t: "tables {510} fr' 3 C = tables {510} (frames s) 3 C" by (rule tables_cong) (rule fr)
  have tr: "tree {510} fr' 3 C = tree {510} (frames s) 3 C" by (rule tree_cong) (rule fr)
  have C: "fr' C = frames s C" by (rule fr) simp
  show "space (s\<lparr>frames := fr'\<rparr>) C" using sp cur tr C by (simp add: space_def current_def)
  assume w: "i4 w \<noteq> 510"
  have "walk fr' C (path_of w) = walk (frames s) C (path_of w)"
    by (rule walk_cong [of "{510}" "frames s" 3, OF fr]) (use w in \<open>simp_all add: path_of_def\<close>)
  then show "hw_walk fr' C w = hw_walk (frames s) C w"
    using hw_walk_tree [of _ C w] sp tr w by (simp add: space_def)
qed

lemma window_tables: "window_path fr W C A B T \<Longrightarrow> {A, B, T} \<subseteq> tables {510} fr 3 C"
  by (auto simp: window_path_def leads_def numeral_3_eq_3)

lemma supplied_overwrite:
  assumes s: "supplied fl H s C F" and cur: "current s = C" and fr: "\<And>f. f \<in> tables {510} (frames s) 3 C \<Longrightarrow> fr' f = frames s f"
  shows "supplied fl H (s\<lparr>frames := fr'\<rparr>) C F"
proof -
  let ?s = "s\<lparr>frames := fr'\<rparr>"
  obtain A B T where w: "window_ready s C A B T" "\<forall>f \<in> {A, B, T}. 4096 * unat f \<notin> F" using s by (auto simp: supplied_def)
  have W: "window_path (frames s) (phys_page_virt s) C A B T" "window_in (frames s) C (phys_page_virt s) A B T" "window_shown s T"
      "frame_of (memory_context.physical_base (kernel_context s)) = C"
    using w(1) cur by (simp_all add: window_ready_def)
  have e: "fr' g = frames s g" if "g \<in> {C, A, B, T}" for g using that window_tables [OF W(1)] by (intro fr) auto
  have t: "tables {510} fr' 3 C = tables {510} (frames s) 3 C" "above {510} fr' 3 C = above {510} (frames s) 3 C"
    using tables_cong [of "{510}" "frames s" 3 C fr', OF fr] above_cong [of "{510}" "frames s" 3 C fr', OF fr] by blast+
  have "window_path fr' (phys_page_virt s) C A B T" by (rule window_path_cong [OF W(1)]) (use e in auto)
  moreover have "window_in fr' C (phys_page_virt s) A B T" using W(2) t e [of C] by (simp add: window_in_def)
  moreover have "window_shown ?s T" using W(3) e [of T] by (simp add: window_shown_def)
  moreover have cu: "current ?s = C" using cur by (simp add: current_def)
  ultimately have r: "window_ready ?s C A B T" using W(4) by (simp add: window_ready_def)
  have sp: "space s C" using s by (simp add: supplied_def)
  show ?thesis
    unfolding supplied_def
  proof (intro conjI)
    show "space ?s C" by (rule space_overwrite(1) [OF sp cur fr])
    show "\<exists>A B T. window_ready ?s C A B T \<and> (\<forall>f \<in> {A, B, T}. 4096 * unat f \<notin> F)" using r w(2) by blast
  qed (use s t(1) cur cu in \<open>simp_all add: supplied_def\<close>)
qed

lemma zero_pages_frames:
  assumes "space s C" and "current s = C"
    and "\<forall>k < n. i4 (v + of_nat k * PAGE_SIZE) \<noteq> 510 \<and> hw_walk (frames s) C (v + of_nat k * PAGE_SIZE) = Some (g k)"
    and "\<forall>k < n. g k \<notin> tables {510} (frames s) 3 C"
  shows "zero_pages n v s = Inr (s\<lparr>frames := (\<lambda>f. if f \<in> g ` {..< n} then (\<lambda>_. zero_page) else frames s f)\<rparr>)"
  using assms
proof (induction n arbitrary: v s g)
  case 0
  then show ?case by simp
next
  case (Suc n)
  let ?fr = "(frames s)(g 0 := (\<lambda>_. zero_page))" and ?s = "s\<lparr>frames := (frames s)(g 0 := (\<lambda>_. zero_page))\<rparr>"
  have "frame_of (vm_cr3 s) = C" using Suc.prems(1,2) by (simp add: space_def)
  then have z: "zero_table s v = Inr ?s" using Suc.prems(3) [rule_format, of 0] by (simp add: zero_table_def table_frame_def)
  have fr: "?fr f = frames s f" if "f \<in> tables {510} (frames s) 3 C" for f using that Suc.prems(4) [rule_format, of 0] by auto
  note K = space_overwrite [where fr' = ?fr, OF Suc.prems(1,2) fr]
  have sh: "v + PAGE_SIZE + of_nat k * PAGE_SIZE = v + of_nat (Suc k) * PAGE_SIZE" for k by (simp add: algebra_simps)
  have "zero_pages n (v + PAGE_SIZE) ?s = Inr (?s\<lparr>frames := (\<lambda>f. if f \<in> (g \<circ> Suc) ` {..< n} then (\<lambda>_. zero_page) else frames ?s f)\<rparr>)"
  proof (rule Suc.IH)
    show "space ?s C" using K(1) by simp
    show "current ?s = C" using Suc.prems(2) by (simp add: current_def)
    show "\<forall>k < n. i4 (v + PAGE_SIZE + of_nat k * PAGE_SIZE) \<noteq> 510 \<and> hw_walk (frames ?s) C (v + PAGE_SIZE + of_nat k * PAGE_SIZE) = Some ((g \<circ> Suc) k)"
      using Suc.prems(3) K(3) unfolding sh by fastforce
    show "\<forall>k < n. (g \<circ> Suc) k \<notin> tables {510} (frames ?s) 3 C" using Suc.prems(4) K(2) by simp
  qed
  moreover have "g ` {..< Suc n} = insert (g 0) ((g \<circ> Suc) ` {..< n})" by (auto simp: lessThan_Suc_eq_insert_0 image_comp)
  then have "(\<lambda>f. if f \<in> (g \<circ> Suc) ` {..< n} then (\<lambda>_. zero_page) else frames ?s f) = (\<lambda>f. if f \<in> g ` {..< Suc n} then (\<lambda>_. zero_page) else frames s f)"
    by (simp add: fun_eq_iff)
  ultimately have "zero_pages n (v + PAGE_SIZE) ?s = Inr (?s\<lparr>frames := (\<lambda>f. if f \<in> g ` {..< Suc n} then (\<lambda>_. zero_page) else frames s f)\<rparr>)" by (simp only:)
  then show ?case by (simp add: z)
qed


text \<open>The region of addresses for devices lies under the last entry of the top-level table, below the kernel image.\<close>

lemma dma_window:
  assumes "unat DMA_START \<le> unat x" and "unat x < unat DMA_END"
  shows "i4 x \<noteq> 510"
proof -
  have "unat x div 549755813888 = 33554431" by (rule div_nat_eqI) (use assms in \<open>simp_all add: DMA_START_def DMA_END_def\<close>)
  then have "unat (PML4_INDEX x) = 511" unfolding unat_index by (simp add: div_mult2_eq [symmetric])
  then have "unat (i4 x) = 511" by (simp add: unsigned_ucast_eq)
  then show ?thesis by auto
qed

lemma dma_below_kernel:
  assumes "unat DMA_START \<le> unat x" and "unat x < unat DMA_END" and "unat VMA_BASE \<le> unat y"
  shows "path_of x \<noteq> path_of y"
proof
  assume "path_of x = path_of y"
  then have eq: "unat x div 4096 mod 2 ^ 36 = unat y div 4096 mod 2 ^ 36" by (rule path_of_page)
  have y: "unat y < 2 ^ 64" using unsigned_less [of y] by simp
  have "unat x div 4096 div 2 ^ 36 = 65535" by (rule div_nat_eqI) (use assms in \<open>simp_all add: DMA_START_def DMA_END_def\<close>)
  moreover have "unat y div 4096 div 2 ^ 36 = 65535" by (rule div_nat_eqI) (use assms y in \<open>simp_all add: VMA_BASE_def\<close>)
  ultimately have "unat x div 4096 = unat y div 4096" using eq mult_div_mod_eq [of "2 ^ 36"] by metis
  then show False using assms by (simp add: DMA_END_def VMA_BASE_def)
qed

lemma block_frame:
  assumes "12 \<le> n" and "2 ^ n dvd unat a" and "extent (n, a) \<subseteq> {..< 2 ^ 52}" and "4096 * k < 2 ^ n"
  shows "4096 * unat (frame_of (a + of_nat k * PAGE_SIZE)) \<in> extent (n, a)"
proof -
  have k: "unat a + 4096 * k \<in> extent (n, a)" using assms(4) by (simp add: extent_def)
  then have l: "unat a + 4096 * k < 2 ^ 52" using assms(3) by blast
  then have "k < 2 ^ 40" by simp
  then have u: "unat (a + of_nat k * PAGE_SIZE) = unat a + 4096 * k"
    using l by (simp add: unat_word_ariths PAGE_SIZE_def unat_of_nat take_bit_nat_eq_self)
  have "2 ^ 12 dvd unat a" using assms(1,2) by (meson dvd_trans le_imp_power_dvd)
  then have "2 ^ 12 dvd unat (a + of_nat k * PAGE_SIZE)" unfolding u by simp
  then show ?thesis using unat_frame_of [of "a + of_nat k * PAGE_SIZE"] k l u by simp
qed

section \<open>The allocation\<close>

text \<open>A kernel that can serve requests: its own tables are well-formed and outside the free memory of both zones, the DMA zone ends below the reach of
  a page-table entry, the window of the stacks is in the kernel image, and the region of addresses has its mark inside its bounds.\<close>

definition dma_ready :: "(nat \<Rightarrow> addr_t list) \<Rightarrow> block set \<Rightarrow> dma \<Rightarrow> frame \<Rightarrow> nat set \<Rightarrow> bool" where
  "dma_ready fl H s C F \<longleftrightarrow> supplied fl H (dma_vm s) C F \<and> current (dma_vm s) = C \<and> frame_of (memory_context.physical_base (kernel_context (dma_vm s))) = C
     \<and> (\<exists>b. region_buddy (phys_dma_region (vm_phys (dma_vm s))) = Some b
        \<and> (\<forall>f \<in> tables {510} (frames (dma_vm s)) 3 C. 4096 * unat f \<notin> free_area (unat (min_order b)) (unat (max_order b)) fl))
     \<and> unat (region_size (phys_dma_region (vm_phys (dma_vm s)))) \<le> 2 ^ 52 \<and> unat VMA_BASE \<le> unat (phys_page_virt (dma_vm s))
     \<and> valloc_ready (dma_region s) \<and> unat DMA_START \<le> unat (valloc_mark (dma_region s)) \<and> valloc_limit (dma_region s) \<le> unat DMA_END"

lemma dma_size:
  assumes "0 < unat sz0" and "unat sz0 \<le> 0x100000"
  shows "4096 \<le> unat (ROUND_UP sz0 0x1000)" and "unat sz0 \<le> unat (ROUND_UP sz0 0x1000)" and "unat (ROUND_UP sz0 0x1000) < 2 ^ 48"
    and "unat (ROUND_UP sz0 0x1000) = 4096 * page_count (ROUND_UP sz0 0x1000)"
proof -
  note R = ROUND_UP_props [of "0x1000 :: u64" sz0]
  have "x \<le> ROUND_UP x 0x1000 \<and> unat (ROUND_UP x 0x1000) < unat x + 4096 \<and> 4096 dvd unat (ROUND_UP x 0x1000)" if "x = sz0" for x
    using R assms that by simp
  then have *: "sz0 \<le> ROUND_UP sz0 0x1000" "unat (ROUND_UP sz0 0x1000) < unat sz0 + 4096" "4096 dvd unat (ROUND_UP sz0 0x1000)" by auto
  then show "unat sz0 \<le> unat (ROUND_UP sz0 0x1000)" by (simp add: word_le_nat_alt)
  with * assms show "4096 \<le> unat (ROUND_UP sz0 0x1000)" "unat (ROUND_UP sz0 0x1000) < 2 ^ 48" by (auto dest: dvd_imp_le)
  from *(3) show "unat (ROUND_UP sz0 0x1000) = 4096 * page_count (ROUND_UP sz0 0x1000)" by (auto simp: page_count_def elim!: dvdE)
qed


text \<open>The block taken for the device is apart from the tables and from the pages the tables will come from.\<close>

lemma dma_taken:
  assumes R: "dma_ready fl H s C F" and b: "region_buddy (phys_dma_region (vm_phys (dma_vm s))) = Some b"
    and j: "alloc_order b sz \<le> j" "j \<le> unat (max_order b)" "fl j \<noteq> []"
  shows "\<exists>a v fl'. vm_physical_alloc (dma_vm s) sz PHYS_DMA = Inr (a, v) \<and> 2 ^ alloc_order b sz dvd unat a
    \<and> (alloc_order b sz, a) \<notin> H \<and> extent (alloc_order b sz, a) \<subseteq> {..< unat (region_size (phys_dma_region (vm_phys v)))}
    \<and> region_size (phys_dma_region (vm_phys v)) = region_size (phys_dma_region (vm_phys (dma_vm s)))
    \<and> (\<forall>f. f \<in> tables {510} (frames v) 3 C \<or> 4096 * unat f \<in> F \<longrightarrow> 4096 * unat f \<notin> extent (alloc_order b sz, a))
    \<and> dma_ready fl' (insert (alloc_order b sz, a) H) (s\<lparr>dma_vm := v\<rparr>) C F \<and> phys_page_virt v = phys_page_virt (dma_vm s)
    \<and> (\<forall>w. i4 w \<noteq> 510 \<longrightarrow> path_of w \<noteq> path_of (phys_page_virt (dma_vm s)) \<longrightarrow> hw_walk (frames v) C w = hw_walk (frames (dma_vm s)) C w)"
proof -
  let ?v = "dma_vm s" and ?n = "alloc_order b sz" and ?A = "free_area (unat (min_order b)) (unat (max_order b))"
  let ?m = "(vm_kmem (dma_vm s))\<lparr>window_maps := []\<rparr>"
  have sup: "supplied fl H ?v C F" using R by (simp add: dma_ready_def)
  then have ps: "page_source fl H ?m (vm_phys ?v) F" by (simp add: supplied_def)
  obtain a m' P' b' fl' where A: "physical_alloc ?m (vm_phys ?v) sz PHYS_DMA = Inr (a, m', P')" "2 ^ ?n dvd unat a" "(?n, a) \<notin> H"
      "extent (?n, a) \<subseteq> ?A fl" "phys_dma_region P' = (phys_dma_region (vm_phys ?v))\<lparr>region_buddy := Some b'\<rparr>"
      "min_order b' = min_order b" "max_order b' = max_order b" "?A fl' = ?A fl - extent (?n, a)" "page_source fl' (insert (?n, a) H) m' P' F"
    using page_source_dma [OF ps b j] by blast
  obtain TA TB T where w: "window_ready ?v C TA TB T" "\<forall>f \<in> {TA, TB, T}. 4096 * unat f \<notin> F" using sup by (auto simp: supplied_def)
  have sp: "space ?v C" using sup by (simp add: supplied_def)
  obtain fr' where V: "vm_physical_alloc ?v sz PHYS_DMA = Inr (a, ?v\<lparr>frames := fr', vm_kmem := m', vm_phys := P'\<rparr>)"
      "space (?v\<lparr>frames := fr', vm_kmem := m', vm_phys := P'\<rparr>) C" "window_ready (?v\<lparr>frames := fr', vm_kmem := m', vm_phys := P'\<rparr>) C TA TB T"
      "tables {510} fr' 3 C = tables {510} (frames ?v) 3 C"
      "\<forall>w. i4 w \<noteq> 510 \<longrightarrow> path_of w \<noteq> path_of (phys_page_virt ?v) \<longrightarrow> hw_walk fr' C w = hw_walk (frames ?v) C w"
    using window_moves [OF sp w(1) A(1)] by blast
  let ?s = "?v\<lparr>frames := fr', vm_kmem := m', vm_phys := P'\<rparr>"
  have below: "extent (?n, a) \<subseteq> {..< unat (region_size (phys_dma_region (vm_phys ?v)))}"
    using A(4) page_source_bounds(2) [OF ps b] by blast
  have tab: "4096 * unat f \<notin> ?A fl" if "f \<in> tables {510} fr' 3 C" for f using R b that by (auto simp: dma_ready_def V(4))
  have "4096 * unat f \<notin> extent (?n, a)" if "f \<in> tables {510} fr' 3 C \<or> 4096 * unat f \<in> F" for f
    using that tab A(4) below page_source_bounds(1) [OF ps] by fastforce
  moreover have "dma_ready fl' (insert (?n, a) H) (s\<lparr>dma_vm := ?s\<rparr>) C F"
  proof -
    have "current ?s = current ?v" by (simp add: current_def)
    then have "supplied fl' (insert (?n, a) H) ?s C F"
      using sup A(9) V(2,3,4) w(2) unfolding supplied_def by auto
    then show ?thesis using R A(5-8) tab by (simp add: dma_ready_def current_def)
  qed
  ultimately show ?thesis using A(2,3,5) below V(1,5) by (intro exI [of _ a] exI [of _ ?s] exI [of _ fl']) simp
qed

lemma dma_range:
  assumes R: "dma_ready fl H s C F" and room: "unat (valloc_mark (dma_region s)) + unat sz \<le> valloc_limit (dma_region s)"
    and sz: "unat sz = 4096 * page_count sz" and k: "k < page_count sz"
  shows "i4 (valloc_mark (dma_region s) + of_nat k * PAGE_SIZE) \<noteq> 510
    \<and> path_of (valloc_mark (dma_region s) + of_nat k * PAGE_SIZE) \<noteq> path_of (phys_page_virt (dma_vm s))"
proof -
  let ?v = "valloc_mark (dma_region s)"
  have l: "unat ?v + 4096 * k < unat DMA_END" "unat DMA_START \<le> unat ?v" using R room sz k by (auto simp: dma_ready_def)
  then have "unat ?v + 4096 * k < 2 ^ 64" by (simp add: DMA_END_def)
  then have "unat (?v + of_nat k * PAGE_SIZE) = unat ?v + 4096 * k"
    by (simp add: unat_word_ariths PAGE_SIZE_def unat_of_nat take_bit_nat_eq_self)
  with l have "unat DMA_START \<le> unat (?v + of_nat k * PAGE_SIZE)" "unat (?v + of_nat k * PAGE_SIZE) < unat DMA_END" by simp_all
  then show ?thesis using dma_window dma_below_kernel R by (simp add: dma_ready_def)
qed

lemma alloc_order_covers:
  assumes "0 < unat sz"
  shows "unat sz \<le> 2 ^ alloc_order b sz"
proof -
  have "sz \<noteq> 0" using assms by auto
  then have "unat sz \<le> 2 ^ unat (log_2 sz)" using log_2_least_exponent by blast
  moreover have "unat (log_2 sz) \<le> alloc_order b sz" by (simp add: alloc_order_def)
  ultimately show ?thesis by (meson le_trans one_le_numeral power_increasing)
qed

lemma block_apart:
  assumes "2 ^ alloc_order b sz dvd unat a" and "4096 \<le> unat sz" and "unat sz = 4096 * page_count sz"
    and "extent (alloc_order b sz, a) \<subseteq> {..< 2 ^ 52}" and "k < page_count sz"
  shows "4096 * unat (frame_of (a + of_nat k * PAGE_SIZE)) \<in> extent (alloc_order b sz, a)"
proof (rule block_frame [OF _ assms(1,4)])
  have l: "unat sz \<le> 2 ^ alloc_order b sz" by (rule alloc_order_covers) (use assms(2) in simp)
  then show "4096 * k < 2 ^ alloc_order b sz" using assms(3,5) by linarith
  have "(2 :: nat) ^ 12 \<le> 2 ^ alloc_order b sz" using l assms(2) by simp
  then show "12 \<le> alloc_order b sz" by (rule power_le_imp_le_exp [rotated]) simp
qed

text \<open>Mapping and clearing a block that is apart from the tables and from the supply of new ones.\<close>

lemma dma_map_zero:
  assumes R: "dma_ready fl H s C F"
    and win: "\<forall>k < page_count sz. i4 (v + of_nat k * PAGE_SIZE) \<noteq> 510 \<and> path_of (v + of_nat k * PAGE_SIZE) \<noteq> path_of (phys_page_virt (dma_vm s))"
    and room: "12288 * page_count sz \<le> card F" "unat sz \<le> 2 ^ 48"
    and blk: "\<forall>k < page_count sz. 4096 * unat (frame_of (a + of_nat k * PAGE_SIZE)) \<in> E"
    and apart: "\<forall>f. f \<in> tables {510} (frames (dma_vm s)) 3 C \<or> 4096 * unat f \<in> F \<longrightarrow> 4096 * unat f \<notin> E"
  shows "\<exists>v2 v3 F'. virtual_map (dma_vm s) (Some (kernel_context (dma_vm s))) v a sz flags = Some (Inr v2) \<and> zero_pages (page_count sz) v v2 = Inr v3
    \<and> dma_ready fl H (s\<lparr>dma_vm := v3\<rparr>) C F'
    \<and> phys_dma_region (vm_phys v3) = phys_dma_region (vm_phys (dma_vm s)) \<and> phys_page_virt v3 = phys_page_virt (dma_vm s)
    \<and> (\<forall>k < page_count sz. hw_walk (frames v3) C (v + of_nat k * PAGE_SIZE) = Some (frame_of (a + of_nat k * PAGE_SIZE))
        \<and> frames v3 (frame_of (a + of_nat k * PAGE_SIZE)) = (\<lambda>_. zero_page))
    \<and> (\<forall>w. i4 w \<noteq> 510 \<longrightarrow> path_of w \<noteq> path_of (phys_page_virt (dma_vm s)) \<longrightarrow> (\<forall>k < page_count sz. path_of w \<noteq> path_of (v + of_nat k * PAGE_SIZE)) \<longrightarrow>
        hw_walk (frames v3) C w = hw_walk (frames (dma_vm s)) C w)"
proof -
  let ?pc = "page_count sz" and ?t = "\<lambda>s. tables {510} (frames s) 3 C" and ?g = "\<lambda>k. frame_of (a + of_nat k * PAGE_SIZE)" and ?v = "dma_vm s"
  have sup: "supplied fl H ?v C F" "C = frame_of (memory_context.physical_base (kernel_context ?v))" "current ?v = C"
    using R by (simp_all add: dma_ready_def)
  obtain v2 F' where V: "virtual_map ?v (Some (kernel_context ?v)) v a sz flags = Some (Inr v2)" "supplied fl H v2 C F'" "kernel_context v2 = kernel_context ?v" "phys_page_virt v2 = phys_page_virt ?v"
      "phys_dma_region (vm_phys v2) = phys_dma_region (vm_phys ?v)" "?t v2 \<subseteq> ?t ?v \<union> {f. 4096 * unat f \<in> F}"
      "\<forall>k < ?pc. hw_walk (frames v2) C (v + of_nat k * PAGE_SIZE) = Some (?g k)"
      "\<forall>w. i4 w \<noteq> 510 \<longrightarrow> path_of w \<noteq> path_of (phys_page_virt ?v) \<longrightarrow> (\<forall>k < ?pc. path_of w \<noteq> path_of (v + of_nat k * PAGE_SIZE)) \<longrightarrow> hw_walk (frames v2) C w = hw_walk (frames ?v) C w"
    using virtual_map_supplied [OF sup(1,2) win room, of a flags] by blast
  have out: "?g k \<notin> ?t v2" if "k < ?pc" for k using blk apart V(6) that by blast
  let ?fr = "\<lambda>f. if f \<in> ?g ` {..< ?pc} then (\<lambda>_. zero_page) else frames v2 f"
  let ?v3 = "v2\<lparr>frames := ?fr\<rparr>"
  have cur: "current v2 = C" "space v2 C" using V(2,3) sup(3) by (simp_all add: supplied_def current_def)
  have Z: "zero_pages ?pc v v2 = Inr ?v3"
    by (rule zero_pages_frames [OF cur(2,1)]) (use win V(7) out in auto)
  have same: "?fr f = frames v2 f" if "f \<in> ?t v2" for f using that out by auto
  note K = space_overwrite [where fr' = ?fr, OF cur(2,1) same]
  obtain b where b: "region_buddy (phys_dma_region (vm_phys ?v)) = Some b"
      "\<forall>f \<in> ?t ?v. 4096 * unat f \<notin> free_area (unat (min_order b)) (unat (max_order b)) fl"
    using R by (auto simp: dma_ready_def)
  have "page_source fl H (vm_kmem ?v) (vm_phys ?v) F" using sup(1) by (simp add: supplied_def)
  note B = page_source_bounds(1) [OF this] page_source_bounds(2) [OF this b(1)]
  have "4096 * unat f \<notin> free_area (unat (min_order b)) (unat (max_order b)) fl" if "f \<in> ?t v2" for f
    using that V(6) b(2) B by fastforce
  moreover have "supplied fl H ?v3 C F'" by (rule supplied_overwrite [OF V(2) cur(1) same])
  ultimately have "dma_ready fl H (s\<lparr>dma_vm := ?v3\<rparr>) C F'"
    using R b(1) cur V(3-5) K(2) by (simp add: dma_ready_def current_def)
  then show ?thesis using V(1,4,5,7,8) Z K(3) win by (intro exI [of _ v2] exI [of _ ?v3] exI [of _ F']) auto
qed

lemma dma_allocated:
  assumes R: "dma_ready fl H s C F" and b: "region_buddy (phys_dma_region (vm_phys (dma_vm s))) = Some b"
    and sz: "0 < unat sz0" "unat sz0 \<le> 0x100000" "sz = ROUND_UP sz0 0x1000"
    and j: "alloc_order b sz \<le> j" "j \<le> unat (max_order b)" "fl j \<noteq> []"
    and room: "unat (valloc_mark (dma_region s)) + unat sz \<le> valloc_limit (dma_region s)" "12288 * page_count sz \<le> card F"
    and v: "v = valloc_mark (dma_region s)"
  shows "\<exists>a s' fl' F'. dma_alloc True s sz0 = Some (Inr (\<lparr>dma_physical_base = a, dma_virtual_base = v, dma_extent = sz\<rparr>, s')) \<and> sz0 \<le> sz
    \<and> unat sz \<le> 2 ^ alloc_order b sz \<and> (alloc_order b sz, a) \<notin> H \<and> extent (alloc_order b sz, a) \<subseteq> {..< unat (region_size (phys_dma_region (vm_phys (dma_vm s))))}
    \<and> 2 ^ alloc_order b sz dvd unat a
    \<and> dma_ready fl' (insert (alloc_order b sz, a) H) s' C F' \<and> valloc_mark (dma_region s') = v + sz \<and> phys_page_virt (dma_vm s') = phys_page_virt (dma_vm s)
    \<and> (\<forall>k < page_count sz. hw_walk (frames (dma_vm s')) C (v + of_nat k * PAGE_SIZE) = Some (frame_of (a + of_nat k * PAGE_SIZE))
        \<and> frames (dma_vm s') (frame_of (a + of_nat k * PAGE_SIZE)) = (\<lambda>_. zero_page))
    \<and> (\<forall>w. i4 w \<noteq> 510 \<longrightarrow> path_of w \<noteq> path_of (phys_page_virt (dma_vm s)) \<longrightarrow> (\<forall>k < page_count sz. path_of w \<noteq> path_of (v + of_nat k * PAGE_SIZE)) \<longrightarrow>
        hw_walk (frames (dma_vm s')) C w = hw_walk (frames (dma_vm s)) C w)"
proof -
  let ?n = "alloc_order b sz"
  note S = dma_size [OF sz(1,2), folded sz(3)]
  obtain a v1 fl' where A: "vm_physical_alloc (dma_vm s) sz PHYS_DMA = Inr (a, v1)" "2 ^ ?n dvd unat a" "(?n, a) \<notin> H"
      "extent (?n, a) \<subseteq> {..< unat (region_size (phys_dma_region (vm_phys v1)))}" "region_size (phys_dma_region (vm_phys v1)) = region_size (phys_dma_region (vm_phys (dma_vm s)))"
      "\<forall>f. f \<in> tables {510} (frames v1) 3 C \<or> 4096 * unat f \<in> F \<longrightarrow> 4096 * unat f \<notin> extent (?n, a)"
      "dma_ready fl' (insert (?n, a) H) (s\<lparr>dma_vm := v1\<rparr>) C F" "phys_page_virt v1 = phys_page_virt (dma_vm s)"
      "\<forall>w. i4 w \<noteq> 510 \<longrightarrow> path_of w \<noteq> path_of (phys_page_virt (dma_vm s)) \<longrightarrow> hw_walk (frames v1) C w = hw_walk (frames (dma_vm s)) C w"
    using dma_taken [OF R b j] by blast
  have ready: "valloc_ready (dma_region s)" using R by (simp add: dma_ready_def)
  obtain r' where r': "valloc_alloc (dma_region s) sz = Inr (v, r')" "valloc_ready r'" "valloc_limit r' = valloc_limit (dma_region s)" "valloc_mark r' = v + sz"
    using va.granted [OF ready room(1)] v by blast
  have up: "unat (v + sz) = unat v + unat sz" using va.mark_up [OF ready room(1)] v by simp
  have win: "\<forall>k < page_count sz. i4 (v + of_nat k * PAGE_SIZE) \<noteq> 510 \<and> path_of (v + of_nat k * PAGE_SIZE) \<noteq> path_of (phys_page_virt (dma_vm (s\<lparr>dma_vm := v1\<rparr>)))"
    using dma_range [OF R room(1) S(4)] v A(8) by simp
  have "unat (region_size (phys_dma_region (vm_phys v1))) \<le> 2 ^ 52" using A(5) R by (simp add: dma_ready_def)
  then have E: "extent (?n, a) \<subseteq> {..< 2 ^ 52}" using A(4) by (meson lessThan_subset_iff order_trans)
  have blk: "\<forall>k < page_count sz. 4096 * unat (frame_of (a + of_nat k * PAGE_SIZE)) \<in> extent (?n, a)" using block_apart [OF A(2) S(1,4) E] by blast
  have room2: "unat sz \<le> 2 ^ 48" using S(3) by simp
  have apart: "\<forall>f. f \<in> tables {510} (frames (dma_vm (s\<lparr>dma_vm := v1\<rparr>))) 3 C \<or> 4096 * unat f \<in> F \<longrightarrow> 4096 * unat f \<notin> extent (?n, a)" using A(6) by simp
  obtain v2 v3 F' where V: "virtual_map v1 (Some (kernel_context v1)) v a sz (PAGE_PRESENT OR PAGE_WRITABLE) = Some (Inr v2)"
      "zero_pages (page_count sz) v v2 = Inr v3" "dma_ready fl' (insert (?n, a) H) (s\<lparr>dma_vm := v3\<rparr>) C F'" "phys_page_virt v3 = phys_page_virt v1"
      "\<forall>k < page_count sz. hw_walk (frames v3) C (v + of_nat k * PAGE_SIZE) = Some (frame_of (a + of_nat k * PAGE_SIZE)) \<and> frames v3 (frame_of (a + of_nat k * PAGE_SIZE)) = (\<lambda>_. zero_page)"
      "\<forall>w. i4 w \<noteq> 510 \<longrightarrow> path_of w \<noteq> path_of (phys_page_virt v1) \<longrightarrow> (\<forall>k < page_count sz. path_of w \<noteq> path_of (v + of_nat k * PAGE_SIZE)) \<longrightarrow> hw_walk (frames v3) C w = hw_walk (frames v1) C w"
    using dma_map_zero [OF A(7) win room(2) room2 blk apart, of "PAGE_PRESENT OR PAGE_WRITABLE"] by auto
  let ?s' = "\<lparr>dma_vm = v3, dma_region = r'\<rparr>"
  have "unat sz div 4096 = page_count sz" using S(4) by simp
  then have "dma_alloc True s sz0 = Some (Inr (\<lparr>dma_physical_base = a, dma_virtual_base = v, dma_extent = sz\<rparr>, ?s'))"
    using A(1) r'(1) V(1,2) by (simp add: dma_alloc_def sz(3) [symmetric] Let_def)
  moreover have "dma_ready fl' (insert (?n, a) H) ?s' C F'" using V(3) R r'(2-4) up v by (simp add: dma_ready_def)
  ultimately show ?thesis using A(2-5,8,9) r'(4) V(4-6) S(2) alloc_order_covers [of sz b] S(1)
    by (intro exI [of _ a] exI [of _ ?s'] exI [of _ fl'] exI [of _ F']) (auto simp: word_le_nat_alt)
qed


text \<open>A kernel with one free page in the DMA zone and four in the other, and the whole window.\<close>

definition demo_dma_buddy :: buddy where
  "demo_dma_buddy = demo_buddy\<lparr>orders := (replicate 64 demo_order)[12 := demo_order\<lparr>order_free := \<lparr>stack_size = 1, stack_top = 0x2000\<rparr>\<rparr>]\<rparr>"

definition demo_dma :: dma where
  "demo_dma = \<lparr>dma_vm = demo_vm3 (demo_dma_region\<lparr>region_buddy := Some demo_dma_buddy\<rparr>), dma_region = valloc_create True DMA_START 0x100000\<rparr>"

abbreviation demo_dma_free :: "nat \<Rightarrow> addr_t list" where
  "demo_dma_free \<equiv> (\<lambda>_. [])(12 := [0x2000])"

lemma demo_dma_inv: "buddy_inv demo_mem demo_dma_buddy demo_dma_free {}" and demo_dma_area: "free_area 12 13 demo_dma_free = {0x2000 ..< 0x3000}"
proof -
  have fs: "free_set 12 13 demo_dma_free = {(12, 0x2000)}" by (auto simp: free_set_def split: if_splits)
  have le: "12 \<le> k \<and> k \<le> 13 \<longleftrightarrow> k = 12 \<or> k = 13" for k :: nat by auto
  have "page_of 0x2000 = 0x2000" by (rule page_of_aligned [of 12]) simp_all
  then show "buddy_inv demo_mem demo_dma_buddy demo_dma_free {}"
    unfolding buddy_inv_def orders_inv_def block_ok_def
    by (simp add: demo_buddy_def demo_dma_buddy_def fs le) (auto simp: demo_order_def stack_repr_def demo_mem_def)
  show "free_area 12 13 demo_dma_free = {0x2000 ..< 0x3000}" by (simp add: free_area_def fs extent_def)
qed

lemma demo_dma_ready: "dma_ready demo_dma_free {} demo_dma 1 {0x4000 ..< 0x8000}"
proof -
  let ?R = "demo_dma_region\<lparr>region_buddy := Some demo_dma_buddy\<rparr>"
  have o: "min_order demo_dma_buddy = 12" "max_order demo_dma_buddy = 13" by (simp_all add: demo_dma_buddy_def demo_buddy_def)
  have "covered 12 13 demo_dma_free {} = {0x2000 ..< 0x3000}" using demo_dma_area by (simp add: covered_def free_area_def)
  then have "zone ?R demo_mem demo_dma_free {} {..< unat (region_size ?R)}"
    using demo_dma_inv o by (simp add: zone_def demo_dma_region_def) auto
  from demo_supplied [OF this] have "supplied demo_dma_free {} (dma_vm demo_dma) 1 {0x4000 ..< 0x8000}" by (simp add: demo_dma_def demo_dma_region_def)
  moreover have "frames (dma_vm demo_dma) = frames demo_vm" "kernel_context (dma_vm demo_dma) = demo_context" "phys_dma_region (vm_phys (dma_vm demo_dma)) = ?R"
    by (simp_all add: demo_dma_def demo_vm3_def demo_phys_def demo_vm_def)
  moreover have "unat VMA_BASE \<le> unat (phys_page_virt (dma_vm demo_dma))" by (simp add: demo_dma_def demo_vm3_def demo_vm_def VMA_BASE_def)
  moreover have "valloc_ready (dma_region demo_dma) \<and> valloc_mark (dma_region demo_dma) = DMA_START \<and> valloc_limit (dma_region demo_dma) = unat DMA_END"
    by (simp add: demo_dma_def valloc_create_def valloc_defs DMA_START_def DMA_END_def)
  ultimately show ?thesis
    using demo_tables demo_dma_area o
    by (simp add: dma_ready_def current_def demo_context_def frame_of_def demo_dma_region_def DMA_START_def DMA_END_def)
qed


end
