(* ===== verification/Selftest.thy ===== *)
theory Selftest
  imports Fault Heap_Correct Vfs Paging
begin

text \<open>
  \<open>tests\<close>: the kernel's self tests, run at the end of the boot. Each is a program over the modelled components (the physical
  memory manager, the heap, the hash map, the files) that checks what they return and reports on the log. The properties say
  for which states of the kernel every check passes, and with what text on the log.
\<close>

section \<open>Definitions\<close>

subsection \<open>tests.c and tests.h\<close>

text \<open>The counters \<open>current_test\<close>, and the log the reports go to.\<close>

record test_state =
  t_pass :: u8
  t_fail :: u8
  t_log :: klog

definition test_printk :: "string \<Rightarrow> c_int \<Rightarrow> string \<Rightarrow> parg list \<Rightarrow> test_state \<Rightarrow> test_state res option" where
  "test_printk junk level format args T =
     bind_ro (printk junk (t_log T) level format args) (\<lambda>(n, k). Some (Inr (T\<lparr>t_log := k\<rparr>)))"

definition pass :: "string \<Rightarrow> test_state \<Rightarrow> test_state res option" where
  "pass junk T = test_printk junk CONTINUE (CHR 0x1B # ''[32mPASS'' @ [CHR 0x0A]) [] (T\<lparr>t_pass := t_pass T + 1\<rparr>)"

definition fail :: "string \<Rightarrow> test_state \<Rightarrow> test_state res option" where
  "fail junk T = test_printk junk CONTINUE (CHR 0x1B # ''[31mFAIL'' @ [CHR 0x0A]) [] (T\<lparr>t_fail := t_fail T + 1\<rparr>)"

definition test_start :: "string \<Rightarrow> string \<Rightarrow> test_state \<Rightarrow> test_state res option" where
  "test_start junk msg T = test_printk junk DEBUG (''Testing: %s'' @ [CHR 0x0A]) [Str msg] (T\<lparr>t_pass := 0, t_fail := 0\<rparr>)"

definition test_print :: "string \<Rightarrow> string \<Rightarrow> test_state \<Rightarrow> test_state res option" where
  "test_print junk msg T = test_printk junk DEBUG ''    %s ... '' [Str msg] T"

definition test_finish :: "string \<Rightarrow> test_state \<Rightarrow> test_state res option" where
  "test_finish junk T = test_printk junk DEBUG (''Test results: %u passed, %u failed, %u total'' @ [CHR 0x0A])
     [Num (ucast (t_pass T)), Num (ucast (t_fail T)), Num (ucast (t_pass T) + ucast (t_fail T))] T"

text \<open>The macro \<open>ASSERT\<close>: the message is printed before the condition is evaluated. The condition may assign; what it leaves is
  the value next to the truth value.\<close>

definition ASSERT :: "string \<Rightarrow> string \<Rightarrow> (bool \<times> 'r) res option \<Rightarrow> test_state \<Rightarrow> ('r \<times> test_state) res option" where
  "ASSERT junk msg ev T =
     bind_ro (test_print junk msg T) (\<lambda>T. bind_ro ev (\<lambda>(x, r).
       bind_ro (if \<not> x then fail junk T else pass junk T) (\<lambda>T. Some (Inr (r, T)))))"

subsection \<open>mm/physical.c\<close>

definition test_physical :: "string \<Rightarrow> kmem \<times> physical \<Rightarrow> test_state \<Rightarrow> ((kmem \<times> physical) \<times> test_state) res option" where
  "test_physical junk s T =
     bind_ro (test_start junk ''Physical memory manager'' T) (\<lambda>T.
     bind_ro (Some (physical_alloc (fst s) (snd s) 0x1000 0)) (\<lambda>(oldptr, s).
     bind_ro (ASSERT junk ''Physical memory is allocated'' (Some (Inr (oldptr \<noteq> NULL, ()))) T) (\<lambda>(_, T).
     bind_ro (Some (physical_free (fst s) (snd s) oldptr 0x1000)) (\<lambda>s.
     bind_ro (ASSERT junk ''Physical memory returned is same as before''
       (Some (bind_res (physical_alloc (fst s) (snd s) 0x1000 0) (\<lambda>(ptr, s). Inr (oldptr = ptr, ptr, s)))) T) (\<lambda>((ptr, s), T).
     bind_ro (Some (physical_free (fst s) (snd s) ptr 0x1000)) (\<lambda>s.
     bind_ro (ASSERT junk ''Physical memory is DMA-capable with PHYS_DMA''
       (Some (bind_res (physical_alloc (fst s) (snd s) 0x1000 PHYS_DMA) (\<lambda>(ptr, s). Inr (ptr < DMA_MAX, ptr, s)))) T) (\<lambda>((ptr, s), T).
     bind_ro (Some (physical_free (fst s) (snd s) ptr 0x1000)) (\<lambda>s.
     bind_ro (ASSERT junk ''Physical memory is normal without PHYS_DMA''
       (Some (bind_res (physical_alloc (fst s) (snd s) 0x1000 0) (\<lambda>(ptr, s). Inr (ptr \<ge> DMA_MAX, ptr, s)))) T) (\<lambda>((ptr, s), T).
     bind_ro (Some (physical_free (fst s) (snd s) ptr 0x1000)) (\<lambda>s.
     bind_ro (ASSERT junk ''Large physical allocations return NULL''
       (Some (bind_res (physical_alloc (fst s) (snd s) 0xFFFFFFFFFFFFFFFF 0) (\<lambda>(ptr, s). Inr (ptr = NULL, s)))) T) (\<lambda>(s, T).
     bind_ro (test_finish junk T) (\<lambda>T. Some (Inr (s, T))))))))))))))"

subsection \<open>mm/heap.c\<close>

definition test_heap :: "string \<Rightarrow> heap \<Rightarrow> test_state \<Rightarrow> (heap \<times> test_state) res option" where
  "test_heap junk h T =
     bind_ro (test_start junk ''Heap memory manager'' T) (\<lambda>T.
     bind_ro (kmalloc h 0x1000) (\<lambda>(oldptr, h).
     bind_ro (ASSERT junk ''Memory is allocated'' (Some (Inr (oldptr \<noteq> NULL, ()))) T) (\<lambda>(_, T).
     let h = kfree h oldptr in
     bind_ro (ASSERT junk ''Same-sized memory returned is same as before''
       (bind_ro (kmalloc h 0x1000) (\<lambda>(ptr, h). Some (Inr (oldptr = ptr, ptr, h)))) T) (\<lambda>((ptr, h), T).
     let h = kfree h ptr in
     bind_ro (test_finish junk T) (\<lambda>T. Some (Inr (h, T)))))))"

subsection \<open>lib/hashmap.c\<close>

definition chars :: "string \<Rightarrow> u8 list" where
  "chars = map of_char"

text \<open>\<open>hashmap_create\<close> writes to what it allocates, so the pointer it returns is not NULL.\<close>

definition test_hashmap :: "string \<Rightarrow> (size_t \<Rightarrow> bool) \<Rightarrow> test_state \<Rightarrow> (hashmap \<times> test_state) res option" where
  "test_hashmap junk kzalloc_ok T =
     bind_ro (test_start junk ''Hashmap library'' T) (\<lambda>T.
     bind_ro (Some (hashmap_create kzalloc_ok 0x100)) (\<lambda>h.
     bind_ro (ASSERT junk ''Hashmap allocates'' (Some (Inr (True, ()))) T) (\<lambda>(_, T).
     bind_ro (ASSERT junk ''Hashmap sets data''
       (Some (bind_res (hashmap_set kzalloc_ok h (chars ''test'') 0xDEADBEEF) (\<lambda>(idx, h). Inr (idx \<noteq> 0, idx, h)))) T) (\<lambda>((idx, h), T).
     bind_ro (Some (hashmap_get h (chars ''test''))) (\<lambda>data.
     bind_ro (ASSERT junk ''Hashmap retrieves data'' (Some (Inr (data \<noteq> NULL, ()))) T) (\<lambda>(_, T).
     bind_ro (ASSERT junk ''Hashmap data is same as original'' (Some (Inr (data = 0xDEADBEEF, ()))) T) (\<lambda>(_, T).
     bind_ro (ASSERT junk ''Hashmap has different index for new value''
       (Some (bind_res (hashmap_set kzalloc_ok h (chars ''blah'') 0xDEADBEEF) (\<lambda>(i, h). Inr (i \<noteq> idx, h)))) T) (\<lambda>(h, T).
     bind_ro (test_finish junk T) (\<lambda>T. Some (Inr (h, T)))))))))))"

subsection \<open>fs/file.c\<close>

text \<open>\<open>!memcmp(buffer, s, n)\<close> for what a read stored at the start of an uninitialised buffer.\<close>

fun buffer_equals :: "u8 option list \<Rightarrow> u8 list \<Rightarrow> bool res" where
  "buffer_equals stored [] = Inr True"
| "buffer_equals (Some b # stored) (k # ks) = (if b \<noteq> k then Inr False else buffer_equals stored ks)"
| "buffer_equals _ (k # ks) = Inl Uninitialised"

text \<open>\<open>buffer\<close> and \<open>ahci_buffer\<close> are the addresses of the two arrays on the stack, of 1024 and 2048 bytes.\<close>

definition test_file ::
  "string \<Rightarrow> (addr_t \<Rightarrow> size_t \<Rightarrow> off_t \<Rightarrow> ssize_t \<times> u8 option list) \<Rightarrow> addr_t \<Rightarrow> addr_t \<Rightarrow> fs \<Rightarrow> test_state \<Rightarrow> (fs \<times> test_state) res option" where
  "test_file junk blk_read buffer ahci_buffer s T =
     (let hello = chars ''Hello world!'' @ [0]; string_len = 13 in
     bind_ro (test_start junk ''File operations'' T) (\<lambda>T.
     bind_ro (Some (file_open s ''/test'' 0 0)) (\<lambda>(file, s).
     bind_ro (ASSERT junk ''Opening non-existent file fails'' (Some (Inr (file = None, ()))) T) (\<lambda>(_, T).
     bind_ro (Some (file_open s ''/test'' O_CREAT S_IFDIR)) (\<lambda>(file, s).
     bind_ro (ASSERT junk ''Opening with O_CREAT creates file'' (Some (Inr (file \<noteq> None, ()))) T) (\<lambda>(_, T).
     bind_ro (Some (file_open s ''/test'' 0 0)) (\<lambda>(file, s).
     bind_ro (ASSERT junk ''Opening file again without O_CREAT succeeds'' (Some (Inr (file \<noteq> None, ()))) T) (\<lambda>(_, T).
     bind_ro (ASSERT junk ''Writing to file succeeds''
       (Some (bind_res (file_pwrite s file (Some hello) string_len) (\<lambda>(r, s). Inr (r = string_len, s)))) T) (\<lambda>(s, T).
     bind_ro (ASSERT junk ''Reading from file succeeds''
       (Some (bind_res (file_pread blk_read s file buffer string_len) (\<lambda>(r, bytes).
          if length bytes \<le> 1024 then Inr (r = string_len, bytes) else Inl OutOfBounds))) T) (\<lambda>(bytes, T).
     bind_ro (ASSERT junk ''Data read matches written''
       (Some (bind_res (buffer_equals bytes hello) (\<lambda>x. Inr (x, ())))) T) (\<lambda>(_, T).
     bind_ro (Some (file_open s ''/dev/sda'' 0 0)) (\<lambda>(file, s).
     bind_ro (ASSERT junk ''/dev/sda exists'' (Some (Inr (file \<noteq> None, ()))) T) (\<lambda>(_, T).
     bind_ro (ASSERT junk ''Reading from /dev/sda works''
       (Some (bind_res (file_pread blk_read s file ahci_buffer 2048) (\<lambda>(r, bytes).
          if length bytes \<le> 2048 then Inr (r \<noteq> 0, ()) else Inl OutOfBounds))) T) (\<lambda>(_, T).
     bind_ro (test_finish junk T) (\<lambda>T. Some (Inr (s, T)))))))))))))))))"

section \<open>What a test reports\<close>

text \<open>Unlike a line of its own level, a continued one has no prefix.\<close>

lemma printk_continue:
  assumes "log_ok ser vg k" and "printf_format junk format args = Some (Inr cs)" and "length cs < 1024" and "escapes_ok cs"
  shows "\<exists>n k'. printk junk k CONTINUE format args = Some (Inr (n, k')) \<and> log_ok ser vg k'
    \<and> log_text (log_consoles k') = log_text (log_consoles k) @ cs"
proof -
  have f: "vsnprintf junk PRINTK_MAX format args = Some (Inr (cs @ [CHR 0x00], of_nat (length cs)))"
    using vsnprintf_fits [OF assms(2)] assms(3) by (simp add: PRINTK_MAX_def)
  have "\<not> CONTINUE <s CONTINUE" by simp
  then show ?thesis
    using write_formatted_fits [OF _ f assms(3,4), of ser vg k] assms(1) by (auto simp: printk_def log_ok_def)
qed

definition count_text :: "nat \<Rightarrow> string" where
  "count_text n = decimal (of_nat n)"

definition verdict_text :: "bool \<Rightarrow> string" where
  "verdict_text x = (CHR 0x1B # (if x then ''[32mPASS'' else ''[31mFAIL'')) @ [CHR 0x0A]"

definition check_text :: "time_t \<Rightarrow> string \<times> bool \<Rightarrow> string" where
  "check_text t c = log_prefix DEBUG t @ ''    '' @ fst c @ '' ... '' @ verdict_text (snd c)"

abbreviation passed :: "(string \<times> bool) list \<Rightarrow> nat" where "passed cs \<equiv> length (filter snd cs)"
abbreviation failed :: "(string \<times> bool) list \<Rightarrow> nat" where "failed cs \<equiv> length (filter (Not \<circ> snd) cs)"

text \<open>A test with the given title has begun behind the text \<open>old\<close> of the log and made the checks \<open>cs\<close>.\<close>

definition reports :: "addr_t \<Rightarrow> addr_t \<Rightarrow> string \<Rightarrow> string \<Rightarrow> (string \<times> bool) list \<Rightarrow> test_state \<Rightarrow> bool" where
  "reports ser vg old title cs T \<longleftrightarrow> log_ok ser vg (t_log T) \<and> t_pass T = of_nat (passed cs) \<and> t_fail T = of_nat (failed cs)
     \<and> (\<exists>t tms. length tms = length cs \<and> log_text (log_consoles (t_log T))
          = old @ log_prefix DEBUG t @ ''Testing: '' @ title @ [CHR 0x0A] @ concat (map2 check_text tms cs))"

text \<open>The whole report of a test: its title, its checks in order, each with its verdict, and the counts.\<close>

definition test_report :: "addr_t \<Rightarrow> addr_t \<Rightarrow> string \<Rightarrow> (string \<times> bool) list \<Rightarrow> test_state \<Rightarrow> test_state \<Rightarrow> bool" where
  "test_report ser vg title cs T T' \<longleftrightarrow> log_ok ser vg (t_log T') \<and> (\<exists>t tms t'. length tms = length cs \<and>
     log_text (log_consoles (t_log T')) = log_text (log_consoles (t_log T)) @ log_prefix DEBUG t @ ''Testing: '' @ title @ [CHR 0x0A]
       @ concat (map2 check_text tms cs) @ log_prefix DEBUG t' @ ''Test results: '' @ count_text (passed cs) @ '' passed, ''
       @ count_text (failed cs) @ '' failed, '' @ count_text (length cs) @ '' total'' @ [CHR 0x0A])"

definition short_text :: "string \<Rightarrow> bool" where
  "short_text s \<longleftrightarrow> length s < 900 \<and> CHR 0x1B \<notin> set s"

lemma test_printk_debug:
  assumes "log_ok ser vg (t_log T)" and "width_ends junk" and "printf_format junk format args = Some (Inr cs)"
    and "length cs < 1024" and "CHR 0x1B \<notin> set cs"
  shows "\<exists>k t. test_printk junk DEBUG format args T = Some (Inr (T\<lparr>t_log := k\<rparr>)) \<and> log_ok ser vg k
    \<and> log_text (log_consoles k) = log_text (log_consoles (t_log T)) @ log_prefix DEBUG t @ cs"
proof -
  have "unat DEBUG < 4" by (simp add: DEBUG_def)
  then obtain n k t where "printk junk (t_log T) DEBUG format args = Some (Inr (n, k))" "log_ok ser vg k"
      "log_text (log_consoles k) = log_text (log_consoles (t_log T)) @ log_prefix DEBUG t @ cs"
    using printk_text [OF assms(1) _ assms(2-4) escapes_ok_no_escape [OF assms(5)]] by blast
  then show ?thesis by (auto simp: test_printk_def)
qed

lemmas format_eval = parse_spec_def is_digit_def of_char_def convert_def conv_num_def num_arg_def puts_def Let_def

lemma test_start_step:
  assumes "log_ok ser vg (t_log T)" and "width_ends junk" and "short_text title"
    and "\<And>T'. reports ser vg (log_text (log_consoles (t_log T))) title [] T' \<Longrightarrow> \<exists>s T''. K T' = Some (Inr (s, T'')) \<and> Q s T''"
  shows "\<exists>s T''. bind_ro (test_start junk title T) K = Some (Inr (s, T'')) \<and> Q s T''"
proof -
  have p: "printf_format junk (''Testing: %s'' @ [CHR 0x0A]) [Str title] = Some (Inr (''Testing: '' @ title @ [CHR 0x0A]))"
    by (simp add: format_eval)
  have o: "log_ok ser vg (t_log (T\<lparr>t_pass := 0, t_fail := 0\<rparr>))" using assms(1) by simp
  have l: "length (''Testing: '' @ title @ [CHR 0x0A]) < 1024" "CHR 0x1B \<notin> set (''Testing: '' @ title @ [CHR 0x0A])"
    using assms(3) by (simp_all add: short_text_def)
  obtain k t where k: "test_printk junk DEBUG (''Testing: %s'' @ [CHR 0x0A]) [Str title] (T\<lparr>t_pass := 0, t_fail := 0\<rparr>)
        = Some (Inr (T\<lparr>t_pass := 0, t_fail := 0, t_log := k\<rparr>))" "log_ok ser vg k"
      "log_text (log_consoles k) = log_text (log_consoles (t_log T)) @ log_prefix DEBUG t @ ''Testing: '' @ title @ [CHR 0x0A]"
    using test_printk_debug [OF o assms(2) p l] by auto
  then have "reports ser vg (log_text (log_consoles (t_log T))) title [] (T\<lparr>t_pass := 0, t_fail := 0, t_log := k\<rparr>)"
    unfolding reports_def by (intro conjI exI [of _ t] exI [of _ "[]"]) simp_all
  then show ?thesis using assms(4) k(1) by (simp add: test_start_def)
qed

lemma verdict_ok:
  assumes "log_ok ser vg (t_log T)"
  shows "\<exists>k. (if \<not> x then fail junk T else pass junk T)
      = Some (Inr (T\<lparr>t_pass := t_pass T + (if x then 1 else 0), t_fail := t_fail T + (if x then 0 else 1), t_log := k\<rparr>))
    \<and> log_ok ser vg k \<and> log_text (log_consoles k) = log_text (log_consoles (t_log T)) @ verdict_text x"
proof -
  have p: "printf_format junk (verdict_text x) [] = Some (Inr (verdict_text x))" for x
    by (simp add: verdict_text_def)
  have e: "escapes_ok (verdict_text x)" "length (verdict_text x) < 1024" by (simp_all add: verdict_text_def)
  obtain n k where "printk junk (t_log T) CONTINUE (verdict_text x) [] = Some (Inr (n, k))" "log_ok ser vg k"
      "log_text (log_consoles k) = log_text (log_consoles (t_log T)) @ verdict_text x"
    using printk_continue [OF assms p e(2,1)] by blast
  then show ?thesis by (cases x) (auto simp: pass_def fail_def test_printk_def verdict_text_def)
qed

lemma ASSERT_step:
  assumes r: "reports ser vg old title cs T" and w: "width_ends junk" and m: "short_text msg" and ev: "ev = Some (Inr (x, v))"
    and K: "\<And>T'. reports ser vg old title (cs @ [(msg, x)]) T' \<Longrightarrow> \<exists>s T''. K (v, T') = Some (Inr (s, T'')) \<and> Q s T''"
  shows "\<exists>s T''. bind_ro (ASSERT junk msg ev T) K = Some (Inr (s, T'')) \<and> Q s T''"
proof -
  obtain t tms where R: "log_ok ser vg (t_log T)" "t_pass T = of_nat (passed cs)" "t_fail T = of_nat (failed cs)" "length tms = length cs"
      "log_text (log_consoles (t_log T)) = old @ log_prefix DEBUG t @ ''Testing: '' @ title @ [CHR 0x0A] @ concat (map2 check_text tms cs)"
    using r by (auto simp: reports_def)
  have p: "printf_format junk ''    %s ... '' [Str msg] = Some (Inr (''    '' @ msg @ '' ... ''))" by (simp add: format_eval)
  have l: "length (''    '' @ msg @ '' ... '') < 1024" "CHR 0x1B \<notin> set (''    '' @ msg @ '' ... '')" using m by (simp_all add: short_text_def)
  obtain k1 t1 where k1: "test_print junk msg T = Some (Inr (T\<lparr>t_log := k1\<rparr>))" "log_ok ser vg k1"
      "log_text (log_consoles k1) = log_text (log_consoles (t_log T)) @ log_prefix DEBUG t1 @ ''    '' @ msg @ '' ... ''"
    using test_printk_debug [OF R(1) w p l] by (auto simp: test_print_def)
  obtain k2 where k2: "(if \<not> x then fail junk (T\<lparr>t_log := k1\<rparr>) else pass junk (T\<lparr>t_log := k1\<rparr>))
      = Some (Inr (T\<lparr>t_pass := t_pass T + (if x then 1 else 0), t_fail := t_fail T + (if x then 0 else 1), t_log := k2\<rparr>))"
      "log_ok ser vg k2" "log_text (log_consoles k2) = log_text (log_consoles k1) @ verdict_text x"
    using verdict_ok [of ser vg "T\<lparr>t_log := k1\<rparr>" x junk] k1(2) by auto
  let ?T = "T\<lparr>t_pass := t_pass T + (if x then 1 else 0), t_fail := t_fail T + (if x then 0 else 1), t_log := k2\<rparr>"
  have "reports ser vg old title (cs @ [(msg, x)]) ?T"
    unfolding reports_def
    by (intro conjI exI [of _ t] exI [of _ "tms @ [t1]"]) (use R(2-5) k1(3) k2(2,3) check_text_def [of t1 "(msg, x)"] in simp_all)
  moreover have "ASSERT junk msg ev T = Some (Inr (v, ?T))" using k1(1) k2(1) by (simp add: ASSERT_def ev)
  ultimately show ?thesis using K by simp
qed

lemma test_finish_step:
  assumes r: "reports ser vg (log_text (log_consoles (t_log T0))) title cs T" and w: "width_ends junk" and n: "length cs < 100"
    and Q: "\<And>T'. test_report ser vg title cs T0 T' \<Longrightarrow> Q s T'"
  shows "\<exists>s' T''. bind_ro (test_finish junk T) (\<lambda>T. Some (Inr (s, T))) = Some (Inr (s', T'')) \<and> Q s' T''"
proof -
  obtain t tms where R: "log_ok ser vg (t_log T)" "t_pass T = of_nat (passed cs)" "t_fail T = of_nat (failed cs)" "length tms = length cs"
      "log_text (log_consoles (t_log T)) = log_text (log_consoles (t_log T0)) @ log_prefix DEBUG t @ ''Testing: '' @ title @ [CHR 0x0A]
        @ concat (map2 check_text tms cs)"
    using r by (auto simp: reports_def)
  have total: "passed cs + failed cs = length cs" by (simp add: sum_length_filter_compl comp_def)
  have u: "unat (ucast (of_nat j :: u8) :: u64) = j" if "j < 100" for j
    using that by (simp add: unat_ucast_widen unat_of_nat take_bit_nat_eq_self)
  have d: "ui2a (ucast v) 10 False False = Some (count_text j)" if "unat v = j" "j < 100" for v :: u64 and j
  proof -
    have "unat (ucast v :: u32) = j" using that by (simp add: unsigned_ucast_eq take_bit_nat_eq_self)
    then show ?thesis using that(2) by (simp add: ui2a_def unsigned2a_digits count_text_def decimal_def unat_of_nat take_bit_nat_eq_self)
  qed
  let ?p = "ucast (t_pass T) :: u64" and ?f = "ucast (t_fail T) :: u64"
  have up: "unat ?p = passed cs" "unat ?f = failed cs" using u total n R(2,3) by simp_all
  then have us: "unat (?p + ?f) = length cs" using total n by (simp add: unat_add_no_overflow)
  let ?text = "''Test results: '' @ count_text (passed cs) @ '' passed, '' @ count_text (failed cs) @ '' failed, '' @ count_text (length cs) @ '' total'' @ [CHR 0x0A]"
  have p: "printf_format junk (''Test results: %u passed, %u failed, %u total'' @ [CHR 0x0A]) [Num ?p, Num ?f, Num (?p + ?f)] = Some (Inr ?text)"
    using d [OF up(1)] d [OF up(2)] d [OF us] total n by (simp add: format_eval)
  have l: "length ?text < 1024" "CHR 0x1B \<notin> set ?text" using decimal_length [of "of_nat (passed cs)"] decimal_length [of "of_nat (failed cs)"]
      decimal_length [of "of_nat (length cs)"] decimal_no_escape by (simp_all add: count_text_def)
  obtain k t' where k: "test_finish junk T = Some (Inr (T\<lparr>t_log := k\<rparr>))" "log_ok ser vg k"
      "log_text (log_consoles k) = log_text (log_consoles (t_log T)) @ log_prefix DEBUG t' @ ?text"
    using test_printk_debug [OF R(1) w p l] by (auto simp: test_finish_def)
  have "test_report ser vg title cs T0 (T\<lparr>t_log := k\<rparr>)"
    unfolding test_report_def by (intro conjI exI [of _ t] exI [of _ tms] exI [of _ t']) (use k R in simp_all)
  then show ?thesis using Q k(1) by simp
qed

lemmas test_eval = bind_ro_simps bind_res_simps case_prod_conv Let_def simp_thms

section \<open>The physical memory manager\<close>

definition physical_checks :: "(string \<times> bool) list" where
  "physical_checks = [(''Physical memory is allocated'', True), (''Physical memory returned is same as before'', True),
     (''Physical memory is DMA-capable with PHYS_DMA'', True), (''Physical memory is normal without PHYS_DMA'', True),
     (''Large physical allocations return NULL'', True)]"


text \<open>Two zones with one free page each.\<close>

definition demo_pages :: "addr_t \<Rightarrow> buddy" where
  "demo_pages a = \<lparr>buddy_base = 0, buddy_size = 0x2000000, min_order = 12, max_order = 12,
     orders = (replicate 64 demo_order)[12 := \<lparr>order_free = \<lparr>stack_size = 1, stack_top = a\<rparr>, order_bitset = replicate 1024 BITSET_FULL\<rparr>]\<rparr>"

definition demo_physical :: physical where
  "demo_physical = \<lparr>phys_dma_region = \<lparr>region_base = 0, region_size = DMA_MAX, region_buddy = Some (demo_pages 0x5000)\<rparr>,
     phys_normal_region = \<lparr>region_base = DMA_MAX, region_size = 0x1000000, region_buddy = Some (demo_pages 0x1003000)\<rparr>\<rparr>"

lemma demo_pages_ok:
  assumes "2 ^ 12 dvd unat a" and "unat a + 2 ^ 12 \<le> 2 ^ 25" and "page_of a = a"
  shows "buddy_inv demo_mem (demo_pages a) ((\<lambda>_. [])(12 := [a])) {}" and "page_ready (demo_pages a) ((\<lambda>_. [])(12 := [a]))"
    and "covered 12 12 ((\<lambda>_. [])(12 := [a])) {} = {unat a ..< unat a + 2 ^ 12}"
proof -
  have fs: "free_set 12 12 ((\<lambda>_. [])(12 := [a])) = {(12, a)}" by (auto simp: free_set_def)
  have le: "12 \<le> k \<and> k \<le> 12 \<longleftrightarrow> k = 12" for k :: nat by auto
  show "buddy_inv demo_mem (demo_pages a) ((\<lambda>_. [])(12 := [a])) {}"
    using assms by (simp add: buddy_inv_def orders_inv_def demo_pages_def demo_order_def fs le block_ok_def stack_repr_def demo_mem_def)
  have m: "BITSET_FULL = mask 8" by (simp add: BITSET_FULL_def mask_eq_exp_minus_1)
  have "bit BITSET_FULL (i mod 8)" for i :: nat unfolding m by (simp add: bit_mask_iff)
  then have "bitset_abs (replicate 1024 BITSET_FULL) = {..< 8192}"
    by (auto simp: bitset_abs_def less_mult_imp_div_less)
  then show "page_ready (demo_pages a) ((\<lambda>_. [])(12 := [a]))"
    by (auto simp: page_ready_def demo_pages_def intro!: exI [of _ 12])
  show "covered 12 12 ((\<lambda>_. [])(12 := [a])) {} = {unat a ..< unat a + 2 ^ 12}" by (simp add: covered_def fs extent_def)
qed

lemma demo_physical_ready:
  "physical_ready DMA_MAX {} {} (demo_mem, demo_physical) ((\<lambda>_. [])(12 := [0x5000])) ((\<lambda>_. [])(12 := [0x1003000]))"
proof -
  have "page_of 0x5000 = 0x5000" "page_of 0x1003000 = 0x1003000" by (rule page_of_aligned [of 12], simp, simp)+
  then show ?thesis
    using demo_pages_ok [of "0x5000"] demo_pages_ok [of "0x1003000"]
    by (simp add: physical_ready_def physical_inv_def zone_def region_ready_def demo_physical_def DMA_MAX_def demo_pages_def) auto
qed

definition demo_test :: test_state where
  "demo_test = \<lparr>t_pass = 0, t_fail = 0, t_log = demo_log\<rparr>"

lemma demo_test_ok: "log_ok 16 32 (t_log demo_test)" "width_ends []"
  using demo_clock_inv by (simp_all add: demo_test_def log_ok_def con_inv_def time_ok_def demo_log_def demo_time_def dll_def vga_ok_def width_ends_def)


section \<open>The hash map\<close>

definition hashmap_checks :: "(string \<times> bool) list" where
  "hashmap_checks = [(''Hashmap allocates'', True), (''Hashmap sets data'', True), (''Hashmap retrieves data'', True),
     (''Hashmap data is same as original'', True), (''Hashmap has different index for new value'', True)]"

lemma test_keys: "hashmap_hash (chars ''test'') 0x100 = Inr 208" "hashmap_hash (chars ''blah'') 0x100 = Inr 95"
  by code_simp+

text \<open>The self test of the hash map passes whenever its allocations succeed. It takes the index of the bucket for a
  sign of success: that both keys have a bucket other than the first, and different ones, is a fact about the hash function.\<close>

theorem test_hashmap_passes:
  assumes "log_ok ser vg (t_log T)" and w: "width_ends junk"
  shows "\<exists>h T'. test_hashmap junk (\<lambda>_. True) T = Some (Inr (h, T')) \<and> test_report ser vg ''Hashmap library'' hashmap_checks T T'"
proof -
  let ?h0 = "\<lparr>hashmap_size = 0x100, hashmap_buckets = replicate 256 []\<rparr> :: hashmap"
  let ?h1 = "?h0\<lparr>hashmap_buckets := (replicate 256 [])[208 := [\<lparr>bucket_key = chars ''test'', bucket_value = 0xDEADBEEF\<rparr>]]\<rparr>"
  let ?h2 = "?h1\<lparr>hashmap_buckets := (hashmap_buckets ?h1)[95 := [\<lparr>bucket_key = chars ''blah'', bucket_value = 0xDEADBEEF\<rparr>]]\<rparr>"
  have km: "key_matches k k = Inr True" for k by (induction k) auto
  have 1: "hashmap_create (\<lambda>_. True) 0x100 = Inr ?h0" by (simp add: hashmap_create_def)
  have 2: "hashmap_set (\<lambda>_. True) ?h0 (chars ''test'') 0xDEADBEEF = Inr (208, ?h1)" by (simp add: hashmap_set_def test_keys)
  have 3: "hashmap_get ?h1 (chars ''test'') = Inr 0xDEADBEEF" by (simp add: hashmap_get_def test_keys km)
  have 4: "hashmap_set (\<lambda>_. True) ?h1 (chars ''blah'') 0xDEADBEEF = Inr (95, ?h2)" by (simp add: hashmap_set_def test_keys)
  have n: "(208 :: size_t) \<noteq> 0" "(0xDEADBEEF :: addr_t) \<noteq> NULL" "(95 :: size_t) \<noteq> 208" by simp_all
  note F = 1 2 3 4 n test_eval
  show ?thesis
    unfolding test_hashmap_def
    by (rule test_start_step [OF assms], simp add: short_text_def, simp only: F,
      (rule ASSERT_step [OF _ w _ refl], assumption, simp add: short_text_def, simp only: F)+,
      rule test_finish_step [OF _ w], assumption, simp) (simp add: hashmap_checks_def)
qed

section \<open>Files\<close>

text \<open>Opening a path that resolves to an empty file, and one that does not resolve.\<close>

lemma file_open_empty:
  assumes "path_resolve s path flags mode = Inr (p, Some d, s1)" and "p \<noteq> NULL" and "p < - 4095" and "empty_file s1 p" and "fs_allocs s1 = a # as" and "a \<noteq> NULL"
  shows "file_open s path flags mode = Inr (Some \<lparr>f_inode = p, f_dentry = d, f_off = 0, f_ops = Some Initfs_file_operations\<rparr>, s1\<lparr>fs_allocs := as\<rparr>)"
  using assms by (simp add: file_open_def file_allocate_def fs_kmalloc_def deref_def empty_file_def)

lemma file_open_missing:
  assumes "path_resolve s path flags mode = Inr (NULL, None, s1)"
  shows "file_open s path flags mode = Inr (None, s1)"
  using assms by (simp add: file_open_def)

lemma empty_file_holds:
  assumes "empty_file s p" and "p \<noteq> NULL" and "p < - 4095"
  shows "holds_file s \<lparr>f_inode = p, f_dentry = d, f_off = 0, f_ops = Some Initfs_file_operations\<rparr> []"
  using assms by (auto simp: empty_file_def holds_file_def deref_def)

text \<open>Writing to a file leaves the directories alone.\<close>

lemma initfs_write_directory:
  assumes "initfs_write s f bs n off = Inr (r, s')" and "directory s dir es" and "f_inode f \<noteq> dir"
    and "i_ino (inode_at s (f_inode f)) \<noteq> i_ino (inode_at s dir)"
  shows "directory s' dir es" and "proc_root s' = proc_root s"
proof -
  have "s' = s \<or> (\<exists>q u g as. s' = upd_inode (upd_data (s\<lparr>fs_allocs := as\<rparr>) q (\<lambda>d. set_slot d (i_ino (inode_at s (f_inode f))) u)) (f_inode f) (\<lambda>i. i\<lparr>i_size := g\<rparr>))"
  proof -
    obtain nd where nd: "deref (inode_at s) (f_inode f) = Inr (inode_at s (f_inode f))" "initfs_node s (inode_at s (f_inode f)) = Inr nd"
      using assms(1) by (auto simp: initfs_write_def bind_res_Inr_iff deref_def split: if_splits)
    show ?thesis
    proof (cases nd)
      case None
      then show ?thesis using assms(1) nd by (simp add: initfs_write_def)
    next
      case (Some qu)
      obtain q u where qu: "qu = (q, u)" by fastforce
      obtain a as where "fs_kmalloc s = (a, s\<lparr>fs_allocs := as\<rparr>)" 
        by (cases "fs_allocs s") (auto simp: fs_kmalloc_def dest: meta_spec [of _ "fs_allocs s"])
      then show ?thesis using assms(1) nd Some unfolding qu initfs_write_def
        by (auto simp: bind_res_Inr_iff upd_inode_def upd_data_def Let_def split: if_splits)
    qed
  qed
  then consider "s' = s" | q u g as where "s' = upd_inode (upd_data (s\<lparr>fs_allocs := as\<rparr>) q (\<lambda>d. set_slot d (i_ino (inode_at s (f_inode f))) u)) (f_inode f) (\<lambda>i. i\<lparr>i_size := g\<rparr>)"
    by blast
  note cs = this
  from cs show "directory s' dir es"
  proof cases
    case 2
    have ne: "unat (i_ino (inode_at s (f_inode f))) \<noteq> unat (i_ino (inode_at s dir))" using assms(4) by (simp add: word_unat_eq_iff)
    show ?thesis using assms(2,3) ne unfolding 2 directory_def
      by (auto simp: deref_def upd_inode_def upd_data_def set_slot_def split: if_splits)
  qed (use assms(2) in simp)
  from cs show "proc_root s' = proc_root s" by cases (simp_all add: upd_inode_def upd_data_def)
qed

text \<open>A file just created at the root: in the directory, in the inode cache, and empty.\<close>

definition created :: "fs \<Rightarrow> string \<Rightarrow> addr_t \<Rightarrow> initfs_dirent list \<Rightarrow> bool" where
  "created s name p es \<longleftrightarrow> directory s (proc_root s) (\<lparr>dir_name = name, dir_ino = i_ino (inode_at s p)\<rparr> # es) \<and> i_mp (inode_at s p) = []
     \<and> inode_check_cache s (i_sb (inode_at s (proc_root s))) (i_ino (inode_at s p)) = Inr p \<and> empty_file s p
     \<and> i_ino (inode_at s p) \<noteq> i_ino (inode_at s (proc_root s))"

abbreviation opened :: "addr_t \<Rightarrow> dentry \<Rightarrow> fs_file" where
  "opened p d \<equiv> \<lparr>f_inode = p, f_dentry = d, f_off = 0, f_ops = Some Initfs_file_operations\<rparr>"

lemma empty_file_allocs [simp]: "empty_file (s\<lparr>fs_allocs := as\<rparr>) p = empty_file s p"
  by (simp add: empty_file_def initfs_node_def cong: if_cong)

lemma created_allocs [simp]: "created (s\<lparr>fs_allocs := as\<rparr>) name p es = created s name p es"
  by (simp add: created_def directory_def inode_check_cache_def)

lemma file_open_create:
  assumes "directory s (proc_root s) es" and "create_room s (proc_root s)" and nm: "plain_name name"
    and new: "find (\<lambda>e. dir_name e = name) es = None" and wf: "hashmap_wf 16 (inode_cache s)"
    and al: "fs_allocs s = b1 # b2 # a1 # a2 # a3 # f # as" "NULL \<notin> set [b1, b2, a1, a2, a3, f]" and a2: "a2 < - 4095" "a2 \<noteq> proc_root s"
  shows "\<exists>d s'. file_open s (CHR ''/'' # name) O_CREAT mode = Inr (Some (opened a2 d), s') \<and> created s' name a2 es
    \<and> fs_allocs s' = as \<and> proc_root s' = proc_root s"
proof -
  have rz: "proc_root s \<noteq> NULL" using assms(1) by (auto simp: directory_def deref_def)
  obtain d s' where C: "path_resolve_create s (proc_root s) name mode = Inr (a2, Some d, s')" "created s' name a2 es"
      "fs_allocs s' = f # as" "proc_root s' = proc_root s" "empty_file s' a2"
    using path_create_in_root [OF assms(1,2) nm rz new wf al(1), of mode] al(2) a2 by (auto simp: created_def)
  have "path_resolve s (CHR ''/'' # name) O_CREAT mode = Inr (a2, Some d, s')"
    using C(1) nm by (simp add: path_resolve_def O_CREAT_def plain_name_def)
  then have "file_open s (CHR ''/'' # name) O_CREAT mode = Inr (Some (opened a2 d), s'\<lparr>fs_allocs := as\<rparr>)"
    by (rule file_open_empty [OF _ _ _ C(5,3)]) (use al(2) a2 in auto)
  then show ?thesis using C(2,4) by auto
qed

lemma file_open_created:
  assumes c: "created s name p es" and nm: "plain_name name" and p: "p \<noteq> NULL" "p < - 4095"
    and al: "fs_allocs s = l # f # as" "l \<noteq> NULL" "f \<noteq> NULL"
  shows "\<exists>d. file_open s (CHR ''/'' # name) 0 mode = Inr (Some (opened p d), s\<lparr>fs_allocs := as\<rparr>)"
proof -
  let ?e = "\<lparr>dir_name = name, dir_ino = i_ino (inode_at s p)\<rparr>"
  obtain d where "path_resolve s (CHR ''/'' # name) 0 mode = Inr (p, Some d, s\<lparr>fs_allocs := f # as\<rparr>)"
    using path_resolve_in_root [of s "?e # es" name ?e p l "f # as" mode] c nm p al by (simp add: created_def)
  from file_open_empty [OF this p] show ?thesis using c al(3) by (simp add: created_def)
qed

definition file_checks :: "(string \<times> bool) list" where
  "file_checks = [(''Opening non-existent file fails'', True), (''Opening with O_CREAT creates file'', True),
     (''Opening file again without O_CREAT succeeds'', True), (''Writing to file succeeds'', True), (''Reading from file succeeds'', True),
     (''Data read matches written'', True), (''/dev/sda exists'', False), (''Reading from /dev/sda works'', True)]"



section \<open>The heap\<close>

text \<open>A heap that is up and holds nothing: no page group.\<close>

definition heap_empty :: "heap \<Rightarrow> bool" where
  "heap_empty h \<longleftrightarrow> heap_status h = HEAP_INITIALIZED \<and> l_memRoot h = NULL \<and> l_bestBet h = NULL \<and> heap_end h AND 15 = 0
     \<and> (\<exists>fl1 H1 fl2 H2. physical_inv (heap_kmem h) (heap_phys h) fl1 H1 fl2 H2)"

lemma heap_empty_round:
  assumes e: "heap_empty h" and nz: "heap_end h \<noteq> 0" "heap_end h + 0x60 \<noteq> 0"
  shows "\<exists>h1. kmalloc h 0x1000 = Some (Inr (heap_end h + 0x60, h1)) \<and> heap_empty (kfree h1 (heap_end h + 0x60))
    \<and> heap_end (kfree h1 (heap_end h + 0x60)) = heap_end h + 0x10000"
proof -
  obtain a m P fl1 H1 fl2 H2 where A: "physical_alloc (heap_kmem h) (heap_phys h) 0x10000 0 = Inr (a, m, P)" "physical_inv m P fl1 H1 fl2 H2"
    using physical_alloc_keeps e by (metis heap_empty_def)
  let ?E = "heap_end h"
  have m: "15 = (mask 4 :: u64)" by (simp add: mask_eq_exp_minus_1)
  have E: "take_bit 4 ?E = 0" using e unfolding heap_empty_def m take_bit_eq_mask by blast
  have T: "take_bit 4 (?E + c) = take_bit 4 c" for c
  proof -
    have "unat ?E mod 16 = 0" using arg_cong [OF E, of unat] by (simp add: unat_take_bit_mod)
    then obtain k where "unat ?E = 16 * k" by (metis mod_0_imp_dvd dvdE)
    then have "unat (take_bit 4 (?E + c)) = unat (take_bit 4 c)"
      by (simp add: unat_take_bit_mod unat_word_ariths mod_mod_cancel)
    then show ?thesis by (simp add: word_unat_eq_iff)
  qed
  have al: "0x60 + ?E AND 15 = 0" "?E + 0x10000 AND 15 = 0"
    unfolding add.commute [of "0x60"] m take_bit_eq_mask [symmetric] T by simp_all
  note C = HEAP_INITIALIZED_def HEAP_UNINITIALIZED_def HEAP_EARLY_def ALIGNMENT_def ALIGN_INFO_def l_pageSize_def l_pageCount_def
    sizeof_major_def sizeof_minor_def PAGE_SIZE_def Let_def
  define h1 where "h1 = h\<lparr>heap_kmem := m, heap_phys := P, map_calls := map_calls h @ [(?E, a, 0x10000)], heap_end := ?E + 0x10000,
    l_allocated := l_allocated h + 0x10000, l_memRoot := ?E, l_bestBet := ?E,
    min_at := (min_at h)(?E + 40 := min_at h (?E + 40)\<lparr>min_magic := LIBALLOC_MAGIC, min_prev := NULL, min_next := NULL, min_block := ?E,
      min_size := 4128, min_req_size := 4096\<rparr>),
    maj_at := (maj_at h)(?E := \<lparr>maj_prev = NULL, maj_next = NULL, maj_pages = 16, maj_size = 0x10000, maj_usage = 4208, maj_first = ?E + 40\<rparr>),
    l_inuse := l_inuse h + 4128, heap_bytes := (heap_bytes h)(80 + ?E := 16)\<rparr>"
  have "kmalloc h 0x1000 = Some (Inr (?E + 0x60, h1))" using e nz A(1) al(1)
    by (simp add: heap_empty_def C kmalloc_def malloc_def malloc_sized_def allocate_new_page_def map_heap_def malloc_majors.simps malloc_case2_def
        account_def ALIGN_def h1_def)
  moreover have "heap_empty (kfree h1 (?E + 0x60)) \<and> heap_end (kfree h1 (?E + 0x60)) = ?E + 0x10000" using e nz A(2) al(2)
    by (simp add: heap_empty_def C kfree_def free_def UNALIGN_def free_minor_def free_major_def free_heap_def h1_def) blast
  ultimately show ?thesis by blast
qed

definition heap_checks :: "(string \<times> bool) list" where
  "heap_checks = [(''Memory is allocated'', True), (''Same-sized memory returned is same as before'', False)]"

text \<open>The self test of the heap fails on a heap that holds nothing. The only block of a page group gives the group back when it is freed,
  and the next request maps a new group at addresses never used before: the second check of the test reports a failure, each
  run uses up 32 pages of the heap's addresses, and the heap holds nothing again.\<close>

theorem test_heap_empty_fails:
  assumes e: "heap_empty h" and h: "0 < heap_end h" "heap_end h < - 0x20000" and log: "log_ok ser vg (t_log T)" and w: "width_ends junk"
  shows "\<exists>h' T'. test_heap junk h T = Some (Inr (h', T')) \<and> (heap_empty h' \<and> heap_end h' = heap_end h + 0x20000)
    \<and> test_report ser vg ''Heap memory manager'' heap_checks T T'"
proof -
  let ?E = "heap_end h"
  have ok: "?E + c \<noteq> 0" if "unat c < 0x20000" for c
  proof
    have "unat (- 0x20000 :: u64) = 2 ^ 64 - 0x20000" by simp
    then have "0 < unat ?E" "unat ?E < 2 ^ 64 - 0x20000" using h by (simp_all add: word_less_nat_alt)
    moreover assume "?E + c = 0"
    then have "(unat ?E + unat c) mod 2 ^ 64 = 0" by (simp add: word_eq_zero_iff_unat unat_word_ariths)
    ultimately show False using that by simp
  qed
  obtain h1 where 1: "kmalloc h 0x1000 = Some (Inr (?E + 0x60, h1))" "heap_empty (kfree h1 (?E + 0x60))" "heap_end (kfree h1 (?E + 0x60)) = ?E + 0x10000"
    using heap_empty_round [OF e] ok [of 0] ok [of "0x60"] by auto
  let ?h = "kfree h1 (?E + 0x60)"
  have c: "heap_end ?h + 0x60 = ?E + 0x10060" "heap_end ?h + 0x10000 = ?E + 0x20000" "heap_end ?h \<noteq> 0" "?E + 0x10060 \<noteq> 0"
    using 1(3) ok [of "0x10000"] ok [of "0x10060"] by simp_all
  obtain h2 where 2: "kmalloc ?h 0x1000 = Some (Inr (?E + 0x10060, h2))" "heap_empty (kfree h2 (?E + 0x10060))" "heap_end (kfree h2 (?E + 0x10060)) = ?E + 0x20000"
    using heap_empty_round [OF 1(2) c(3), unfolded c(1,2), OF c(4)] by blast
  have ne: "?E + 0x60 \<noteq> NULL" "(?E + 0x60 = ?E + 0x10060) = False" using ok [of "0x60"] by simp_all
  note F = 1(1) 2(1) ne test_eval
  show ?thesis
    unfolding test_heap_def
    by (rule test_start_step [OF log w], simp add: short_text_def, simp only: F,
      (rule ASSERT_step [OF _ w _ refl], assumption, simp add: short_text_def, simp only: F)+,
      rule test_finish_step [OF _ w], assumption, simp) (use 2(2,3) in \<open>simp add: heap_checks_def\<close>)
qed

end
