(* ===== verification/Spec2Isabelle.thy ===== *)
theory Spec2Isabelle
  imports Heap_Correct Vfs Boot Fault Pci Ahci Dma Selftest
begin

text \<open>
  A verification development of Mint, a small kernel for x86_64 written in C. The sources are under \<open>src/\<close>; the paths
  below are relative to it.

  \<^bold>\<open>The program.\<close> The boot loader enters \<open>x86_64_init\<close> (\<open>arch/x86_64/boot\<close>), which repairs the memory map, gives the early heap
  the largest free block, registers the kernel's symbols and calls \<open>kmain\<close> (\<open>kernel/kmain.c\<close>). That starts the memory
  managers (\<open>mm\<close>: physical pages from two buddy allocators, page tables through the recursive entry, the
  heap of liballoc), time, the scheduler (\<open>tm\<close>), the file system (\<open>fs\<close>), the PCI bus and the drivers, the last ones through the
  sections of initialisation functions. Interrupts enter through the stubs of the IDT and reach the rings of handlers
  (\<open>cpu\<close>, \<open>drivers/irqchip\<close>); the timer advances the kernel's time and calls the scheduler; the log (\<open>kernel/printk.c\<close>) reads
  the time, formats and writes to the consoles. The library (\<open>lib\<close>, \<open>include/lib\<close>) has the list, the bitset, the page
  stack, the buddy allocator, the hash map, strings and printf that the rest is built on.

  \<^bold>\<open>The theories.\<close> Each theory models the files named and proves their properties; definitions carry the names of the C
  functions, structures are records, and a helper of a function (a loop, one turn of it) stands before the function.

  \<^item> \<open>Prelude\<close>: C's integer types as words, the faults, the result types \<open>res\<close> and \<open>res option\<close> with their sequencing, lemmas on words.
  \<^item> \<open>MathLib\<close> (\<open>include/lib/math.h\<close>), \<open>Bitset\<close> (\<open>include/lib/bitset.h\<close>), \<open>KStack\<close> (\<open>lib/stack.c\<close>), \<open>Buddy\<close> (\<open>lib/buddy.c\<close>),
    \<open>Physical\<close> (\<open>mm/physical.c\<close>): from bits to pages. \<open>log_2\<close> is the least exponent; an allocation is a fresh aligned block that was
    free, or NULL with the state unchanged; freeing an aligned region makes exactly its blocks free; a page that is given back is
    the next to be handed out.
  \<^item> \<open>KList\<close> (\<open>include/lib/list.h\<close>), \<open>CString\<close> (\<open>lib/string.c\<close>), \<open>Murmur\<close> (\<open>lib/murmur.c\<close>), \<open>Hashmap\<close> (\<open>lib/hashmap.c\<close>), \<open>Printf\<close>
    (\<open>lib/printf.c\<close>): the list refines a sequence, the hash map a dictionary, the number conversions print the digits.
  \<^item> \<open>Sched\<close> (\<open>tm/*.c\<close>, \<open>arch/x86_64/tm/thread.c\<close>): the run queue is fair, the context switch restores what it saves.
  \<^item> \<open>Heap\<close>, \<open>Heap_Invariant\<close>, \<open>Heap_Correct\<close> (\<open>mm/heap.c\<close>): the structures of liballoc at their addresses, the invariant, and that
    \<open>malloc\<close> ends with a fresh block, \<open>free\<close> gives back exactly one, and a double \<open>free\<close> is detected.
  \<^item> \<open>Paging\<close> (\<open>arch/x86_64/mm/map.c\<close>, \<open>unmap.c\<close>, \<open>clone.c\<close>, \<open>mm/virtual.c\<close>): the edits of the page tables, each through the translation
    the tables give at that moment, against the walk of the processor: mapping a page changes one translation, and a range is mapped
    page by page with the missing tables taken from the physical memory manager.
  \<^item> \<open>Vfs\<close> (\<open>fs\<close>, \<open>block\<close>): inodes, dentries, paths, mounts, files and the initfs; a file reads back what was written.
  \<^item> \<open>Interrupt\<close> (\<open>cpu\<close>, \<open>arch/x86_64/cpu/interrupt.c\<close>, \<open>idt.c\<close>, \<open>gdt.c\<close>, \<open>drivers/irqchip\<close>): rings of handlers, dispatch in the order of
    registration, nesting of disable and enable, the interrupt controller, the contents of the tables.
  \<^item> \<open>Time\<close> (\<open>kernel/lock\<close>, \<open>kernel/time/time.c\<close>, \<open>drivers/clock/jiffy.c\<close>), \<open>Console\<close> (\<open>kernel/console.c\<close>, \<open>printk.c\<close>,
    \<open>arch/x86_64/kernel/early_console.c\<close>), \<open>Clock\<close> (\<open>kernel/time\<close>, \<open>drivers/clock\<close>): mutual exclusion of the spinlock as an inductive step
    relation, exact time, the best clock in use, lines on the log.
  \<^item> \<open>Debug\<close> (\<open>kernel/symbol.c\<close>, \<open>stacktrace.c\<close>, \<open>panic.c\<close>, \<open>init.c\<close>, \<open>kmain.c\<close>), \<open>Fault\<close> (\<open>arch/x86_64/mm/fault.c\<close>): the nearest symbol, what a
    panic and a page fault print, the order of the boot.
  \<^item> \<open>MemInit\<close> (\<open>mm/valloc.c\<close>, \<open>dma.c\<close>, \<open>mm.c\<close>, \<open>arch/x86_64/mm/init.c\<close>), \<open>Cpu\<close> (\<open>arch/x86_64/cpu/cpu.c\<close>), \<open>Boot\<close>
    (\<open>arch/x86_64/boot/x86-64_init.c\<close>): from the boot loader's map to the managers; the kernel boots, with its early heap
    outside its own pages.
  \<^item> \<open>Dma\<close> (\<open>mm/dma.c\<close>): the allocation for devices, composed of the physical memory manager, the address ranges and the page tables; the block is
    fresh, mapped and zero.
  \<^item> \<open>Pci\<close> (\<open>drivers/pci\<close>), \<open>Ahci\<close> (\<open>drivers/ata/ahci\<close>): the scan finds every function that answers, drivers get the device they ask
    for, a disk command describes the buffer and the blocks.
  \<^item> \<open>Watermark\<close>: the contract of an allocator that only moves a mark upwards, shared by the early heap (\<open>Heap\<close>) and the address ranges
    (\<open>MemInit\<close>): what successive reservations return is disjoint.
  \<^item> \<open>Selftest\<close> (\<open>tests\<close>): the kernel's own tests, as programs over the theories above; from which states their checks pass, and
    what they report.

  \<^bold>\<open>State and effects.\<close> A function that changes the kernel's state takes it as a record and returns it changed. Structures that are
  linked live at their addresses in typed stores (functions from addresses); the links of intrusive lists are the store
  \<open>list_heap\<close>. Operations that can go wrong return \<open>res\<close>, with the fault on the left: a null dereference, an access outside an
  object, a read of memory that was never written, a division by zero, a panic, a page fault. Loops that need not end are
  \<open>partial_function (option)\<close>, whose value None is the loop that runs for ever; their properties state that they return. Integers keep
  their width. Output to ports and device registers is a history, and what a device delivers (port reads, \<open>cpuid\<close>, \<open>rdtsc\<close>, the
  answers of a disk) is a parameter, a function of that history or a sequence, with its documented behaviour as a named hypothesis
  where one is needed (\<open>config_space\<close>). What \<open>kmalloc\<close> returns is an argument where the heap is not the subject; \<open>Boot\<close> composes
  the start-up code with the early heap itself.

  \<^bold>\<open>Interfaces.\<close> What one component relies on in another is a locale, interpreted on the model's definitions: \<open>flag_store\<close> (the bitset, for the
  buddy allocator), \<open>lifo\<close> (the page stack), \<open>sequence\<close> (the list, for the scheduler, the consoles, the clocks, the
  symbols and the devices), \<open>dictionary\<close> (the hash map, for the inode cache and the processes), \<open>allocator\<close> (the heap), \<open>watermark\<close>
  (the early heap, for the start-up code, and the address ranges, for the memory of devices).

  \<^bold>\<open>Bounds.\<close> The wait for a disk's identification has the bound of the source, 999999 turns, as has the loop over the entries of a command table,
  65536; the scan of the bus visits the 65536 functions there are. No other bound is chosen.

  \<^bold>\<open>Deviations shown.\<close> Where the code does not do what it means to, a lemma or theorem states what it does; among them are the
  buddies freed one after the other that stay on two stacks, the unmapping that repeats one page, the read of the
  initfs that copies too much, the removal of the first of several interrupt handlers, the missing check for wrap-around in the time
  and in the address ranges, the processor's family that is always zero, the disk read that returns zero, the repair of the
  memory map that leaves partial overlaps, and the self tests that fail on an empty heap or pass without a disk.

  \<^bold>\<open>Not modelled.\<close> Calls of \<open>printk\<close> outside \<open>Console\<close>, \<open>Clock\<close>, \<open>Debug\<close>, \<open>Cpu\<close>, \<open>Fault\<close> and \<open>Selftest\<close>, which only report; the instruction \<open>hlt\<close> (\<open>cpu/power.c\<close>), at
  which \<open>panic\<close> and the idle loops end; the assembly files; the TLB; the generated table of names in \<open>pci_list.h\<close>, which is an
  argument; the parts of \<open>multiboot.h\<close>, \<open>elf.h\<close>, \<open>errno.h\<close> and \<open>ahci.h\<close> no code uses.
  Other processors exist in the model of the spinlock only, as in the sources, which start one.
\<close>

end
